(* ===== verification/Prelude.thy ===== *)
theory Prelude
  imports Main "HOL-Library.AList" "HOL-Library.Char_ord" "HOL-Library.List_Lexorder"
begin

text \<open>
  What the components share: the JavaScript values the source computes with (texts,
  numbers, insertion-ordered maps, sets built from arrays), with the facts about them that
  carry the component proofs.

  A text is a sequence of code units; the model has the code units 0 to 255 (\<open>char\<close>).
  A number is seen the way \<open>Number.isSafeInteger\<close> sees it: an integral value, or
  anything else (a fraction, NaN, an infinity). A \<open>Map\<close> keeps its insertion order and
  is an association list updated in place; an exception is the left value of a sum.
\<close>

section \<open>Collections of facts\<close>

named_theorems guard_defs \<open>definitions of input guards, unfolded together\<close>
named_theorems omap_simps \<open>laws of insertion-ordered maps\<close>

section \<open>Texts\<close>

type_synonym thrown = string

text \<open>The white space \<open>trim\<close> removes, among the code units 0 to 255.\<close>

definition js_space :: "char \<Rightarrow> bool" where
  "js_space c = (of_char c \<in> {9, 10, 11, 12, 13, 32, 160 :: nat})"

definition trim :: "string \<Rightarrow> string" where
  "trim s = rev (dropWhile js_space (rev (dropWhile js_space s)))"

text \<open>\<open>validText\<close>: not empty and equal to its own trim.\<close>

definition validText :: "string \<Rightarrow> bool" where
  "validText s = (s \<noteq> [] \<and> trim s = s)"

text \<open>The laxer guard: not empty after trimming.\<close>

definition nonBlank :: "string \<Rightarrow> bool" where
  "nonBlank s = (trim s \<noteq> [])"

lemma trim_Nil [simp]: "trim [] = []"
  by (simp add: trim_def)

lemma validText_nonBlank: "validText s \<Longrightarrow> nonBlank s"
  by (auto simp: validText_def nonBlank_def)

lemma nonBlank_not_Nil: "nonBlank s \<Longrightarrow> s \<noteq> []"
  by (auto simp: nonBlank_def)

section \<open>Numbers\<close>

datatype jsnum = Integral int | NonInteger

definition MAX_SAFE_INTEGER :: int where
  "MAX_SAFE_INTEGER = 9007199254740991"

fun isSafeInteger :: "jsnum \<Rightarrow> bool" where
  "isSafeInteger (Integral i) = (\<bar>i\<bar> \<le> MAX_SAFE_INTEGER)"
| "isSafeInteger NonInteger = False"

text \<open>The integral value behind a number that passed a guard.\<close>

fun int_of :: "jsnum \<Rightarrow> int" where
  "int_of (Integral i) = i"
| "int_of NonInteger = 0"

definition validToken :: "jsnum \<Rightarrow> bool" where
  "validToken n = (isSafeInteger n \<and> int_of n > 0)"

definition validTime :: "jsnum \<Rightarrow> bool" where
  "validTime n = (isSafeInteger n \<and> int_of n \<ge> 0)"

definition validDuration :: "jsnum \<Rightarrow> bool" where
  "validDuration n = (validTime n \<and> int_of n > 0)"

lemma isSafeInteger_Integral: "isSafeInteger n \<Longrightarrow> n = Integral (int_of n)"
  by (cases n) auto

lemma validToken_Integral [simp]: "validToken (Integral i) \<longleftrightarrow> 0 < i \<and> i \<le> MAX_SAFE_INTEGER"
  by (auto simp: validToken_def)

lemma validTime_Integral [simp]: "validTime (Integral i) \<longleftrightarrow> 0 \<le> i \<and> i \<le> MAX_SAFE_INTEGER"
  by (auto simp: validTime_def)

lemma validDuration_Integral [simp]: "validDuration (Integral i) \<longleftrightarrow> 0 < i \<and> i \<le> MAX_SAFE_INTEGER"
  by (auto simp: validDuration_def)

lemma valid_NonInteger [simp]:
  "\<not> validToken NonInteger" "\<not> validTime NonInteger" "\<not> validDuration NonInteger"
  by (auto simp: validToken_def validTime_def validDuration_def)

section \<open>Arrays and sets\<close>

text \<open>\<open>[...new Set(values)]\<close>: the first occurrences, in order.\<close>

fun unique_from :: "'a list \<Rightarrow> 'a list \<Rightarrow> 'a list" where
  "unique_from seen [] = []"
| "unique_from seen (x # xs) =
     (if x \<in> set seen then unique_from seen xs else x # unique_from (x # seen) xs)"

definition unique :: "'a list \<Rightarrow> 'a list" where
  "unique xs = unique_from [] xs"

lemma set_unique_from: "set (unique_from seen xs) = set xs - set seen"
  by (induction xs arbitrary: seen) auto

lemma distinct_unique_from: "distinct (unique_from seen xs)"
  by (induction xs arbitrary: seen) (auto simp: set_unique_from)

lemma set_unique [simp]: "set (unique xs) = set xs"
  by (simp add: unique_def set_unique_from)

lemma distinct_unique [simp]: "distinct (unique xs)"
  by (simp add: unique_def distinct_unique_from)

lemma unique_Nil [simp]: "unique [] = []"
  by (simp add: unique_def)

lemma unique_from_distinct:
  "distinct xs \<Longrightarrow> set xs \<inter> set seen = {} \<Longrightarrow> unique_from seen xs = xs"
  by (induction xs arbitrary: seen) auto

lemma unique_distinct [simp]: "distinct xs \<Longrightarrow> unique xs = xs"
  by (simp add: unique_def unique_from_distinct)

lemma length_unique_iff: "length (unique xs) = length xs \<longleftrightarrow> distinct xs"
proof
  assume "length (unique xs) = length xs"
  then have "card (set xs) = length xs"
    by (metis distinct_card distinct_unique set_unique)
  then show "distinct xs" by (rule card_distinct)
qed simp

text \<open>The default \<open>sort()\<close> of texts orders by code units; so does \<open>sort\<close> here.\<close>

lemma sorted_distinct_set_eq:
  "sorted xs \<Longrightarrow> distinct xs \<Longrightarrow> sorted ys \<Longrightarrow> distinct ys \<Longrightarrow> set xs = set ys \<Longrightarrow> xs = ys"
  by (simp add: sorted_distinct_set_unique)

definition canonicalSort :: "string list \<Rightarrow> string list" where
  "canonicalSort xs = sort (unique xs)"

lemma canonicalSort_props [simp]:
  "set (canonicalSort xs) = set xs" "distinct (canonicalSort xs)" "sorted (canonicalSort xs)"
  by (simp_all add: canonicalSort_def)

lemma canonicalSort_cong: "canonicalSort xs = canonicalSort ys \<longleftrightarrow> set xs = set ys"
  by (metis canonicalSort_props sorted_distinct_set_eq)

section \<open>Insertion-ordered maps\<close>

text \<open>
  A \<open>Map\<close>: \<open>get\<close> is \<open>map_of\<close>, \<open>set\<close> keeps the place of a key that is present and
  appends a new one (\<open>AList.update\<close>), \<open>delete\<close> removes the entry.
\<close>

type_synonym ('k, 'v) omap = "('k \<times> 'v) list"

definition omap_set :: "'k \<Rightarrow> 'v \<Rightarrow> ('k, 'v) omap \<Rightarrow> ('k, 'v) omap" where
  "omap_set k v m = AList.update k v m"

definition omap_delete :: "'k \<Rightarrow> ('k, 'v) omap \<Rightarrow> ('k, 'v) omap" where
  "omap_delete k m = AList.delete k m"

definition omap_keys :: "('k, 'v) omap \<Rightarrow> 'k list" where
  "omap_keys m = map fst m"

definition omap_ok :: "('k, 'v) omap \<Rightarrow> bool" where
  "omap_ok m = distinct (map fst m)"

lemma map_of_omap_set [simp, omap_simps]:
  "map_of (omap_set k v m) = (map_of m)(k \<mapsto> v)"
  by (simp add: omap_set_def update_conv')

lemma map_of_omap_delete [simp, omap_simps]:
  "map_of (omap_delete k m) = (map_of m)(k := None)"
  by (simp add: omap_delete_def delete_conv')

lemma omap_ok_Nil [simp]: "omap_ok []"
  by (simp add: omap_ok_def)

lemma omap_ok_set [simp, intro]: "omap_ok m \<Longrightarrow> omap_ok (omap_set k v m)"
  by (simp add: omap_ok_def omap_set_def distinct_update)

lemma omap_ok_delete [simp, intro]: "omap_ok m \<Longrightarrow> omap_ok (omap_delete k m)"
  by (simp add: omap_ok_def omap_delete_def distinct_delete)

lemma omap_get_iff: "omap_ok m \<Longrightarrow> map_of m k = Some v \<longleftrightarrow> (k, v) \<in> set m"
  by (simp add: omap_ok_def)

lemma length_omap_set:
  "length (omap_set k v m) = (if map_of m k = None then Suc (length m) else length m)"
  by (induction m) (auto simp: omap_set_def split: if_splits)

lemma omap_delete_absent: "map_of m k = None \<Longrightarrow> omap_delete k m = m"
  by (simp add: omap_delete_def delete_id map_of_eq_None_iff)

lemma set_omap_delete: "set (omap_delete k m) = {p \<in> set m. fst p \<noteq> k}"
  by (auto simp: omap_delete_def AList.delete_eq)

lemma set_omap_set_absent:
  "map_of m k = None \<Longrightarrow> omap_set k v m = m @ [(k, v)]"
  by (induction m) (auto simp: omap_set_def split: if_splits)

lemma omap_delete_filter: "omap_delete k m = filter (\<lambda>p. fst p \<noteq> k) m"
  by (induction m) (auto simp: omap_delete_def)

lemma omap_filter_key:
  "omap_ok m \<Longrightarrow> map_of m k = Some v \<Longrightarrow> filter (\<lambda>p. fst p = k) m = [(k, v)]"
proof (induction m)
  case (Cons p m)
  have "filter (\<lambda>q. fst q = k) m = []" if "fst p = k"
    using Cons.prems(1) that by (auto simp: omap_ok_def filter_empty_conv image_iff)
  with Cons show ?case by (cases p) (auto simp: omap_ok_def)
qed simp

lemma length_filter_delete:
  assumes "omap_ok m" and "map_of m k = Some v"
  shows "length (filter P m) = length (filter P (omap_delete k m)) + (if P (k, v) then 1 else 0)"
proof -
  have "length (filter P m) = length (filter (\<lambda>p. fst p \<noteq> k) (filter P m)) + length (filter (\<lambda>p. fst p = k) (filter P m))"
    using sum_length_filter_compl [of "\<lambda>p. fst p \<noteq> k" "filter P m"] by simp
  also have "filter (\<lambda>p. fst p = k) (filter P m) = filter P (filter (\<lambda>p. fst p = k) m)"
    by (simp add: conj_commute)
  finally show ?thesis
    using omap_filter_key [OF assms] by (simp add: omap_delete_filter conj_commute)
qed

lemma length_omap_delete:
  "omap_ok m \<Longrightarrow> length (omap_delete k m) = (if map_of m k = None then length m else length m - 1)"
  using length_filter_delete [of m k _ "\<lambda>p. True"]
  by (cases "map_of m k") (auto simp: omap_delete_absent)

section \<open>Options\<close>

text \<open>\<open>a ?? b\<close>.\<close>

definition nullish :: "'a option \<Rightarrow> 'a \<Rightarrow> 'a" where
  "nullish a d = (case a of None \<Rightarrow> d | Some v \<Rightarrow> v)"

lemma nullish_simps [simp]: "nullish None d = d" "nullish (Some v) d = v"
  by (simp_all add: nullish_def)

section \<open>Exceptions\<close>

text \<open>
  The exceptions the guards throw, and the sequencing of computations that may throw: the
  first left value ends the run, as the first \<open>throw\<close> does.
\<close>

datatype exn =
    NotText string          \<comment> \<open>TypeError: a field is not a non-empty string\<close>
  | NotTextItem string nat  \<comment> \<open>TypeError: an item of an array field is not\<close>
  | NotSorted string        \<comment> \<open>TypeError: an array field is not sorted and duplicate-free\<close>
  | NotTimestamp string     \<comment> \<open>TypeError: a field is not a timestamp\<close>
  | NotInRange string       \<comment> \<open>RangeError\<close>
  | NotSerializable         \<comment> \<open>TypeError: a value JSON cannot carry\<close>
  | Failure string          \<comment> \<open>Error with a message\<close>

fun andThen :: "'e + 'a \<Rightarrow> ('a \<Rightarrow> 'e + 'b) \<Rightarrow> 'e + 'b" where
  "andThen (Inl e) f = Inl e"
| "andThen (Inr x) f = f x"

definition guard :: "bool \<Rightarrow> 'e \<Rightarrow> 'e + unit" where
  "guard b e = (if b then Inr () else Inl e)"

fun traverse :: "('a \<Rightarrow> 'e + 'b) \<Rightarrow> 'a list \<Rightarrow> 'e + 'b list" where
  "traverse f [] = Inr []"
| "traverse f (x # xs) = andThen (f x) (\<lambda>y. andThen (traverse f xs) (\<lambda>ys. Inr (y # ys)))"

lemma andThen_Inr_iff: "andThen r f = Inr y \<longleftrightarrow> (\<exists>x. r = Inr x \<and> f x = Inr y)"
  by (cases r) auto

lemma andThen_Inl_iff: "andThen r f = Inl e \<longleftrightarrow> r = Inl e \<or> (\<exists>x. r = Inr x \<and> f x = Inl e)"
  by (cases r) auto

lemma guard_Inr_iff [simp]: "guard b e = Inr u \<longleftrightarrow> b"
  by (simp add: guard_def)

lemma guard_Inl_iff [simp]: "guard b e = Inl e' \<longleftrightarrow> \<not> b \<and> e' = e"
  by (auto simp: guard_def)

lemma guard_simps [simp]: "guard True e = Inr ()" "guard False e = Inl e"
  by (simp_all add: guard_def)

lemma traverse_Inr_iff: "traverse f xs = Inr ys \<longleftrightarrow> list_all2 (\<lambda>x y. f x = Inr y) xs ys"
proof (induction xs arbitrary: ys)
  case (Cons x xs)
  then show ?case
    by (cases ys) (auto simp: andThen_Inr_iff)
qed auto

lemma traverse_id_Inr:
  assumes "\<And>x. x \<in> set xs \<Longrightarrow> f x = Inr x" shows "traverse f xs = Inr xs"
  using assms by (induction xs) auto

end
