(* ===== verification/Json_Text.thy ===== *)
theory Json_Text
  imports Prelude
begin

text \<open>
  The texts \<open>JSON.stringify\<close> makes of strings, arrays of strings and objects with string
  fields, which the components use as the keys of their maps, with the fact that makes such
  a key an identity: no two different values have the same text.
\<close>

section \<open>Quoting a string\<close>

abbreviation quoteMark :: char where "quoteMark \<equiv> CHR 0x22"
abbreviation backslash :: char where "backslash \<equiv> CHR 0x5C"

definition hexDigit :: "nat \<Rightarrow> char" where
  "hexDigit n = ''0123456789abcdef'' ! n"

definition quoteChar :: "char \<Rightarrow> string" where
  "quoteChar c =
     (let n = (of_char c :: nat) in
      if c = quoteMark \<or> c = backslash then [backslash, c]
      else if n = 8 then [backslash, CHR ''b'']
      else if n = 9 then [backslash, CHR ''t'']
      else if n = 10 then [backslash, CHR ''n'']
      else if n = 12 then [backslash, CHR ''f'']
      else if n = 13 then [backslash, CHR ''r'']
      else if n < 32 then [backslash, CHR ''u'', CHR ''0'', CHR ''0'', hexDigit (n div 16), hexDigit (n mod 16)]
      else [c])"

definition quoteBody :: "string \<Rightarrow> string" where
  "quoteBody s = concat (map quoteChar s)"

definition quote :: "string \<Rightarrow> string" where
  "quote s = quoteMark # quoteBody s @ [quoteMark]"

lemma quoteBody_simps [simp]:
  "quoteBody [] = []" "quoteBody (c # s) = quoteChar c @ quoteBody s"
  by (simp_all add: quoteBody_def)

lemma hexDigit_inject: "m < 16 \<Longrightarrow> n < 16 \<Longrightarrow> hexDigit m = hexDigit n \<Longrightarrow> m = n"
  unfolding hexDigit_def by (rule nth_eq_iff_index_eq [THEN iffD1, rotated 3]) auto

text \<open>The code word of a character determines it, and no code word begins another.\<close>

lemma quoteChar_control_inject:
  assumes "(of_char c :: nat) < 32" and "(of_char d :: nat) < 32"
    and "hexDigit (of_char c div 16) = hexDigit (of_char d div 16)"
    and "hexDigit (of_char c mod 16) = hexDigit (of_char d mod 16)"
  shows "c = d"
proof -
  have "(of_char c :: nat) div 16 = of_char d div 16"
    using assms by (intro hexDigit_inject) auto
  moreover have "(of_char c :: nat) mod 16 = of_char d mod 16"
    using assms by (intro hexDigit_inject) auto
  ultimately have "(of_char c :: nat) = of_char d"
    by (metis div_mult_mod_eq)
  then show ?thesis by simp
qed

lemma quoteChar_prefix_free:
  assumes "quoteChar c @ s = quoteChar d @ t"
  shows "c = d \<and> s = t"
proof -
  have same: "(of_char c :: nat) = n \<Longrightarrow> (of_char d :: nat) = n \<Longrightarrow> c = d" for n
    by (metis of_char_eq_iff)
  have marks: "(of_char quoteMark :: nat) = 34" "(of_char backslash :: nat) = 92"
    by simp_all
  show ?thesis
    using assms same quoteChar_control_inject [of c d]
    by (simp add: quoteChar_def Let_def split: if_splits) (auto simp: marks)
qed

lemma quoteChar_not_mark: "quoteChar c @ s \<noteq> quoteMark # t"
  by (auto simp: quoteChar_def Let_def)


lemma quoteBody_prefix_free:
  "quoteBody s @ quoteMark # x = quoteBody t @ quoteMark # y \<Longrightarrow> s = t \<and> x = y"
proof (induction s arbitrary: t)
  case Nil
  then show ?case
    by (cases t) (auto dest: quoteChar_not_mark [THEN notE, OF sym])
next
  case (Cons c s)
  show ?case
  proof (cases t)
    case Nil
    with Cons.prems show ?thesis
      by (auto dest: quoteChar_not_mark [THEN notE])
  next
    case (Cons d u)
    with Cons.prems have "quoteChar c @ (quoteBody s @ quoteMark # x) = quoteChar d @ (quoteBody u @ quoteMark # y)"
      by simp
    then have "c = d" "quoteBody s @ quoteMark # x = quoteBody u @ quoteMark # y"
      by (auto dest: quoteChar_prefix_free)
    with Cons Cons.IH [of u] show ?thesis by simp
  qed
qed

lemma quote_prefix_free: "quote s @ x = quote t @ y \<longleftrightarrow> s = t \<and> x = y"
  using quoteBody_prefix_free [of s x t y] by (auto simp: quote_def)

lemma quote_inject [simp]: "quote s = quote t \<longleftrightarrow> s = t"
  using quote_prefix_free [of s "[]" t "[]"] by simp

lemma quote_neq_Nil [simp]: "quote s \<noteq> []"
  by (simp add: quote_def)

lemma quote_Cons: "quote s = quoteMark # tl (quote s)"
  by (simp add: quote_def)

section \<open>Arrays of strings\<close>

text \<open>The items of an array after its opening bracket: joined by commas, then \<open>]\<close>.\<close>

fun moreItems :: "string list \<Rightarrow> string" where
  "moreItems [] = '']''"
| "moreItems (s # ss) = '','' @ quote s @ moreItems ss"

fun stringArray :: "string list \<Rightarrow> string" where
  "stringArray [] = ''[]''"
| "stringArray (s # ss) = ''['' @ quote s @ moreItems ss"

lemma moreItems_prefix_free:
  "moreItems ss @ x = moreItems ts @ y \<Longrightarrow> ss = ts \<and> x = y"
proof (induction ss arbitrary: ts)
  case Nil
  then show ?case by (cases ts) auto
next
  case (Cons s ss)
  then show ?case by (cases ts) (auto simp: quote_prefix_free)
qed

lemma stringArray_prefix_free:
  "stringArray ss @ x = stringArray ts @ y \<longleftrightarrow> ss = ts \<and> x = y"
proof
  assume eq: "stringArray ss @ x = stringArray ts @ y"
  have ne: "'']'' @ z \<noteq> quote u @ w" for z u w
    by (simp add: quote_def)
  from eq show "ss = ts \<and> x = y"
    by (cases ss; cases ts) (auto simp: quote_prefix_free ne [simplified] ne [simplified, symmetric] dest: moreItems_prefix_free)
qed auto

lemma stringArray_inject [simp]: "stringArray ss = stringArray ts \<longleftrightarrow> ss = ts"
  using stringArray_prefix_free [of ss "[]" ts "[]"] by simp

section \<open>Objects with fields in a fixed order\<close>

text \<open>
  The field values a key is made of: a string, \<open>null\<close>, or an array of strings. An object
  whose field names are fixed differs from another only in its values.
\<close>

datatype fieldText = FString string | FNull | FArray "string list"

fun fieldValue :: "fieldText \<Rightarrow> string" where
  "fieldValue (FString s) = quote s"
| "fieldValue FNull = ''null''"
| "fieldValue (FArray ss) = stringArray ss"

fun moreFields :: "(string \<times> fieldText) list \<Rightarrow> string" where
  "moreFields [] = ''}''"
| "moreFields ((k, v) # fs) = '','' @ quote k @ '':'' @ fieldValue v @ moreFields fs"

fun objectText :: "(string \<times> fieldText) list \<Rightarrow> string" where
  "objectText [] = ''{}''"
| "objectText ((k, v) # fs) = ''{'' @ quote k @ '':'' @ fieldValue v @ moreFields fs"

lemma stringArray_Cons: "\<exists>r. stringArray ss = CHR ''['' # r"
  by (cases ss) auto

lemma fieldValue_prefix_free:
  "fieldValue v @ x = fieldValue w @ y \<longleftrightarrow> v = w \<and> x = y"
proof (cases v; cases w)
  fix s ss assume "v = FString s" "w = FArray ss"
  then show ?thesis using stringArray_Cons [of ss] by (auto simp: quote_def)
next
  fix s ss assume "v = FArray ss" "w = FString s"
  then show ?thesis using stringArray_Cons [of ss] by (auto simp: quote_def)
next
  fix ss assume "v = FArray ss" "w = FNull"
  then show ?thesis using stringArray_Cons [of ss] by auto
next
  fix ss assume "v = FNull" "w = FArray ss"
  then show ?thesis using stringArray_Cons [of ss] by auto
qed (auto simp: quote_prefix_free stringArray_prefix_free quote_def dest: quoteBody_prefix_free)

lemma moreFields_prefix_free:
  "moreFields fs @ x = moreFields gs @ y \<Longrightarrow> fs = gs \<and> x = y"
proof (induction fs arbitrary: gs rule: moreFields.induct)
  case 1
  then show ?case by (cases gs rule: moreFields.cases) auto
next
  case (2 k v fs)
  show ?case
  proof (cases gs rule: moreFields.cases)
    case 1
    with "2.prems" show ?thesis by simp
  next
    case g: (2 l w hs)
    with "2.prems" have "quote k @ (CHR '':'' # fieldValue v @ moreFields fs @ x)
        = quote l @ (CHR '':'' # fieldValue w @ moreFields hs @ y)"
      by simp
    then have "k = l" and "fieldValue v @ moreFields fs @ x = fieldValue w @ moreFields hs @ y"
      by (simp_all add: quote_prefix_free)
    then have "k = l" "v = w" "moreFields fs @ x = moreFields hs @ y"
      by (simp_all add: fieldValue_prefix_free)
    with g "2.IH" [of hs] show ?thesis by simp
  qed
qed

lemma objectText_inject: "objectText fs = objectText gs \<longleftrightarrow> fs = gs"
proof
  assume eq: "objectText fs = objectText gs"
  have ne: "''}'' \<noteq> quote u @ w" "quote u @ w \<noteq> ''}''" for u w
    by (simp_all add: quote_def)
  show "fs = gs"
  proof (cases fs rule: objectText.cases; cases gs rule: objectText.cases)
    fix k v fs' l w gs'
    assume fs: "fs = (k, v) # fs'" and gs: "gs = (l, w) # gs'"
    with eq have "moreFields fs @ [] = moreFields gs @ []" by simp
    then show ?thesis using moreFields_prefix_free by blast
  qed (use eq ne in auto)
qed simp

end
