(* ===== verification/Js_Value.thy ===== *)
theory Js_Value
  imports Json_Text Complex_Main
begin

text \<open>
  The values of type \<open>unknown\<close> the source inspects at run time, and the canonical JSON text
  several components digest. A finite number is its exact rational value; the text of a
  number is an argument, since three components format special numbers differently
  (\<open>-0\<close>, NaN) and the decimal form of the rest is the language's. An object says whether it
  is plain (its prototype is \<open>Object.prototype\<close> or \<open>null\<close>) and lists its own properties.
\<close>

datatype js_number = NaN | PosInfinity | NegInfinity | NegZero | Finite rat

datatype jsvalue =
    JUndefined
  | JNull
  | JBool bool
  | JNum js_number
  | JStr string
  | JArr "jsvalue list"
  | JObj bool "(string \<times> jsvalue) list"
  | JOpaque \<comment> \<open>a function, a symbol or a bigint\<close>

definition isFinite :: "js_number \<Rightarrow> bool" where
  "isFinite n = (case n of NegZero \<Rightarrow> True | Finite q \<Rightarrow> True | _ \<Rightarrow> False)"

definition numValue :: "js_number \<Rightarrow> rat" where
  "numValue n = (case n of Finite q \<Rightarrow> q | _ \<Rightarrow> 0)"

section \<open>Canonical text\<close>

fun joinComma :: "string list \<Rightarrow> string" where
  "joinComma [] = []"
| "joinComma (t # ts) = t @ concat (map (\<lambda>t. '','' @ t) ts)"

text \<open>
  The shared recursion of the components' \<open>canonical\<close> functions. The properties of an object
  are visited in the order of their sorted keys, so the first exception in that order is the
  one thrown.
\<close>

fun canonicalWith :: "(js_number \<Rightarrow> exn + string) \<Rightarrow> bool \<Rightarrow> jsvalue \<Rightarrow> exn + string" where
  "canonicalWith num plainOnly JUndefined = Inl NotSerializable"
| "canonicalWith num plainOnly JNull = Inr ''null''"
| "canonicalWith num plainOnly (JBool b) = Inr (if b then ''true'' else ''false'')"
| "canonicalWith num plainOnly (JNum n) = num n"
| "canonicalWith num plainOnly (JStr s) = Inr (quote s)"
| "canonicalWith num plainOnly (JArr vs) =
     andThen (traverse id (map (canonicalWith num plainOnly) vs))
       (\<lambda>ts. Inr (''['' @ joinComma ts @ '']''))"
| "canonicalWith num plainOnly (JObj plain ps) =
     (if plainOnly \<and> \<not> plain then Inl NotSerializable
      else andThen
        (traverse (\<lambda>(k, r). andThen r (\<lambda>t. Inr (quote k @ '':'' @ t)))
           (sort_key fst (map (\<lambda>(k, v). (k, canonicalWith num plainOnly v)) ps)))
        (\<lambda>ts. Inr (''{'' @ joinComma ts @ ''}'')))"
| "canonicalWith num plainOnly JOpaque = Inl NotSerializable"

section \<open>Two values have the same canonical text only if they are the same\<close>

text \<open>
  Equality up to the order of properties: \<open>sortKeys\<close> sorts them, at every depth, and forgets
  the prototype. \<open>render\<close> prints a value without sorting or throwing.
\<close>

fun sortKeys :: "jsvalue \<Rightarrow> jsvalue" where
  "sortKeys (JArr vs) = JArr (map sortKeys vs)"
| "sortKeys (JObj plain ps) = JObj True (sort_key fst (map (\<lambda>(k, v). (k, sortKeys v)) ps))"
| "sortKeys v = v"

lemma sortKeys_JObj_eqD:
  assumes "sortKeys (JObj p ps) = sortKeys (JObj q qs)"
  shows "(\<lambda>(k, v). (k, sortKeys v)) ` set ps = (\<lambda>(k, v). (k, sortKeys v)) ` set qs"
proof -
  let ?g = "\<lambda>(k, v). (k, sortKeys v)"
  from assms have "sort_key fst (map ?g ps) = sort_key fst (map ?g qs)" by simp
  then have "set (sort_key fst (map ?g ps)) = set (sort_key fst (map ?g qs))" by (rule arg_cong)
  then show ?thesis by simp
qed

lemma sortKeys_field:
  assumes "sortKeys (JObj p ps) = sortKeys (JObj q qs)" and "(k, v) \<in> set ps"
  obtains w where "(k, w) \<in> set qs" "sortKeys w = sortKeys v"
proof -
  have "(k, sortKeys v) \<in> (\<lambda>(k, v). (k, sortKeys v)) ` set ps"
    using assms(2) by force
  then show ?thesis
    using that unfolding sortKeys_JObj_eqD [OF assms(1)] by auto
qed

fun render :: "(js_number \<Rightarrow> string) \<Rightarrow> jsvalue \<Rightarrow> string" where
  "render num (JArr vs) = ''['' @ joinComma (map (render num) vs) @ '']''"
| "render num (JObj plain ps) =
     ''{'' @ joinComma (map (\<lambda>(k, v). quote k @ '':'' @ render num v) ps) @ ''}''"
| "render num JNull = ''null''"
| "render num (JBool b) = (if b then ''true'' else ''false'')"
| "render num (JNum n) = num n"
| "render num (JStr s) = quote s"
| "render num JUndefined = []"
| "render num JOpaque = []"

text \<open>The finite values: no \<open>undefined\<close> or opaque part, and every number in \<open>S\<close>.\<close>

fun jsonValue :: "js_number set \<Rightarrow> jsvalue \<Rightarrow> bool" where
  "jsonValue S JUndefined = False"
| "jsonValue S JOpaque = False"
| "jsonValue S (JNum n) = (n \<in> S)"
| "jsonValue S (JArr vs) = list_all (jsonValue S) vs"
| "jsonValue S (JObj plain ps) = list_all (\<lambda>(k, v). jsonValue S v) ps"
| "jsonValue S v = True"

definition numberText :: "(js_number \<Rightarrow> string) \<Rightarrow> js_number set \<Rightarrow> bool" where
  "numberText num S = (inj_on num S \<and> (\<forall>n \<in> S. num n \<noteq> [] \<and> set (num n) \<subseteq> set ''0123456789+-.e''))"

definition delimited :: "string \<Rightarrow> bool" where
  "delimited x = (x = [] \<or> hd x \<in> set '',]}'')"

lemma delimited_simps [simp]: "delimited []" "delimited (CHR '','' # x)" "delimited (CHR '']'' # x)"
  "delimited (CHR ''}'' # x)"
  by (simp_all add: delimited_def)

lemma span_unique:
  assumes "a @ x = b @ y" and "set a \<subseteq> D" and "set b \<subseteq> D"
    and "x = [] \<or> hd x \<notin> D" and "y = [] \<or> hd y \<notin> D"
  shows "a = b \<and> x = y"
proof -
  have "takeWhile (\<lambda>c. c \<in> D) (c @ z) = c" if "set c \<subseteq> D" "z = [] \<or> hd z \<notin> D" for c z
    using that by (cases z) (auto simp: takeWhile_append)
  with assms show ?thesis by (metis append_same_eq same_append_eq)
qed

lemma number_prefix_free:
  assumes "numberText num S" "n \<in> S" "m \<in> S" "num n @ x = num m @ y" "delimited x" "delimited y"
  shows "n = m \<and> x = y"
proof -
  have "num n = num m \<and> x = y"
    using assms by (intro span_unique [where D = "set ''0123456789+-.e''"])
      (auto simp: numberText_def delimited_def)
  with assms show ?thesis by (auto simp: numberText_def inj_on_def)
qed

text \<open>The first character tells the kinds of values apart.\<close>

fun kindChar :: "jsvalue \<Rightarrow> nat" where
  "kindChar JNull = 0" | "kindChar (JBool True) = 1" | "kindChar (JBool False) = 2"
| "kindChar (JNum n) = 3" | "kindChar (JStr s) = 4" | "kindChar (JArr vs) = 5"
| "kindChar (JObj p ps) = 6" | "kindChar JUndefined = 7" | "kindChar JOpaque = 8"

definition charKind :: "char \<Rightarrow> nat" where
  "charKind c = (if c = CHR ''n'' then 0 else if c = CHR ''t'' then 1 else if c = CHR ''f'' then 2
     else if c = quoteMark then 4 else if c = CHR ''['' then 5 else if c = CHR ''{'' then 6 else 3)"

lemma render_number_start: "numberText num S \<Longrightarrow> n \<in> S \<Longrightarrow> hd (num n) \<in> set ''0123456789+-.e''"
  using hd_in_set by (auto simp: numberText_def subset_iff)

lemma number_not_close: "numberText num S \<Longrightarrow> n \<in> S \<Longrightarrow> hd (num n) \<noteq> CHR '']''"
  using render_number_start [of num S n] by auto

lemma charKind_render:
  assumes "numberText num S" and "jsonValue S v"
  shows "render num v \<noteq> [] \<and> charKind (hd (render num v)) = kindChar v"
proof (cases v)
  case (JNum n)
  then have "num n \<noteq> []" "hd (num n) \<in> set ''0123456789+-.e''"
    using assms hd_in_set by (auto simp: numberText_def subset_iff)
  then show ?thesis using JNum by (auto simp: charKind_def)
next
  case (JBool b)
  then show ?thesis by (cases b) (auto simp: charKind_def)
qed (use assms in \<open>auto simp: charKind_def quote_def\<close>)

lemma same_kind:
  assumes "numberText num S" "jsonValue S v" "jsonValue S w" "render num v @ x = render num w @ y"
  shows "kindChar v = kindChar w"
  using charKind_render [OF assms(1,2)] charKind_render [OF assms(1,3)] assms(4)
  by (metis hd_append2)

lemma more_prefix_free:
  assumes "\<And>a b x y. a \<in> set as \<Longrightarrow> b \<in> set bs \<Longrightarrow> delimited x \<Longrightarrow> delimited y \<Longrightarrow>
      f a @ x = f b @ y \<Longrightarrow> a = b \<and> x = y"
    and "c \<in> set '']}''"
    and "concat (map (\<lambda>t. '','' @ t) (map f as)) @ c # x = concat (map (\<lambda>t. '','' @ t) (map f bs)) @ c # y"
  shows "as = bs \<and> x = y"
  using assms(1,3)
proof (induction as arbitrary: bs)
  case Nil
  then show ?case using assms(2) by (cases bs) auto
next
  case (Cons a as)
  show ?case
  proof (cases bs)
    case Nil
    with Cons.prems(2) assms(2) show ?thesis by auto
  next
    case (Cons b bs')
    let ?r = "\<lambda>zs z. concat (map (\<lambda>t. '','' @ t) (map f zs)) @ c # z"
    have d: "delimited (?r zs z)" for zs z
      using assms(2) by (cases zs) auto
    have "f a @ ?r as x = f b @ ?r bs' y"
      using Cons.prems(2) Cons by simp
    then have "a = b" "?r as x = ?r bs' y"
      using Cons.prems(1) [of a b] Cons d by auto
    with Cons.IH [of bs'] Cons.prems(1) Cons show ?thesis by auto
  qed
qed

lemma joined_prefix_free:
  assumes items: "\<And>a b x y. a \<in> set as \<Longrightarrow> b \<in> set bs \<Longrightarrow> delimited x \<Longrightarrow> delimited y \<Longrightarrow>
      f a @ x = f b @ y \<Longrightarrow> a = b \<and> x = y"
    and c: "c \<in> set '']}''" and start: "\<And>a. a \<in> set as \<union> set bs \<Longrightarrow> f a \<noteq> [] \<and> hd (f a) \<noteq> c"
    and eq: "joinComma (map f as) @ c # x = joinComma (map f bs) @ c # y"
  shows "as = bs \<and> x = y"
proof (cases "as = [] \<or> bs = []")
  case True
  have False if "f a @ z = c # w" "a \<in> set as \<union> set bs" for a z w
    using start [OF that(2)] that(1) by (cases "f a") auto
  with True eq show ?thesis
    by (cases as; cases bs) (auto simp: append_assoc dest: sym)
next
  case False
  then obtain a as' b bs' where ab: "as = a # as'" "bs = b # bs'"
    by (cases as; cases bs) auto
  let ?r = "\<lambda>zs z. concat (map (\<lambda>t. '','' @ t) (map f zs)) @ c # z"
  have d: "delimited (?r zs z)" for zs z
    using c by (cases zs) auto
  have "f a @ ?r as' x = f b @ ?r bs' y"
    using eq ab by (simp add: comp_def)
  then have "a = b" "?r as' x = ?r bs' y"
    using items [of a b "?r as' x" "?r bs' y"] d ab by auto
  moreover from this have "as' = bs' \<and> x = y"
    using more_prefix_free [of as' bs' f c x y] items c ab by auto
  ultimately show ?thesis using ab by simp
qed

fun jsonTree :: "js_number set \<Rightarrow> jsvalue \<Rightarrow> bool" where
  "jsonTree S (JArr vs) = list_all (jsonTree S) vs"
| "jsonTree S (JObj plain ps) = (plain \<and> list_all (\<lambda>(k, v). jsonTree S v) ps)"
| "jsonTree S v = jsonValue S v"

lemma jsonTree_value: "jsonTree S v \<Longrightarrow> jsonValue S v"
  by (induction S v rule: jsonTree.induct) (auto simp: list_all_iff)

lemma jsonValue_sortKeys: "jsonValue S v \<Longrightarrow> jsonTree S (sortKeys v)"
  by (induction v rule: sortKeys.induct) (force simp: list_all_iff)+

lemma render_prefix_free:
  assumes "numberText num S"
  shows "jsonTree S v \<Longrightarrow> jsonTree S w \<Longrightarrow> delimited x \<Longrightarrow> delimited y \<Longrightarrow>
    render num v @ x = render num w @ y \<Longrightarrow> v = w \<and> x = y"
proof (induction v arbitrary: w x y)
  case (JArr vs)
  have kind: "kindChar w = 5"
    using same_kind [OF assms _ _ JArr.prems(5)] JArr.prems(1,2) jsonTree_value by fastforce
  then obtain ws where w: "w = JArr ws" by (cases w rule: kindChar.cases) auto
  have "vs = ws \<and> x = y"
  proof (rule joined_prefix_free [where f = "render num" and c = "CHR '']''"])
    show "a = b \<and> x' = y'" if "a \<in> set vs" "b \<in> set ws" "delimited x'" "delimited y'"
      "render num a @ x' = render num b @ y'" for a b x' y'
      using JArr.IH [of a b x' y'] that JArr.prems(1,2) w by (auto simp: list_all_iff)
    show "render num a \<noteq> [] \<and> hd (render num a) \<noteq> CHR '']''" if "a \<in> set vs \<union> set ws" for a
    proof -
      have "jsonValue S a" using that JArr.prems(1,2) w jsonTree_value by (auto simp: list_all_iff)
      from charKind_render [OF assms this] number_not_close [OF assms] this show ?thesis
        by (cases a) (auto simp: quote_def)
    qed
  qed (use JArr.prems w in auto)
  with w show ?case by simp
next
  case (JObj plain ps)
  have kind: "kindChar w = 6"
    using same_kind [OF assms _ _ JObj.prems(5)] JObj.prems(1,2) jsonTree_value by fastforce
  then obtain q ws where w: "w = JObj q ws" by (cases w rule: kindChar.cases) auto
  let ?f = "\<lambda>(k, v). quote k @ '':'' @ render num v"
  have "ps = ws \<and> x = y"
  proof (rule joined_prefix_free [where f = ?f and c = "CHR ''}''"])
    show "a = b \<and> x' = y'" if "a \<in> set ps" "b \<in> set ws" "delimited x'" "delimited y'"
      "?f a @ x' = ?f b @ y'" for a b x' y'
    proof -
      obtain k v l u where a: "a = (k, v)" and b: "b = (l, u)" by (cases a; cases b)
      with that(5) have "quote k @ (CHR '':'' # render num v @ x') = quote l @ (CHR '':'' # render num u @ y')"
        by simp
      then have "k = l" and eq: "render num v @ x' = render num u @ y'"
        by (auto simp only: quote_prefix_free)
      moreover have "v = u \<and> x' = y'"
        using JObj.IH [of a v u x' y'] eq that a b JObj.prems(1,2) w by (auto simp: list_all_iff)
      ultimately show ?thesis using a b by simp
    qed
  qed (use JObj.prems w in \<open>auto simp: quote_def\<close>)
  with w JObj.prems show ?case by simp
next
  case (JNum n)
  have "kindChar w = 3"
    using same_kind [OF assms _ _ JNum.prems(5)] JNum.prems(1,2) jsonTree_value by fastforce
  then obtain m where "w = JNum m" by (cases w rule: kindChar.cases) auto
  with JNum number_prefix_free [OF assms, of n m x y] show ?case by auto
next
  case (JStr s)
  have "kindChar w = 4"
    using same_kind [OF assms _ _ JStr.prems(5)] JStr.prems(1,2) jsonTree_value by fastforce
  then obtain t where "w = JStr t" by (cases w rule: kindChar.cases) auto
  with JStr show ?case by (auto simp: quote_prefix_free)
next
  case (JBool b)
  have "kindChar w = kindChar (JBool b)"
    using same_kind [OF assms _ _ JBool.prems(5)] JBool.prems(1,2) jsonTree_value by fastforce
  then have "w = JBool b" by (cases b; cases w rule: kindChar.cases) auto
  with JBool show ?case by auto
next
  case JNull
  have "kindChar w = 0"
    using same_kind [OF assms _ _ JNull.prems(5)] JNull.prems(1,2) jsonTree_value by fastforce
  then have "w = JNull" by (cases w rule: kindChar.cases) auto
  with JNull show ?case by auto
qed auto

lemma sort_key_map_snd:
  "sort_key fst (map (\<lambda>(k, v). (k, f v)) ps) = map (\<lambda>(k, v). (k, f v)) (sort_key fst ps)"
proof (induction ps)
  case (Cons p ps)
  have ins: "insort_key fst (k, f v) (map (\<lambda>(k, v). (k, f v)) qs) =
      map (\<lambda>(k, v). (k, f v)) (insort_key fst (k, v) qs)" for k v qs
    by (induction qs) auto
  from Cons show ?case by (cases p) (simp add: ins)
qed simp

lemma property_text:
  "(case p of (k, r) \<Rightarrow> andThen r (\<lambda>t. Inr (quote k @ CHR '':'' # t))) = Inr y \<longleftrightarrow>
     (\<exists>t. snd p = Inr t \<and> y = quote (fst p) @ '':'' @ t)"
  by (cases p) (auto simp: andThen_Inr_iff)

lemma canonical_render:
  assumes num: "\<And>n t. num n = Inr t \<Longrightarrow> text n = t"
  shows "canonicalWith num po v = Inr t \<Longrightarrow> t = render text (sortKeys v)"
proof (induction v arbitrary: t)
  case (JArr vs)
  then obtain ts where t: "t = ''['' @ joinComma ts @ '']''"
    and all: "list_all2 (\<lambda>r y. r = Inr y) (map (canonicalWith num po) vs) ts"
    by (auto simp: andThen_Inr_iff traverse_Inr_iff)
  have "ts = map (render text) (map sortKeys vs)"
    using all JArr.IH by (induction vs arbitrary: ts) (auto simp: list_all2_Cons1)
  with t show ?case by simp
next
  case (JObj plain ps)
  let ?c = "\<lambda>(k, v). (k, canonicalWith num po v)"
  let ?P = "\<lambda>p y. \<exists>t. snd p = Inr t \<and> y = quote (fst p) @ '':'' @ t"
  obtain ts where t: "t = ''{'' @ joinComma ts @ ''}''"
    and all: "list_all2 ?P (map ?c (sort_key fst ps)) ts"
    using JObj.prems
    by (auto simp: andThen_Inr_iff traverse_Inr_iff sort_key_map_snd property_text split: if_splits)
  have "ts = map (\<lambda>(k, v). quote k @ '':'' @ render text v) (map (\<lambda>(k, v). (k, sortKeys v)) qs)"
    if "list_all2 ?P (map ?c qs) ts" "set qs \<subseteq> set ps" for qs ts
    using that
  proof (induction qs arbitrary: ts)
    case (Cons p qs)
    then obtain k v where p: "p = (k, v)" by (cases p)
    with Cons.prems obtain u us where "canonicalWith num po v = Inr u" "ts = (quote k @ '':'' @ u) # us"
      "list_all2 ?P (map ?c qs) us"
      by (auto simp: list_all2_Cons1)
    with Cons.IH [of us] JObj.IH [of p v u] Cons.prems p show ?case by auto
  qed simp
  from this [OF all] t show ?case by (simp add: sort_key_map_snd)
qed (use num in \<open>auto split: if_splits\<close>)

text \<open>Canonical texts are canonical: equal texts come from the same value.\<close>

lemma canonical_inject:
  assumes "\<And>n t. num n = Inr t \<Longrightarrow> text n = t" and "numberText text S"
    and "jsonValue S v" "jsonValue S w"
    and "canonicalWith num po v = Inr t" "canonicalWith num po w = Inr t"
  shows "sortKeys v = sortKeys w"
  using render_prefix_free [OF assms(2), of "sortKeys v" "sortKeys w" "[]" "[]"]
    canonical_render [OF assms(1) assms(5)] canonical_render [OF assms(1) assms(6)]
    jsonValue_sortKeys [OF assms(3)] jsonValue_sortKeys [OF assms(4)] by simp

lemma canonical_defined:
  "jsonValue S v \<Longrightarrow> \<forall>n \<in> S. \<exists>t. num n = Inr t \<Longrightarrow> \<exists>t. canonicalWith num False v = Inr t"
proof (induction v)
  case (JArr vs)
  then have "\<exists>ts. traverse id (map (canonicalWith num False) vs) = Inr ts"
    by (induction vs) (auto simp: andThen_Inr_iff)
  then show ?case by auto
next
  case (JObj plain ps)
  have "\<exists>ts. traverse (\<lambda>(k, r). andThen r (\<lambda>t. Inr (quote k @ '':'' @ t)))
      (map (\<lambda>(k, v). (k, canonicalWith num False v)) qs) = Inr ts" if "set qs \<subseteq> set ps" for qs
    using that
  proof (induction qs)
    case (Cons p qs)
    then have "\<exists>t. canonicalWith num False (snd p) = Inr t"
      using JObj.IH [of p "snd p"] JObj.prems by (cases p) (auto simp: list_all_iff)
    with Cons show ?case by (cases p) (auto simp: andThen_Inr_iff)
  qed simp
  from this [of "sort_key fst ps"] show ?case
    by (auto simp: sort_key_map_snd)
qed auto

section \<open>JSON.stringify\<close>

text \<open>
  \<open>JSON.stringify\<close> on data: \<open>undefined\<close> (\<open>None\<close>) for undefined and functions, which arrays
  print as null and objects leave out. Bigints, cyclic values and \<open>toJSON\<close> methods are outside
  the model.
\<close>

definition stringifyNumber :: "(rat \<Rightarrow> string) \<Rightarrow> js_number \<Rightarrow> string" where
  "stringifyNumber fmt n = (case n of NegZero \<Rightarrow> ''0'' | Finite q \<Rightarrow> fmt q | _ \<Rightarrow> ''null'')"

fun stringify :: "(rat \<Rightarrow> string) \<Rightarrow> jsvalue \<Rightarrow> string option" where
  "stringify fmt JUndefined = None"
| "stringify fmt JNull = Some ''null''"
| "stringify fmt (JBool b) = Some (if b then ''true'' else ''false'')"
| "stringify fmt (JNum n) = Some (stringifyNumber fmt n)"
| "stringify fmt (JStr s) = Some (quote s)"
| "stringify fmt (JArr vs) =
     Some (''['' @ joinComma (map (\<lambda>r. nullish r ''null'') (map (stringify fmt) vs)) @ '']'')"
| "stringify fmt (JObj plain ps) =
     Some (''{'' @ joinComma (concat (map (\<lambda>(k, v). case stringify fmt v of None \<Rightarrow> []
        | Some t \<Rightarrow> [quote k @ '':'' @ t]) ps)) @ ''}'')"
| "stringify fmt JOpaque = None"

section \<open>JSON copies\<close>

text \<open>
  \<open>JSON.parse(JSON.stringify(value))\<close>: a value JSON cannot carry throws; inside arrays it
  becomes null, inside objects its property is dropped; NaN and the infinities become null and
  \<open>-0\<close> becomes 0. Decimal texts of finite numbers read back as the same number.
\<close>

fun jsonCopy :: "jsvalue \<Rightarrow> jsvalue option" where
  "jsonCopy JUndefined = None"
| "jsonCopy JOpaque = None"
| "jsonCopy JNull = Some JNull"
| "jsonCopy (JBool b) = Some (JBool b)"
| "jsonCopy (JStr s) = Some (JStr s)"
| "jsonCopy (JNum n) = Some (case n of NegZero \<Rightarrow> JNum (Finite 0) | Finite q \<Rightarrow> JNum (Finite q) | _ \<Rightarrow> JNull)"
| "jsonCopy (JArr vs) = Some (JArr (map (\<lambda>r. nullish r JNull) (map jsonCopy vs)))"
| "jsonCopy (JObj plain ps) =
     Some (JObj True (concat (map (\<lambda>(k, v). case jsonCopy v of None \<Rightarrow> [] | Some w \<Rightarrow> [(k, w)]) ps)))"

definition cloneJson :: "jsvalue \<Rightarrow> exn + jsvalue" where
  "cloneJson v = (case jsonCopy v of None \<Rightarrow> Inl NotSerializable | Some w \<Rightarrow> Inr w)"

lemma jsonCopy_idem: "jsonCopy v = Some w \<Longrightarrow> jsonCopy w = Some w"
proof (induction v arbitrary: w)
  case (JNum n)
  then show ?case by (cases n) auto
next
  case (JArr vs)
  have "jsonCopy (nullish (jsonCopy v) JNull) = Some (nullish (jsonCopy v) JNull)" if "v \<in> set vs" for v
    using JArr.IH [OF that] by (cases "jsonCopy v") auto
  with JArr.prems show ?case by auto
next
  case (JObj plain ps)
  let ?qs = "concat (map (\<lambda>(k, v). case jsonCopy v of None \<Rightarrow> [] | Some w \<Rightarrow> [(k, w)]) ps)"
  have "concat (map (\<lambda>(k, v). case jsonCopy v of None \<Rightarrow> [] | Some w \<Rightarrow> [(k, w)]) ?qs) = ?qs"
    using JObj.IH by (induction ps) (force split: option.splits)+
  with JObj.prems show ?case by auto
qed auto

section \<open>Objects and decimal texts\<close>

text \<open>Reading a property of an object: \<open>undefined\<close> where it has none.\<close>

definition property :: "jsvalue \<Rightarrow> string \<Rightarrow> jsvalue" where
  "property v k = (case v of JObj plain ps \<Rightarrow> nullish (map_of ps k) JUndefined | _ \<Rightarrow> JUndefined)"

definition isRecord :: "jsvalue \<Rightarrow> bool" where
  "isRecord v = (case v of JObj plain ps \<Rightarrow> True | _ \<Rightarrow> False)"

definition ownKeys :: "jsvalue \<Rightarrow> string list" where
  "ownKeys v = (case v of JObj plain ps \<Rightarrow> map fst ps | _ \<Rightarrow> [])"

definition hasOwn :: "jsvalue \<Rightarrow> string \<Rightarrow> bool" where
  "hasOwn v k = (k \<in> set (ownKeys v))"

text \<open>The text of a non-negative integer.\<close>

fun natText :: "nat \<Rightarrow> string" where
  "natText n = (if n < 10 then [char_of (48 + n)] else natText (n div 10) @ [char_of (48 + n mod 10)])"

declare natText.simps [simp del]

text \<open>\<open>Number.isSafeInteger\<close> on any value, and the integer behind it.\<close>

definition safeInteger :: "jsvalue \<Rightarrow> int option" where
  "safeInteger v = (case v of
     JNum n \<Rightarrow> (case n of NegZero \<Rightarrow> Some 0
       | Finite q \<Rightarrow> if q = of_int \<lfloor>q\<rfloor> \<and> \<bar>\<lfloor>q\<rfloor>\<bar> \<le> MAX_SAFE_INTEGER then Some \<lfloor>q\<rfloor> else None
       | _ \<Rightarrow> None)
   | _ \<Rightarrow> None)"

end
