(* ===== verification/Js_Sort.thy ===== *)
theory Js_Sort
  imports Prelude "HOL-Library.Multiset"
begin

text \<open>
  \<open>Array.prototype.sort\<close> with a comparison function: a stable sort, here the insertion sort.
  For a comparison function that is a consistent total preorder (\<open>comparison\<close>) every stable
  sort returns this list. \<open>localeCompare\<close> is such a function and an argument of the models.
\<close>

fun insertBy :: "('a \<Rightarrow> 'a \<Rightarrow> int) \<Rightarrow> 'a \<Rightarrow> 'a list \<Rightarrow> 'a list" where
  "insertBy c x [] = [x]"
| "insertBy c x (y # ys) = (if c x y \<le> 0 then x # y # ys else y # insertBy c x ys)"

definition sortBy :: "('a \<Rightarrow> 'a \<Rightarrow> int) \<Rightarrow> 'a list \<Rightarrow> 'a list" where
  "sortBy c xs = foldr (insertBy c) xs []"

text \<open>\<open>a || b\<close> on the results of comparisons: the second decides where the first is 0.\<close>

definition orElse :: "int \<Rightarrow> int \<Rightarrow> int" where
  "orElse a b = (if a = 0 then b else a)"

definition comparison :: "('a \<Rightarrow> 'a \<Rightarrow> int) \<Rightarrow> bool" where
  "comparison c = ((\<forall>x y. c x y \<le> 0 \<longleftrightarrow> c y x \<ge> 0) \<and>
     (\<forall>x y z. c x y \<le> 0 \<longrightarrow> c y z \<le> 0 \<longrightarrow> c x z \<le> 0))"

lemma mset_insertBy [simp]: "mset (insertBy c x ys) = add_mset x (mset ys)"
  by (induction ys) auto

lemma mset_sortBy [simp]: "mset (sortBy c xs) = mset xs"
  unfolding sortBy_def by (induction xs) auto

lemma set_sortBy [simp]: "set (sortBy c xs) = set xs"
  by (metis mset_sortBy set_mset_mset)

lemma length_sortBy [simp]: "length (sortBy c xs) = length xs"
  by (metis mset_sortBy size_mset)

lemma distinct_sortBy [simp]: "distinct (sortBy c xs) \<longleftrightarrow> distinct xs"
  by (metis mset_sortBy mset_eq_imp_distinct_iff)

lemma sortBy_simps [simp]: "sortBy c [] = []" "sortBy c (x # xs) = insertBy c x (sortBy c xs)"
  by (simp_all add: sortBy_def)

lemma set_insertBy [simp]: "set (insertBy c x ys) = insert x (set ys)"
  by (induction ys) auto

lemma comparisonD:
  assumes "comparison c"
  shows "c x y \<le> 0 \<longleftrightarrow> c y x \<ge> 0" and "c x y \<le> 0 \<Longrightarrow> c y z \<le> 0 \<Longrightarrow> c x z \<le> 0"
    and "c x y > 0 \<longleftrightarrow> c y x < 0" and "c x y = 0 \<longleftrightarrow> c y x = 0"
  using assms unfolding comparison_def by (blast, blast, smt (verit), smt (verit))

lemma sorted_insertBy:
  assumes "comparison c" and "sorted_wrt (\<lambda>a b. c a b \<le> 0) ys"
  shows "sorted_wrt (\<lambda>a b. c a b \<le> 0) (insertBy c x ys)"
  using assms(2)
proof (induction ys)
  case (Cons y ys)
  show ?case
  proof (cases "c x y \<le> 0")
    case True
    with Cons.prems comparisonD(2) [OF assms(1) True] show ?thesis by auto
  next
    case False
    then have "c y x \<le> 0" using comparisonD(3) [OF assms(1), of x y] by simp
    with Cons False show ?thesis by auto
  qed
qed simp

lemma sorted_sortBy: "comparison c \<Longrightarrow> sorted_wrt (\<lambda>a b. c a b \<le> 0) (sortBy c xs)"
  by (induction xs) (auto intro: sorted_insertBy)

lemma sorted_wrt_unique:
  assumes "comparison c"
    and "\<And>a b. a \<in> set xs \<Longrightarrow> b \<in> set xs \<Longrightarrow> c a b = 0 \<Longrightarrow> a = b"
    and "sorted_wrt (\<lambda>a b. c a b \<le> 0) xs" "sorted_wrt (\<lambda>a b. c a b \<le> 0) ys"
    and "distinct xs" "distinct ys" "set xs = set ys"
  shows "xs = ys"
  using assms(2-)
proof (induction xs arbitrary: ys)
  case (Cons x xs)
  then obtain y ys' where ys: "ys = y # ys'" by (cases ys) auto
  have "x = y"
  proof (rule ccontr)
    assume "x \<noteq> y"
    then have "x \<in> set ys'" "y \<in> set xs" using Cons.prems(6) ys by auto
    then have "c x y \<le> 0" "c y x \<le> 0" using Cons.prems(2,3) ys by auto
    then have "c x y = 0" using comparisonD(1) [OF assms(1), of y x] by simp
    with Cons.prems(1) \<open>y \<in> set xs\<close> \<open>x \<noteq> y\<close> show False by simp
  qed
  moreover have "set xs = set ys'" using Cons.prems(4-6) ys \<open>x = y\<close> by auto
  ultimately show ?case using Cons.IH [of ys'] Cons.prems ys by auto
qed auto

text \<open>Where no two elements of the input compare as equal, the result depends on their set only.\<close>

lemma sortBy_cong:
  assumes "comparison c" and "\<And>a b. a \<in> set xs \<Longrightarrow> b \<in> set xs \<Longrightarrow> c a b = 0 \<Longrightarrow> a = b"
    and "distinct xs" "distinct ys" "set xs = set ys"
  shows "sortBy c xs = sortBy c ys"
  using assms by (intro sorted_wrt_unique [OF assms(1)]) (auto simp: sorted_sortBy)

lemma comparison_on: "comparison c \<Longrightarrow> comparison (\<lambda>a b. c (f a) (f b))"
  unfolding comparison_def by blast

lemma comparison_orElse:
  assumes c: "comparison c" and d: "comparison d"
  shows "comparison (\<lambda>a b. orElse (c a b) (d a b))"
  unfolding comparison_def orElse_def
proof (intro conjI allI impI)
  fix x y z
  show "(if c x y = 0 then d x y else c x y) \<le> 0 \<longleftrightarrow> (if c y x = 0 then d y x else c y x) \<ge> 0"
    using comparisonD [OF c, of x y] comparisonD [OF d, of x y] by auto
  assume xy: "(if c x y = 0 then d x y else c x y) \<le> 0" and yz: "(if c y z = 0 then d y z else c y z) \<le> 0"
  then have "c x y \<le> 0" "c y z \<le> 0" by (auto split: if_splits)
  then have xz: "c x z \<le> 0" by (rule comparisonD(2) [OF c])
  have "d x z \<le> 0" if "c x z = 0"
  proof -
    have "c z x \<le> 0" using that comparisonD(4) [OF c, of x z] by simp
    then have "c y x \<le> 0" "c z y \<le> 0"
      using \<open>c x y \<le> 0\<close> \<open>c y z \<le> 0\<close> comparisonD(2) [OF c] by blast+
    then have "c x y = 0" "c y z = 0"
      using \<open>c x y \<le> 0\<close> \<open>c y z \<le> 0\<close> comparisonD(1) [OF c, of x y] comparisonD(1) [OF c, of y x]
        comparisonD(1) [OF c, of y z] comparisonD(1) [OF c, of z y] by linarith+
    with xy yz show ?thesis using comparisonD(2) [OF d] by auto
  qed
  with xz show "(if c x z = 0 then d x z else c x z) \<le> 0" by simp
qed

end
