(* ===== verification/Single_Flight.thy ===== *)
theory Single_Flight
  imports Prelude
begin

text \<open>
  Coalescing of identical work in flight, an idiom the sources write twice: the map from keys
  to promises of \<open>PremiseSingleFlight\<close> (\<open>premise-policy.ts\<close>) and the \<open>validationFlights\<close> of
  \<open>PremiseRuntime\<close> (\<open>index.ts\<close>). The locale states what a client relies on: joining a pending
  key returns its promise and starts nothing, joining another key starts one task under a new
  promise, and settling removes a promise only while it is still the pending one of its key.
\<close>

datatype flight_event = Join string | Settle string nat

locale single_flight =
  fixes join :: "string \<Rightarrow> 's \<Rightarrow> nat \<times> 's"
    and settle :: "string \<Rightarrow> nat \<Rightarrow> 's \<Rightarrow> 's"
    and pending :: "'s \<Rightarrow> string \<Rightarrow> nat option"
    and started :: "'s \<Rightarrow> (nat \<times> string) list"
    and inv :: "'s \<Rightarrow> bool"
  assumes join_pending: "inv s \<Longrightarrow> pending s k = Some p \<Longrightarrow> join k s = (p, s)"
    and join_new: "inv s \<Longrightarrow> pending s k = None \<Longrightarrow> join k s = (p, s') \<Longrightarrow>
      inv s' \<and> pending s' = (pending s)(k \<mapsto> p) \<and> p \<notin> fst ` set (started s) \<and> started s' = started s @ [(p, k)]"
    and settle_pending: "inv s \<Longrightarrow> inv (settle k p s) \<and> started (settle k p s) = started s \<and>
      pending (settle k p s) = (if pending s k = Some p then (pending s)(k := None) else pending s)"
    and pending_started: "inv s \<Longrightarrow> pending s k = Some p \<Longrightarrow> (p, k) \<in> set (started s)"
    and started_unique: "inv s \<Longrightarrow> distinct (map fst (started s))"
begin

fun flight_step :: "flight_event \<Rightarrow> 's \<Rightarrow> 's" where
  "flight_step (Join k) s = snd (join k s)"
| "flight_step (Settle k p) s = settle k p s"

lemma join_spec:
  assumes "inv s" and "join k s = (p, s')"
  shows "inv s' \<and> pending s' = (pending s)(k \<mapsto> p) \<and> set (started s) \<subseteq> set (started s')"
proof (cases "pending s k")
  case None
  with join_new [OF assms(1) None assms(2)] show ?thesis by auto
next
  case (Some q)
  with join_pending [OF assms(1) Some] assms show ?thesis by auto
qed

lemma step_spec:
  assumes "inv s" and "pending s k = Some p" and "e \<noteq> Settle k p"
  shows "inv (flight_step e s) \<and> pending (flight_step e s) k = Some p \<and>
    filter (\<lambda>t. snd t = k) (started (flight_step e s)) = filter (\<lambda>t. snd t = k) (started s)"
proof (cases e)
  case (Join l)
  obtain q s' where j: "join l s = (q, s')" by (cases "join l s")
  show ?thesis
  proof (cases "pending s l")
    case None
    then have "l \<noteq> k" using assms(2) by auto
    with join_new [OF assms(1) None j] assms(2) Join j show ?thesis by auto
  next
    case (Some r)
    with join_pending [OF assms(1) Some] assms Join show ?thesis by simp
  qed
next
  case (Settle l q)
  with settle_pending [OF assms(1), of l q] assms show ?thesis by auto
qed

lemma steps_spec:
  assumes "inv s" and "pending s k = Some p" and "Settle k p \<notin> set es"
  shows "inv (fold flight_step es s) \<and> pending (fold flight_step es s) k = Some p \<and>
    filter (\<lambda>t. snd t = k) (started (fold flight_step es s)) = filter (\<lambda>t. snd t = k) (started s)"
  using assms
proof (induction es arbitrary: s)
  case (Cons e es)
  then have ne: "e \<noteq> Settle k p" by auto
  from step_spec [OF Cons.prems(1,2) ne] Cons show ?case by simp
qed simp

lemma inv_steps: "inv s \<Longrightarrow> inv (fold flight_step es s)"
proof (induction es arbitrary: s)
  case (Cons e es)
  have "inv (flight_step e s)"
  proof (cases e)
    case (Join k)
    then show ?thesis using join_spec [OF Cons.prems] by (cases "join k s") simp
  next
    case (Settle k p)
    then show ?thesis using settle_pending [OF Cons.prems] by simp
  qed
  with Cons.IH show ?case by simp
qed simp

text \<open>Until its promise settles, every join of a key returns that promise and starts no task.\<close>

lemma coalesced:
  assumes "inv s" and "join k s = (p, s1)" and "Settle k p \<notin> set es"
  shows "join k (fold flight_step es s1) = (p, fold flight_step es s1) \<and>
    filter (\<lambda>t. snd t = k) (started (fold flight_step es s1)) = filter (\<lambda>t. snd t = k) (started s1)"
proof -
  have "inv s1" "pending s1 k = Some p" using join_spec [OF assms(1,2)] by auto
  from steps_spec [OF this assms(3)] show ?thesis by (simp add: join_pending)
qed

text \<open>Two keys never share a promise.\<close>

lemma separate:
  assumes "inv s" and "join k s = (p, s1)" and "Settle k p \<notin> set es"
    and "join l (fold flight_step es s1) = (q, s2)" and "k \<noteq> l"
  shows "p \<noteq> q"
proof -
  let ?s = "fold flight_step es s1"
  have "inv s1" "pending s1 k = Some p" using join_spec [OF assms(1,2)] by auto
  from steps_spec [OF this assms(3)] have s: "inv ?s" "pending ?s k = Some p" by auto
  from join_spec [OF s(1) assms(4)] have s2: "inv s2" "pending s2 l = Some q" "pending s2 k = Some p"
    using s(2) assms(5) by auto
  have "(p, k) \<in> set (started s2)" "(q, l) \<in> set (started s2)"
    using pending_started [OF s2(1)] s2(2,3) by blast+
  then show ?thesis
    using started_unique [OF s2(1)] assms(5) by (metis eq_key_imp_eq_value)
qed

end

end
