(* ===== verification/Validation_Scope.thy ===== *)
theory Validation_Scope
  imports Json_Text
begin

text \<open>
  \<open>packages/runtime-core/src/validation-scope.ts\<close>: the identity of a piece of validation
  work. Receipts and in-flight validations are shared by \<open>premiseValidationScopeKey\<close>, a
  digest of the normalised scope; work is superseded by the smaller
  \<open>premiseValidationSupersessionKey\<close>. SHA-256 is the argument \<open>sha\<close>, a function from the
  hashed text to its hexadecimal digest.
\<close>

record premise_validation_scope =
  vs_tenantId :: string
  vs_resourceId :: string
  vs_incarnationId :: string
  vs_versionScheme :: string
  vs_versionToken :: string
  vs_validatorId :: string
  vs_authorizationContextDigest :: string
  vs_policyDigest :: string
  vs_queryDigest :: string
  vs_scopes :: "string list"
  vs_changeSetDigest :: "string option"
  vs_causalFrontier :: "string list"

definition requiredText :: "string \<Rightarrow> string \<Rightarrow> exn + string" where
  "requiredText name v = (if validText v then Inr v else Inl (NotText name))"

definition canonicalSet :: "string \<Rightarrow> string list \<Rightarrow> exn + string list" where
  "canonicalSet name vs =
     andThen (traverse (\<lambda>(i, v). if validText v then Inr v else Inl (NotTextItem name i))
                (zip [0..<length vs] vs))
       (\<lambda>values. Inr (sort (unique values)))"

definition normalizePremiseValidationScope ::
  "premise_validation_scope \<Rightarrow> exn + premise_validation_scope" where
  "normalizePremiseValidationScope v =
     andThen (case vs_changeSetDigest v of None \<Rightarrow> Inr [] | Some d \<Rightarrow> requiredText ''changeSetDigest'' d) (\<lambda>_.
     andThen (requiredText ''tenantId'' (vs_tenantId v)) (\<lambda>tenant.
     andThen (requiredText ''resourceId'' (vs_resourceId v)) (\<lambda>resource.
     andThen (requiredText ''incarnationId'' (vs_incarnationId v)) (\<lambda>incarnation.
     andThen (requiredText ''versionScheme'' (vs_versionScheme v)) (\<lambda>scheme.
     andThen (requiredText ''versionToken'' (vs_versionToken v)) (\<lambda>token.
     andThen (requiredText ''validatorId'' (vs_validatorId v)) (\<lambda>validator.
     andThen (requiredText ''authorizationContextDigest'' (vs_authorizationContextDigest v)) (\<lambda>auth.
     andThen (requiredText ''policyDigest'' (vs_policyDigest v)) (\<lambda>policy.
     andThen (requiredText ''queryDigest'' (vs_queryDigest v)) (\<lambda>query.
     andThen (canonicalSet ''scopes'' (vs_scopes v)) (\<lambda>scopes.
     andThen (canonicalSet ''causalFrontier'' (vs_causalFrontier v)) (\<lambda>frontier.
       Inr \<lparr>vs_tenantId = tenant, vs_resourceId = resource, vs_incarnationId = incarnation,
            vs_versionScheme = scheme, vs_versionToken = token, vs_validatorId = validator,
            vs_authorizationContextDigest = auth, vs_policyDigest = policy, vs_queryDigest = query,
            vs_scopes = scopes, vs_changeSetDigest = vs_changeSetDigest v,
            vs_causalFrontier = frontier\<rparr>))))))))))))"

section \<open>Canonical texts and keys\<close>

definition scopeFields :: "premise_validation_scope \<Rightarrow> (string \<times> fieldText) list" where
  "scopeFields v =
     [(''domain'', FString ''premise-validation-scope/1''),
      (''tenantId'', FString (vs_tenantId v)),
      (''resourceId'', FString (vs_resourceId v)),
      (''incarnationId'', FString (vs_incarnationId v)),
      (''versionScheme'', FString (vs_versionScheme v)),
      (''versionToken'', FString (vs_versionToken v)),
      (''validatorId'', FString (vs_validatorId v)),
      (''authorizationContextDigest'', FString (vs_authorizationContextDigest v)),
      (''policyDigest'', FString (vs_policyDigest v)),
      (''queryDigest'', FString (vs_queryDigest v)),
      (''scopes'', FArray (vs_scopes v)),
      (''changeSetDigest'', case vs_changeSetDigest v of None \<Rightarrow> FNull | Some d \<Rightarrow> FString d),
      (''causalFrontier'', FArray (vs_causalFrontier v))]"

definition canonicalPremiseValidationScope :: "premise_validation_scope \<Rightarrow> exn + string" where
  "canonicalPremiseValidationScope v =
     andThen (normalizePremiseValidationScope v) (\<lambda>n. Inr (objectText (scopeFields n)))"

definition premiseValidationScopeKey ::
  "(string \<Rightarrow> string) \<Rightarrow> premise_validation_scope \<Rightarrow> exn + string" where
  "premiseValidationScopeKey sha v =
     andThen (canonicalPremiseValidationScope v) (\<lambda>text. Inr (''sha256:'' @ sha text))"

definition supersessionFields :: "premise_validation_scope \<Rightarrow> (string \<times> fieldText) list" where
  "supersessionFields v =
     [(''domain'', FString ''premise-validation-supersession/1''),
      (''tenantId'', FString (vs_tenantId v)),
      (''resourceId'', FString (vs_resourceId v)),
      (''incarnationId'', FString (vs_incarnationId v)),
      (''versionScheme'', FString (vs_versionScheme v)),
      (''versionToken'', FString (vs_versionToken v))]"

definition canonicalPremiseValidationSupersessionScope ::
  "premise_validation_scope \<Rightarrow> exn + string" where
  "canonicalPremiseValidationSupersessionScope v =
     andThen (normalizePremiseValidationScope v) (\<lambda>n. Inr (objectText (supersessionFields n)))"

definition premiseValidationSupersessionKey ::
  "(string \<Rightarrow> string) \<Rightarrow> premise_validation_scope \<Rightarrow> exn + string" where
  "premiseValidationSupersessionKey sha v =
     andThen (canonicalPremiseValidationSupersessionScope v) (\<lambda>text. Inr (''sha256:'' @ sha text))"

section \<open>What normalisation accepts and returns\<close>

definition validScopeValues :: "premise_validation_scope \<Rightarrow> bool" where
  "validScopeValues v =
     ((\<forall>d. vs_changeSetDigest v = Some d \<longrightarrow> validText d) \<and>
      validText (vs_tenantId v) \<and> validText (vs_resourceId v) \<and> validText (vs_incarnationId v) \<and>
      validText (vs_versionScheme v) \<and> validText (vs_versionToken v) \<and> validText (vs_validatorId v) \<and>
      validText (vs_authorizationContextDigest v) \<and> validText (vs_policyDigest v) \<and>
      validText (vs_queryDigest v) \<and> list_all validText (vs_scopes v) \<and>
      list_all validText (vs_causalFrontier v))"

definition normalForm :: "premise_validation_scope \<Rightarrow> premise_validation_scope" where
  "normalForm v = v\<lparr>vs_scopes := canonicalSort (vs_scopes v),
                    vs_causalFrontier := canonicalSort (vs_causalFrontier v)\<rparr>"

lemma canonicalSet_Inr_iff:
  "canonicalSet name vs = Inr r \<longleftrightarrow> list_all validText vs \<and> r = canonicalSort vs"
proof -
  let ?f = "\<lambda>(i, v). if validText v then Inr v else Inl (NotTextItem name i)"
  have "traverse ?f (zip is vs) = Inr ws \<longleftrightarrow> list_all validText vs \<and> ws = vs"
    if "length is = length vs" for "is" ws
    using that
    by (induction "is" vs arbitrary: ws rule: list_induct2) (auto simp: andThen_Inr_iff)
  from this [of "[0..<length vs]"] show ?thesis
    by (auto simp: canonicalSet_def canonicalSort_def andThen_Inr_iff)
qed

lemma requiredText_Inr_iff [simp]: "requiredText name v = Inr r \<longleftrightarrow> validText v \<and> r = v"
  by (auto simp: requiredText_def)

lemma normalize_Inr_iff:
  "normalizePremiseValidationScope v = Inr n \<longleftrightarrow> validScopeValues v \<and> n = normalForm v"
  by (cases "vs_changeSetDigest v")
    (auto simp: normalizePremiseValidationScope_def validScopeValues_def normalForm_def
      andThen_Inr_iff canonicalSet_Inr_iff)

lemma normalForm_valid: "validScopeValues v \<Longrightarrow> validScopeValues (normalForm v)"
  by (auto simp: validScopeValues_def normalForm_def list_all_iff)

lemma normalForm_idem [simp]: "normalForm (normalForm v) = normalForm v"
proof -
  have "canonicalSort (canonicalSort xs) = canonicalSort xs" for xs
    by (simp add: canonicalSort_cong)
  then show ?thesis by (simp add: normalForm_def)
qed

lemma scopeFields_inject: "scopeFields v = scopeFields w \<longleftrightarrow> v = w"
  by (cases v; cases w) (auto simp: scopeFields_def split: option.splits)

lemma canonical_Inr_iff:
  "canonicalPremiseValidationScope v = Inr t \<longleftrightarrow>
     validScopeValues v \<and> t = objectText (scopeFields (normalForm v))"
  by (auto simp: canonicalPremiseValidationScope_def andThen_Inr_iff normalize_Inr_iff)

lemma key_Inr_iff:
  "premiseValidationScopeKey sha v = Inr k \<longleftrightarrow>
     validScopeValues v \<and> k = ''sha256:'' @ sha (objectText (scopeFields (normalForm v)))"
  by (auto simp: premiseValidationScopeKey_def andThen_Inr_iff canonical_Inr_iff)

lemma supersessionKey_Inr_iff:
  "premiseValidationSupersessionKey sha v = Inr k \<longleftrightarrow>
     validScopeValues v \<and> k = ''sha256:'' @ sha (objectText (supersessionFields (normalForm v)))"
  by (auto simp: premiseValidationSupersessionKey_def canonicalPremiseValidationSupersessionScope_def
      andThen_Inr_iff normalize_Inr_iff)

section \<open>The keys are identities\<close>

lemma normalForm_eq_iff:
  "normalForm v = normalForm w \<longleftrightarrow>
     v\<lparr>vs_scopes := [], vs_causalFrontier := []\<rparr> = w\<lparr>vs_scopes := [], vs_causalFrontier := []\<rparr> \<and>
     set (vs_scopes v) = set (vs_scopes w) \<and> set (vs_causalFrontier v) = set (vs_causalFrontier w)"
  by (cases v; cases w) (auto simp: normalForm_def canonicalSort_cong)

lemma validationScopeKey_eq_iff:
  "inj sha \<Longrightarrow> premiseValidationScopeKey sha v = Inr k \<Longrightarrow> premiseValidationScopeKey sha w = Inr l \<Longrightarrow>
     k = l \<longleftrightarrow> normalForm v = normalForm w"
  by (auto simp: key_Inr_iff inj_eq objectText_inject scopeFields_inject)

definition sampleScope :: premise_validation_scope where
  "sampleScope = \<lparr>vs_tenantId = ''t'', vs_resourceId = ''r'', vs_incarnationId = ''i'',
     vs_versionScheme = ''etag'', vs_versionToken = ''v1'', vs_validatorId = ''val'',
     vs_authorizationContextDigest = ''a'', vs_policyDigest = ''p'', vs_queryDigest = ''q'',
     vs_scopes = [''b'', ''a''], vs_changeSetDigest = None, vs_causalFrontier = [''f'']\<rparr>"

lemma validText_small [guard_defs]: "validText s \<longleftrightarrow> s \<noteq> [] \<and> trim s = s"
  by (simp add: validText_def)

lemma sampleScope_valid: "validScopeValues sampleScope" "validScopeValues (sampleScope\<lparr>vs_scopes := [''a'', ''b'', ''a'']\<rparr>)"
  by (simp_all add: validScopeValues_def sampleScope_def guard_defs trim_def js_space_def)

text \<open>
  C33: With a collision-free digest, two scopes have the same validation key exactly when they
  agree on every field, their \<open>scopes\<close> and \<open>causalFrontier\<close> compared as sets: nothing
  narrower can be shared, and order or repetition in the lists does not split work.
\<close>

theorem scope_key_identity:
  assumes "inj sha"
    and "premiseValidationScopeKey sha v = Inr k"
    and "premiseValidationScopeKey sha w = Inr l"
  shows "k = l \<longleftrightarrow>
     v\<lparr>vs_scopes := [], vs_causalFrontier := []\<rparr> = w\<lparr>vs_scopes := [], vs_causalFrontier := []\<rparr> \<and>
     set (vs_scopes v) = set (vs_scopes w) \<and> set (vs_causalFrontier v) = set (vs_causalFrontier w)"
  using validationScopeKey_eq_iff [OF assms] by (simp add: normalForm_eq_iff)

theorem scope_key_identity_witness:
  "\<exists>k. premiseValidationScopeKey id sampleScope = Inr k \<and>
       premiseValidationScopeKey id (sampleScope\<lparr>vs_scopes := [''a'', ''b'', ''a'']\<rparr>) = Inr k"
proof -
  let ?w = "sampleScope\<lparr>vs_scopes := [''a'', ''b'', ''a'']\<rparr>"
  obtain k l where k: "premiseValidationScopeKey id sampleScope = Inr k"
    and l: "premiseValidationScopeKey id ?w = Inr l"
    using sampleScope_valid by (simp add: key_Inr_iff)
  have "k = l"
    using scope_key_identity [OF inj_on_id k l] by (simp add: sampleScope_def) blast
  with k l show ?thesis by blast
qed

text \<open>
  Supersession looks at the resource version only: two scopes fence each other's work as
  one generation exactly when tenant, resource, incarnation, scheme and version token agree,
  so scopes that share a validation key always share the supersession key.
\<close>

theorem supersession_key_identity:
  assumes "inj sha"
    and "premiseValidationSupersessionKey sha v = Inr k"
    and "premiseValidationSupersessionKey sha w = Inr l"
  shows "(k = l \<longleftrightarrow>
     vs_tenantId v = vs_tenantId w \<and> vs_resourceId v = vs_resourceId w \<and>
     vs_incarnationId v = vs_incarnationId w \<and> vs_versionScheme v = vs_versionScheme w \<and>
     vs_versionToken v = vs_versionToken w) \<and>
    (premiseValidationScopeKey sha v = premiseValidationScopeKey sha w \<longrightarrow> k = l)"
proof -
  have valid: "validScopeValues v" "validScopeValues w"
    using assms by (simp_all add: supersessionKey_Inr_iff)
  have kl: "k = l \<longleftrightarrow> supersessionFields (normalForm v) = supersessionFields (normalForm w)"
    using assms by (auto simp: supersessionKey_Inr_iff inj_eq objectText_inject)
  have "normalForm v = normalForm w"
    if same: "premiseValidationScopeKey sha v = premiseValidationScopeKey sha w"
  proof -
    obtain m where "premiseValidationScopeKey sha v = Inr m" "premiseValidationScopeKey sha w = Inr m"
      using valid same by (metis key_Inr_iff)
    then show ?thesis using validationScopeKey_eq_iff [OF assms(1)] by blast
  qed
  with kl have "premiseValidationScopeKey sha v = premiseValidationScopeKey sha w \<longrightarrow> k = l"
    by simp
  with kl show ?thesis
    by (simp add: supersessionFields_def normalForm_def)
qed

theorem supersession_key_identity_witness:
  "\<exists>k. premiseValidationSupersessionKey id sampleScope = Inr k \<and>
       premiseValidationSupersessionKey id (sampleScope\<lparr>vs_scopes := [''a'', ''b'', ''a'']\<rparr>) = Inr k"
proof -
  let ?w = "sampleScope\<lparr>vs_scopes := [''a'', ''b'', ''a'']\<rparr>"
  obtain k l where k: "premiseValidationSupersessionKey id sampleScope = Inr k"
    and l: "premiseValidationSupersessionKey id ?w = Inr l"
    using sampleScope_valid by (simp add: supersessionKey_Inr_iff)
  have "k = l"
    using supersession_key_identity [OF inj_on_id k l] by (simp add: sampleScope_def)
  with k l show ?thesis by blast
qed

end
