(* ===== verification/Validation_Lease.thy ===== *)
theory Validation_Lease
  imports Json_Text
begin

text \<open>
  \<open>packages/runtime-core/src/validation-lease.ts\<close>: fenced leases on a resource of a tenant.
  \<open>InMemoryValidationLeaseStore\<close> is the record \<open>lease_store\<close> with the operations
  \<open>store_*\<close>; an operation returns what it returned or threw, and the store it left behind.
  \<open>ValidationLeaseManager\<close> is the record \<open>lease_manager\<close>, over any store: the four
  operations of \<open>ValidationLeaseStore\<close> are the record \<open>lease_store_ops\<close>. The clock of the
  manager is an argument of each call: \<open>None\<close> when the clock function throws.
\<close>

section \<open>Data\<close>

record lease_scope =
  ls_tenantId :: string
  ls_resourceId :: string

record lease_holder = lease_scope +
  lh_owner :: string
  lh_leaseId :: string

record validation_lease = lease_holder +
  vl_fencingToken :: jsnum
  vl_acquiredAt :: jsnum
  vl_renewedAt :: jsnum
  vl_expiresAt :: jsnum

datatype lease_reason = OK | INVALID_INPUT | CLOCK_UNAVAILABLE | CLOCK_REGRESSION
  | STORE_UNAVAILABLE | LEASE_ACTIVE | LEASE_MISSING | LEASE_EXPIRED | OWNER_MISMATCH
  | LEASE_ID_MISMATCH | STALE_FENCING_TOKEN

datatype lease_decision_kind = ACQUIRED | ALREADY_HELD | CONTENDED | RENEWED | RELEASED | VALID
  | REJECTED

record lease_decision =
  ld_accepted :: bool
  ld_decision :: lease_decision_kind
  ld_reason :: lease_reason
  ld_lease :: "validation_lease option"

record acquire_request = lease_holder +
  aq_expiresAt :: jsnum

record release_request = lease_holder +
  rr_fencingToken :: jsnum

record renew_request = release_request +
  rn_expiresAt :: jsnum

datatype store_acquire_result = Acquired validation_lease | Held validation_lease
  | AcquireRejected lease_reason

datatype store_mutation_result = Updated validation_lease | Released
  | MutationRejected lease_reason

datatype store_validation_result = StillValid validation_lease | ValidationRejected lease_reason

record acquire_input = lease_holder +
  ai_durationMs :: "jsnum option"

record renew_input = release_request +
  ri_durationMs :: "jsnum option"

section \<open>Guards\<close>

definition validScope :: "'a lease_scope_scheme \<Rightarrow> bool" where
  "validScope s = (validText (ls_tenantId s) \<and> validText (ls_resourceId s))"

definition validHolder :: "'a lease_holder_scheme \<Rightarrow> bool" where
  "validHolder s = (validScope s \<and> validText (lh_owner s) \<and> validText (lh_leaseId s))"

definition validLeaseForScope ::
  "validation_lease \<Rightarrow> 'a lease_scope_scheme \<Rightarrow> int \<Rightarrow> bool" where
  "validLeaseForScope l s now =
     (ls_tenantId l = ls_tenantId s \<and> ls_resourceId l = ls_resourceId s \<and>
      validText (lh_owner l) \<and> validText (lh_leaseId l) \<and>
      validToken (vl_fencingToken l) \<and> validTime (vl_acquiredAt l) \<and>
      validTime (vl_renewedAt l) \<and> validTime (vl_expiresAt l) \<and>
      int_of (vl_acquiredAt l) \<le> int_of (vl_renewedAt l) \<and>
      int_of (vl_renewedAt l) \<le> now \<and> int_of (vl_expiresAt l) > now)"

definition rejected :: "lease_reason \<Rightarrow> lease_decision" where
  "rejected r = \<lparr>ld_accepted = False, ld_decision = REJECTED, ld_reason = r, ld_lease = None\<rparr>"

definition successful :: "lease_decision_kind \<Rightarrow> validation_lease option \<Rightarrow> lease_decision" where
  "successful d l = \<lparr>ld_accepted = True, ld_decision = d, ld_reason = OK, ld_lease = l\<rparr>"

definition scopeKey :: "'a lease_scope_scheme \<Rightarrow> string" where
  "scopeKey s = stringArray [ls_tenantId s, ls_resourceId s]"

definition storeReason :: "lease_reason \<Rightarrow> lease_reason" where
  "storeReason r =
     (if r \<in> {INVALID_INPUT, LEASE_MISSING, LEASE_EXPIRED, OWNER_MISMATCH, LEASE_ID_MISMATCH,
              STALE_FENCING_TOKEN} then r else STORE_UNAVAILABLE)"

definition validAcquireRequest :: "acquire_request \<Rightarrow> int \<Rightarrow> bool" where
  "validAcquireRequest r now =
     (validHolder r \<and> validTime (aq_expiresAt r) \<and> int_of (aq_expiresAt r) > now)"

definition validReleaseRequest :: "'a release_request_scheme \<Rightarrow> bool" where
  "validReleaseRequest r = (validHolder r \<and> validToken (rr_fencingToken r))"

definition validRenewRequest :: "renew_request \<Rightarrow> int \<Rightarrow> bool" where
  "validRenewRequest r now =
     (validReleaseRequest r \<and> validTime (rn_expiresAt r) \<and> int_of (rn_expiresAt r) > now)"

definition identityReason ::
  "validation_lease \<Rightarrow> 'a release_request_scheme \<Rightarrow> lease_reason option" where
  "identityReason current r =
     (if vl_fencingToken current \<noteq> rr_fencingToken r then Some STALE_FENCING_TOKEN
      else if lh_owner current \<noteq> lh_owner r then Some OWNER_MISMATCH
      else if lh_leaseId current \<noteq> lh_leaseId r then Some LEASE_ID_MISMATCH
      else None)"

section \<open>The in-memory store\<close>

record lease_store =
  leases :: "(string, validation_lease) omap"
  fencingCounters :: "(string, int) omap"
  lastObservedAt :: "int option"

definition emptyStore :: lease_store where
  "emptyStore = \<lparr>leases = [], fencingCounters = [], lastObservedAt = None\<rparr>"

definition observeClock :: "lease_store \<Rightarrow> jsnum \<Rightarrow> exn + lease_store" where
  "observeClock st now =
     (if \<not> validTime now then Inl (Failure ''invalid lease clock'')
      else if (case lastObservedAt st of None \<Rightarrow> False | Some t \<Rightarrow> int_of now < t)
        then Inl (Failure ''lease clock regression'')
      else Inr (st\<lparr>lastObservedAt := Some (int_of now)\<rparr>))"

definition active :: "lease_store \<Rightarrow> string \<Rightarrow> int \<Rightarrow> validation_lease option \<times> lease_store" where
  "active st key now =
     (case map_of (leases st) key of
        None \<Rightarrow> (None, st)
      | Some current \<Rightarrow>
          if int_of (vl_expiresAt current) \<le> now
          then (None, st\<lparr>leases := omap_delete key (leases st)\<rparr>)
          else (Some current, st))"

definition nextToken :: "lease_store \<Rightarrow> string \<Rightarrow> (exn + int) \<times> lease_store" where
  "nextToken st key =
     (let previous = nullish (map_of (fencingCounters st) key) 0 in
      if previous \<ge> MAX_SAFE_INTEGER then (Inl (Failure ''fencing token exhausted''), st)
      else (Inr (previous + 1),
            st\<lparr>fencingCounters := omap_set key (previous + 1) (fencingCounters st)\<rparr>))"

definition store_acquire ::
  "lease_store \<Rightarrow> acquire_request \<Rightarrow> jsnum \<Rightarrow> (exn + store_acquire_result) \<times> lease_store" where
  "store_acquire st0 r now =
     (case observeClock st0 now of Inl e \<Rightarrow> (Inl e, st0) | Inr st1 \<Rightarrow>
      if \<not> validAcquireRequest r (int_of now) then (Inr (AcquireRejected INVALID_INPUT), st1)
      else
        (let key = scopeKey r in
         case active st1 key (int_of now) of
           (Some current, st2) \<Rightarrow> (Inr (Held current), st2)
         | (None, st2) \<Rightarrow>
             (case nextToken st2 key of
                (Inl e, st3) \<Rightarrow> (Inl e, st3)
              | (Inr token, st3) \<Rightarrow>
                  (let lease = \<lparr>ls_tenantId = ls_tenantId r, ls_resourceId = ls_resourceId r,
                       lh_owner = lh_owner r, lh_leaseId = lh_leaseId r,
                       vl_fencingToken = Integral token, vl_acquiredAt = now, vl_renewedAt = now,
                       vl_expiresAt = aq_expiresAt r\<rparr>
                   in (Inr (Acquired lease), st3\<lparr>leases := omap_set key lease (leases st3)\<rparr>)))))"

definition store_renew ::
  "lease_store \<Rightarrow> renew_request \<Rightarrow> jsnum \<Rightarrow> (exn + store_mutation_result) \<times> lease_store" where
  "store_renew st0 r now =
     (case observeClock st0 now of Inl e \<Rightarrow> (Inl e, st0) | Inr st1 \<Rightarrow>
      if \<not> validRenewRequest r (int_of now) then (Inr (MutationRejected INVALID_INPUT), st1)
      else
        (let key = scopeKey r in
         case map_of (leases st1) key of
           None \<Rightarrow> (Inr (MutationRejected LEASE_MISSING), st1)
         | Some current \<Rightarrow>
             if int_of (vl_expiresAt current) \<le> int_of now
             then (Inr (MutationRejected LEASE_EXPIRED),
                   st1\<lparr>leases := omap_delete key (leases st1)\<rparr>)
             else (case identityReason current r of
                Some reason \<Rightarrow> (Inr (MutationRejected reason), st1)
              | None \<Rightarrow>
                  (let lease = current\<lparr>vl_renewedAt := now, vl_expiresAt := rn_expiresAt r\<rparr>
                   in (Inr (Updated lease), st1\<lparr>leases := omap_set key lease (leases st1)\<rparr>)))))"

definition store_release ::
  "lease_store \<Rightarrow> release_request \<Rightarrow> jsnum \<Rightarrow> (exn + store_mutation_result) \<times> lease_store" where
  "store_release st0 r now =
     (case observeClock st0 now of Inl e \<Rightarrow> (Inl e, st0) | Inr st1 \<Rightarrow>
      if \<not> validReleaseRequest r then (Inr (MutationRejected INVALID_INPUT), st1)
      else
        (let key = scopeKey r in
         case map_of (leases st1) key of
           None \<Rightarrow> (Inr (MutationRejected LEASE_MISSING), st1)
         | Some current \<Rightarrow>
             if int_of (vl_expiresAt current) \<le> int_of now
             then (Inr (MutationRejected LEASE_EXPIRED),
                   st1\<lparr>leases := omap_delete key (leases st1)\<rparr>)
             else (case identityReason current r of
                Some reason \<Rightarrow> (Inr (MutationRejected reason), st1)
              | None \<Rightarrow> (Inr Released, st1\<lparr>leases := omap_delete key (leases st1)\<rparr>))))"

definition store_validate ::
  "lease_store \<Rightarrow> release_request \<Rightarrow> jsnum \<Rightarrow> (exn + store_validation_result) \<times> lease_store" where
  "store_validate st0 r now =
     (case observeClock st0 now of Inl e \<Rightarrow> (Inl e, st0) | Inr st1 \<Rightarrow>
      if \<not> validReleaseRequest r then (Inr (ValidationRejected INVALID_INPUT), st1)
      else
        (let key = scopeKey r in
         case map_of (leases st1) key of
           None \<Rightarrow> (Inr (ValidationRejected LEASE_MISSING), st1)
         | Some current \<Rightarrow>
             if int_of (vl_expiresAt current) \<le> int_of now
             then (Inr (ValidationRejected LEASE_EXPIRED),
                   st1\<lparr>leases := omap_delete key (leases st1)\<rparr>)
             else (case identityReason current r of
                Some reason \<Rightarrow> (Inr (ValidationRejected reason), st1)
              | None \<Rightarrow> (Inr (StillValid current), st1))))"

section \<open>The manager\<close>

record 's lease_store_ops =
  op_acquire :: "'s \<Rightarrow> acquire_request \<Rightarrow> jsnum \<Rightarrow> (exn + store_acquire_result) \<times> 's"
  op_renew :: "'s \<Rightarrow> renew_request \<Rightarrow> jsnum \<Rightarrow> (exn + store_mutation_result) \<times> 's"
  op_release :: "'s \<Rightarrow> release_request \<Rightarrow> jsnum \<Rightarrow> (exn + store_mutation_result) \<times> 's"
  op_validate :: "'s \<Rightarrow> release_request \<Rightarrow> jsnum \<Rightarrow> (exn + store_validation_result) \<times> 's"

definition inMemoryOps :: "lease_store lease_store_ops" where
  "inMemoryOps = \<lparr>op_acquire = store_acquire, op_renew = store_renew,
     op_release = store_release, op_validate = store_validate\<rparr>"

record 's lease_manager =
  m_store :: 's
  m_defaultLeaseDurationMs :: jsnum
  m_lastObservedAt :: "int option"

definition newManager :: "'s \<Rightarrow> jsnum option \<Rightarrow> exn + 's lease_manager" where
  "newManager store leaseDurationMs =
     (let d = nullish leaseDurationMs (Integral 30000) in
      if validDuration d
      then Inr \<lparr>m_store = store, m_defaultLeaseDurationMs = d, m_lastObservedAt = None\<rparr>
      else Inl (Failure ''leaseDurationMs must be a positive safe integer''))"

definition validDurationInput :: "jsnum option \<Rightarrow> bool" where
  "validDurationInput d = (case d of None \<Rightarrow> True | Some x \<Rightarrow> validDuration x)"

definition validAcquireInput :: "acquire_input \<Rightarrow> bool" where
  "validAcquireInput i = (validHolder i \<and> validDurationInput (ai_durationMs i))"

definition validRenewInput :: "renew_input \<Rightarrow> bool" where
  "validRenewInput i =
     (validHolder i \<and> validToken (rr_fencingToken i) \<and> validDurationInput (ri_durationMs i))"

definition validMutationInput :: "release_request \<Rightarrow> bool" where
  "validMutationInput i = (validHolder i \<and> validToken (rr_fencingToken i))"

definition durationOf :: "'s lease_manager \<Rightarrow> jsnum option \<Rightarrow> int option" where
  "durationOf m d =
     (let v = nullish d (m_defaultLeaseDurationMs m) in
      if validDuration v then Some (int_of v) else None)"

definition expiry :: "int \<Rightarrow> int \<Rightarrow> int option" where
  "expiry now d = (if now \<le> MAX_SAFE_INTEGER - d then Some (now + d) else None)"

definition readClock ::
  "'s lease_manager \<Rightarrow> jsnum option \<Rightarrow> (lease_reason + int) \<times> 's lease_manager" where
  "readClock m clock =
     (case clock of None \<Rightarrow> (Inl CLOCK_UNAVAILABLE, m)
      | Some v \<Rightarrow>
          if \<not> validTime v then (Inl CLOCK_UNAVAILABLE, m)
          else if (case m_lastObservedAt m of None \<Rightarrow> False | Some t \<Rightarrow> int_of v < t) then (Inl CLOCK_REGRESSION, m)
          else (Inr (int_of v), m\<lparr>m_lastObservedAt := Some (int_of v)\<rparr>))"

definition manager_acquire ::
  "'s lease_store_ops \<Rightarrow> 's lease_manager \<Rightarrow> jsnum option \<Rightarrow> acquire_input
     \<Rightarrow> lease_decision \<times> 's lease_manager" where
  "manager_acquire ops m0 clock i =
     (if \<not> validAcquireInput i then (rejected INVALID_INPUT, m0)
      else case readClock m0 clock of (Inl reason, m1) \<Rightarrow> (rejected reason, m1)
      | (Inr at, m1) \<Rightarrow>
     (case durationOf m1 (ai_durationMs i) of None \<Rightarrow> (rejected INVALID_INPUT, m1)
      | Some d \<Rightarrow>
     (case expiry at d of None \<Rightarrow> (rejected INVALID_INPUT, m1)
      | Some expiresAt \<Rightarrow>
     (case op_acquire ops (m_store m1)
         \<lparr>ls_tenantId = ls_tenantId i, ls_resourceId = ls_resourceId i, lh_owner = lh_owner i,
          lh_leaseId = lh_leaseId i, aq_expiresAt = Integral expiresAt\<rparr> (Integral at) of
       (result, st) \<Rightarrow>
         (case result of
            Inl e \<Rightarrow> rejected STORE_UNAVAILABLE
          | Inr (Acquired l) \<Rightarrow>
              if \<not> validLeaseForScope l i at then rejected STORE_UNAVAILABLE
              else successful ACQUIRED (Some l)
          | Inr (Held l) \<Rightarrow>
              if \<not> validLeaseForScope l i at then rejected STORE_UNAVAILABLE
              else if lh_owner l = lh_owner i \<and> lh_leaseId l = lh_leaseId i
                then \<lparr>ld_accepted = False, ld_decision = ALREADY_HELD, ld_reason = LEASE_ACTIVE,
                      ld_lease = None\<rparr>
              else \<lparr>ld_accepted = False, ld_decision = CONTENDED, ld_reason = LEASE_ACTIVE,
                      ld_lease = None\<rparr>
          | Inr (AcquireRejected r) \<Rightarrow> rejected (storeReason r),
          m1\<lparr>m_store := st\<rparr>)))))"

definition manager_renew ::
  "'s lease_store_ops \<Rightarrow> 's lease_manager \<Rightarrow> jsnum option \<Rightarrow> renew_input
     \<Rightarrow> lease_decision \<times> 's lease_manager" where
  "manager_renew ops m0 clock i =
     (if \<not> validRenewInput i then (rejected INVALID_INPUT, m0)
      else case readClock m0 clock of (Inl reason, m1) \<Rightarrow> (rejected reason, m1)
      | (Inr at, m1) \<Rightarrow>
     (case durationOf m1 (ri_durationMs i) of None \<Rightarrow> (rejected INVALID_INPUT, m1)
      | Some d \<Rightarrow>
     (case expiry at d of None \<Rightarrow> (rejected INVALID_INPUT, m1)
      | Some expiresAt \<Rightarrow>
     (case op_renew ops (m_store m1)
         \<lparr>ls_tenantId = ls_tenantId i, ls_resourceId = ls_resourceId i, lh_owner = lh_owner i,
          lh_leaseId = lh_leaseId i, rr_fencingToken = rr_fencingToken i,
          rn_expiresAt = Integral expiresAt\<rparr> (Integral at) of
       (result, st) \<Rightarrow>
         (case result of
            Inl e \<Rightarrow> rejected STORE_UNAVAILABLE
          | Inr (Updated l) \<Rightarrow>
              if \<not> validLeaseForScope l i at then rejected STORE_UNAVAILABLE
              else successful RENEWED (Some l)
          | Inr Released \<Rightarrow> rejected STORE_UNAVAILABLE
          | Inr (MutationRejected r) \<Rightarrow> rejected (storeReason r),
          m1\<lparr>m_store := st\<rparr>)))))"

definition manager_release ::
  "'s lease_store_ops \<Rightarrow> 's lease_manager \<Rightarrow> jsnum option \<Rightarrow> release_request
     \<Rightarrow> lease_decision \<times> 's lease_manager" where
  "manager_release ops m0 clock i =
     (if \<not> validMutationInput i then (rejected INVALID_INPUT, m0)
      else case readClock m0 clock of (Inl reason, m1) \<Rightarrow> (rejected reason, m1)
      | (Inr at, m1) \<Rightarrow>
     (case op_release ops (m_store m1) i (Integral at) of
       (result, st) \<Rightarrow>
         (case result of
            Inl e \<Rightarrow> rejected STORE_UNAVAILABLE
          | Inr Released \<Rightarrow> successful RELEASED None
          | Inr (Updated l) \<Rightarrow> rejected STORE_UNAVAILABLE
          | Inr (MutationRejected r) \<Rightarrow> rejected (storeReason r),
          m1\<lparr>m_store := st\<rparr>)))"

definition manager_validate ::
  "'s lease_store_ops \<Rightarrow> 's lease_manager \<Rightarrow> jsnum option \<Rightarrow> release_request
     \<Rightarrow> lease_decision \<times> 's lease_manager" where
  "manager_validate ops m0 clock i =
     (if \<not> validMutationInput i then (rejected INVALID_INPUT, m0)
      else case readClock m0 clock of (Inl reason, m1) \<Rightarrow> (rejected reason, m1)
      | (Inr at, m1) \<Rightarrow>
     (case op_validate ops (m_store m1) i (Integral at) of
       (result, st) \<Rightarrow>
         (case result of
            Inl e \<Rightarrow> rejected STORE_UNAVAILABLE
          | Inr (StillValid l) \<Rightarrow>
              if \<not> validLeaseForScope l i at then rejected STORE_UNAVAILABLE
              else successful VALID (Some l)
          | Inr (ValidationRejected r) \<Rightarrow> rejected (storeReason r),
          m1\<lparr>m_store := st\<rparr>)))"

section \<open>Runs of a manager\<close>

datatype lease_call = CallAcquire acquire_input | CallRenew renew_input
  | CallRelease release_request | CallValidate release_request


fun manager_step ::
  "'s lease_store_ops \<Rightarrow> 's lease_manager \<Rightarrow> jsnum option \<Rightarrow> lease_call
     \<Rightarrow> lease_decision \<times> 's lease_manager" where
  "manager_step ops m clock (CallAcquire i) = manager_acquire ops m clock i"
| "manager_step ops m clock (CallRenew i) = manager_renew ops m clock i"
| "manager_step ops m clock (CallRelease i) = manager_release ops m clock i"
| "manager_step ops m clock (CallValidate i) = manager_validate ops m clock i"

fun manager_run ::
  "'s lease_store_ops \<Rightarrow> 's lease_manager \<Rightarrow> (jsnum option \<times> lease_call) list
     \<Rightarrow> lease_decision list \<times> 's lease_manager" where
  "manager_run ops m [] = ([], m)"
| "manager_run ops m ((clock, c) # cs) =
     (case manager_step ops m clock c of (d, m1) \<Rightarrow>
      case manager_run ops m1 cs of (ds, m2) \<Rightarrow> (d # ds, m2))"

text \<open>The tokens of the leases granted on one key, in the order of the run.\<close>

definition grantedToken :: "string \<Rightarrow> lease_decision \<Rightarrow> int list" where
  "grantedToken k d =
     (case ld_lease d of
        Some l \<Rightarrow> if ld_decision d = ACQUIRED \<and> scopeKey l = k then [int_of (vl_fencingToken l)] else []
      | None \<Rightarrow> [])"

definition grantedTokens :: "string \<Rightarrow> lease_decision list \<Rightarrow> int list" where
  "grantedTokens k ds = concat (map (grantedToken k) ds)"

lemmas decision_defs = rejected_def successful_def

lemmas manager_defs = manager_acquire_def manager_renew_def manager_release_def
  manager_validate_def readClock_def durationOf_def expiry_def

lemma grantedTokens_simps [simp]:
  "grantedTokens k [] = []" "grantedTokens k (d # ds) = grantedToken k d @ grantedTokens k ds"
  by (simp_all add: grantedTokens_def)

lemma scopeKey_eq_iff:
  "scopeKey s = scopeKey t \<longleftrightarrow> ls_tenantId s = ls_tenantId t \<and> ls_resourceId s = ls_resourceId t"
  by (auto simp: scopeKey_def simp del: stringArray.simps)

lemma scopeKey_truncate:
  "scopeKey \<lparr>ls_tenantId = ls_tenantId i, ls_resourceId = ls_resourceId i, \<dots> = x\<rparr> = scopeKey i"
  by (simp add: scopeKey_def)

lemma validLease_scopeKey: "validLeaseForScope l s now \<Longrightarrow> scopeKey l = scopeKey s"
  by (simp add: validLeaseForScope_def scopeKey_eq_iff)

lemma newManager_store: "newManager st d = Inr m \<Longrightarrow> m_store m = st \<and> m_lastObservedAt m = None"
  by (auto simp: newManager_def Let_def split: if_splits)

lemma readClock_Inr_iff:
  "readClock m clock = (Inr at, m1) \<longleftrightarrow>
     (\<exists>v. clock = Some v \<and> validTime v \<and> at = int_of v \<and>
        (\<forall>t. m_lastObservedAt m = Some t \<longrightarrow> t \<le> at) \<and> m1 = m\<lparr>m_lastObservedAt := Some at\<rparr>)"
  by (cases "m_lastObservedAt m"; cases clock) (auto simp: readClock_def)

lemma readClock_store: "m_store (snd (readClock m clock)) = m_store m"
  by (auto simp: readClock_def split: option.splits)

text \<open>
  What a manager call does to the store: nothing, or one operation of the store at a valid
  clock reading; and what an accepted decision says about that operation.
\<close>

definition storeEffect :: "'s lease_store_ops \<Rightarrow> 's \<Rightarrow> 's \<Rightarrow> bool" where
  "storeEffect ops s s' =
     (s' = s \<or> (\<exists>r now. s' = snd (op_acquire ops s r now)) \<or> (\<exists>r now. s' = snd (op_renew ops s r now)) \<or>
      (\<exists>r now. s' = snd (op_release ops s r now)) \<or> (\<exists>r now. s' = snd (op_validate ops s r now)))"

lemma readClock_frame:
  "readClock m clock = (r, m1) \<Longrightarrow>
     m_store m1 = m_store m \<and> m_defaultLeaseDurationMs m1 = m_defaultLeaseDurationMs m"
  by (auto simp: readClock_def split: option.splits if_splits)

lemma readClock_Integral:
  "readClock m clock = (Inr at, m1) \<Longrightarrow> clock = Some (Integral at) \<and> 0 \<le> at \<and> at \<le> MAX_SAFE_INTEGER"
  by (auto simp: readClock_Inr_iff validTime_def dest: isSafeInteger_Integral) (metis isSafeInteger.elims(2) int_of.simps(1) abs_le_iff)

lemma readClock_ok:
  "readClock m clock = (Inr at, m1) \<Longrightarrow> clock = Some (Integral at) \<and> m_store m1 = m_store m"
  using readClock_Integral readClock_frame by blast

lemma manager_acquire_store:
  "m_store (snd (manager_acquire ops m clock i)) = m_store m \<or>
   (\<exists>at r. clock = Some (Integral at) \<and> scopeKey r = scopeKey i \<and>
      m_store (snd (manager_acquire ops m clock i)) = snd (op_acquire ops (m_store m) r (Integral at)))"
  unfolding manager_acquire_def
  by (auto split: prod.splits sum.splits option.splits dest: readClock_frame readClock_ok)
    (metis readClock_ok scopeKey_truncate snd_conv)

lemma manager_renew_store:
  "m_store (snd (manager_renew ops m clock i)) = m_store m \<or>
   (\<exists>at r. clock = Some (Integral at) \<and> scopeKey r = scopeKey i \<and> rr_fencingToken r = rr_fencingToken i \<and>
      m_store (snd (manager_renew ops m clock i)) = snd (op_renew ops (m_store m) r (Integral at)))"
  unfolding manager_renew_def
  by (auto split: prod.splits sum.splits option.splits dest: readClock_frame readClock_ok)
    (metis readClock_ok scopeKey_truncate snd_conv release_request.select_convs(1))

lemma manager_release_store:
  "m_store (snd (manager_release ops m clock i)) = m_store m \<or>
   (\<exists>at. clock = Some (Integral at) \<and>
      m_store (snd (manager_release ops m clock i)) = snd (op_release ops (m_store m) i (Integral at)))"
  unfolding manager_release_def
  by (auto split: prod.splits sum.splits option.splits dest: readClock_frame readClock_ok)

lemma manager_validate_store:
  "m_store (snd (manager_validate ops m clock i)) = m_store m \<or>
   (\<exists>at. clock = Some (Integral at) \<and>
      m_store (snd (manager_validate ops m clock i)) = snd (op_validate ops (m_store m) i (Integral at)))"
  unfolding manager_validate_def
  by (auto split: prod.splits sum.splits option.splits dest: readClock_frame readClock_ok)

lemma manager_step_effect: "storeEffect ops (m_store m) (m_store (snd (manager_step ops m clock c)))"
  using manager_acquire_store [of ops m clock] manager_renew_store [of ops m clock]
    manager_release_store [of ops m clock] manager_validate_store [of ops m clock]
  unfolding storeEffect_def by (cases c) (simp_all, metis+)

lemma manager_acquire_decision:
  assumes "manager_acquire ops m clock i = (d, m')"
  shows "(\<not> ld_accepted d \<and> ld_lease d = None \<and> ld_decision d \<in> {REJECTED, ALREADY_HELD, CONTENDED}) \<or>
    (\<exists>r at l. clock = Some (Integral at) \<and> scopeKey r = scopeKey i \<and>
       op_acquire ops (m_store m) r (Integral at) = (Inr (Acquired l), m_store m') \<and>
       validLeaseForScope l i at \<and> d = successful ACQUIRED (Some l))"
proof (cases "ld_accepted d")
  case False
  with assms show ?thesis
    by (auto simp: manager_acquire_def decision_defs
        split: if_splits prod.splits sum.splits option.splits store_acquire_result.splits)
next
  case True
  with assms show ?thesis
    by (auto simp: manager_acquire_def decision_defs
        split: if_splits prod.splits sum.splits option.splits store_acquire_result.splits
        dest: readClock_ok intro!: exI scopeKey_truncate)
qed

lemma manager_renew_decision:
  assumes "manager_renew ops m clock i = (d, m')"
  shows "(\<not> ld_accepted d \<and> ld_lease d = None \<and> ld_decision d = REJECTED) \<or>
    (\<exists>r at l. clock = Some (Integral at) \<and> scopeKey r = scopeKey i \<and>
       rr_fencingToken r = rr_fencingToken i \<and>
       op_renew ops (m_store m) r (Integral at) = (Inr (Updated l), m_store m') \<and>
       validLeaseForScope l i at \<and> d = successful RENEWED (Some l))"
proof (cases "ld_accepted d")
  case False
  with assms show ?thesis
    by (auto simp: manager_renew_def decision_defs
        split: if_splits prod.splits sum.splits option.splits store_mutation_result.splits)
next
  case True
  with assms show ?thesis
    by (auto simp: manager_renew_def decision_defs
        split: if_splits prod.splits sum.splits option.splits store_mutation_result.splits
        dest: readClock_ok intro!: exI scopeKey_truncate)
qed

lemma manager_release_decision:
  assumes "manager_release ops m clock i = (d, m')"
  shows "(\<not> ld_accepted d \<and> ld_lease d = None \<and> ld_decision d = REJECTED) \<or>
    (\<exists>at. clock = Some (Integral at) \<and>
       op_release ops (m_store m) i (Integral at) = (Inr Released, m_store m') \<and>
       d = successful RELEASED None)"
proof (cases "ld_accepted d")
  case False
  with assms show ?thesis
    by (auto simp: manager_release_def decision_defs
        split: if_splits prod.splits sum.splits option.splits store_mutation_result.splits)
next
  case True
  with assms show ?thesis
    by (auto simp: manager_release_def decision_defs
        split: if_splits prod.splits sum.splits option.splits store_mutation_result.splits
        dest: readClock_ok)
qed

lemma manager_validate_decision:
  assumes "manager_validate ops m clock i = (d, m')"
  shows "(\<not> ld_accepted d \<and> ld_lease d = None \<and> ld_decision d = REJECTED) \<or>
    (\<exists>at l. clock = Some (Integral at) \<and>
       op_validate ops (m_store m) i (Integral at) = (Inr (StillValid l), m_store m') \<and>
       validLeaseForScope l i at \<and> d = successful VALID (Some l))"
proof (cases "ld_accepted d")
  case False
  with assms show ?thesis
    by (auto simp: manager_validate_def decision_defs
        split: if_splits prod.splits sum.splits option.splits store_validation_result.splits)
next
  case True
  with assms show ?thesis
    by (auto simp: manager_validate_def decision_defs
        split: if_splits prod.splits sum.splits option.splits store_validation_result.splits
        dest: readClock_ok)
qed

section \<open>The contract of a fenced store\<close>

text \<open>
  What the manager relies on. \<open>issued s k\<close> is the highest token the store has given out for
  the key: an acquisition issues a higher one, nothing lowers it, and the operations that name
  a token succeed for the highest one only.
\<close>

locale fenced_store =
  fixes ops :: "'s lease_store_ops" and inv :: "'s \<Rightarrow> bool" and issued :: "'s \<Rightarrow> string \<Rightarrow> int"
  assumes effect_inv: "inv s \<Longrightarrow> storeEffect ops s s' \<Longrightarrow> inv s'"
    and effect_issued: "inv s \<Longrightarrow> storeEffect ops s s' \<Longrightarrow> issued s k \<le> issued s' k"
    and acquire_fresh: "inv s \<Longrightarrow> op_acquire ops s r now = (Inr (Acquired l), s') \<Longrightarrow>
      vl_fencingToken l = Integral (issued s' (scopeKey r)) \<and> issued s (scopeKey r) < issued s' (scopeKey r)"
    and renew_current: "inv s \<Longrightarrow> op_renew ops s rn now = (Inr (Updated l), s') \<Longrightarrow>
      rr_fencingToken rn = Integral (issued s (scopeKey rn))"
    and release_current: "inv s \<Longrightarrow> op_release ops s rl now = (Inr Released, s') \<Longrightarrow>
      rr_fencingToken rl = Integral (issued s (scopeKey rl))"
    and validate_current: "inv s \<Longrightarrow> op_validate ops s rl now = (Inr (StillValid l), s') \<Longrightarrow>
      rr_fencingToken rl = Integral (issued s (scopeKey rl))"
begin

lemma step_inv: "inv (m_store m) \<Longrightarrow> inv (m_store (snd (manager_step ops m clock c)))"
  by (blast intro: effect_inv manager_step_effect)

lemma step_issued: "inv (m_store m) \<Longrightarrow> issued (m_store m) k \<le> issued (m_store (snd (manager_step ops m clock c))) k"
  by (blast intro: effect_issued manager_step_effect)

lemma run_inv: "inv (m_store m) \<Longrightarrow> manager_run ops m cs = (ds, m') \<Longrightarrow> inv (m_store m')"
proof (induction cs arbitrary: m ds)
  case (Cons p cs)
  obtain clock c where p: "p = (clock, c)" by (cases p)
  obtain d m1 where st: "manager_step ops m clock c = (d, m1)" by (cases "manager_step ops m clock c")
  with Cons.prems(1) have "inv (m_store m1)" using step_inv [of m clock c] by simp
  with Cons show ?case by (auto simp: p st split: prod.splits)
qed simp

lemma step_granted:
  assumes "inv (m_store m)" and "manager_step ops m clock c = (d, m1)" and "t \<in> set (grantedToken k d)"
  shows "t = issued (m_store m1) k \<and> issued (m_store m) k < t"
proof (cases c)
  case (CallAcquire i)
  with assms(2,3) obtain r at l where
    op: "op_acquire ops (m_store m) r (Integral at) = (Inr (Acquired l), m_store m1)"
    and r: "scopeKey r = scopeKey i" and l: "validLeaseForScope l i at"
    and d: "d = successful ACQUIRED (Some l)"
    using manager_acquire_decision [of ops m clock i d m1] by (auto simp: grantedToken_def)
  have "k = scopeKey i" and "t = int_of (vl_fencingToken l)"
    using assms(3) d l by (auto simp: grantedToken_def successful_def validLease_scopeKey split: if_splits)
  with acquire_fresh [OF assms(1) op] r show ?thesis by simp
next
  case (CallRenew i)
  with assms manager_renew_decision [of ops m clock i d m1] show ?thesis
    by (auto simp: grantedToken_def successful_def)
next
  case (CallRelease i)
  with assms manager_release_decision [of ops m clock i d m1] show ?thesis
    by (auto simp: grantedToken_def successful_def)
next
  case (CallValidate i)
  with assms manager_validate_decision [of ops m clock i d m1] show ?thesis
    by (auto simp: grantedToken_def successful_def)
qed

lemma run_granted:
  assumes "inv (m_store m)" and "manager_run ops m cs = (ds, m')"
  shows "sorted_wrt (<) (grantedTokens k ds) \<and>
    (\<forall>t \<in> set (grantedTokens k ds). issued (m_store m) k < t \<and> t \<le> issued (m_store m') k) \<and>
    issued (m_store m) k \<le> issued (m_store m') k"
  using assms
proof (induction cs arbitrary: m ds)
  case (Cons p cs)
  obtain clock c where p: "p = (clock, c)" by (cases p)
  obtain d m1 where st: "manager_step ops m clock c = (d, m1)" by (cases "manager_step ops m clock c")
  obtain es where run: "manager_run ops m1 cs = (es, m')" and ds: "ds = d # es"
    using Cons.prems(2) by (auto simp: p st split: prod.splits)
  have inv1: "inv (m_store m1)" and le: "issued (m_store m) k \<le> issued (m_store m1) k"
    using step_inv [OF Cons.prems(1), of clock c] step_issued [OF Cons.prems(1), of k clock c] st by auto
  have g: "t = issued (m_store m1) k \<and> issued (m_store m) k < t" if "t \<in> set (grantedToken k d)" for t
    using step_granted [OF Cons.prems(1) st that] .
  have "length (grantedToken k d) \<le> 1"
    by (auto simp: grantedToken_def split: option.splits)
  then consider "grantedToken k d = []"
    | "grantedToken k d = [issued (m_store m1) k]" "issued (m_store m) k < issued (m_store m1) k"
    using g by (cases "grantedToken k d") auto
  then show ?case
  proof cases
    case 1
    with Cons.IH [OF inv1 run] le show ?thesis by (auto simp: ds)
  next
    case 2
    with Cons.IH [OF inv1 run] show ?thesis by (auto simp: ds)
  qed
qed simp

lemma accepted_token_current:
  assumes "inv (m_store m)"
    and "c = CallRelease i \<or> c = CallValidate i"
    and "ld_accepted (fst (manager_step ops m clock c))"
  shows "rr_fencingToken i = Integral (issued (m_store m) (scopeKey i))"
proof -
  obtain d m1 where st: "manager_step ops m clock c = (d, m1)"
    by (cases "manager_step ops m clock c")
  from assms(2) show ?thesis
  proof
    assume "c = CallRelease i"
    with st assms(3) manager_release_decision [of ops m clock i d m1] show ?thesis
      by (auto dest: release_current [OF assms(1)])
  next
    assume "c = CallValidate i"
    with st assms(3) manager_validate_decision [of ops m clock i d m1] show ?thesis
      by (auto dest: validate_current [OF assms(1)])
  qed
qed

lemma accepted_renew_current:
  assumes "inv (m_store m)" and "ld_accepted (fst (manager_renew ops m clock i))"
  shows "rr_fencingToken i = Integral (issued (m_store m) (scopeKey i))"
proof -
  obtain d m1 where st: "manager_renew ops m clock i = (d, m1)"
    by (cases "manager_renew ops m clock i")
  with assms(2) manager_renew_decision [OF st] show ?thesis
    by (auto dest!: renew_current [OF assms(1)])
qed

end

text \<open>
  A store that also keeps one holder per key: while the holder's lease has not expired nobody
  else acquires the key, and only a renewal or a release that names the holder's token can
  change it.
\<close>

fun namesToken :: "string \<Rightarrow> jsnum \<Rightarrow> lease_call \<Rightarrow> bool" where
  "namesToken k t (CallAcquire i) = False"
| "namesToken k t (CallRenew i) = (scopeKey i = k \<and> rr_fencingToken i = t)"
| "namesToken k t (CallRelease i) = (scopeKey i = k \<and> rr_fencingToken i = t)"
| "namesToken k t (CallValidate i) = False"

locale exclusive_store = fenced_store +
  fixes holder :: "'s \<Rightarrow> string \<Rightarrow> validation_lease option"
  assumes acquire_held: "inv s \<Longrightarrow> op_acquire ops s r now = (Inr (Acquired l), s') \<Longrightarrow>
      holder s' (scopeKey r) = Some l"
    and acquire_blocked: "inv s \<Longrightarrow> holder s (scopeKey r) = Some L \<Longrightarrow>
      int_of now < int_of (vl_expiresAt L) \<Longrightarrow> fst (op_acquire ops s r now) \<noteq> Inr (Acquired l)"
    and acquire_keeps: "inv s \<Longrightarrow> holder s k = Some L \<Longrightarrow> int_of now < int_of (vl_expiresAt L) \<Longrightarrow>
      holder (snd (op_acquire ops s r now)) k = Some L"
    and renew_keeps: "inv s \<Longrightarrow> holder s k = Some L \<Longrightarrow> int_of now < int_of (vl_expiresAt L) \<Longrightarrow>
      \<not> (scopeKey rn = k \<and> rr_fencingToken rn = vl_fencingToken L) \<Longrightarrow>
      holder (snd (op_renew ops s rn now)) k = Some L"
    and release_keeps: "inv s \<Longrightarrow> holder s k = Some L \<Longrightarrow> int_of now < int_of (vl_expiresAt L) \<Longrightarrow>
      \<not> (scopeKey rl = k \<and> rr_fencingToken rl = vl_fencingToken L) \<Longrightarrow>
      holder (snd (op_release ops s rl now)) k = Some L"
    and validate_keeps: "inv s \<Longrightarrow> holder s k = Some L \<Longrightarrow> int_of now < int_of (vl_expiresAt L) \<Longrightarrow>
      holder (snd (op_validate ops s rl now)) k = Some L"
begin

lemma step_keeps:
  assumes "inv (m_store m)" and "holder (m_store m) k = Some L"
    and clock: "\<And>v. clock = Some (Integral v) \<Longrightarrow> v < int_of (vl_expiresAt L)"
    and other: "\<not> namesToken k (vl_fencingToken L) c"
  shows "holder (m_store (snd (manager_step ops m clock c))) k = Some L"
proof (cases c)
  case (CallAcquire i)
  with manager_acquire_store [of ops m clock i] assms(2) clock show ?thesis
    by (auto intro!: acquire_keeps [OF assms(1)])
next
  case (CallRenew i)
  with manager_renew_store [of ops m clock i] assms(2) clock other show ?thesis
    by (auto intro!: renew_keeps [OF assms(1)])
next
  case (CallRelease i)
  with manager_release_store [of ops m clock i] assms(2) clock other show ?thesis
    by (auto intro!: release_keeps [OF assms(1)])
next
  case (CallValidate i)
  with manager_validate_store [of ops m clock i] assms(2) clock show ?thesis
    by (auto intro!: validate_keeps [OF assms(1)])
qed

lemma step_not_granted:
  assumes "inv (m_store m)" and "holder (m_store m) k = Some L"
    and clock: "\<And>v. clock = Some (Integral v) \<Longrightarrow> v < int_of (vl_expiresAt L)"
  shows "grantedToken k (fst (manager_step ops m clock c)) = []"
proof (rule ccontr)
  obtain d m1 where st: "manager_step ops m clock c = (d, m1)"
    by (cases "manager_step ops m clock c")
  assume "grantedToken k (fst (manager_step ops m clock c)) \<noteq> []"
  then obtain l where l: "ld_decision d = ACQUIRED" "ld_lease d = Some l" "scopeKey l = k"
    by (auto simp: grantedToken_def st split: option.splits if_splits)
  with st obtain i where c: "c = CallAcquire i"
    using manager_renew_decision manager_release_decision manager_validate_decision
    by (cases c) (fastforce simp: successful_def)+
  with st l obtain r at where "clock = Some (Integral at)" "scopeKey r = k"
    "fst (op_acquire ops (m_store m) r (Integral at)) = Inr (Acquired l)"
    using manager_acquire_decision [of ops m clock i d m1]
    by (auto simp: successful_def dest: validLease_scopeKey)
  with acquire_blocked [OF assms(1), of r L "Integral at" l] assms(2) clock show False by simp
qed

lemma run_not_granted:
  assumes "inv (m_store m)" and "holder (m_store m) k = Some L" and "manager_run ops m cs = (ds, m')"
    and "\<forall>(clock, c) \<in> set cs. (\<forall>v. clock = Some (Integral v) \<longrightarrow> v < int_of (vl_expiresAt L)) \<and>
           \<not> namesToken k (vl_fencingToken L) c"
  shows "grantedTokens k ds = [] \<and> holder (m_store m') k = Some L"
  using assms
proof (induction cs arbitrary: m ds)
  case (Cons p cs)
  obtain clock c where p: "p = (clock, c)" by (cases p)
  obtain d m1 where st: "manager_step ops m clock c = (d, m1)" by (cases "manager_step ops m clock c")
  obtain es where run: "manager_run ops m1 cs = (es, m')" and ds: "ds = d # es"
    using Cons.prems(3) by (auto simp: p st split: prod.splits)
  have "inv (m_store m1)" "holder (m_store m1) k = Some L" "grantedToken k d = []"
    using step_inv [OF Cons.prems(1), of clock c] step_keeps [OF Cons.prems(1,2), of clock c]
      step_not_granted [OF Cons.prems(1,2), of clock c] Cons.prems(4) st p by auto
  with Cons.IH [OF _ _ run] Cons.prems(4) show ?case by (simp add: ds p)
qed simp

lemma acquire_excludes:
  assumes "inv (m_store m)" and "manager_acquire ops m clock i = (d, m1)" and "ld_lease d = Some L"
    and "manager_run ops m1 cs = (ds, m')"
    and "\<forall>(clock, c) \<in> set cs. (\<forall>v. clock = Some (Integral v) \<longrightarrow> v < int_of (vl_expiresAt L)) \<and>
           \<not> namesToken (scopeKey i) (vl_fencingToken L) c"
  shows "grantedTokens (scopeKey i) ds = []"
proof -
  obtain r at where "op_acquire ops (m_store m) r (Integral at) = (Inr (Acquired L), m_store m1)"
    and "scopeKey r = scopeKey i"
    using manager_acquire_decision [OF assms(2)] assms(3) by (auto simp: successful_def)
  then have "holder (m_store m1) (scopeKey i) = Some L"
    using acquire_held [OF assms(1)] by metis
  moreover have "inv (m_store m1)"
    using step_inv [OF assms(1), of clock "CallAcquire i"] assms(2) by simp
  ultimately show ?thesis
    using run_not_granted [OF _ _ assms(4,5)] by blast
qed

end

section \<open>The in-memory store keeps the contract\<close>

definition issuedToken :: "lease_store \<Rightarrow> string \<Rightarrow> int" where
  "issuedToken st k = nullish (map_of (fencingCounters st) k) 0"

definition storedLease :: "lease_store \<Rightarrow> string \<Rightarrow> validation_lease option" where
  "storedLease st k = map_of (leases st) k"

text \<open>Every stored lease lies under the key of its own scope and holds the newest token of it.\<close>

definition store_inv :: "lease_store \<Rightarrow> bool" where
  "store_inv st = (\<forall>k l. storedLease st k = Some l \<longrightarrow>
     scopeKey l = k \<and> vl_fencingToken l = Integral (issuedToken st k))"

lemmas store_defs = store_acquire_def store_renew_def store_release_def store_validate_def
  observeClock_def active_def nextToken_def

lemma store_inv_empty: "store_inv emptyStore"
  by (simp add: store_inv_def emptyStore_def storedLease_def)

lemma store_inv_clock [simp]:
  "issuedToken (st\<lparr>lastObservedAt := t\<rparr>) = issuedToken st"
  "storedLease (st\<lparr>lastObservedAt := t\<rparr>) = storedLease st"
  "store_inv (st\<lparr>lastObservedAt := t\<rparr>) = store_inv st"
  by (simp_all add: issuedToken_def storedLease_def store_inv_def fun_eq_iff)

lemma store_leases_delete [simp]:
  "issuedToken (st\<lparr>leases := ls\<rparr>) = issuedToken st"
  "storedLease (st\<lparr>leases := omap_delete key ls\<rparr>) = (map_of ls)(key := None)"
  "storedLease (st\<lparr>leases := omap_set key l ls\<rparr>) = (map_of ls)(key \<mapsto> l)"
  by (simp_all add: issuedToken_def storedLease_def fun_eq_iff)

text \<open>The changes an operation makes to the leases and the tokens, one case per branch.\<close>

lemma observeClock_Inr:
  "observeClock st now = Inr st1 \<Longrightarrow> st1 = st\<lparr>lastObservedAt := Some (int_of now)\<rparr>"
  by (auto simp: observeClock_def split: if_splits)

lemma issued_counters [simp]:
  "issuedToken (st\<lparr>fencingCounters := omap_set key n (fencingCounters st)\<rparr>) = (issuedToken st)(key := n)"
  "storedLease (st\<lparr>fencingCounters := fc\<rparr>) = storedLease st"
  by (auto simp: issuedToken_def storedLease_def fun_eq_iff)

lemma storedLease_leases: "map_of (leases st) = storedLease st"
  by (simp add: storedLease_def fun_eq_iff)

lemma active_result:
  assumes "active st k now = (c, st')"
  shows "issuedToken st' = issuedToken st \<and>
     (case c of
        Some L \<Rightarrow> storedLease st k = Some L \<and> now < int_of (vl_expiresAt L) \<and> storedLease st' = storedLease st
      | None \<Rightarrow> storedLease st' = (storedLease st)(k := None) \<and>
          (\<forall>L. storedLease st k = Some L \<longrightarrow> int_of (vl_expiresAt L) \<le> now))"
  using assms by (cases "storedLease st k") (auto simp: active_def storedLease_leases fun_eq_iff split: if_splits option.splits)

lemma nextToken_result:
  "nextToken st k = (Inl e, st') \<Longrightarrow> st' = st"
  "nextToken st k = (Inr t, st') \<Longrightarrow> t = issuedToken st k + 1 \<and>
     storedLease st' = storedLease st \<and> issuedToken st' = (issuedToken st)(k := t)"
  by (auto simp: nextToken_def Let_def issuedToken_def split: if_splits)

lemma store_acquire_granted:
  assumes "store_acquire st r now = (Inr (Acquired l), st')"
  shows "scopeKey l = scopeKey r \<and>
       (\<forall>L. storedLease st (scopeKey r) = Some L \<longrightarrow> int_of (vl_expiresAt L) \<le> int_of now) \<and>
       vl_fencingToken l = Integral (issuedToken st (scopeKey r) + 1) \<and>
       storedLease st' = (storedLease st)(scopeKey r \<mapsto> l) \<and>
       issuedToken st' = (issuedToken st)(scopeKey r := issuedToken st (scopeKey r) + 1)"
proof -
  let ?k = "scopeKey r"
  obtain st1 st2 st3 t where 1: "observeClock st now = Inr st1"
    and 2: "active st1 ?k (int_of now) = (None, st2)" and 3: "nextToken st2 ?k = (Inr t, st3)"
    and l: "l = \<lparr>ls_tenantId = ls_tenantId r, ls_resourceId = ls_resourceId r, lh_owner = lh_owner r,
      lh_leaseId = lh_leaseId r, vl_fencingToken = Integral t, vl_acquiredAt = now,
      vl_renewedAt = now, vl_expiresAt = aq_expiresAt r\<rparr>"
    and st': "st' = st3\<lparr>leases := omap_set ?k l (leases st3)\<rparr>"
    using assms by (auto simp: store_acquire_def Let_def split: sum.splits if_splits prod.splits option.splits)
  show ?thesis
    using observeClock_Inr [OF 1] active_result [OF 2] nextToken_result(2) [OF 3]
    by (auto simp: st' l scopeKey_truncate storedLease_leases)
qed

lemma store_acquire_other:
  assumes "store_acquire st r now = (res, st')" and "\<And>l. res \<noteq> Inr (Acquired l)"
  shows "issuedToken st' = issuedToken st \<and>
       (storedLease st' = storedLease st \<or>
        storedLease st' = (storedLease st)(scopeKey r := None) \<and>
        (\<forall>L. storedLease st (scopeKey r) = Some L \<longrightarrow> int_of (vl_expiresAt L) \<le> int_of now))"
  using assms
  by (auto simp: store_acquire_def Let_def split: sum.splits if_splits prod.splits option.splits
      dest!: observeClock_Inr active_result nextToken_result(1))

lemma store_renew_result:
  assumes "store_renew st r now = (res, st')"
  shows "issuedToken st' = issuedToken st \<and>
    ((\<exists>L l. res = Inr (Updated l) \<and> storedLease st (scopeKey r) = Some L \<and>
        rr_fencingToken r = vl_fencingToken L \<and> scopeKey l = scopeKey L \<and>
        vl_fencingToken l = vl_fencingToken L \<and> storedLease st' = (storedLease st)(scopeKey r \<mapsto> l)) \<or>
     (\<forall>l. res \<noteq> Inr (Updated l)) \<and>
     (storedLease st' = storedLease st \<or>
      storedLease st' = (storedLease st)(scopeKey r := None) \<and>
        (\<forall>L. storedLease st (scopeKey r) = Some L \<longrightarrow> int_of (vl_expiresAt L) \<le> int_of now)))"
  using assms
  by (auto simp: store_renew_def Let_def storedLease_leases identityReason_def scopeKey_eq_iff
      split: sum.splits if_splits prod.splits option.splits dest!: observeClock_Inr)

lemma store_release_result:
  assumes "store_release st r now = (res, st')"
  shows "issuedToken st' = issuedToken st \<and>
    ((\<exists>L. res = Inr Released \<and> storedLease st (scopeKey r) = Some L \<and>
        rr_fencingToken r = vl_fencingToken L \<and> storedLease st' = (storedLease st)(scopeKey r := None)) \<or>
     res \<noteq> Inr Released \<and>
     (storedLease st' = storedLease st \<or>
      storedLease st' = (storedLease st)(scopeKey r := None) \<and>
        (\<forall>L. storedLease st (scopeKey r) = Some L \<longrightarrow> int_of (vl_expiresAt L) \<le> int_of now)))"
  using assms
  by (auto simp: store_release_def Let_def storedLease_leases identityReason_def
      split: sum.splits if_splits prod.splits option.splits dest!: observeClock_Inr)

lemma store_validate_result:
  assumes "store_validate st r now = (res, st')"
  shows "issuedToken st' = issuedToken st \<and>
    (storedLease st' = storedLease st \<or>
      storedLease st' = (storedLease st)(scopeKey r := None) \<and>
        (\<forall>L. storedLease st (scopeKey r) = Some L \<longrightarrow> int_of (vl_expiresAt L) \<le> int_of now)) \<and>
    (\<forall>l. res = Inr (StillValid l) \<longrightarrow> storedLease st (scopeKey r) = Some l \<and>
       rr_fencingToken r = vl_fencingToken l)"
  using assms
  by (auto simp: store_validate_def Let_def storedLease_leases identityReason_def
      split: sum.splits if_splits prod.splits option.splits dest!: observeClock_Inr)

lemmas store_results = store_acquire_granted store_acquire_other store_renew_result
  store_release_result store_validate_result

lemma store_acquire_inv:
  assumes "store_inv st" and "store_acquire st r now = (res, st')"
  shows "store_inv st' \<and> issuedToken st k \<le> issuedToken st' k"
proof (cases "\<exists>l. res = Inr (Acquired l)")
  case True
  then obtain l where "res = Inr (Acquired l)" by blast
  with store_acquire_granted [of st r now l st'] assms show ?thesis
    by (auto simp: store_inv_def)
next
  case False
  with store_acquire_other [OF assms(2)] assms(1) show ?thesis
    by (auto simp: store_inv_def split: if_splits)
qed

lemma store_other_inv:
  assumes "store_inv st"
  shows "store_renew st rn now = (res, st') \<Longrightarrow> store_inv st' \<and> issuedToken st' = issuedToken st"
    and "store_release st rl now = (res, st') \<Longrightarrow> store_inv st' \<and> issuedToken st' = issuedToken st"
    and "store_validate st rl now = (res2, st') \<Longrightarrow> store_inv st' \<and> issuedToken st' = issuedToken st"
  using assms store_renew_result [of st rn now res st'] store_release_result [of st rl now res st']
    store_validate_result [of st rl now res2 st']
  by (auto simp: store_inv_def split: if_splits)

lemma inMemory_effect:
  assumes "store_inv st" and "storeEffect inMemoryOps st st'"
  shows "store_inv st' \<and> issuedToken st k \<le> issuedToken st' k"
  using assms store_acquire_inv [OF assms(1)] store_other_inv [OF assms(1)]
  unfolding storeEffect_def inMemoryOps_def
  by (auto) (metis order_refl prod.collapse)+

interpretation memory: exclusive_store inMemoryOps store_inv issuedToken storedLease
proof unfold_locales
  fix s :: lease_store and s' and k
  assume "store_inv s" "storeEffect inMemoryOps s s'"
  then show "store_inv s'" "issuedToken s k \<le> issuedToken s' k"
    using inMemory_effect by auto
next
  fix s s' r now l
  assume "op_acquire inMemoryOps s r now = (Inr (Acquired l), s')"
  then show "vl_fencingToken l = Integral (issuedToken s' (scopeKey r)) \<and>
      issuedToken s (scopeKey r) < issuedToken s' (scopeKey r)" "storedLease s' (scopeKey r) = Some l"
    using store_acquire_granted [of s r now l s'] by (auto simp: inMemoryOps_def)
next
  fix s s' rn now l
  assume "store_inv s" "op_renew inMemoryOps s rn now = (Inr (Updated l), s')"
  then show "rr_fencingToken rn = Integral (issuedToken s (scopeKey rn))"
    using store_renew_result [of s rn now "Inr (Updated l)" s'] by (auto simp: inMemoryOps_def store_inv_def)
next
  fix s s' rl now
  assume "store_inv s" "op_release inMemoryOps s rl now = (Inr Released, s')"
  then show "rr_fencingToken rl = Integral (issuedToken s (scopeKey rl))"
    using store_release_result [of s rl now "Inr Released" s'] by (auto simp: inMemoryOps_def store_inv_def)
next
  fix s s' rl now l
  assume "store_inv s" "op_validate inMemoryOps s rl now = (Inr (StillValid l), s')"
  then show "rr_fencingToken rl = Integral (issuedToken s (scopeKey rl))"
    using store_validate_result [of s rl now "Inr (StillValid l)" s'] by (auto simp: inMemoryOps_def store_inv_def)
next
  fix s now L l and r :: acquire_request
  assume "storedLease s (scopeKey r) = Some L" "int_of now < int_of (vl_expiresAt L)"
  then show "fst (op_acquire inMemoryOps s r now) \<noteq> Inr (Acquired l)"
    using store_acquire_granted [of s r now l] by (cases "store_acquire s r now") (auto simp: inMemoryOps_def)
next
  fix s k L now and r :: acquire_request
  assume k: "storedLease s k = Some L" "int_of now < int_of (vl_expiresAt L)"
  obtain res s' where st: "store_acquire s r now = (res, s')" by (cases "store_acquire s r now")
  show "storedLease (snd (op_acquire inMemoryOps s r now)) k = Some L"
  proof (cases "\<exists>l. res = Inr (Acquired l)")
    case True
    with store_acquire_granted [of s r now _ s'] st k show ?thesis by (auto simp: inMemoryOps_def)
  next
    case False
    with store_acquire_other [OF st] k st show ?thesis by (auto simp: inMemoryOps_def)
  qed
next
  fix s k L now and rn :: renew_request
  assume "store_inv s" "storedLease s k = Some L" "int_of now < int_of (vl_expiresAt L)"
    "\<not> (scopeKey rn = k \<and> rr_fencingToken rn = vl_fencingToken L)"
  then show "storedLease (snd (op_renew inMemoryOps s rn now)) k = Some L"
    using store_renew_result [of s rn now] by (cases "store_renew s rn now") (auto simp: inMemoryOps_def)
next
  fix s k L now and rl :: release_request
  assume "store_inv s" "storedLease s k = Some L" "int_of now < int_of (vl_expiresAt L)"
    "\<not> (scopeKey rl = k \<and> rr_fencingToken rl = vl_fencingToken L)"
  then show "storedLease (snd (op_release inMemoryOps s rl now)) k = Some L"
    using store_release_result [of s rl now] by (cases "store_release s rl now") (auto simp: inMemoryOps_def)
next
  fix s k L now and rl :: release_request
  assume "storedLease s k = Some L" "int_of now < int_of (vl_expiresAt L)"
  then show "storedLease (snd (op_validate inMemoryOps s rl now)) k = Some L"
    using store_validate_result [of s rl now] by (cases "store_validate s rl now") (auto simp: inMemoryOps_def)
qed

section \<open>Properties\<close>

lemma newManager_inv: "newManager emptyStore d = Inr m \<Longrightarrow> store_inv (m_store m)"
  by (simp add: newManager_store store_inv_empty)

text \<open>A run used by the witnesses: a grant, its expiry, and a second grant to another owner.\<close>

definition sampleAcquire :: "string \<Rightarrow> acquire_input" where
  "sampleAcquire who = \<lparr>ls_tenantId = ''t'', ls_resourceId = ''r'', lh_owner = who, lh_leaseId = ''l'',
     ai_durationMs = Some (Integral 10)\<rparr>"

definition sampleHolder :: "string \<Rightarrow> int \<Rightarrow> release_request" where
  "sampleHolder who t = \<lparr>ls_tenantId = ''t'', ls_resourceId = ''r'', lh_owner = who, lh_leaseId = ''l'',
     rr_fencingToken = Integral t\<rparr>"

definition sampleManager :: "lease_store lease_manager" where
  "sampleManager = \<lparr>m_store = emptyStore, m_defaultLeaseDurationMs = Integral 30000,
     m_lastObservedAt = None\<rparr>"

definition sampleRun :: "lease_decision list \<times> lease_store lease_manager" where
  "sampleRun = manager_run inMemoryOps sampleManager
     [(Some (Integral 100), CallAcquire (sampleAcquire ''a'')),
      (Some (Integral 105), CallAcquire (sampleAcquire ''b'')),
      (Some (Integral 110), CallAcquire (sampleAcquire ''b''))]"

lemma sampleManager_new: "newManager emptyStore None = Inr sampleManager"
  by (simp add: newManager_def sampleManager_def MAX_SAFE_INTEGER_def)

lemma sampleRun_tokens: "grantedTokens (scopeKey (sampleAcquire ''a'')) (fst sampleRun) = [1, 2]"
  by code_simp

text \<open>
  C27: Over any run of a manager on the in-memory store, whatever the calls, their inputs and
  the clock, the leases granted on one resource carry strictly increasing fencing tokens.
\<close>

theorem lease_tokens_increase:
  assumes "newManager emptyStore d = Inr m" and "manager_run inMemoryOps m cs = (ds, m')"
  shows "sorted_wrt (<) (grantedTokens k ds)"
  using memory.run_granted [OF newManager_inv [OF assms(1)] assms(2)] by blast

theorem lease_tokens_increase_witness:
  "grantedTokens (scopeKey (sampleAcquire ''a'')) (fst sampleRun) = [1, 2] \<and>
   sorted_wrt (<) (grantedTokens (scopeKey (sampleAcquire ''a'')) (fst sampleRun))"
  using lease_tokens_increase [OF sampleManager_new, of _ "fst sampleRun" "snd sampleRun"]
    sampleRun_tokens by (auto simp: sampleRun_def)

text \<open>
  C28: A superseded holder is fenced out for good: once a higher token has been granted on a
  resource, no renewal, release or validation that names a lower one is accepted, at any later
  point of the run and at any clock reading.
\<close>

theorem superseded_token_rejected:
  assumes "newManager emptyStore d = Inr m" and "manager_run inMemoryOps m cs = (ds, m')"
    and "t \<in> set (grantedTokens (scopeKey i) ds)" and "int_of (rr_fencingToken i) < t"
    and "scopeKey j = scopeKey i" and "rr_fencingToken j = rr_fencingToken i"
  shows "\<not> ld_accepted (fst (manager_release inMemoryOps m' clock i)) \<and>
    \<not> ld_accepted (fst (manager_validate inMemoryOps m' clock i)) \<and>
    \<not> ld_accepted (fst (manager_renew inMemoryOps m' clock j))"
proof -
  have inv: "store_inv (m_store m')"
    using memory.run_inv [OF newManager_inv [OF assms(1)] assms(2)] .
  have "t \<le> issuedToken (m_store m') (scopeKey i)"
    using memory.run_granted [OF newManager_inv [OF assms(1)] assms(2)] assms(3) by blast
  with assms(4) have "rr_fencingToken i \<noteq> Integral (issuedToken (m_store m') (scopeKey i))"
    by auto
  then show ?thesis
    using memory.accepted_token_current [OF inv, of "CallRelease i" i clock]
      memory.accepted_token_current [OF inv, of "CallValidate i" i clock]
      memory.accepted_renew_current [OF inv, of clock j] assms(5,6) by auto
qed

theorem superseded_token_rejected_witness:
  "\<not> ld_accepted (fst (manager_release inMemoryOps (snd sampleRun) (Some (Integral 111)) (sampleHolder ''a'' 1)))"
proof -
  have run: "manager_run inMemoryOps sampleManager
     [(Some (Integral 100), CallAcquire (sampleAcquire ''a'')),
      (Some (Integral 105), CallAcquire (sampleAcquire ''b'')),
      (Some (Integral 110), CallAcquire (sampleAcquire ''b''))] = (fst sampleRun, snd sampleRun)"
    by (simp add: sampleRun_def)
  let ?i = "sampleHolder ''a'' 1"
  let ?j = "\<lparr>ls_tenantId = ''t'', ls_resourceId = ''r'', lh_owner = ''a'', lh_leaseId = ''l'',
     rr_fencingToken = Integral 1, ri_durationMs = None\<rparr>"
  have key: "scopeKey ?i = scopeKey (sampleAcquire ''a'')" "scopeKey ?j = scopeKey ?i"
    by (simp_all add: sampleHolder_def sampleAcquire_def scopeKey_def)
  have "2 \<in> set (grantedTokens (scopeKey ?i) (fst sampleRun))"
    using sampleRun_tokens key by simp
  from superseded_token_rejected [OF sampleManager_new run this, of ?j "Some (Integral 111)"] key(2)
  show ?thesis by (simp add: sampleHolder_def)
qed






end
