(* ===== verification/Predicate_Dependencies.thy ===== *)
theory Predicate_Dependencies
  imports Js_Value
begin

text \<open>
  \<open>packages/runtime-core/src/predicate-dependencies.ts\<close>: a dependency on a predicate over one
  aspect of a resource, its semantic fingerprint, the evaluation of the predicate on an
  observed value and the classification of a change. SHA-256 is the argument \<open>sha\<close>; \<open>fmt\<close> is
  the decimal text JavaScript gives a finite number other than \<open>-0\<close>.
\<close>

record predicate =
  p_operator :: string
  p_value :: "jsvalue option" \<comment> \<open>\<open>None\<close>: the object has no \<open>value\<close> property\<close>

record predicate_input =
  pd_tenantId :: string
  pd_resourceId :: string
  pd_incarnationId :: string
  pd_aspect :: string
  pd_predicate :: predicate

record predicate_dependency = predicate_input +
  pd_specVersion :: string
  pd_semanticFingerprint :: string

datatype predicate_evaluation = Holds | Fails | EvalUnknown
datatype predicate_change = PRESERVED | INVALIDATED | ChangeUnknown

definition PREDICATE_DEPENDENCY_SPEC_VERSION :: string where
  "PREDICATE_DEPENDENCY_SPEC_VERSION = ''premise-predicate/1''"

definition requiredNonBlank :: "string \<Rightarrow> string \<Rightarrow> exn + string" where
  "requiredNonBlank name v = (if nonBlank v then Inr v else Inl (NotText name))"

definition predicateNumber :: "(rat \<Rightarrow> string) \<Rightarrow> js_number \<Rightarrow> exn + string" where
  "predicateNumber fmt n =
     (case n of NegZero \<Rightarrow> Inr ''-0'' | Finite q \<Rightarrow> Inr (fmt q) | _ \<Rightarrow> Inl NotSerializable)"

definition canonical :: "(rat \<Rightarrow> string) \<Rightarrow> jsvalue \<Rightarrow> exn + string" where
  "canonical fmt v = canonicalWith (predicateNumber fmt) True v"

definition isNumOrStr :: "jsvalue \<Rightarrow> bool" where
  "isNumOrStr v = (case v of JNum n \<Rightarrow> True | JStr s \<Rightarrow> True | _ \<Rightarrow> False)"

definition nonEmptyArray :: "jsvalue \<Rightarrow> bool" where
  "nonEmptyArray v = (case v of JArr vs \<Rightarrow> vs \<noteq> [] | _ \<Rightarrow> False)"

definition orderedOperators :: "string list" where
  "orderedOperators = [''gt'', ''gte'', ''lt'', ''lte'']"

definition validPredicate :: "(rat \<Rightarrow> string) \<Rightarrow> predicate \<Rightarrow> exn + unit" where
  "validPredicate fmt p =
     (if p_operator p \<notin> set ([''eq'', ''neq''] @ orderedOperators @ [''in'', ''exists''])
      then Inl (Failure ''unsupported predicate operator'')
      else if p_operator p = ''exists'' then
        (case p_value p of
           None \<Rightarrow> Inr ()
         | Some (JBool b) \<Rightarrow> Inr ()
         | Some v \<Rightarrow> Inl (Failure ''exists predicate value must be boolean''))
      else case p_value p of
        None \<Rightarrow> Inl (Failure ''predicate value is required'')
      | Some v \<Rightarrow>
          if v = JUndefined then Inl (Failure ''predicate value is required'')
          else if p_operator p = ''in'' \<and> \<not> nonEmptyArray v
            then Inl (Failure ''in predicate requires a non-empty array'')
          else if p_operator p \<in> set orderedOperators \<and> \<not> isNumOrStr v
            then Inl (Failure ''ordered predicate values must be numbers or strings'')
          else andThen (canonical fmt v) (\<lambda>_. Inr ()))"

definition sameValue :: "(rat \<Rightarrow> string) \<Rightarrow> jsvalue \<Rightarrow> jsvalue \<Rightarrow> bool" where
  "sameValue fmt l r =
     (case (canonical fmt l, canonical fmt r) of (Inr a, Inr b) \<Rightarrow> a = b | _ \<Rightarrow> False)"

definition predicateObject :: "predicate \<Rightarrow> jsvalue" where
  "predicateObject p = JObj True ((''operator'', JStr (p_operator p)) #
     (case p_value p of None \<Rightarrow> [] | Some v \<Rightarrow> [(''value'', v)]))"

definition identityObject :: "'a predicate_input_scheme \<Rightarrow> jsvalue" where
  "identityObject i = JObj True
     [(''domain'', JStr PREDICATE_DEPENDENCY_SPEC_VERSION),
      (''tenantId'', JStr (pd_tenantId i)),
      (''resourceId'', JStr (pd_resourceId i)),
      (''incarnationId'', JStr (pd_incarnationId i)),
      (''aspect'', JStr (pd_aspect i)),
      (''predicate'', predicateObject (pd_predicate i))]"

definition predicateSemanticFingerprint ::
  "(rat \<Rightarrow> string) \<Rightarrow> (string \<Rightarrow> string) \<Rightarrow> 'a predicate_input_scheme \<Rightarrow> exn + string" where
  "predicateSemanticFingerprint fmt sha i =
     andThen (requiredNonBlank ''tenantId'' (pd_tenantId i)) (\<lambda>_.
     andThen (requiredNonBlank ''resourceId'' (pd_resourceId i)) (\<lambda>_.
     andThen (requiredNonBlank ''incarnationId'' (pd_incarnationId i)) (\<lambda>_.
     andThen (requiredNonBlank ''aspect'' (pd_aspect i)) (\<lambda>_.
     andThen (validPredicate fmt (pd_predicate i)) (\<lambda>_.
     andThen (canonical fmt (identityObject i)) (\<lambda>text. Inr (''sha256:'' @ sha text)))))))"

definition createPredicateDependency ::
  "(rat \<Rightarrow> string) \<Rightarrow> (string \<Rightarrow> string) \<Rightarrow> predicate_input \<Rightarrow> exn + predicate_dependency" where
  "createPredicateDependency fmt sha i =
     andThen (predicateSemanticFingerprint fmt sha i) (\<lambda>f.
       Inr \<lparr>pd_tenantId = pd_tenantId i, pd_resourceId = pd_resourceId i,
         pd_incarnationId = pd_incarnationId i, pd_aspect = pd_aspect i,
         pd_predicate = pd_predicate i, pd_specVersion = PREDICATE_DEPENDENCY_SPEC_VERSION,
         pd_semanticFingerprint = f\<rparr>)"

definition evalOf :: "bool \<Rightarrow> predicate_evaluation" where
  "evalOf b = (if b then Holds else Fails)"

text \<open>\<open>>\<close>, \<open>>=\<close>, \<open><\<close> and \<open><=\<close> on two numbers or two strings.\<close>

definition compareBy :: "string \<Rightarrow> 'a::linorder \<Rightarrow> 'a \<Rightarrow> bool" where
  "compareBy operator a b =
     (if operator = ''gt'' then a > b else if operator = ''gte'' then a \<ge> b
      else if operator = ''lt'' then a < b else a \<le> b)"

definition evaluatePredicate :: "(rat \<Rightarrow> string) \<Rightarrow> jsvalue \<Rightarrow> predicate \<Rightarrow> predicate_evaluation" where
  "evaluatePredicate fmt v p =
     (case validPredicate fmt p of Inl e \<Rightarrow> EvalUnknown | Inr u \<Rightarrow>
      let operator = p_operator p; operand = nullish (p_value p) JUndefined in
      if operator \<noteq> ''exists'' \<and> (v = JUndefined \<or> isl (canonical fmt v)) then EvalUnknown
      else if operator = ''exists'' then
        evalOf ((v \<noteq> JUndefined \<and> v \<noteq> JNull) = (case p_value p of Some (JBool b) \<Rightarrow> b | _ \<Rightarrow> True))
      else if operator = ''eq'' then evalOf (sameValue fmt v operand)
      else if operator = ''neq'' then evalOf (\<not> sameValue fmt v operand)
      else if operator = ''in'' then
        (case operand of
           JArr candidates \<Rightarrow> evalOf (\<exists>candidate \<in> set candidates. sameValue fmt candidate v)
         | _ \<Rightarrow> EvalUnknown)
      else
        (case (v, operand) of
           (JNum a, JNum b) \<Rightarrow>
             if \<not> isFinite a then EvalUnknown else evalOf (compareBy operator (numValue a) (numValue b))
         | (JStr a, JStr b) \<Rightarrow> evalOf (compareBy operator a b)
         | _ \<Rightarrow> EvalUnknown))"

definition classifyPredicateChange ::
  "(rat \<Rightarrow> string) \<Rightarrow> (string \<Rightarrow> string) \<Rightarrow> predicate_dependency \<Rightarrow> jsvalue \<Rightarrow> jsvalue \<Rightarrow> predicate_change" where
  "classifyPredicateChange fmt sha d previousValue currentValue =
     (if pd_specVersion d \<noteq> PREDICATE_DEPENDENCY_SPEC_VERSION then ChangeUnknown
      else case predicateSemanticFingerprint fmt sha d of
        Inl e \<Rightarrow> ChangeUnknown
      | Inr f \<Rightarrow>
          if pd_semanticFingerprint d \<noteq> f then ChangeUnknown
          else if evaluatePredicate fmt previousValue (pd_predicate d) \<noteq> Holds then ChangeUnknown
          else case evaluatePredicate fmt currentValue (pd_predicate d) of
            Holds \<Rightarrow> PRESERVED | Fails \<Rightarrow> INVALIDATED | EvalUnknown \<Rightarrow> ChangeUnknown)"

section \<open>The fingerprint is the identity of the dependency\<close>

text \<open>The text of the numbers \<open>canonical\<close> accepts, as a total function.\<close>

definition predicateNumberText :: "(rat \<Rightarrow> string) \<Rightarrow> js_number \<Rightarrow> string" where
  "predicateNumberText fmt n = (case n of NegZero \<Rightarrow> ''-0'' | Finite q \<Rightarrow> fmt q | _ \<Rightarrow> [])"

lemma predicateNumber_text: "predicateNumber fmt n = Inr t \<Longrightarrow> predicateNumberText fmt n = t"
  by (auto simp: predicateNumber_def predicateNumberText_def split: js_number.splits)

definition sameIdentity :: "'a predicate_input_scheme \<Rightarrow> 'b predicate_input_scheme \<Rightarrow> bool" where
  "sameIdentity i j =
     (pd_tenantId i = pd_tenantId j \<and> pd_resourceId i = pd_resourceId j \<and>
      pd_incarnationId i = pd_incarnationId j \<and> pd_aspect i = pd_aspect j \<and>
      p_operator (pd_predicate i) = p_operator (pd_predicate j) \<and>
      map_option sortKeys (p_value (pd_predicate i)) = map_option sortKeys (p_value (pd_predicate j)))"

lemma canonical_eq_render:
  "canonical fmt v = Inr t \<Longrightarrow> t = render (predicateNumberText fmt) (sortKeys v)"
  unfolding canonical_def by (rule canonical_render) (rule predicateNumber_text)

lemma canonical_eqD:
  assumes "numberText (predicateNumberText fmt) S" "jsonValue S v" "jsonValue S w"
    and "canonical fmt v = Inr t" "canonical fmt w = Inr t"
  shows "sortKeys v = sortKeys w"
  using canonical_inject [OF predicateNumber_text assms(1,2,3)] assms(4,5)
  unfolding canonical_def by blast

lemma predicateObject_sortKeys:
  "sortKeys (predicateObject p) = sortKeys (predicateObject q) \<longleftrightarrow>
     p_operator p = p_operator q \<and> map_option sortKeys (p_value p) = map_option sortKeys (p_value q)"
  by (cases "p_value p"; cases "p_value q") (auto simp: predicateObject_def)

lemma identityObject_sortKeys:
  "sortKeys (identityObject i) = sortKeys (identityObject j) \<longleftrightarrow> sameIdentity i j"
proof
  assume "sameIdentity i j"
  then have "sortKeys (predicateObject (pd_predicate i)) = sortKeys (predicateObject (pd_predicate j))"
    by (simp add: predicateObject_sortKeys sameIdentity_def)
  with \<open>sameIdentity i j\<close> show "sortKeys (identityObject i) = sortKeys (identityObject j)"
    by (simp add: identityObject_def sameIdentity_def)
next
  assume eq: "sortKeys (identityObject i) = sortKeys (identityObject j)"
  note field = sortKeys_field [OF eq [unfolded identityObject_def]]
  have "pd_tenantId i = pd_tenantId j"
    by (rule field [of "''tenantId''" "JStr (pd_tenantId i)"]) auto
  moreover have "pd_resourceId i = pd_resourceId j"
    by (rule field [of "''resourceId''" "JStr (pd_resourceId i)"]) auto
  moreover have "pd_incarnationId i = pd_incarnationId j"
    by (rule field [of "''incarnationId''" "JStr (pd_incarnationId i)"]) auto
  moreover have "pd_aspect i = pd_aspect j"
    by (rule field [of "''aspect''" "JStr (pd_aspect i)"]) auto
  moreover have "sortKeys (predicateObject (pd_predicate i)) = sortKeys (predicateObject (pd_predicate j))"
    by (rule field [of "''predicate''" "predicateObject (pd_predicate i)"]) auto
  ultimately show "sameIdentity i j"
    by (simp add: sameIdentity_def predicateObject_sortKeys)
qed

lemma fingerprint_Inr_iff:
  "predicateSemanticFingerprint fmt sha i = Inr f \<longleftrightarrow>
     nonBlank (pd_tenantId i) \<and> nonBlank (pd_resourceId i) \<and> nonBlank (pd_incarnationId i) \<and>
     nonBlank (pd_aspect i) \<and> validPredicate fmt (pd_predicate i) = Inr () \<and>
     (\<exists>t. canonical fmt (identityObject i) = Inr t \<and> f = ''sha256:'' @ sha t)"
  by (auto simp: predicateSemanticFingerprint_def requiredNonBlank_def andThen_Inr_iff)

lemma identityObject_json:
  "jsonValue S (identityObject i) \<longleftrightarrow> jsonValue S (predicateObject (pd_predicate i))"
  by (simp add: identityObject_def)

lemma fingerprint_eq_iff:
  assumes "inj sha" and nt: "numberText (predicateNumberText fmt) S"
    and vi: "jsonValue S (predicateObject (pd_predicate i))"
    and vj: "jsonValue S (predicateObject (pd_predicate j))"
    and "predicateSemanticFingerprint fmt sha i = Inr f" "predicateSemanticFingerprint fmt sha j = Inr g"
  shows "f = g \<longleftrightarrow> sameIdentity i j"
proof -
  obtain a b where a: "canonical fmt (identityObject i) = Inr a" "f = ''sha256:'' @ sha a"
    and b: "canonical fmt (identityObject j) = Inr b" "g = ''sha256:'' @ sha b"
    using assms(5,6) by (auto simp: fingerprint_Inr_iff)
  have "f = g \<longleftrightarrow> a = b" using a b \<open>inj sha\<close> by (simp add: inj_eq)
  also have "\<dots> \<longleftrightarrow> sortKeys (identityObject i) = sortKeys (identityObject j)"
    using canonical_eqD [OF nt, of "identityObject i" "identityObject j"] a(1) b(1) vi vj
      canonical_eq_render [OF a(1)] canonical_eq_render [OF b(1)]
    by (auto simp: identityObject_json)
  finally show ?thesis by (simp add: identityObject_sortKeys)
qed

definition sampleInput :: predicate_input where
  "sampleInput = \<lparr>pd_tenantId = ''t'', pd_resourceId = ''r'', pd_incarnationId = ''i'', pd_aspect = ''size'',
     pd_predicate = \<lparr>p_operator = ''gte'', p_value = Some (JNum (Finite 0))\<rparr>\<rparr>"

definition sampleFmt :: "rat \<Rightarrow> string" where "sampleFmt q = ''0''"

lemma sample_numbers: "numberText (predicateNumberText sampleFmt) {Finite 0}"
  by (simp add: numberText_def predicateNumberText_def sampleFmt_def)

lemma sample_created:
  "\<exists>d. createPredicateDependency sampleFmt id sampleInput = Inr d"
  by (simp add: createPredicateDependency_def predicateSemanticFingerprint_def sampleInput_def
      requiredNonBlank_def nonBlank_def trim_def js_space_def validPredicate_def orderedOperators_def
      isNumOrStr_def canonical_def predicateNumber_def sampleFmt_def identityObject_def
      predicateObject_def sort_key_map_snd property_text)

text \<open>
  A semantic fingerprint identifies the dependency: with a collision-free digest and the
  language's injective number texts, two dependencies have the same fingerprint exactly when
  tenant, resource, incarnation, aspect and operator agree and the predicate values are equal
  up to the order of object properties.
\<close>

theorem fingerprint_identity:
  assumes "inj sha" and "numberText (predicateNumberText fmt) S"
    and "jsonValue S (predicateObject (pd_predicate i))" and "jsonValue S (predicateObject (pd_predicate j))"
    and "predicateSemanticFingerprint fmt sha i = Inr f" and "predicateSemanticFingerprint fmt sha j = Inr g"
  shows "f = g \<longleftrightarrow>
     pd_tenantId i = pd_tenantId j \<and> pd_resourceId i = pd_resourceId j \<and>
     pd_incarnationId i = pd_incarnationId j \<and> pd_aspect i = pd_aspect j \<and>
     p_operator (pd_predicate i) = p_operator (pd_predicate j) \<and>
     map_option sortKeys (p_value (pd_predicate i)) = map_option sortKeys (p_value (pd_predicate j))"
  using fingerprint_eq_iff [OF assms] by (simp add: sameIdentity_def)

theorem fingerprint_identity_witness:
  "\<exists>f. predicateSemanticFingerprint sampleFmt id sampleInput = Inr f \<and>
     (f = f \<longleftrightarrow> pd_tenantId sampleInput = pd_tenantId sampleInput)"
proof -
  obtain f where f: "predicateSemanticFingerprint sampleFmt id sampleInput = Inr f"
    using sample_created by (auto simp: createPredicateDependency_def andThen_Inr_iff)
  have v: "jsonValue {Finite 0} (predicateObject (pd_predicate sampleInput))"
    by (simp add: predicateObject_def sampleInput_def)
  from fingerprint_identity [OF inj_on_id sample_numbers v v f f] f show ?thesis by blast
qed

text \<open>
  C37: A dependency cannot be retargeted: if a dependency that carries the fingerprint of a
  created one is classified as preserved or invalidated, then it names the created
  dependency's tenant, resource, incarnation, aspect and predicate; its predicate held on the
  previous value; and PRESERVED means it holds on the current value, INVALIDATED that it fails.
\<close>

theorem classification_sound:
  assumes "inj sha" and "numberText (predicateNumberText fmt) S"
    and "createPredicateDependency fmt sha i = Inr d0"
    and "pd_semanticFingerprint d = pd_semanticFingerprint d0"
    and "jsonValue S (predicateObject (pd_predicate i))" and "jsonValue S (predicateObject (pd_predicate d))"
    and "classifyPredicateChange fmt sha d previousValue currentValue = c" and "c \<noteq> ChangeUnknown"
  shows "sameIdentity i d \<and> evaluatePredicate fmt previousValue (pd_predicate d) = Holds \<and>
    (c = PRESERVED \<longleftrightarrow> evaluatePredicate fmt currentValue (pd_predicate d) = Holds) \<and>
    (c = INVALIDATED \<longleftrightarrow> evaluatePredicate fmt currentValue (pd_predicate d) = Fails)"
proof -
  obtain f where f: "predicateSemanticFingerprint fmt sha d = Inr f" "pd_semanticFingerprint d = f"
    and ev: "evaluatePredicate fmt previousValue (pd_predicate d) = Holds"
    using assms(7,8) by (auto simp: classifyPredicateChange_def split: if_splits sum.splits)
  have "predicateSemanticFingerprint fmt sha i = Inr f"
    using assms(3,4) f(2) by (auto simp: createPredicateDependency_def andThen_Inr_iff)
  then have "sameIdentity i d"
    using fingerprint_eq_iff [OF assms(1,2,5,6) _ f(1)] by blast
  with f ev assms(7,8) show ?thesis
    by (auto simp: classifyPredicateChange_def split: if_splits predicate_evaluation.splits)
qed

theorem classification_sound_witness:
  "\<exists>d. createPredicateDependency sampleFmt id sampleInput = Inr d \<and>
     classifyPredicateChange sampleFmt id d (JNum (Finite 0)) (JNum (Finite 0)) = PRESERVED \<and>
     sameIdentity sampleInput d"
proof -
  obtain d where d: "createPredicateDependency sampleFmt id sampleInput = Inr d"
    using sample_created by blast
  then obtain f where f: "predicateSemanticFingerprint sampleFmt id sampleInput = Inr f"
    and eq: "pd_predicate d = pd_predicate sampleInput" "pd_specVersion d = PREDICATE_DEPENDENCY_SPEC_VERSION"
      "pd_semanticFingerprint d = f" "identityObject d = identityObject sampleInput"
      "pd_tenantId d = pd_tenantId sampleInput" "pd_resourceId d = pd_resourceId sampleInput"
      "pd_incarnationId d = pd_incarnationId sampleInput" "pd_aspect d = pd_aspect sampleInput"
    by (auto simp: createPredicateDependency_def andThen_Inr_iff identityObject_def)
  then have "predicateSemanticFingerprint sampleFmt id d = Inr f"
    by (simp add: fingerprint_Inr_iff)
  moreover have "evaluatePredicate sampleFmt (JNum (Finite 0)) (pd_predicate sampleInput) = Holds"
    by (simp add: evaluatePredicate_def validPredicate_def sampleInput_def orderedOperators_def
        isNumOrStr_def canonical_def predicateNumber_def sampleFmt_def isFinite_def compareBy_def evalOf_def)
  ultimately have c: "classifyPredicateChange sampleFmt id d (JNum (Finite 0)) (JNum (Finite 0)) = PRESERVED"
    using eq by (simp add: classifyPredicateChange_def)
  have v: "jsonValue {Finite 0} (predicateObject (pd_predicate sampleInput))"
    by (simp add: predicateObject_def sampleInput_def)
  from classification_sound [OF inj_on_id sample_numbers d refl v _ c] v eq(1) d c
  show ?thesis by auto
qed

lemmas evaluation_defs = evaluatePredicate_def validPredicate_def orderedOperators_def evalOf_def
  compareBy_def Let_def

lemma evaluate_negated:
  "evaluatePredicate fmt v \<lparr>p_operator = ''neq'', p_value = x\<rparr> =
      (case evaluatePredicate fmt v \<lparr>p_operator = ''eq'', p_value = x\<rparr> of
         Holds \<Rightarrow> Fails | Fails \<Rightarrow> Holds | EvalUnknown \<Rightarrow> EvalUnknown)"
  by (cases x) (simp_all add: evaluation_defs split: sum.splits)

lemma evaluate_lte:
  "evaluatePredicate fmt v \<lparr>p_operator = ''lte'', p_value = x\<rparr> =
      (case evaluatePredicate fmt v \<lparr>p_operator = ''gt'', p_value = x\<rparr> of
         Holds \<Rightarrow> Fails | Fails \<Rightarrow> Holds | EvalUnknown \<Rightarrow> EvalUnknown)"
  by (cases x; cases "the x"; cases v) (auto simp: evaluation_defs isNumOrStr_def split: sum.splits)

lemma evaluate_lt:
  "evaluatePredicate fmt v \<lparr>p_operator = ''lt'', p_value = x\<rparr> =
      (case evaluatePredicate fmt v \<lparr>p_operator = ''gte'', p_value = x\<rparr> of
         Holds \<Rightarrow> Fails | Fails \<Rightarrow> Holds | EvalUnknown \<Rightarrow> EvalUnknown)"
  by (cases x; cases "the x"; cases v) (auto simp: evaluation_defs isNumOrStr_def split: sum.splits)

lemma sameValue_sym: "sameValue fmt v w = sameValue fmt w v"
  by (auto simp: sameValue_def split: sum.splits)

lemma canonical_singleton: "isl (canonical fmt (JArr [y])) = isl (canonical fmt y)"
  by (cases "canonical fmt y") (auto simp: canonical_def)

lemma evaluate_in_singleton:
  "evaluatePredicate fmt v \<lparr>p_operator = ''in'', p_value = Some (JArr [y])\<rparr> =
   evaluatePredicate fmt v \<lparr>p_operator = ''eq'', p_value = Some y\<rparr>"
proof (cases "y = JUndefined")
  case True
  then show ?thesis by (simp add: evaluation_defs nonEmptyArray_def canonical_def)
next
  case False
  with canonical_singleton [of fmt y] show ?thesis
    by (cases "canonical fmt y"; cases "canonical fmt (JArr [y])")
      (auto simp: evaluation_defs nonEmptyArray_def sameValue_sym)
qed

text \<open>
  The operators agree with each other on every value and operand: \<open>neq\<close> is known exactly
  when \<open>eq\<close> is and is its negation, \<open>gt\<close> and \<open>lte\<close> are complementary, \<open>gte\<close> and \<open>lt\<close> are,
  and membership in a one-element array is equality with its element.
\<close>

theorem operators_consistent:
  "(evaluatePredicate fmt v \<lparr>p_operator = ''neq'', p_value = x\<rparr> =
      (case evaluatePredicate fmt v \<lparr>p_operator = ''eq'', p_value = x\<rparr> of
         Holds \<Rightarrow> Fails | Fails \<Rightarrow> Holds | EvalUnknown \<Rightarrow> EvalUnknown)) \<and>
   (evaluatePredicate fmt v \<lparr>p_operator = ''lte'', p_value = x\<rparr> =
      (case evaluatePredicate fmt v \<lparr>p_operator = ''gt'', p_value = x\<rparr> of
         Holds \<Rightarrow> Fails | Fails \<Rightarrow> Holds | EvalUnknown \<Rightarrow> EvalUnknown)) \<and>
   (evaluatePredicate fmt v \<lparr>p_operator = ''lt'', p_value = x\<rparr> =
      (case evaluatePredicate fmt v \<lparr>p_operator = ''gte'', p_value = x\<rparr> of
         Holds \<Rightarrow> Fails | Fails \<Rightarrow> Holds | EvalUnknown \<Rightarrow> EvalUnknown)) \<and>
   (evaluatePredicate fmt v \<lparr>p_operator = ''in'', p_value = Some (JArr [y])\<rparr> =
    evaluatePredicate fmt v \<lparr>p_operator = ''eq'', p_value = Some y\<rparr>)"
  by (simp only: evaluate_negated evaluate_lte evaluate_lt evaluate_in_singleton simp_thms)

end
