(* ===== verification/Eviction.thy ===== *)
theory Eviction
  imports Prelude "HOL-Library.While_Combinator"
begin

text \<open>
  The interface of a bounded store that evicts: it holds entries, and one operation drops an
  entry that satisfies a request. From that alone the loops that evict until the store is within
  its bounds return, keep the invariant and the configuration, and only lose entries.
\<close>

locale eviction =
  fixes inv :: "'s \<Rightarrow> bool"
    and entries :: "'s \<Rightarrow> 'e list"
    and config :: "'s \<Rightarrow> 'c"
    and matches :: "'p \<Rightarrow> 'e \<Rightarrow> bool"
    and evict :: "'p \<Rightarrow> 's \<Rightarrow> 's"
  assumes evict_inv: "inv s \<Longrightarrow> inv (evict p s)"
    and evict_config: "inv s \<Longrightarrow> config (evict p s) = config s"
    and evict_subset: "inv s \<Longrightarrow> set (entries (evict p s)) \<subseteq> set (entries s)"
    and evict_shrinks: "inv s \<Longrightarrow> e \<in> set (entries s) \<Longrightarrow> matches p e \<Longrightarrow>
      length (entries (evict p s)) < length (entries s)"
begin

definition within :: "'s \<Rightarrow> 's \<Rightarrow> bool" where
  "within s t = (inv t \<and> config t = config s \<and> set (entries t) \<subseteq> set (entries s))"

lemma within_refl: "inv s \<Longrightarrow> within s s"
  by (simp add: within_def)

lemma within_trans: "within s t \<Longrightarrow> within t u \<Longrightarrow> within s u"
  by (auto simp: within_def)

lemma within_evict: "within s t \<Longrightarrow> within s (evict p t)"
  using evict_inv evict_config evict_subset by (fastforce simp: within_def)

text \<open>While the store is over its bound some entry can go; then the loop returns, within the bound.\<close>

lemma drains:
  assumes "inv s" and victim: "\<And>t. within s t \<Longrightarrow> over t \<Longrightarrow> \<exists>e \<in> set (entries t). matches p e"
  shows "\<exists>t. while_option over (evict p) s = Some t \<and> within s t \<and> \<not> over t"
proof -
  have step: "within s (evict p t) \<and> length (entries (evict p t)) < length (entries t)" if "within s t" "over t" for t
    using victim [OF that] evict_shrinks that(1) within_evict [OF that(1)] by (auto simp: within_def)
  note start = within_refl [OF assms(1)]
  obtain t where t: "while_option over (evict p) s = Some t"
    using measure_while_option_Some [of "within s" over "evict p" "length \<circ> entries" s] step start by fastforce
  moreover have "within s t"
    using while_option_rule [of "within s" over "evict p" s t] step start t by blast
  moreover have "\<not> over t" using while_option_stop [OF t] .
  ultimately show ?thesis by blast
qed

end

end
