(* ===== verification/Negative_Premises.thy ===== *)
theory Negative_Premises
  imports Predicate_Dependencies Eviction
begin

text \<open>
  \<open>packages/runtime-core/src/negative-premises.ts\<close>: a bounded store of absence observations.
  \<open>Date.parse\<close> is the argument \<open>dp\<close> (\<open>None\<close> is NaN: which texts it accepts beyond the ISO
  format is up to the implementation) and SHA-256 the argument \<open>sha\<close>. The two eviction loops
  are \<open>while_option\<close>; an insertion that does not return is \<open>None\<close>.
\<close>

record negative_premise_identity =
  np_tenantId :: string
  np_resource :: string
  np_incarnationId :: string
  np_queryDigest :: string
  np_frontierDigest :: string
  np_authorizationContextDigest :: string

record negative_premise = negative_premise_identity +
  np_reason :: string
  np_observedAt :: string
  np_expiresAt :: string

record stored_negative_premise = negative_premise +
  np_key :: string

datatype negative_state = ABSENT | STALE | UNKNOWN
datatype negative_decision = USE | REVALIDATE | REJECT
datatype negative_reason = ReasonAbsent | NOT_FOUND | EXPIRED | FRONTIER_CHANGED | ENTITY_PRESENT
  | INCARNATION_CHANGED | INVALID_SCOPE

record negative_check =
  nc_state :: negative_state
  nc_decision :: negative_decision
  nc_reason :: negative_reason

text \<open>The fields of an observation, \<open>None\<close> where the property is missing.\<close>

record negative_observation =
  no_entityPresent :: "jsvalue option"
  no_frontierDigest :: "jsvalue option"
  no_incarnationId :: "jsvalue option"

section \<open>Guards\<close>

definition timestampText :: "(string \<Rightarrow> int option) \<Rightarrow> string \<Rightarrow> string \<Rightarrow> exn + string" where
  "timestampText dp name v =
     andThen (requiredNonBlank name v) (\<lambda>t.
       case dp t of None \<Rightarrow> Inl (NotTimestamp name) | Some ms \<Rightarrow> Inr t)"

definition assertScope :: "'a negative_premise_identity_scheme \<Rightarrow> exn + unit" where
  "assertScope s =
     andThen (requiredNonBlank ''tenantId'' (np_tenantId s)) (\<lambda>_.
     andThen (requiredNonBlank ''resource'' (np_resource s)) (\<lambda>_.
     andThen (requiredNonBlank ''incarnationId'' (np_incarnationId s)) (\<lambda>_.
     andThen (requiredNonBlank ''queryDigest'' (np_queryDigest s)) (\<lambda>_.
     andThen (requiredNonBlank ''frontierDigest'' (np_frontierDigest s)) (\<lambda>_.
     andThen (requiredNonBlank ''authorizationContextDigest'' (np_authorizationContextDigest s)) (\<lambda>_.
       Inr ()))))))"

definition requiredValue :: "string \<Rightarrow> jsvalue \<Rightarrow> exn + string" where
  "requiredValue name v = (case v of JStr s \<Rightarrow> requiredNonBlank name s | _ \<Rightarrow> Inl (NotText name))"

definition optionalText :: "string \<Rightarrow> jsvalue option \<Rightarrow> exn + unit" where
  "optionalText name f =
     (case f of None \<Rightarrow> Inr () | Some v \<Rightarrow> andThen (requiredValue name v) (\<lambda>_. Inr ()))"

definition assertObservation :: "negative_observation option \<Rightarrow> exn + negative_observation" where
  "assertObservation obs =
     (case obs of None \<Rightarrow> Inl (Failure ''an authoritative negative-premise observation is required'')
      | Some ob \<Rightarrow>
        andThen (case no_entityPresent ob of None \<Rightarrow> Inr () | Some (JBool b) \<Rightarrow> Inr ()
                 | Some v \<Rightarrow> Inl (Failure ''entityPresent must be boolean'')) (\<lambda>_.
        andThen (optionalText ''frontierDigest'' (no_frontierDigest ob)) (\<lambda>_.
        andThen (optionalText ''incarnationId'' (no_incarnationId ob)) (\<lambda>_.
          if no_entityPresent ob = None \<and> no_frontierDigest ob = None \<and> no_incarnationId ob = None
          then Inl (Failure ''an authoritative negative-premise signal is required'')
          else Inr ob))))"

text \<open>
  The canonical object of a scope has string fields only, so the text of numbers that
  \<open>canonical\<close> would use plays no part.
\<close>

definition negativeCanonical :: "jsvalue \<Rightarrow> exn + string" where
  "negativeCanonical v = canonicalWith (predicateNumber (\<lambda>q. [])) False v"

definition scopeObject :: "'a negative_premise_identity_scheme \<Rightarrow> jsvalue" where
  "scopeObject s = JObj True
     [(''domain'', JStr ''premise-negative/1''),
      (''tenantId'', JStr (np_tenantId s)),
      (''resource'', JStr (np_resource s)),
      (''incarnationId'', JStr (np_incarnationId s)),
      (''queryDigest'', JStr (np_queryDigest s)),
      (''frontierDigest'', JStr (np_frontierDigest s)),
      (''authorizationContextDigest'', JStr (np_authorizationContextDigest s))]"

definition negativePremiseKey ::
  "(string \<Rightarrow> string) \<Rightarrow> 'a negative_premise_identity_scheme \<Rightarrow> exn + string" where
  "negativePremiseKey sha s =
     andThen (assertScope s) (\<lambda>_.
     andThen (negativeCanonical (scopeObject s)) (\<lambda>t. Inr (''sha256:'' @ sha t)))"

definition decisionFor :: "negative_state \<Rightarrow> negative_decision" where
  "decisionFor s = (case s of ABSENT \<Rightarrow> USE | STALE \<Rightarrow> REVALIDATE | UNKNOWN \<Rightarrow> REJECT)"

definition checkResult :: "negative_state \<Rightarrow> negative_reason \<Rightarrow> negative_check" where
  "checkResult s r = \<lparr>nc_state = s, nc_decision = decisionFor s, nc_reason = r\<rparr>"

section \<open>The store\<close>

record negative_store =
  ns_entries :: "(string, stored_negative_premise) omap"
  ns_maxEntries :: int
  ns_maxEntriesPerTenant :: "int option"
  ns_tenantCounts :: "(string, int) omap"
  ns_hits :: int
  ns_misses :: int
  ns_expirations :: int
  ns_evictions :: int
  ns_peakEntries :: int

definition newNegativeStore :: "jsnum option \<Rightarrow> jsnum option \<Rightarrow> exn + negative_store" where
  "newNegativeStore maxEntries perTenant =
     (let m = nullish maxEntries (Integral 1024) in
      if \<not> validToken m then Inl (NotInRange ''maxEntries'')
      else if (case perTenant of None \<Rightarrow> False | Some p \<Rightarrow> \<not> validToken p)
        then Inl (NotInRange ''maxEntriesPerTenant'')
      else Inr \<lparr>ns_entries = [], ns_maxEntries = int_of m, ns_maxEntriesPerTenant = map_option int_of perTenant,
                ns_tenantCounts = [], ns_hits = 0, ns_misses = 0, ns_expirations = 0, ns_evictions = 0,
                ns_peakEntries = 0\<rparr>)"

definition tenantCount :: "negative_store \<Rightarrow> string \<Rightarrow> int" where
  "tenantCount st t = nullish (map_of (ns_tenantCounts st) t) 0"

definition removeEntry :: "negative_store \<Rightarrow> string \<Rightarrow> bool \<times> negative_store" where
  "removeEntry st key =
     (case map_of (ns_entries st) key of
        None \<Rightarrow> (False, st)
      | Some entry \<Rightarrow>
          (let count = tenantCount st (np_tenantId entry) in
           (True, st\<lparr>ns_entries := omap_delete key (ns_entries st),
              ns_tenantCounts :=
                (if count \<le> 1 then omap_delete (np_tenantId entry) (ns_tenantCounts st)
                 else omap_set (np_tenantId entry) (count - 1) (ns_tenantCounts st))\<rparr>)))"

definition evictOldest :: "string option \<Rightarrow> negative_store \<Rightarrow> negative_store" where
  "evictOldest tenant st =
     (case find (\<lambda>(k, e). tenant = None \<or> tenant = Some (np_tenantId e)) (ns_entries st) of
        None \<Rightarrow> st
      | Some (k, e) \<Rightarrow>
          (let st1 = snd (removeEntry st k) in st1\<lparr>ns_evictions := ns_evictions st1 + 1\<rparr>))"

definition evictOverflow :: "negative_store \<Rightarrow> negative_store option" where
  "evictOverflow = while_option (\<lambda>st. int (length (ns_entries st)) > ns_maxEntries st) (evictOldest None)"

definition evictTenantOverflow :: "string \<Rightarrow> int \<Rightarrow> negative_store \<Rightarrow> negative_store option" where
  "evictTenantOverflow t cap = while_option (\<lambda>st. tenantCount st t > cap) (evictOldest (Some t))"

definition storeEntry :: "negative_store \<Rightarrow> stored_negative_premise \<Rightarrow> negative_store" where
  "storeEntry st e =
     (let st1 = snd (removeEntry st (np_key e));
          entries = omap_set (np_key e) e (ns_entries st1)
      in st1\<lparr>ns_entries := entries,
             ns_tenantCounts := omap_set (np_tenantId e) (tenantCount st1 (np_tenantId e) + 1) (ns_tenantCounts st1),
             ns_peakEntries := max (ns_peakEntries st1) (int (length entries))\<rparr>)"

definition putAbsent ::
  "(string \<Rightarrow> int option) \<Rightarrow> (string \<Rightarrow> string) \<Rightarrow> negative_store \<Rightarrow> negative_premise
     \<Rightarrow> ((exn + string) \<times> negative_store) option" where
  "putAbsent dp sha st i =
     (case andThen (assertScope i) (\<lambda>_.
           andThen (timestampText dp ''observedAt'' (np_observedAt i)) (\<lambda>observedAt.
           andThen (timestampText dp ''expiresAt'' (np_expiresAt i)) (\<lambda>expiresAt.
           andThen (requiredNonBlank ''reason'' (np_reason i)) (\<lambda>_.
             if the (dp expiresAt) \<le> the (dp observedAt) then Inl (NotInRange ''expiresAt'')
             else negativePremiseKey sha i)))) of
        Inl e \<Rightarrow> Some (Inl e, st)
      | Inr key \<Rightarrow>
          (let st1 = storeEntry st \<lparr>np_tenantId = np_tenantId i, np_resource = np_resource i,
             np_incarnationId = np_incarnationId i, np_queryDigest = np_queryDigest i,
             np_frontierDigest = np_frontierDigest i,
             np_authorizationContextDigest = np_authorizationContextDigest i,
             np_reason = np_reason i, np_observedAt = np_observedAt i, np_expiresAt = np_expiresAt i,
             np_key = key\<rparr> in
           case evictOverflow st1 of None \<Rightarrow> None | Some st2 \<Rightarrow>
             (case ns_maxEntriesPerTenant st2 of
                None \<Rightarrow> Some (Inr key, st2)
              | Some cap \<Rightarrow> map_option (\<lambda>st3. (Inr key, st3)) (evictTenantOverflow (np_tenantId i) cap st2))))"

definition miss :: "negative_store \<Rightarrow> negative_reason \<Rightarrow> negative_check \<times> negative_store" where
  "miss st r = (checkResult UNKNOWN r, st\<lparr>ns_misses := ns_misses st + 1\<rparr>)"

definition hit :: "negative_store \<Rightarrow> negative_state \<Rightarrow> negative_reason \<Rightarrow> negative_check \<times> negative_store" where
  "hit st s r = (checkResult s r, st\<lparr>ns_hits := ns_hits st + 1\<rparr>)"

definition checkNegative ::
  "(string \<Rightarrow> int option) \<Rightarrow> (string \<Rightarrow> string) \<Rightarrow> negative_store \<Rightarrow> negative_premise_identity
     \<Rightarrow> string \<Rightarrow> negative_observation option \<Rightarrow> negative_check \<times> negative_store" where
  "checkNegative dp sha st s now obs =
     (case andThen (assertScope s) (\<lambda>_. andThen (timestampText dp ''now'' now) (\<lambda>_.
           andThen (assertObservation obs) (\<lambda>ob. andThen (negativePremiseKey sha s) (\<lambda>key. Inr (ob, key))))) of
        Inl e \<Rightarrow> miss st INVALID_SCOPE
      | Inr (ob, key) \<Rightarrow>
          (case map_of (ns_entries st) key of
             None \<Rightarrow> miss st NOT_FOUND
           | Some entry \<Rightarrow>
               if the (dp now) < the (dp (np_observedAt entry)) then miss st INVALID_SCOPE
               else if the (dp now) \<ge> the (dp (np_expiresAt entry)) then
                 (let st1 = snd (removeEntry st key)
                  in miss (st1\<lparr>ns_expirations := ns_expirations st1 + 1\<rparr>) EXPIRED)
               else if no_incarnationId ob \<noteq> None \<and> no_incarnationId ob \<noteq> Some (JStr (np_incarnationId entry))
                 then hit st STALE INCARNATION_CHANGED
               else if no_frontierDigest ob \<noteq> None \<and> no_frontierDigest ob \<noteq> Some (JStr (np_frontierDigest entry))
                 then hit st STALE FRONTIER_CHANGED
               else if no_entityPresent ob = Some (JBool True) then hit st STALE ENTITY_PRESENT
               else hit st ABSENT ReasonAbsent))"

definition appearanceScope :: "string \<Rightarrow> string \<Rightarrow> string \<Rightarrow> exn + unit" where
  "appearanceScope tenant resource incarnation =
     andThen (requiredNonBlank ''tenantId'' tenant) (\<lambda>_.
     andThen (requiredNonBlank ''resource'' resource) (\<lambda>_.
     andThen (requiredNonBlank ''incarnationId'' incarnation) (\<lambda>_. Inr ())))"

fun removeMatching ::
  "string \<Rightarrow> string \<Rightarrow> (string, stored_negative_premise) omap \<Rightarrow> int \<Rightarrow> negative_store \<Rightarrow> int \<times> negative_store" where
  "removeMatching tenant resource [] removed st = (removed, st)"
| "removeMatching tenant resource ((key, entry) # es) removed st =
     (if np_tenantId entry = tenant \<and> np_resource entry = resource then
        (case removeEntry st key of (ok, st1) \<Rightarrow>
           removeMatching tenant resource es (if ok then removed + 1 else removed) st1)
      else removeMatching tenant resource es removed st)"

definition invalidateOnAppearance ::
  "negative_store \<Rightarrow> string \<Rightarrow> string \<Rightarrow> string \<Rightarrow> (exn + int) \<times> negative_store" where
  "invalidateOnAppearance st tenant resource incarnation =
     (case appearanceScope tenant resource incarnation of
        Inl e \<Rightarrow> (Inl e, st)
      | Inr u \<Rightarrow>
          (case removeMatching tenant resource (ns_entries st) 0 st of
             (removed, st1) \<Rightarrow> (Inr removed, st1)))"

definition clearNegative :: "negative_store \<Rightarrow> negative_store" where
  "clearNegative st = st\<lparr>ns_entries := [], ns_tenantCounts := []\<rparr>"

section \<open>The invariant of the store\<close>

definition tenantEntries :: "negative_store \<Rightarrow> string \<Rightarrow> nat" where
  "tenantEntries st t = length (filter (\<lambda>p. np_tenantId (snd p) = t) (ns_entries st))"

text \<open>
  Keys are unique and each entry lies under its own key; the counter of a tenant is the number
  of its entries; the configured bounds are positive.
\<close>

definition neg_inv :: "negative_store \<Rightarrow> bool" where
  "neg_inv st = (omap_ok (ns_entries st) \<and> (\<forall>(k, e) \<in> set (ns_entries st). np_key e = k) \<and>
     (\<forall>t. tenantCount st t = int (tenantEntries st t)) \<and>
     ns_maxEntries st \<ge> 1 \<and> (\<forall>c. ns_maxEntriesPerTenant st = Some c \<longrightarrow> c \<ge> 1))"

definition neg_frame :: "negative_store \<Rightarrow> negative_store \<Rightarrow> bool" where
  "neg_frame st st' = (ns_maxEntries st' = ns_maxEntries st \<and>
     ns_maxEntriesPerTenant st' = ns_maxEntriesPerTenant st)"

lemma tenantCount_update:
  "tenantCount (st\<lparr>ns_entries := es, ns_tenantCounts := omap_set t n cs\<rparr>) t' =
     (if t' = t then n else nullish (map_of cs t') 0)"
  "tenantCount (st\<lparr>ns_entries := es, ns_tenantCounts := omap_delete t cs\<rparr>) t' =
     (if t' = t then 0 else nullish (map_of cs t') 0)"
  by (auto simp: tenantCount_def)

lemma neg_inv_newStore: "newNegativeStore m p = Inr st \<Longrightarrow> neg_inv st \<and> ns_entries st = []"
  by (cases p)
    (auto simp: newNegativeStore_def neg_inv_def tenantCount_def tenantEntries_def validToken_def Let_def
      split: if_splits)

lemma removeEntry_spec:
  assumes "neg_inv st" and "removeEntry st key = (b, st')"
  shows "neg_inv st' \<and> neg_frame st st' \<and> ns_entries st' = omap_delete key (ns_entries st) \<and>
    (b \<longleftrightarrow> map_of (ns_entries st) key \<noteq> None) \<and>
    (ns_hits st' = ns_hits st \<and> ns_misses st' = ns_misses st \<and> ns_peakEntries st' = ns_peakEntries st)"
proof (cases "map_of (ns_entries st) key")
  case None
  with assms show ?thesis by (auto simp: removeEntry_def omap_delete_absent neg_frame_def)
next
  case (Some e)
  let ?t = "np_tenantId e" and ?es = "omap_delete key (ns_entries st)"
  have ok: "omap_ok (ns_entries st)" using assms(1) by (simp add: neg_inv_def)
  have count: "length (filter (\<lambda>p. np_tenantId (snd p) = t) (ns_entries st)) =
      length (filter (\<lambda>p. np_tenantId (snd p) = t) ?es) + (if ?t = t then 1 else 0)" for t
    using length_filter_delete [OF ok Some] by simp
  have cnt: "tenantCount st t = int (tenantEntries st t)" for t
    using assms(1) by (simp add: neg_inv_def)
  have st': "st' = st\<lparr>ns_entries := ?es, ns_tenantCounts :=
      (if tenantCount st ?t \<le> 1 then omap_delete ?t (ns_tenantCounts st)
       else omap_set ?t (tenantCount st ?t - 1) (ns_tenantCounts st))\<rparr>" and b: b
    using assms(2) Some by (simp_all add: removeEntry_def Let_def)
  have "tenantCount st' t = int (tenantEntries st' t)" for t
    using count [of t] cnt [of t] unfolding st' tenantCount_def [symmetric]
    by (auto simp: tenantCount_update tenantEntries_def tenantCount_def [symmetric])
  moreover have "omap_ok ?es" using ok by simp
  moreover have "\<forall>(k, e) \<in> set ?es. np_key e = k"
    using assms(1) by (auto simp: neg_inv_def set_omap_delete)
  ultimately show ?thesis
    using assms(1) Some b by (auto simp: neg_inv_def neg_frame_def st')
qed

lemma evictOldest_spec:
  assumes "neg_inv st"
  shows "neg_inv (evictOldest tenant st) \<and> neg_frame st (evictOldest tenant st) \<and>
    set (ns_entries (evictOldest tenant st)) \<subseteq> set (ns_entries st) \<and>
    (\<forall>p \<in> set (ns_entries st). (tenant = None \<or> tenant = Some (np_tenantId (snd p))) \<longrightarrow>
       length (ns_entries (evictOldest tenant st)) < length (ns_entries st))"
proof (cases "find (\<lambda>(k, e). tenant = None \<or> tenant = Some (np_tenantId e)) (ns_entries st)")
  case None
  then have "evictOldest tenant st = st" by (simp add: evictOldest_def)
  moreover have "\<not> (tenant = None \<or> tenant = Some (np_tenantId (snd p)))" if "p \<in> set (ns_entries st)" for p
    using None that by (cases p) (force simp: find_None_iff)
  ultimately show ?thesis using assms by (auto simp: neg_frame_def)
next
  case (Some p)
  obtain k e where p: "p = (k, e)" by (cases p)
  have mem: "(k, e) \<in> set (ns_entries st)"
    using Some p by (metis find_Some_iff nth_mem)
  obtain b st1 where r: "removeEntry st k = (b, st1)" by (cases "removeEntry st k")
  note spec = removeEntry_spec [OF assms r]
  have "map_of (ns_entries st) k = Some e"
    using mem assms by (simp add: neg_inv_def omap_get_iff)
  moreover have "ns_entries st \<noteq> []" using mem by auto
  ultimately have "length (ns_entries st1) < length (ns_entries st)"
    using spec assms by (simp add: length_omap_delete neg_inv_def)
  moreover have "neg_inv (st1\<lparr>ns_evictions := n\<rparr>)" for n
    using spec [THEN conjunct1] by (simp add: neg_inv_def tenantCount_def tenantEntries_def)
  ultimately show ?thesis
    using Some p r spec by (auto simp: evictOldest_def neg_frame_def set_omap_delete)
qed

text \<open>Both eviction loops return; the store keeps a subset of its entries, within the bound.\<close>

interpretation absences: eviction neg_inv ns_entries "\<lambda>st. (ns_maxEntries st, ns_maxEntriesPerTenant st)"
    "\<lambda>tenant p. tenant = None \<or> tenant = Some (np_tenantId (snd p))" evictOldest
proof
  fix st p and e :: "string \<times> stored_negative_premise"
  assume "neg_inv st"
  note spec = evictOldest_spec [OF this, of p]
  show "neg_inv (evictOldest p st)" using spec by blast
  show "(ns_maxEntries (evictOldest p st), ns_maxEntriesPerTenant (evictOldest p st)) =
      (ns_maxEntries st, ns_maxEntriesPerTenant st)" using spec by (simp add: neg_frame_def)
  show "set (ns_entries (evictOldest p st)) \<subseteq> set (ns_entries st)" using spec by blast
  show "e \<in> set (ns_entries st) \<Longrightarrow> p = None \<or> p = Some (np_tenantId (snd e)) \<Longrightarrow>
      length (ns_entries (evictOldest p st)) < length (ns_entries st)" using spec by blast
qed

lemma absences_within:
  "absences.within st t \<longleftrightarrow> neg_inv t \<and> neg_frame st t \<and> set (ns_entries t) \<subseteq> set (ns_entries st)"
  by (auto simp: absences.within_def neg_frame_def)

lemma evictOverflow_spec:
  assumes "neg_inv st"
  shows "\<exists>st'. evictOverflow st = Some st' \<and> neg_inv st' \<and> neg_frame st st' \<and>
    set (ns_entries st') \<subseteq> set (ns_entries st) \<and> int (length (ns_entries st')) \<le> ns_maxEntries st'"
proof -
  have "\<exists>e \<in> set (ns_entries t). None = None \<or> None = Some (np_tenantId (snd e))"
    if "absences.within st t" "int (length (ns_entries t)) > ns_maxEntries t" for t
    using that by (cases "ns_entries t") (auto simp: absences_within neg_inv_def)
  from absences.drains [of st "\<lambda>st. int (length (ns_entries st)) > ns_maxEntries st" None, OF assms this] show ?thesis
    by (auto simp: evictOverflow_def absences_within)
qed

lemma evictTenantOverflow_spec:
  assumes "neg_inv st" and "cap \<ge> 1" and "int (length (ns_entries st)) \<le> ns_maxEntries st"
  shows "\<exists>st'. evictTenantOverflow t cap st = Some st' \<and> neg_inv st' \<and> neg_frame st st' \<and>
    set (ns_entries st') \<subseteq> set (ns_entries st) \<and> int (length (ns_entries st')) \<le> ns_maxEntries st' \<and>
    int (tenantEntries st' t) \<le> cap"
proof -
  have "\<exists>e \<in> set (ns_entries s). Some t = None \<or> Some t = Some (np_tenantId (snd e))"
    if "absences.within st s" "tenantCount s t > cap" for s
  proof -
    have "filter (\<lambda>p. np_tenantId (snd p) = t) (ns_entries s) \<noteq> []"
      using that assms(2) by (auto simp: absences_within neg_inv_def tenantEntries_def)
    then show ?thesis by (auto simp: filter_empty_conv)
  qed
  from absences.drains [of st "\<lambda>st. tenantCount st t > cap" "Some t", OF assms(1) this] obtain s where s: "evictTenantOverflow t cap st = Some s" "absences.within st s"
    "\<not> tenantCount s t > cap" by (auto simp: evictTenantOverflow_def)
  have "distinct (ns_entries s)" "distinct (ns_entries st)"
    using s(2) assms(1) by (auto simp: absences_within neg_inv_def omap_ok_def distinct_map)
  then have "length (ns_entries s) \<le> length (ns_entries st)"
    using s(2) by (metis absences_within card_mono distinct_card List.finite_set)
  with s assms(3) show ?thesis by (auto simp: absences_within neg_inv_def neg_frame_def)
qed

lemma storeEntry_spec:
  assumes "neg_inv st"
  shows "neg_inv (storeEntry st e) \<and> neg_frame st (storeEntry st e) \<and>
    set (ns_entries (storeEntry st e)) \<subseteq> insert (np_key e, e) (set (ns_entries st))"
proof -
  obtain b st1 where r: "removeEntry st (np_key e) = (b, st1)" by (cases "removeEntry st (np_key e)")
  note spec = removeEntry_spec [OF assms r]
  have absent: "map_of (ns_entries st1) (np_key e) = None" using spec by simp
  have es: "omap_set (np_key e) e (ns_entries st1) = ns_entries st1 @ [(np_key e, e)]"
    by (rule set_omap_set_absent [OF absent])
  have st': "storeEntry st e = st1\<lparr>ns_entries := ns_entries st1 @ [(np_key e, e)],
      ns_tenantCounts := omap_set (np_tenantId e) (tenantCount st1 (np_tenantId e) + 1) (ns_tenantCounts st1),
      ns_peakEntries := max (ns_peakEntries st1) (int (length (ns_entries st1 @ [(np_key e, e)])))\<rparr>"
    using r es by (simp add: storeEntry_def Let_def)
  have "tenantCount st1 t = int (tenantEntries st1 t)" for t
    using spec by (simp add: neg_inv_def)
  then have "tenantCount (storeEntry st e) t = int (tenantEntries (storeEntry st e) t)" for t
    unfolding st' by (simp add: tenantCount_def tenantEntries_def)
  moreover have "omap_ok (ns_entries st1)"
    using spec unfolding neg_inv_def by blast
  then have "omap_ok (ns_entries st1 @ [(np_key e, e)])"
    using omap_ok_set [of "ns_entries st1" "np_key e" e] es by metis
  ultimately show ?thesis
    using spec assms by (auto simp: neg_inv_def neg_frame_def st' set_omap_delete)
qed

definition windowValid :: "(string \<Rightarrow> int option) \<Rightarrow> 'a negative_premise_scheme \<Rightarrow> bool" where
  "windowValid dp i = (case (dp (np_observedAt i), dp (np_expiresAt i)) of
     (Some a, Some b) \<Rightarrow> a < b | _ \<Rightarrow> False)"

lemma putAbsent_guards:
  assumes "andThen (assertScope i) (\<lambda>_.
           andThen (timestampText dp ''observedAt'' (np_observedAt i)) (\<lambda>observedAt.
           andThen (timestampText dp ''expiresAt'' (np_expiresAt i)) (\<lambda>expiresAt.
           andThen (requiredNonBlank ''reason'' (np_reason i)) (\<lambda>_.
             if the (dp expiresAt) \<le> the (dp observedAt) then Inl (NotInRange ''expiresAt'')
             else negativePremiseKey sha i)))) = Inr key"
  shows "negativePremiseKey sha i = Inr key \<and> windowValid dp i"
  using assms
  by (auto simp: andThen_Inr_iff timestampText_def requiredNonBlank_def windowValid_def
      split: if_splits option.splits)

lemma putAbsent_spec:
  assumes "neg_inv st"
  shows "\<exists>r st'. putAbsent dp sha st i = Some (r, st') \<and> neg_inv st' \<and> neg_frame st st' \<and>
    (case r of
       Inl e \<Rightarrow> st' = st
     | Inr key \<Rightarrow> int (length (ns_entries st')) \<le> ns_maxEntries st' \<and>
         (\<forall>cap. ns_maxEntriesPerTenant st' = Some cap \<longrightarrow> int (tenantEntries st' (np_tenantId i)) \<le> cap) \<and>
         negativePremiseKey sha i = Inr key \<and> windowValid dp i \<and>
         (\<forall>p \<in> set (ns_entries st'). p \<in> set (ns_entries st) \<or>
            fst p = key \<and> negative_premise.truncate (snd p) = i))"
proof -
  let ?g = "andThen (assertScope i) (\<lambda>_.
           andThen (timestampText dp ''observedAt'' (np_observedAt i)) (\<lambda>observedAt.
           andThen (timestampText dp ''expiresAt'' (np_expiresAt i)) (\<lambda>expiresAt.
           andThen (requiredNonBlank ''reason'' (np_reason i)) (\<lambda>_.
             if the (dp expiresAt) \<le> the (dp observedAt) then Inl (NotInRange ''expiresAt'')
             else negativePremiseKey sha i))))"
  show ?thesis
  proof (cases ?g)
    case (Inl e)
    then have "putAbsent dp sha st i = Some (Inl e, st)" by (simp add: putAbsent_def)
    with assms show ?thesis by (intro exI [of _ "Inl e"] exI [of _ st]) (simp add: neg_frame_def)
  next
    case (Inr key)
    let ?e = "\<lparr>np_tenantId = np_tenantId i, np_resource = np_resource i,
             np_incarnationId = np_incarnationId i, np_queryDigest = np_queryDigest i,
             np_frontierDigest = np_frontierDigest i,
             np_authorizationContextDigest = np_authorizationContextDigest i,
             np_reason = np_reason i, np_observedAt = np_observedAt i, np_expiresAt = np_expiresAt i,
             np_key = key\<rparr>"
    have trunc: "negative_premise.truncate ?e = i" by (simp add: negative_premise.truncate_def)
    note guards = putAbsent_guards [OF Inr]
    note st1 = storeEntry_spec [OF assms, of ?e]
    obtain st2 where st2: "evictOverflow (storeEntry st ?e) = Some st2" "neg_inv st2"
      "neg_frame (storeEntry st ?e) st2" "set (ns_entries st2) \<subseteq> set (ns_entries (storeEntry st ?e))"
      "int (length (ns_entries st2)) \<le> ns_maxEntries st2"
      using evictOverflow_spec [of "storeEntry st ?e"] st1 by blast
    have sub: "\<forall>p \<in> set (ns_entries st2). p \<in> set (ns_entries st) \<or> fst p = key \<and> negative_premise.truncate (snd p) = i"
      using st1 st2(4) trunc by auto
    show ?thesis
    proof (cases "ns_maxEntriesPerTenant st2")
      case None
      then have "putAbsent dp sha st i = Some (Inr key, st2)"
        using Inr st2(1) by (simp add: putAbsent_def Let_def)
      with None guards st1 st2 sub show ?thesis
        by (intro exI [of _ "Inr key"] exI [of _ st2]) (auto simp: neg_frame_def)
    next
      case (Some cap)
      with st2(2) have "cap \<ge> 1" by (simp add: neg_inv_def)
      then obtain st3 where st3: "evictTenantOverflow (np_tenantId i) cap st2 = Some st3" "neg_inv st3"
        "neg_frame st2 st3" "set (ns_entries st3) \<subseteq> set (ns_entries st2)"
        "int (length (ns_entries st3)) \<le> ns_maxEntries st3" "int (tenantEntries st3 (np_tenantId i)) \<le> cap"
        using evictTenantOverflow_spec [OF st2(2) _ st2(5)] by blast
      have "putAbsent dp sha st i = Some (Inr key, st3)"
        using Inr st2(1) Some st3(1) by (simp add: putAbsent_def Let_def)
      with Some guards st1 st2 st3 sub show ?thesis
        by (intro exI [of _ "Inr key"] exI [of _ st3]) (auto simp: neg_frame_def)
    qed
  qed
qed

lemma removeMatching_spec:
  assumes "neg_inv st" and "removeMatching tenant resource es n st = (m, st')"
    and "\<forall>(k, e) \<in> set es. (k, e) \<in> set (ns_entries st) \<or> k \<notin> fst ` set (ns_entries st)"
  shows "neg_inv st' \<and> neg_frame st st' \<and> set (ns_entries st') \<subseteq> set (ns_entries st) \<and>
    (\<forall>(k, e) \<in> set es. np_tenantId e = tenant \<and> np_resource e = resource \<longrightarrow> k \<notin> fst ` set (ns_entries st'))"
  using assms
proof (induction es arbitrary: st n)
  case Nil
  then show ?case by (simp add: neg_frame_def)
next
  case (Cons p es)
  obtain k e where p: "p = (k, e)" by (cases p)
  show ?case
  proof (cases "np_tenantId e = tenant \<and> np_resource e = resource")
    case False
    with Cons.IH [of st n] Cons.prems p show ?thesis by auto
  next
    case True
    obtain b st1 where r: "removeEntry st k = (b, st1)" by (cases "removeEntry st k")
    note spec = removeEntry_spec [OF Cons.prems(1) r]
    have run: "removeMatching tenant resource es (if b then n + 1 else n) st1 = (m, st')"
      using Cons.prems(2) True r p by simp
    have rest: "\<forall>(k, e) \<in> set es. (k, e) \<in> set (ns_entries st1) \<or> k \<notin> fst ` set (ns_entries st1)"
      using Cons.prems(3) spec by (auto simp: set_omap_delete)
    have gone: "k \<notin> fst ` set (ns_entries st1)"
      using spec by (auto simp: set_omap_delete)
    from Cons.IH [OF _ run rest] spec gone p show ?thesis
      by (auto simp: neg_frame_def set_omap_delete)
  qed
qed

lemma invalidateOnAppearance_spec:
  assumes "neg_inv st" and "invalidateOnAppearance st tenant resource incarnation = (r, st')"
  shows "neg_inv st' \<and> neg_frame st st' \<and> set (ns_entries st') \<subseteq> set (ns_entries st) \<and>
    (isl r \<longleftrightarrow> isl (appearanceScope tenant resource incarnation)) \<and> (isl r \<longrightarrow> st' = st) \<and>
    (\<not> isl r \<longrightarrow> (\<forall>(k, e) \<in> set (ns_entries st'). \<not> (np_tenantId e = tenant \<and> np_resource e = resource)))"
proof (cases "appearanceScope tenant resource incarnation")
  case (Inl e)
  with assms show ?thesis by (auto simp: invalidateOnAppearance_def neg_frame_def)
next
  case (Inr u)
  obtain m st1 where rm: "removeMatching tenant resource (ns_entries st) 0 st = (m, st1)"
    by (cases "removeMatching tenant resource (ns_entries st) 0 st")
  with removeMatching_spec [OF assms(1) rm] Inr assms(2) show ?thesis
    by (force simp: invalidateOnAppearance_def)
qed

lemma checkNegative_spec:
  assumes "neg_inv st" and "checkNegative dp sha st s now obs = (c, st')"
  shows "neg_inv st' \<and> set (ns_entries st') \<subseteq> set (ns_entries st) \<and>
    length (ns_entries st') \<le> length (ns_entries st) \<and> neg_frame st st'"
proof -
  have keep: "neg_inv (st\<lparr>ns_misses := n\<rparr>) \<and> neg_inv (st\<lparr>ns_hits := n\<rparr>)" for n
    using assms(1) by (simp add: neg_inv_def tenantCount_def tenantEntries_def)
  have gone: "neg_inv ((snd (removeEntry st k))\<lparr>ns_expirations := n', ns_misses := n\<rparr>)
      \<and> ns_entries (snd (removeEntry st k)) = omap_delete k (ns_entries st) \<and> neg_frame st (snd (removeEntry st k))"
    for k n n'
  proof -
    obtain b st1 where r: "removeEntry st k = (b, st1)" by (cases "removeEntry st k")
    note spec = removeEntry_spec [OF assms(1) r]
    have "neg_inv (st1\<lparr>ns_expirations := n', ns_misses := n\<rparr>)"
      using spec [THEN conjunct1] by (simp add: neg_inv_def tenantCount_def tenantEntries_def)
    with spec r show ?thesis by simp
  qed
  have len: "length (omap_delete k (ns_entries st)) \<le> length (ns_entries st)" for k
    by (simp add: omap_delete_filter)
  show ?thesis
    using assms(2) keep gone len
    by (auto simp: checkNegative_def miss_def hit_def Let_def neg_frame_def set_omap_delete
        split: sum.splits option.splits if_splits)
qed

section \<open>Runs, and what is known to be absent\<close>

datatype negative_op = PutAbsent negative_premise
  | CheckAbsent negative_premise_identity string "negative_observation option"
  | Appear string string string
  | ClearAll

fun negative_step ::
  "(string \<Rightarrow> int option) \<Rightarrow> (string \<Rightarrow> string) \<Rightarrow> negative_op \<Rightarrow> negative_store \<Rightarrow> negative_store option" where
  "negative_step dp sha (PutAbsent i) st = map_option snd (putAbsent dp sha st i)"
| "negative_step dp sha (CheckAbsent s now obs) st = Some (snd (checkNegative dp sha st s now obs))"
| "negative_step dp sha (Appear t r n) st = Some (snd (invalidateOnAppearance st t r n))"
| "negative_step dp sha ClearAll st = Some (clearNegative st)"

fun negative_run ::
  "(string \<Rightarrow> int option) \<Rightarrow> (string \<Rightarrow> string) \<Rightarrow> negative_op list \<Rightarrow> negative_store \<Rightarrow> negative_store option" where
  "negative_run dp sha [] st = Some st"
| "negative_run dp sha (x # xs) st = Option.bind (negative_step dp sha x st) (negative_run dp sha xs)"

text \<open>
  The absences recorded by a run and not yet invalidated: an accepted appearance of a resource
  forgets every absence of that resource, clearing forgets all.
\<close>

fun recorded :: "negative_premise list \<Rightarrow> negative_op list \<Rightarrow> negative_premise list" where
  "recorded known [] = known"
| "recorded known (PutAbsent i # xs) = recorded (i # known) xs"
| "recorded known (CheckAbsent s now obs # xs) = recorded known xs"
| "recorded known (Appear t r n # xs) =
     recorded (if isl (appearanceScope t r n) then known
       else filter (\<lambda>i. \<not> (np_tenantId i = t \<and> np_resource i = r)) known) xs"
| "recorded known (ClearAll # xs) = recorded [] xs"

text \<open>Every entry of the store is a recorded absence with a valid window, under its own key.\<close>

definition backed ::
  "(string \<Rightarrow> int option) \<Rightarrow> (string \<Rightarrow> string) \<Rightarrow> negative_premise list \<Rightarrow> negative_store \<Rightarrow> bool" where
  "backed dp sha known st = (\<forall>p \<in> set (ns_entries st).
     negative_premise.truncate (snd p) \<in> set known \<and>
     negativePremiseKey sha (negative_premise.truncate (snd p)) = Inr (fst p) \<and> windowValid dp (snd p))"

lemma windowValid_truncate: "windowValid dp (negative_premise.truncate e) = windowValid dp e"
  by (simp add: windowValid_def negative_premise.truncate_def)

lemma backed_mono:
  "backed dp sha known st \<Longrightarrow> set (ns_entries st') \<subseteq> set (ns_entries st) \<Longrightarrow> set known \<subseteq> set known' \<Longrightarrow>
     backed dp sha known' st'"
  by (fastforce simp: backed_def)

lemma neg_inv_clear: "neg_inv st \<Longrightarrow> neg_inv (clearNegative st)"
  by (simp add: neg_inv_def clearNegative_def tenantCount_def tenantEntries_def)

text \<open>The bounds of the configuration hold for the whole store and for every tenant.\<close>

definition neg_bounded :: "negative_store \<Rightarrow> bool" where
  "neg_bounded st = (int (length (ns_entries st)) \<le> ns_maxEntries st \<and>
     (\<forall>cap t. ns_maxEntriesPerTenant st = Some cap \<longrightarrow> int (tenantEntries st t) \<le> cap))"

lemma distinct_subset_length: "distinct xs \<Longrightarrow> set xs \<subseteq> set ys \<Longrightarrow> length xs \<le> length ys"
  by (metis card_length card_mono distinct_card finite_set le_trans)

lemma int_le_trans: "m \<le> n \<Longrightarrow> int n \<le> c \<Longrightarrow> int m \<le> c"
  by simp

lemma neg_inv_distinct: "neg_inv st \<Longrightarrow> distinct (ns_entries st)"
  by (auto simp: neg_inv_def omap_ok_def distinct_map)

lemma neg_bounded_subset:
  assumes "neg_inv st'" and "neg_frame st st'" and "set (ns_entries st') \<subseteq> set (ns_entries st)" and "neg_bounded st"
  shows "neg_bounded st'"
proof -
  have d: "distinct (ns_entries st')" using assms(1) by (rule neg_inv_distinct)
  have "length (ns_entries st') \<le> length (ns_entries st)"
    by (rule distinct_subset_length [OF d assms(3)])
  moreover have "tenantEntries st' t \<le> tenantEntries st t" for t
    unfolding tenantEntries_def using d assms(3) by (intro distinct_subset_length) auto
  ultimately show ?thesis using assms(2,4) by (auto simp: neg_bounded_def neg_frame_def intro: int_le_trans)
qed

lemma negative_step_ok:
  assumes "neg_inv st" and "backed dp sha known st" and "neg_bounded st"
  shows "\<exists>st'. negative_step dp sha x st = Some st' \<and> neg_inv st' \<and> neg_frame st st' \<and> neg_bounded st' \<and>
    backed dp sha (recorded known [x]) st'"
proof (cases x)
  case (PutAbsent i)
  obtain r st' where put: "putAbsent dp sha st i = Some (r, st')" and inv: "neg_inv st'" "neg_frame st st'"
    and r: "case r of Inl e \<Rightarrow> st' = st
     | Inr key \<Rightarrow> int (length (ns_entries st')) \<le> ns_maxEntries st' \<and>
         (\<forall>cap. ns_maxEntriesPerTenant st' = Some cap \<longrightarrow> int (tenantEntries st' (np_tenantId i)) \<le> cap) \<and>
         negativePremiseKey sha i = Inr key \<and> windowValid dp i \<and>
         (\<forall>p \<in> set (ns_entries st'). p \<in> set (ns_entries st) \<or>
            fst p = key \<and> negative_premise.truncate (snd p) = i)"
    using putAbsent_spec [OF assms(1)] by blast
  have "neg_bounded st' \<and> backed dp sha (i # known) st'"
  proof (cases r)
    case (Inl e)
    with r assms(2,3) show ?thesis by (auto intro: backed_mono)
  next
    case (Inr key)
    have from_put: "p \<in> set (ns_entries st) \<or> fst p = key \<and> negative_premise.truncate (snd p) = i"
      if "p \<in> set (ns_entries st')" for p
      using r Inr that by auto
    have tenant: "np_tenantId (snd p) = np_tenantId i" if "negative_premise.truncate (snd p) = i" for p :: "string \<times> stored_negative_premise"
      using that by (auto simp: negative_premise.truncate_def)
    have valid: "windowValid dp (snd p)"
      if "negative_premise.truncate (snd p) = i" for p :: "string \<times> stored_negative_premise"
      using r Inr that windowValid_truncate [of dp "snd p"] by simp
    have "backed dp sha (i # known) st'"
      unfolding backed_def using from_put valid r Inr assms(2) by (force simp: backed_def)
    moreover have fewer: "tenantEntries st' t \<le> tenantEntries st t" if "t \<noteq> np_tenantId i" for t
      unfolding tenantEntries_def
      using neg_inv_distinct [OF inv(1)] from_put tenant that by (intro distinct_subset_length) fastforce+
    then have "int (tenantEntries st' t) \<le> cap" if "ns_maxEntriesPerTenant st' = Some cap" for cap t
    proof (cases "t = np_tenantId i")
      case True
      with that r Inr show ?thesis by simp
    next
      case False
      with that assms(3) inv(2) have "int (tenantEntries st t) \<le> cap"
        by (simp add: neg_bounded_def neg_frame_def)
      with fewer [OF False] show ?thesis by (rule int_le_trans)
    qed
    ultimately show ?thesis using r Inr by (simp add: neg_bounded_def)
  qed
  with put inv PutAbsent show ?thesis by auto
next
  case (CheckAbsent s now obs)
  obtain c st' where c: "checkNegative dp sha st s now obs = (c, st')"
    by (cases "checkNegative dp sha st s now obs")
  with checkNegative_spec [OF assms(1) c] assms CheckAbsent show ?thesis
    by (auto intro: backed_mono neg_bounded_subset)
next
  case (Appear t r n)
  obtain res st' where a: "invalidateOnAppearance st t r n = (res, st')"
    by (cases "invalidateOnAppearance st t r n")
  note spec = invalidateOnAppearance_spec [OF assms(1) a]
  have "backed dp sha (recorded known [x]) st'"
  proof (cases "isl res")
    case True
    with spec assms(2) Appear show ?thesis by simp
  next
    case False
    have "\<not> (np_tenantId (negative_premise.truncate (snd p)) = t \<and> np_resource (negative_premise.truncate (snd p)) = r)"
      if "p \<in> set (ns_entries st')" for p
      using spec False that by (cases p) (force simp: negative_premise.truncate_def)
    with spec False assms(2) Appear show ?thesis by (auto simp: backed_def)
  qed
  with spec assms Appear a show ?thesis by (auto intro: neg_bounded_subset)
next
  case ClearAll
  have "neg_bounded (clearNegative st)"
    using assms(3) order_trans [OF of_nat_0_le_iff]
    by (fastforce simp: neg_bounded_def clearNegative_def tenantEntries_def)
  moreover have "neg_frame st (clearNegative st) \<and> backed dp sha [] (clearNegative st)"
    by (simp add: clearNegative_def neg_frame_def backed_def)
  ultimately show ?thesis using ClearAll neg_inv_clear [OF assms(1)] by simp
qed

lemma recorded_append: "recorded known (xs @ ys) = recorded (recorded known xs) ys"
  by (induction known xs rule: recorded.induct) simp_all

lemma negative_run_ok:
  assumes "neg_inv st" and "backed dp sha known st" and "neg_bounded st"
  shows "\<exists>st'. negative_run dp sha xs st = Some st' \<and> neg_inv st' \<and> neg_frame st st' \<and> neg_bounded st' \<and>
    backed dp sha (recorded known xs) st'"
  using assms
proof (induction xs arbitrary: st known)
  case Nil
  then show ?case by (simp add: neg_frame_def)
next
  case (Cons x xs)
  obtain st1 where st1: "negative_step dp sha x st = Some st1" "neg_inv st1" "neg_frame st st1" "neg_bounded st1"
    "backed dp sha (recorded known [x]) st1"
    using negative_step_ok [OF Cons.prems] by blast
  with Cons.IH [OF st1(2,5,4)] show ?case
    using recorded_append [of known "[x]" xs] by (auto simp: neg_frame_def)
qed

section \<open>Keys name scopes\<close>

definition sameScope :: "'a negative_premise_identity_scheme \<Rightarrow> 'b negative_premise_identity_scheme \<Rightarrow> bool" where
  "sameScope a b = (np_tenantId a = np_tenantId b \<and> np_resource a = np_resource b \<and>
     np_incarnationId a = np_incarnationId b \<and> np_queryDigest a = np_queryDigest b \<and>
     np_frontierDigest a = np_frontierDigest b \<and>
     np_authorizationContextDigest a = np_authorizationContextDigest b)"

lemma negativePremiseKey_Inr_iff:
  "negativePremiseKey sha s = Inr k \<longleftrightarrow>
     assertScope s = Inr () \<and> (\<exists>t. negativeCanonical (scopeObject s) = Inr t \<and> k = ''sha256:'' @ sha t)"
  by (auto simp: negativePremiseKey_def andThen_Inr_iff)

lemma negativePremiseKey_sameScope:
  assumes "inj sha" and "negativePremiseKey sha a = Inr k" and "negativePremiseKey sha b = Inr k"
  shows "sameScope a b"
proof -
  obtain t u where t: "negativeCanonical (scopeObject a) = Inr t" "k = ''sha256:'' @ sha t"
    and u: "negativeCanonical (scopeObject b) = Inr u" "k = ''sha256:'' @ sha u"
    using assms(2,3) by (auto simp: negativePremiseKey_Inr_iff)
  have "t = u" using t(2) u(2) \<open>inj sha\<close> by (simp add: inj_eq)
  have num: "numberText (predicateNumberText (\<lambda>q. [])) {}" by (simp add: numberText_def)
  have json: "jsonValue {} (scopeObject a)" "jsonValue {} (scopeObject b)" by (simp_all add: scopeObject_def)
  have eq: "sortKeys (scopeObject a) = sortKeys (scopeObject b)"
    using canonical_inject [OF predicateNumber_text num json] t(1) u(1) \<open>t = u\<close>
    unfolding negativeCanonical_def by blast
  note field = sortKeys_field [OF eq [unfolded scopeObject_def]]
  have "np_tenantId a = np_tenantId b"
    by (rule field [of "''tenantId''" "JStr (np_tenantId a)"]) auto
  moreover have "np_resource a = np_resource b"
    by (rule field [of "''resource''" "JStr (np_resource a)"]) auto
  moreover have "np_incarnationId a = np_incarnationId b"
    by (rule field [of "''incarnationId''" "JStr (np_incarnationId a)"]) auto
  moreover have "np_queryDigest a = np_queryDigest b"
    by (rule field [of "''queryDigest''" "JStr (np_queryDigest a)"]) auto
  moreover have "np_frontierDigest a = np_frontierDigest b"
    by (rule field [of "''frontierDigest''" "JStr (np_frontierDigest a)"]) auto
  moreover have "np_authorizationContextDigest a = np_authorizationContextDigest b"
    by (rule field [of "''authorizationContextDigest''" "JStr (np_authorizationContextDigest a)"]) auto
  ultimately show ?thesis by (simp add: sameScope_def)
qed

lemma checkNegative_hit:
  assumes "fst (checkNegative dp sha st s now obs) = \<lparr>nc_state = v, nc_decision = d, nc_reason = r\<rparr>" "v \<noteq> UNKNOWN"
  shows "\<exists>ob key e t. obs = Some ob \<and> negativePremiseKey sha s = Inr key \<and>
    map_of (ns_entries st) key = Some e \<and> dp now = Some t \<and> the (dp (np_observedAt e)) \<le> t \<and>
    t < the (dp (np_expiresAt e)) \<and> d = decisionFor v \<and>
    (v = ABSENT \<longrightarrow> no_entityPresent ob \<noteq> Some (JBool True) \<and>
       no_incarnationId ob \<in> {None, Some (JStr (np_incarnationId e))} \<and>
       no_frontierDigest ob \<in> {None, Some (JStr (np_frontierDigest e))})"
proof (cases "andThen (assertScope s) (\<lambda>_. andThen (timestampText dp ''now'' now) (\<lambda>_.
           andThen (assertObservation obs) (\<lambda>ob. andThen (negativePremiseKey sha s) (\<lambda>key. Inr (ob, key)))))")
  case (Inl e)
  with assms show ?thesis by (simp add: checkNegative_def miss_def checkResult_def)
next
  case (Inr p)
  obtain ob key where p: "p = (ob, key)" by (cases p)
  obtain t where guards: "obs = Some ob" "negativePremiseKey sha s = Inr key" "dp now = Some t"
    using Inr p by (auto simp: andThen_Inr_iff timestampText_def requiredNonBlank_def assertObservation_def
        split: option.splits if_splits)
  show ?thesis
  proof (cases "map_of (ns_entries st) key")
    case None
    with assms Inr p show ?thesis by (simp add: checkNegative_def miss_def checkResult_def)
  next
    case (Some e)
    note unfold = assms(1) [unfolded checkNegative_def Inr p sum.case prod.case Some option.case, unfolded guards(3) option.sel]
    have window: "the (dp (np_observedAt e)) \<le> t" "t < the (dp (np_expiresAt e))"
      using unfold assms(2) by (auto simp: miss_def checkResult_def Let_def split: if_splits)
    with unfold have "d = decisionFor v \<and> (v = ABSENT \<longrightarrow> no_entityPresent ob \<noteq> Some (JBool True) \<and>
       no_incarnationId ob \<in> {None, Some (JStr (np_incarnationId e))} \<and>
       no_frontierDigest ob \<in> {None, Some (JStr (np_frontierDigest e))})"
      by (auto simp: hit_def checkResult_def split: if_splits)
    with guards Some window show ?thesis by blast
  qed
qed

lemma absent_entry:
  assumes "inj sha" and "neg_inv st" and "backed dp sha known st"
    and "fst (checkNegative dp sha st s now obs) = \<lparr>nc_state = v, nc_decision = d, nc_reason = r\<rparr>" "v \<noteq> UNKNOWN"
  shows "\<exists>i ob a t b. i \<in> set known \<and> sameScope i s \<and> obs = Some ob \<and> dp (np_observedAt i) = Some a \<and>
    dp now = Some t \<and> dp (np_expiresAt i) = Some b \<and> a \<le> t \<and> t < b \<and> d = decisionFor v \<and>
    (v = ABSENT \<longrightarrow> no_entityPresent ob \<noteq> Some (JBool True) \<and>
       no_incarnationId ob \<in> {None, Some (JStr (np_incarnationId s))} \<and>
       no_frontierDigest ob \<in> {None, Some (JStr (np_frontierDigest s))})"
proof -
  obtain ob key e t where e: "obs = Some ob" "negativePremiseKey sha s = Inr key" "map_of (ns_entries st) key = Some e"
    "dp now = Some t" "the (dp (np_observedAt e)) \<le> t" "t < the (dp (np_expiresAt e))" "d = decisionFor v"
    "v = ABSENT \<longrightarrow> no_entityPresent ob \<noteq> Some (JBool True) \<and>
       no_incarnationId ob \<in> {None, Some (JStr (np_incarnationId e))} \<and>
       no_frontierDigest ob \<in> {None, Some (JStr (np_frontierDigest e))}"
    using checkNegative_hit [OF assms(4,5)] by blast
  let ?i = "negative_premise.truncate e"
  have same: "np_incarnationId ?i = np_incarnationId e" "np_frontierDigest ?i = np_frontierDigest e"
    "np_observedAt ?i = np_observedAt e" "np_expiresAt ?i = np_expiresAt e"
    by (simp_all add: negative_premise.truncate_def)
  have "(key, e) \<in> set (ns_entries st)"
    using e(3) by (rule map_of_SomeD)
  with assms(3) have i: "?i \<in> set known" "negativePremiseKey sha ?i = Inr key" "windowValid dp e"
    by (force simp: backed_def)+
  from i(3) obtain a b where w: "dp (np_observedAt e) = Some a" "dp (np_expiresAt e) = Some b"
    by (auto simp: windowValid_def split: option.splits)
  from negativePremiseKey_sameScope [OF assms(1) i(2) e(2)] have "sameScope ?i s" .
  then show ?thesis
    using e i(1) same w by (intro exI [of _ ?i] exI [of _ ob] exI [of _ a] exI [of _ t] exI [of _ b])
      (simp add: sameScope_def)
qed

lemma negative_run_new:
  assumes "newNegativeStore m p = Inr st0"
  shows "\<exists>st. negative_run dp sha xs st0 = Some st \<and> neg_inv st \<and> neg_frame st0 st \<and> neg_bounded st \<and>
    backed dp sha (recorded [] xs) st"
proof -
  note new = neg_inv_newStore [OF assms]
  have "neg_bounded st0"
    using new by (auto simp: neg_bounded_def neg_inv_def tenantEntries_def)
  moreover have "backed dp sha [] st0" using new by (simp add: backed_def)
  ultimately show ?thesis using negative_run_ok new by blast
qed

lemma recorded_without:
  "\<forall>i \<in> set known. \<not> (np_tenantId i = t \<and> np_resource i = r) \<Longrightarrow>
   \<forall>i. PutAbsent i \<in> set ys \<longrightarrow> \<not> (np_tenantId i = t \<and> np_resource i = r) \<Longrightarrow>
   i \<in> set (recorded known ys) \<Longrightarrow> \<not> (np_tenantId i = t \<and> np_resource i = r)"
  by (induction known ys rule: recorded.induct) (auto split: if_splits)

section \<open>Properties\<close>

definition sampleAbsence :: negative_premise where
  "sampleAbsence = \<lparr>np_tenantId = ''t'', np_resource = ''r'', np_incarnationId = ''i'', np_queryDigest = ''q'',
     np_frontierDigest = ''f'', np_authorizationContextDigest = ''a'', np_reason = ''x'',
     np_observedAt = ''1'', np_expiresAt = ''333''\<rparr>"

definition sampleDate :: "string \<Rightarrow> int option" where "sampleDate s = Some (int (length s))"

definition sampleStore :: negative_store where
  "sampleStore = \<lparr>ns_entries = [], ns_maxEntries = 2, ns_maxEntriesPerTenant = Some 1, ns_tenantCounts = [],
     ns_hits = 0, ns_misses = 0, ns_expirations = 0, ns_evictions = 0, ns_peakEntries = 0\<rparr>"

definition samplePresence :: "negative_observation option" where
  "samplePresence = Some \<lparr>no_entityPresent = Some (JBool False), no_frontierDigest = None, no_incarnationId = None\<rparr>"

lemma sampleStore_new: "newNegativeStore (Some (Integral 2)) (Some (Integral 1)) = Inr sampleStore"
  by (simp add: newNegativeStore_def sampleStore_def validToken_def MAX_SAFE_INTEGER_def)

text \<open>
  The store of absences is bounded and its loops end: from a freshly constructed store every
  sequence of insertions, checks, appearances and clears runs to completion (the two eviction
  loops return), holds at most \<open>maxEntries\<close> entries, and no tenant ever holds more than
  \<open>maxEntriesPerTenant\<close> of them.
\<close>

theorem absence_store_bounded:
  assumes "newNegativeStore m p = Inr st0"
  shows "\<exists>st. negative_run dp sha xs st0 = Some st \<and>
    int (length (ns_entries st)) \<le> ns_maxEntries st0 \<and>
    (\<forall>cap t. ns_maxEntriesPerTenant st0 = Some cap \<longrightarrow>
       int (length (filter (\<lambda>p. np_tenantId (snd p) = t) (ns_entries st))) \<le> cap)"
  using negative_run_new [OF assms, of dp sha xs]
  by (auto simp: neg_bounded_def neg_frame_def tenantEntries_def)

theorem absence_store_bounded_witness:
  "\<exists>st. negative_run sampleDate id [PutAbsent sampleAbsence, PutAbsent (sampleAbsence\<lparr>np_resource := ''s''\<rparr>)] sampleStore = Some st \<and>
     int (length (ns_entries st)) \<le> 2"
  using absence_store_bounded [OF sampleStore_new, of sampleDate id
      "[PutAbsent sampleAbsence, PutAbsent (sampleAbsence\<lparr>np_resource := ''s''\<rparr>)]"]
  by (auto simp: sampleStore_def)

text \<open>
  Absence is never invented: after any run, a check that answers ABSENT (decision USE) rests
  on an absence that the run recorded and no appearance or clear has revoked, of exactly the
  same tenant, resource, incarnation, query, frontier and authorization context, whose window
  contains the time of the check; and the caller's observation does not contradict it.
\<close>

theorem absent_is_backed:
  assumes "inj sha" and "newNegativeStore m p = Inr st0" and "negative_run dp sha xs st0 = Some st"
    and "nc_state (fst (checkNegative dp sha st s now obs)) = ABSENT"
  shows "nc_decision (fst (checkNegative dp sha st s now obs)) = USE \<and>
    (\<exists>i ob a t b. i \<in> set (recorded [] xs) \<and> sameScope i s \<and> obs = Some ob \<and>
      dp (np_observedAt i) = Some a \<and> dp now = Some t \<and> dp (np_expiresAt i) = Some b \<and> a \<le> t \<and> t < b \<and>
      no_entityPresent ob \<noteq> Some (JBool True) \<and>
      no_incarnationId ob \<in> {None, Some (JStr (np_incarnationId s))} \<and>
      no_frontierDigest ob \<in> {None, Some (JStr (np_frontierDigest s))})"
proof -
  have run: "neg_inv st" "backed dp sha (recorded [] xs) st"
    using negative_run_new [OF assms(2), of dp sha xs] assms(3) by auto
  obtain d r where "fst (checkNegative dp sha st s now obs) = \<lparr>nc_state = ABSENT, nc_decision = d, nc_reason = r\<rparr>"
    using assms(4) by (cases "fst (checkNegative dp sha st s now obs)") auto
  with absent_entry [OF assms(1) run this] show ?thesis
    by (force simp: decisionFor_def)
qed

definition sampleNegativeRun :: negative_store where
  "sampleNegativeRun = the (negative_run sampleDate id [PutAbsent sampleAbsence] sampleStore)"

lemma sampleNegativeRun: "negative_run sampleDate id [PutAbsent sampleAbsence] sampleStore = Some sampleNegativeRun"
  using negative_run_new [OF sampleStore_new, of sampleDate id "[PutAbsent sampleAbsence]"]
  by (auto simp: sampleNegativeRun_def)

lemma sampleNegativeRun_absent:
  "nc_state (fst (checkNegative sampleDate id sampleNegativeRun (negative_premise_identity.truncate sampleAbsence) ''22''
     samplePresence)) = ABSENT"
  by code_simp

theorem absent_is_backed_witness:
  "\<exists>i. i \<in> set (recorded [] [PutAbsent sampleAbsence]) \<and> sampleDate (np_observedAt i) = Some 1"
  using absent_is_backed [OF inj_on_id sampleStore_new sampleNegativeRun sampleNegativeRun_absent]
  by (auto simp: sampleDate_def sampleAbsence_def)

text \<open>
  C36: An appearance is final until something new is observed: once an appearance of a resource
  has been accepted, every later check on that tenant and resource answers UNKNOWN (decision
  REJECT), whatever else happens, until a new absence of that resource is recorded.
\<close>

theorem appearance_revokes_absence:
  assumes "inj sha" and "newNegativeStore m p = Inr st0"
    and "appearanceScope t r n = Inr ()"
    and "\<forall>i. PutAbsent i \<in> set ys \<longrightarrow> \<not> (np_tenantId i = t \<and> np_resource i = r)"
    and "negative_run dp sha (xs @ Appear t r n # ys) st0 = Some st"
    and "np_tenantId s = t" and "np_resource s = r"
  shows "nc_state (fst (checkNegative dp sha st s now obs)) = UNKNOWN \<and>
    nc_decision (fst (checkNegative dp sha st s now obs)) = REJECT"
proof -
  let ?run = "xs @ Appear t r n # ys" and ?c = "fst (checkNegative dp sha st s now obs)"
  have run: "neg_inv st" "backed dp sha (recorded [] ?run) st"
    using negative_run_new [OF assms(2), of dp sha ?run] assms(5) by auto
  have no: "i \<in> set (recorded [] ?run) \<Longrightarrow> \<not> (np_tenantId i = t \<and> np_resource i = r)" for i
    using recorded_without [of "filter (\<lambda>i. \<not> (np_tenantId i = t \<and> np_resource i = r)) (recorded [] xs)" t r ys i]
      assms(3,4) by (simp add: recorded_append)
  obtain v d q where c: "?c = \<lparr>nc_state = v, nc_decision = d, nc_reason = q\<rparr>"
    by (cases ?c) auto
  have "v = UNKNOWN"
    using absent_entry [OF assms(1) run c] no assms(6,7) by (auto simp: sameScope_def)
  moreover have "d = decisionFor v"
    using c by (auto simp: checkNegative_def miss_def hit_def checkResult_def Let_def
        split: sum.splits option.splits if_splits)
  ultimately show ?thesis using c by (simp add: decisionFor_def)
qed

theorem appearance_revokes_absence_witness:
  "\<exists>st. negative_run sampleDate id [PutAbsent sampleAbsence, Appear ''t'' ''r'' ''i''] sampleStore = Some st \<and>
     nc_decision (fst (checkNegative sampleDate id st (negative_premise_identity.truncate sampleAbsence) ''22''
       samplePresence)) = REJECT"
proof -
  let ?run = "[PutAbsent sampleAbsence] @ Appear ''t'' ''r'' ''i'' # []"
  obtain st where st: "negative_run sampleDate id ?run sampleStore = Some st"
    using negative_run_new [OF sampleStore_new] by blast
  have scope: "appearanceScope ''t'' ''r'' ''i'' = Inr ()" by code_simp
  have "np_tenantId (negative_premise_identity.truncate sampleAbsence) = ''t''"
    "np_resource (negative_premise_identity.truncate sampleAbsence) = ''r''"
    by (simp_all add: sampleAbsence_def negative_premise_identity.truncate_def)
  from appearance_revokes_absence [OF inj_on_id sampleStore_new scope _ st this] st
  show ?thesis by auto
qed

end
