(* ===== verification/Premise_Policy.thy ===== *)
theory Premise_Policy
  imports Validation_Scope Js_Sort Single_Flight
begin

text \<open>
  \<open>packages/runtime-core/src/premise-policy.ts\<close>: the risk-aware planner, the negotiation of
  capabilities, the key of a multi-resource receipt frontier, the usability of a lease and the
  coalescing of in-flight validations. An optional boolean or text is an option;
  \<open>Date.parse\<close> is the argument \<open>dp\<close>, SHA-256 \<open>sha\<close>, \<open>localeCompare\<close> \<open>lc\<close>.
\<close>

datatype premise_policy_capability = RESOURCE_IDENTITY | INCARNATION_ID | VERSION_TOKEN
  | EVIDENCE_PROPERTIES | SCOPED_READ | CONDITIONAL_READ | CHANGE_SET | BATCH_READ | SUBSCRIPTIONS
  | ORDERED_EVENTS | TRANSACTION_SNAPSHOT | CAUSAL_FRONTIER | CAS | CONDITIONAL_ACTION
  | ATOMIC_BATCH | IDEMPOTENCY_KEY | SINGLE_FLIGHT | SCOPED_SHARING | FENCED_LEASE
  | CapTtlOnly | UNVERSIONED | FULL_RESOURCE_ONLY

datatype negotiation_decision = SUPPORTED | NegotiationUnsupported

record premise_policy_negotiation =
  pn_supported :: "premise_policy_capability list"
  pn_unsupported :: "premise_policy_capability list"
  pn_decision :: negotiation_decision

datatype premise_risk_level = LOW | MEDIUM | HIGH | CRITICAL
datatype premise_policy_state = PolicyFresh | PolicyStale | PolicyInvalid | PolicyUnknown
datatype premise_policy_operation = READ | WRITE
datatype premise_source_mode = IMMUTABLE | EVENT_DRIVEN | VERSIONED | TTL_ONLY | SourceUnknown
datatype premise_event_state = CURRENT | INVALIDATED | EventUnknown | NONE
datatype premise_cas_conflict = REPAIRABLE | REVOCATION | INCOMPATIBLE_GATE
datatype premise_validation_method = NoValidation | ConditionalRead | AUTHORITATIVE_READ
datatype plan_decision = PlanUse | PlanRevalidate | PlanReject | PlanUnsupported

record premise_validation_plan_input =
  pp_operation :: premise_policy_operation
  pp_risk :: premise_risk_level
  pp_state :: premise_policy_state
  pp_sourceMode :: premise_source_mode
  pp_capabilities :: "premise_policy_capability list"
  pp_hasVersionToken :: "bool option"
  pp_ttlFresh :: "bool option"
  pp_eventState :: "premise_event_state option"
  pp_causalFrontierComplete :: "bool option"
  pp_casObservedFreshReceipts :: "bool option"
  pp_casConflict :: "premise_cas_conflict option"
  pp_leaseRequired :: "bool option"

record premise_validation_plan =
  pl_decision :: plan_decision
  pl_validation :: premise_validation_method
  pl_guardRequired :: bool
  pl_reason :: string

text \<open>Risk levels in their order.\<close>

fun riskRank :: "premise_risk_level \<Rightarrow> nat" where
  "riskRank LOW = 0" | "riskRank MEDIUM = 1" | "riskRank HIGH = 2" | "riskRank CRITICAL = 3"

instantiation premise_risk_level :: linorder
begin

definition less_eq_premise_risk_level :: "premise_risk_level \<Rightarrow> premise_risk_level \<Rightarrow> bool" where
  "less_eq_premise_risk_level a b = (riskRank a \<le> riskRank b)"

definition less_premise_risk_level :: "premise_risk_level \<Rightarrow> premise_risk_level \<Rightarrow> bool" where
  "less_premise_risk_level a b = (riskRank a < riskRank b)"

instance
proof
  fix a b :: premise_risk_level
  assume "a \<le> b" "b \<le> a"
  then show "a = b" by (cases a; cases b) (auto simp: less_eq_premise_risk_level_def)
qed (auto simp: less_eq_premise_risk_level_def less_premise_risk_level_def)

end

section \<open>The planner\<close>

definition sourceValidation :: "premise_validation_plan_input \<Rightarrow> premise_validation_method" where
  "sourceValidation i =
     (if pp_sourceMode i = VERSIONED \<and> pp_hasVersionToken i = Some True \<and> CONDITIONAL_READ \<in> set (pp_capabilities i)
      then ConditionalRead else AUTHORITATIVE_READ)"

definition plan :: "plan_decision \<Rightarrow> premise_validation_method \<Rightarrow> bool \<Rightarrow> string \<Rightarrow> premise_validation_plan" where
  "plan d v g r = \<lparr>pl_decision = d, pl_validation = v, pl_guardRequired = g, pl_reason = r\<rparr>"

definition planPremiseValidation :: "premise_validation_plan_input \<Rightarrow> premise_validation_plan" where
  "planPremiseValidation i =
     (let write = (pp_operation i = WRITE);
          highRisk = (pp_risk i = HIGH \<or> pp_risk i = CRITICAL);
          validation = sourceValidation i;
          caps = set (pp_capabilities i)
      in
      if pp_state i = PolicyInvalid \<and> \<not> (write \<and> pp_casObservedFreshReceipts i = Some True)
        then plan PlanReject NoValidation write ''INVALID_EVIDENCE''
      else if pp_state i = PolicyUnknown then
        (if pp_risk i = CRITICAL then plan PlanReject NoValidation write ''UNKNOWN_CRITICAL_EVIDENCE''
         else plan PlanRevalidate validation write ''UNKNOWN_EVIDENCE'')
      else if pp_state i = PolicyStale then plan PlanRevalidate validation write ''STALE_EVIDENCE''
      else if write then
        (let conditionalCommit = (CAS \<in> caps \<or> CONDITIONAL_ACTION \<in> caps) in
         if pp_sourceMode i = TTL_ONLY \<or> pp_sourceMode i = SourceUnknown \<or> pp_hasVersionToken i \<noteq> Some True
           then plan PlanUnsupported AUTHORITATIVE_READ True ''VERSIONED_WRITE_REQUIRED''
         else if \<not> conditionalCommit \<or> IDEMPOTENCY_KEY \<notin> caps
           then plan PlanUnsupported NoValidation True ''CONDITIONAL_COMMIT_REQUIRED''
         else if highRisk \<and> (CAUSAL_FRONTIER \<notin> caps \<or> pp_causalFrontierComplete i \<noteq> Some True)
           then plan PlanUnsupported NoValidation True ''CAUSAL_FRONTIER_REQUIRED''
         else if pp_leaseRequired i = Some True \<and> FENCED_LEASE \<notin> caps
           then plan PlanUnsupported NoValidation True ''FENCED_LEASE_REQUIRED''
         else if pp_casConflict i = Some REVOCATION then plan PlanReject NoValidation True ''REVOCATION_CONFLICT''
         else if pp_casConflict i = Some INCOMPATIBLE_GATE then plan PlanUnsupported NoValidation True ''INCOMPATIBLE_GATE''
         else if pp_casObservedFreshReceipts i = Some True \<and> CAS \<notin> caps
           then plan PlanUnsupported NoValidation True ''CAS_REQUIRED_FOR_OBSERVED_RECEIPTS''
         else if pp_casObservedFreshReceipts i = Some True
           then plan PlanUse NoValidation True ''CAS_OBSERVED_FRESH_RECEIPTS''
         else plan PlanUse NoValidation True ''ATOMIC_GUARD_REQUIRED'')
      else if pp_sourceMode i = IMMUTABLE then plan PlanUse NoValidation False ''IMMUTABLE_SOURCE''
      else if pp_sourceMode i = EVENT_DRIVEN then
        (let orderedCoverage = (pp_eventState i = Some CURRENT \<and> SUBSCRIPTIONS \<in> caps \<and> ORDERED_EVENTS \<in> caps \<and>
               (\<not> highRisk \<or> pp_causalFrontierComplete i = Some True))
         in
         if pp_eventState i = Some INVALIDATED then plan PlanRevalidate validation False ''EVENT_INVALIDATED''
         else if orderedCoverage then plan PlanUse NoValidation False ''ORDERED_EVENT_COVERAGE''
         else if pp_risk i = CRITICAL \<and> pp_eventState i = Some EventUnknown
           then plan PlanReject NoValidation False ''UNKNOWN_EVENT_COVERAGE''
         else plan PlanRevalidate validation False ''EVENT_COVERAGE_INCOMPLETE'')
      else if pp_sourceMode i = TTL_ONLY then
        (if highRisk then plan PlanUnsupported AUTHORITATIVE_READ False ''TTL_NOT_ALLOWED_FOR_RISK''
         else if pp_ttlFresh i = Some True then plan PlanUse NoValidation False ''TTL_FRESH_INFORMATIONAL_READ''
         else plan PlanRevalidate AUTHORITATIVE_READ False ''TTL_EXPIRED'')
      else if pp_sourceMode i = VERSIONED then
        (if pp_hasVersionToken i \<noteq> Some True then plan PlanUnsupported AUTHORITATIVE_READ False ''VERSION_TOKEN_REQUIRED''
         else if pp_risk i = LOW then plan PlanUse NoValidation False ''LOW_RISK_FRESH_RECEIPT''
         else plan PlanRevalidate validation False ''RISK_RECHECK_REQUIRED'')
      else plan PlanUnsupported AUTHORITATIVE_READ False ''SOURCE_MODE_UNKNOWN'')"

definition negotiatePremisePolicyCapabilities ::
  "premise_policy_capability list \<Rightarrow> premise_policy_capability list \<Rightarrow> premise_policy_negotiation" where
  "negotiatePremisePolicyCapabilities requested available =
     (let unsupported = filter (\<lambda>c. c \<notin> set available) requested in
      \<lparr>pn_supported = filter (\<lambda>c. c \<in> set available) requested,
       pn_unsupported = unsupported,
       pn_decision = (if unsupported = [] then SUPPORTED else NegotiationUnsupported)\<rparr>)"

section \<open>Frontier keys\<close>

definition frontierMember ::
  "(string \<Rightarrow> string) \<Rightarrow> premise_validation_scope \<Rightarrow> exn + (premise_validation_scope \<times> string)" where
  "frontierMember sha v =
     andThen (normalizePremiseValidationScope v) (\<lambda>n.
     andThen (premiseValidationScopeKey sha n) (\<lambda>k. Inr (n, k)))"

definition memberOrder ::
  "(string \<Rightarrow> string \<Rightarrow> int) \<Rightarrow> premise_validation_scope \<times> string \<Rightarrow> premise_validation_scope \<times> string \<Rightarrow> int" where
  "memberOrder lc a b = orElse (lc (vs_resourceId (fst a)) (vs_resourceId (fst b))) (lc (snd a) (snd b))"

definition premiseReceiptSharingFrontierKey ::
  "(string \<Rightarrow> string \<Rightarrow> int) \<Rightarrow> (string \<Rightarrow> string) \<Rightarrow> premise_validation_scope list \<Rightarrow> exn + string" where
  "premiseReceiptSharingFrontierKey lc sha scopes =
     (if scopes = [] then Inl (Failure ''PREMiSE frontier must contain at least one resource'')
      else andThen (traverse (frontierMember sha) scopes) (\<lambda>unsorted.
        (let members = sortBy (memberOrder lc) unsorted in
         if length (unique (map (\<lambda>m. vs_resourceId (fst m)) members)) \<noteq> length members
           then Inl (Failure ''PREMiSE frontier cannot contain duplicate resources'')
         else Inr (''sha256:'' @ sha (objectText
           [(''domain'', FString ''premise-policy-sharing-frontier/1''),
            (''members'', FArray (map snd members))])))))"

section \<open>Leases\<close>

record premise_lease =
  pz_leaseId :: string
  pz_fencingToken :: string
  pz_expiresAt :: string
  pz_invalidated :: "bool option"

text \<open>A comparison with an unreadable date (NaN) is false.\<close>

definition before :: "int option \<Rightarrow> int option \<Rightarrow> bool" where
  "before a b = (case (a, b) of (Some x, Some y) \<Rightarrow> x < y | _ \<Rightarrow> False)"

definition premiseLeaseUsable ::
  "(string \<Rightarrow> int option) \<Rightarrow> premise_lease \<Rightarrow> string \<Rightarrow> string option \<Rightarrow> bool" where
  "premiseLeaseUsable dp lease now expectedFencingToken =
     (pz_invalidated lease \<noteq> Some True \<and>
      (expectedFencingToken = None \<or> expectedFencingToken = Some (pz_fencingToken lease)) \<and>
      before (dp now) (dp (pz_expiresAt lease)))"

section \<open>In-flight validations\<close>

text \<open>
  A promise is a number given at its creation; \<open>sf_started\<close> records, for every promise
  created, the key whose task it runs.
\<close>

record premise_single_flight =
  sf_pending :: "(string, nat) omap"
  sf_started :: "(nat \<times> string) list"

definition newSingleFlight :: premise_single_flight where
  "newSingleFlight = \<lparr>sf_pending = [], sf_started = []\<rparr>"

definition runFlight :: "string \<Rightarrow> premise_single_flight \<Rightarrow> nat \<times> premise_single_flight" where
  "runFlight key st =
     (case map_of (sf_pending st) key of
        Some current \<Rightarrow> (current, st)
      | None \<Rightarrow> (let result = length (sf_started st) in
          (result, st\<lparr>sf_pending := omap_set key result (sf_pending st),
                      sf_started := sf_started st @ [(result, key)]\<rparr>)))"

text \<open>The cleanup that runs when a promise settles, either way.\<close>

definition settleFlight :: "string \<Rightarrow> nat \<Rightarrow> premise_single_flight \<Rightarrow> premise_single_flight" where
  "settleFlight key result st =
     (if map_of (sf_pending st) key = Some result then st\<lparr>sf_pending := omap_delete key (sf_pending st)\<rparr> else st)"

definition runScoped ::
  "(string \<Rightarrow> string) \<Rightarrow> premise_validation_scope \<Rightarrow> premise_single_flight \<Rightarrow> exn + (nat \<times> premise_single_flight)" where
  "runScoped sha scope st = andThen (premiseValidationScopeKey sha scope) (\<lambda>key. Inr (runFlight key st))"

definition runFrontier ::
  "(string \<Rightarrow> string \<Rightarrow> int) \<Rightarrow> (string \<Rightarrow> string) \<Rightarrow> premise_validation_scope list \<Rightarrow> premise_single_flight
     \<Rightarrow> exn + (nat \<times> premise_single_flight)" where
  "runFrontier lc sha scopes st =
     andThen (premiseReceiptSharingFrontierKey lc sha scopes) (\<lambda>key. Inr (runFlight key st))"

definition flight_inv :: "premise_single_flight \<Rightarrow> bool" where
  "flight_inv st = (map fst (sf_started st) = [0..<length (sf_started st)] \<and>
     (\<forall>k p. map_of (sf_pending st) k = Some p \<longrightarrow> (p, k) \<in> set (sf_started st)))"

interpretation policy_flights: single_flight runFlight settleFlight "\<lambda>st. map_of (sf_pending st)" sf_started flight_inv
proof
  fix s s' :: premise_single_flight and k :: string and p :: nat
  assume inv: "flight_inv s" and none: "map_of (sf_pending s) k = None" and run: "runFlight k s = (p, s')"
  have p: "p = length (sf_started s)" and s': "s' = s\<lparr>sf_pending := omap_set k p (sf_pending s),
      sf_started := sf_started s @ [(p, k)]\<rparr>"
    using none run by (auto simp: runFlight_def Let_def)
  have "set (map fst (sf_started s)) = {0..<length (sf_started s)}"
    using inv by (simp add: flight_inv_def)
  then have "p \<notin> fst ` set (sf_started s)" by (simp add: p)
  moreover have "flight_inv s'"
    using inv by (auto simp: flight_inv_def s' p)
  ultimately show "flight_inv s' \<and> map_of (sf_pending s') = (map_of (sf_pending s))(k \<mapsto> p) \<and>
      p \<notin> fst ` set (sf_started s) \<and> sf_started s' = sf_started s @ [(p, k)]"
    by (simp add: s')
qed (auto simp: runFlight_def settleFlight_def flight_inv_def)

section \<open>What a plan may use\<close>

lemmas plan_defs = planPremiseValidation_def plan_def Let_def

text \<open>The condition of the planner for using a premise without validating it first.\<close>

definition mayUse :: "premise_validation_plan_input \<Rightarrow> bool" where
  "mayUse i = (case pp_operation i of
     WRITE \<Rightarrow>
       (pp_state i = PolicyFresh \<or> pp_state i = PolicyInvalid \<and> pp_casObservedFreshReceipts i = Some True) \<and>
       pp_sourceMode i \<in> {IMMUTABLE, EVENT_DRIVEN, VERSIONED} \<and> pp_hasVersionToken i = Some True \<and>
       (CAS \<in> set (pp_capabilities i) \<or>
          CONDITIONAL_ACTION \<in> set (pp_capabilities i) \<and> pp_casObservedFreshReceipts i \<noteq> Some True) \<and>
       IDEMPOTENCY_KEY \<in> set (pp_capabilities i) \<and>
       (pp_risk i \<ge> HIGH \<longrightarrow>
          CAUSAL_FRONTIER \<in> set (pp_capabilities i) \<and> pp_causalFrontierComplete i = Some True) \<and>
       (pp_leaseRequired i = Some True \<longrightarrow> FENCED_LEASE \<in> set (pp_capabilities i)) \<and>
       pp_casConflict i \<in> {None, Some REPAIRABLE}
   | READ \<Rightarrow> pp_state i = PolicyFresh \<and>
       (case pp_sourceMode i of
          IMMUTABLE \<Rightarrow> True
        | EVENT_DRIVEN \<Rightarrow> pp_eventState i = Some CURRENT \<and> SUBSCRIPTIONS \<in> set (pp_capabilities i) \<and>
            ORDERED_EVENTS \<in> set (pp_capabilities i) \<and>
            (pp_risk i \<ge> HIGH \<longrightarrow> pp_causalFrontierComplete i = Some True)
        | TTL_ONLY \<Rightarrow> pp_risk i < HIGH \<and> pp_ttlFresh i = Some True
        | VERSIONED \<Rightarrow> pp_hasVersionToken i = Some True \<and> pp_risk i = LOW
        | SourceUnknown \<Rightarrow> False))"

lemma risk_simps:
  "r \<ge> HIGH \<longleftrightarrow> r = HIGH \<or> r = CRITICAL" "r < HIGH \<longleftrightarrow> \<not> (r = HIGH \<or> r = CRITICAL)"
  by (cases r; simp add: less_eq_premise_risk_level_def less_premise_risk_level_def)+

lemma notin_conflict: "c \<in> {None, Some REPAIRABLE} \<longleftrightarrow> c \<noteq> Some REVOCATION \<and> c \<noteq> Some INCOMPATIBLE_GATE"
proof (cases c)
  case (Some d)
  then show ?thesis by (cases d) auto
qed auto

lemma plan_use_read:
  assumes "pp_operation i = READ"
  shows "pl_decision (planPremiseValidation i) = PlanUse \<longleftrightarrow> mayUse i"
proof (cases "pp_state i")
  case PolicyFresh
  with assms show ?thesis
    by (cases "pp_sourceMode i") (auto simp: plan_defs mayUse_def risk_simps)
qed (use assms in \<open>simp_all add: plan_defs mayUse_def\<close>)

lemma plan_use_write:
  assumes "pp_operation i = WRITE"
  shows "pl_decision (planPremiseValidation i) = PlanUse \<longleftrightarrow> mayUse i"
proof -
  have mode: "pp_sourceMode i \<in> {IMMUTABLE, EVENT_DRIVEN, VERSIONED} \<longleftrightarrow>
      pp_sourceMode i \<noteq> TTL_ONLY \<and> pp_sourceMode i \<noteq> SourceUnknown"
    by (cases "pp_sourceMode i") auto
  show ?thesis
    unfolding mayUse_def mode notin_conflict
    using assms by (cases "pp_state i") (auto simp: plan_defs risk_simps)
qed

lemma plan_use: "pl_decision (planPremiseValidation i) = PlanUse \<longleftrightarrow> mayUse i"
  using plan_use_read plan_use_write by (cases "pp_operation i") auto

section \<open>Identity of frontiers\<close>

lemma frontierMember_Inr_iff:
  "frontierMember sha v = Inr m \<longleftrightarrow>
     validScopeValues v \<and> m = (normalForm v, ''sha256:'' @ sha (objectText (scopeFields (normalForm v))))"
  by (auto simp: frontierMember_def andThen_Inr_iff normalize_Inr_iff key_Inr_iff normalForm_valid)

definition frontierMembers :: "(string \<Rightarrow> string) \<Rightarrow> premise_validation_scope list \<Rightarrow> (premise_validation_scope \<times> string) list" where
  "frontierMembers sha vs = map (\<lambda>v. (normalForm v, ''sha256:'' @ sha (objectText (scopeFields (normalForm v))))) vs"

lemma traverse_frontierMember:
  "traverse (frontierMember sha) vs = Inr ms \<longleftrightarrow> (\<forall>v \<in> set vs. validScopeValues v) \<and> ms = frontierMembers sha vs"
  unfolding traverse_Inr_iff frontierMembers_def
  by (induction vs arbitrary: ms) (auto simp: list_all2_Cons1 frontierMember_Inr_iff)

lemma distinct_map_sortBy: "distinct (map f (sortBy c xs)) \<longleftrightarrow> distinct (map f xs)"
  by (metis mset_map mset_sortBy mset_eq_imp_distinct_iff)

lemma frontierKey_Inr_iff:
  "premiseReceiptSharingFrontierKey lc sha vs = Inr k \<longleftrightarrow>
     vs \<noteq> [] \<and> (\<forall>v \<in> set vs. validScopeValues v) \<and> distinct (map vs_resourceId vs) \<and>
     k = ''sha256:'' @ sha (objectText [(''domain'', FString ''premise-policy-sharing-frontier/1''),
           (''members'', FArray (map snd (sortBy (memberOrder lc) (frontierMembers sha vs))))])"
proof -
  have "map (\<lambda>m. vs_resourceId (fst m)) (frontierMembers sha vs) = map vs_resourceId vs"
    by (simp add: frontierMembers_def normalForm_def)
  then have "length (unique (map (\<lambda>m. vs_resourceId (fst m)) (sortBy (memberOrder lc) (frontierMembers sha vs)))) =
      length (sortBy (memberOrder lc) (frontierMembers sha vs)) \<longleftrightarrow> distinct (map vs_resourceId vs)"
    by (metis distinct_map_sortBy length_map length_unique_iff)
  then show ?thesis
    by (auto simp: premiseReceiptSharingFrontierKey_def andThen_Inr_iff traverse_frontierMember Let_def)
qed

lemma frontierMembers_eq_iff:
  assumes "inj sha"
  shows "set (frontierMembers sha vs) = set (frontierMembers sha ws) \<longleftrightarrow> normalForm ` set vs = normalForm ` set ws"
    and "snd ` set (frontierMembers sha vs) = snd ` set (frontierMembers sha ws) \<longleftrightarrow> normalForm ` set vs = normalForm ` set ws"
proof -
  let ?k = "\<lambda>n. ''sha256:'' @ sha (objectText (scopeFields n))"
  have "inj ?k" using assms by (auto intro!: injI simp: inj_eq objectText_inject scopeFields_inject)
  moreover have "snd ` set (frontierMembers sha us) = ?k ` normalForm ` set us" for us
    by (auto simp: frontierMembers_def image_image)
  ultimately show "snd ` set (frontierMembers sha vs) = snd ` set (frontierMembers sha ws) \<longleftrightarrow>
      normalForm ` set vs = normalForm ` set ws"
    by (simp add: inj_image_eq_iff)
  have "inj (\<lambda>n. (n, ?k n))" by (auto intro: injI)
  moreover have "set (frontierMembers sha us) = (\<lambda>n. (n, ?k n)) ` normalForm ` set us" for us
    by (auto simp: frontierMembers_def image_image)
  ultimately show "set (frontierMembers sha vs) = set (frontierMembers sha ws) \<longleftrightarrow>
      normalForm ` set vs = normalForm ` set ws"
    by (simp add: inj_image_eq_iff)
qed

lemma memberOrder_comparison: "comparison lc \<Longrightarrow> comparison (memberOrder lc)"
  unfolding memberOrder_def
  using comparison_orElse [OF comparison_on [of lc "\<lambda>m. vs_resourceId (fst m)"] comparison_on [of lc snd]] by simp

lemma frontier_members_distinct:
  "distinct (map vs_resourceId vs) \<Longrightarrow> distinct (frontierMembers sha vs)"
proof -
  assume "distinct (map vs_resourceId vs)"
  moreover have "map (\<lambda>m. vs_resourceId (fst m)) (frontierMembers sha vs) = map vs_resourceId vs"
    by (simp add: frontierMembers_def normalForm_def)
  ultimately show ?thesis by (metis distinct_map)
qed

lemma frontier_sort_cong:
  assumes "inj sha" and "comparison lc"
    and "\<And>s t. lc (''sha256:'' @ sha s) (''sha256:'' @ sha t) = 0 \<Longrightarrow> sha s = sha t"
    and "distinct (map vs_resourceId vs)" "distinct (map vs_resourceId ws)"
    and "normalForm ` set vs = normalForm ` set ws"
  shows "sortBy (memberOrder lc) (frontierMembers sha vs) = sortBy (memberOrder lc) (frontierMembers sha ws)"
proof (rule sortBy_cong [OF memberOrder_comparison [OF assms(2)]])
  fix a b
  assume mem: "a \<in> set (frontierMembers sha vs)" "b \<in> set (frontierMembers sha vs)" and "memberOrder lc a b = 0"
  then have key: "lc (snd a) (snd b) = 0" by (simp add: memberOrder_def orElse_def split: if_splits)
  obtain m n where m: "a = (m, ''sha256:'' @ sha (objectText (scopeFields m)))"
    and n: "b = (n, ''sha256:'' @ sha (objectText (scopeFields n)))"
    using mem by (auto simp only: frontierMembers_def set_map image_iff)
  with key assms(3) have "sha (objectText (scopeFields m)) = sha (objectText (scopeFields n))" by (simp only: snd_conv)
  with assms(1) m n show "a = b" by (simp add: inj_eq objectText_inject scopeFields_inject)
qed (use assms frontier_members_distinct frontierMembers_eq_iff(1) in auto)

section \<open>Properties\<close>

definition samplePlanInput :: premise_validation_plan_input where
  "samplePlanInput = \<lparr>pp_operation = WRITE, pp_risk = HIGH, pp_state = PolicyFresh, pp_sourceMode = VERSIONED,
     pp_capabilities = [CAS, IDEMPOTENCY_KEY, CAUSAL_FRONTIER], pp_hasVersionToken = Some True, pp_ttlFresh = None,
     pp_eventState = None, pp_causalFrontierComplete = Some True, pp_casObservedFreshReceipts = None,
     pp_casConflict = None, pp_leaseRequired = None\<rparr>"

lemma plan_use_work:
  "pl_decision (planPremiseValidation i) = PlanUse \<Longrightarrow>
     pl_validation (planPremiseValidation i) = NoValidation \<and>
     (pl_guardRequired (planPremiseValidation i) \<longleftrightarrow> pp_operation i = WRITE)"
  by (cases "pp_operation i"; cases "pp_state i"; cases "pp_sourceMode i") (auto simp: plan_defs split: if_splits)

text \<open>
  C32: The planner lets a premise be used without validation exactly in the listed situations.
  A write needs fresh evidence (or receipts a failed CAS observed), a source with versions and a
  version token, a conditional commit with an idempotency key, at high risk a complete causal
  frontier, a fenced lease if one is required, and no revocation or gate conflict; a read needs
  fresh evidence and an immutable source, ordered event coverage, an unexpired TTL below high
  risk, or a versioned source at low risk. Every used write stays guarded, and no validation
  work accompanies the decision.
\<close>

theorem plan_uses_exactly:
  "(pl_decision (planPremiseValidation i) = PlanUse \<longleftrightarrow> mayUse i) \<and>
   (mayUse i \<longrightarrow> pl_validation (planPremiseValidation i) = NoValidation \<and>
      (pl_guardRequired (planPremiseValidation i) \<longleftrightarrow> pp_operation i = WRITE))"
  using plan_use [of i] plan_use_work [of i] by blast

theorem plan_uses_exactly_witness:
  "mayUse samplePlanInput \<and> pl_guardRequired (planPremiseValidation samplePlanInput)"
proof -
  have "mayUse samplePlanInput" by code_simp
  with plan_uses_exactly [of samplePlanInput] show ?thesis by (simp add: samplePlanInput_def)
qed

text \<open>
  The planner is monotone: more capabilities or a lower risk never take away the permission
  to use a premise, so a higher risk or a lost capability never grants it.
\<close>

theorem plan_monotone:
  assumes "pl_decision (planPremiseValidation i) = PlanUse"
    and "set (pp_capabilities i) \<subseteq> set caps" and "risk \<le> pp_risk i"
  shows "pl_decision (planPremiseValidation (i\<lparr>pp_capabilities := caps, pp_risk := risk\<rparr>)) = PlanUse"
proof -
  have low: "pp_risk i = LOW \<Longrightarrow> risk = LOW" "HIGH \<le> risk \<Longrightarrow> HIGH \<le> pp_risk i"
    "pp_risk i < HIGH \<Longrightarrow> risk < HIGH"
    using assms(3) by (cases risk; simp add: less_eq_premise_risk_level_def less_premise_risk_level_def)+
  show ?thesis
    using assms(1) low subsetD [OF assms(2)] unfolding plan_use mayUse_def
    by (cases "pp_operation i"; cases "pp_sourceMode i") auto
qed

theorem plan_monotone_witness:
  "pl_decision (planPremiseValidation
     (samplePlanInput\<lparr>pp_capabilities := [BATCH_READ, CAS, IDEMPOTENCY_KEY, CAUSAL_FRONTIER], pp_risk := LOW\<rparr>)) = PlanUse"
proof -
  have "pl_decision (planPremiseValidation samplePlanInput) = PlanUse" by code_simp
  then show ?thesis
    by (rule plan_monotone) (auto simp: samplePlanInput_def less_eq_premise_risk_level_def)
qed

text \<open>
  A frontier key names a set of scopes: with a collision-free digest and a consistent
  \<open>localeCompare\<close> that separates different keys, two frontiers that have a key have the same
  one exactly when their scopes, normalised, are the same set. The order of the resources in
  the request, or in the locale, does not matter.
\<close>

theorem frontier_key_identity:
  assumes "inj sha" and "comparison lc"
    and "\<And>s t. lc (''sha256:'' @ sha s) (''sha256:'' @ sha t) = 0 \<Longrightarrow> sha s = sha t"
    and "premiseReceiptSharingFrontierKey lc sha vs = Inr k"
    and "premiseReceiptSharingFrontierKey lc sha ws = Inr l"
  shows "k = l \<longleftrightarrow>
     (\<lambda>v. the (case normalizePremiseValidationScope v of Inr n \<Rightarrow> Some n)) ` set vs =
     (\<lambda>v. the (case normalizePremiseValidationScope v of Inr n \<Rightarrow> Some n)) ` set ws"
proof -
  have valid: "\<forall>v \<in> set vs. validScopeValues v" "\<forall>v \<in> set ws. validScopeValues v"
    "distinct (map vs_resourceId vs)" "distinct (map vs_resourceId ws)"
    using assms(4,5) by (simp_all add: frontierKey_Inr_iff)
  have norm: "(\<lambda>v. the (case normalizePremiseValidationScope v of Inr n \<Rightarrow> Some n)) ` set us = normalForm ` set us"
    if "\<forall>v \<in> set us. validScopeValues v" for us
  proof (rule image_cong [OF refl])
    fix v assume "v \<in> set us"
    with that have "normalizePremiseValidationScope v = Inr (normalForm v)" by (simp add: normalize_Inr_iff)
    then show "the (case normalizePremiseValidationScope v of Inr n \<Rightarrow> Some n) = normalForm v" by simp
  qed
  have kl: "k = l \<longleftrightarrow> map snd (sortBy (memberOrder lc) (frontierMembers sha vs)) =
      map snd (sortBy (memberOrder lc) (frontierMembers sha ws))"
    using assms(1,4,5) by (auto simp: frontierKey_Inr_iff inj_eq objectText_inject)
  have "normalForm ` set vs = normalForm ` set ws" if "k = l"
  proof -
    from that kl have "set (map snd (sortBy (memberOrder lc) (frontierMembers sha vs))) =
        set (map snd (sortBy (memberOrder lc) (frontierMembers sha ws)))" by simp
    then have "snd ` set (frontierMembers sha vs) = snd ` set (frontierMembers sha ws)"
      by (simp only: set_map set_sortBy)
    then show ?thesis by (rule iffD1 [OF frontierMembers_eq_iff(2) [OF assms(1)]])
  qed
  moreover have "k = l" if "normalForm ` set vs = normalForm ` set ws"
    using kl frontier_sort_cong [OF assms(1-3) valid(3,4) that] by simp
  ultimately show ?thesis using norm valid(1,2) by auto
qed

definition byCharacter :: "string \<Rightarrow> string \<Rightarrow> int" where
  "byCharacter a b = (if a < b then -1 else if a = b then 0 else 1)"

lemma byCharacter_comparison: "comparison byCharacter"
  unfolding comparison_def byCharacter_def by (auto split: if_splits)

theorem frontier_key_identity_witness:
  "\<exists>k. premiseReceiptSharingFrontierKey byCharacter id [sampleScope, sampleScope\<lparr>vs_resourceId := ''q''\<rparr>] = Inr k \<and>
     premiseReceiptSharingFrontierKey byCharacter id [sampleScope\<lparr>vs_resourceId := ''q''\<rparr>, sampleScope] = Inr k"
proof -
  let ?w = "sampleScope\<lparr>vs_resourceId := ''q''\<rparr>"
  have "validScopeValues ?w" "validScopeValues sampleScope"
    by (auto simp: sampleScope_def validScopeValues_def validText_small trim_def js_space_def)
  moreover have "vs_resourceId sampleScope = ''r''" by (simp add: sampleScope_def)
  ultimately obtain k l where k: "premiseReceiptSharingFrontierKey byCharacter id [sampleScope, ?w] = Inr k"
    and l: "premiseReceiptSharingFrontierKey byCharacter id [?w, sampleScope] = Inr l"
    by (simp add: frontierKey_Inr_iff)
  have "k = l"
  proof (rule iffD2 [OF frontier_key_identity [OF inj_on_id byCharacter_comparison _ k l]])
    fix s t :: string
    assume "byCharacter (''sha256:'' @ id s) (''sha256:'' @ id t) = 0"
    then have "''sha256:'' @ id s = ''sha256:'' @ id t"
      unfolding byCharacter_def by (metis zero_neq_neg_one zero_neq_one)
    then show "id s = id t" by (simp only: append_same_eq same_append_eq)
  next
    show "(\<lambda>v. the (case normalizePremiseValidationScope v of Inr n \<Rightarrow> Some n)) ` set [sampleScope, ?w] =
        (\<lambda>v. the (case normalizePremiseValidationScope v of Inr n \<Rightarrow> Some n)) ` set [?w, sampleScope]"
      by (simp only: list.set image_insert insert_commute)
  qed
  with k l show ?thesis by blast
qed

text \<open>
  Identical work runs once: from a new \<open>PremiseSingleFlight\<close>, after any sequence of runs and
  settlements, running a key and running it again before its promise settles gives the same
  promise and starts no second task for the key; a different key never gets that promise.
\<close>

theorem single_flight_coalesces:
  assumes "runFlight key (fold policy_flights.flight_step es newSingleFlight) = (p, s1)"
    and "Settle key p \<notin> set fs"
    and "runFlight key' (fold policy_flights.flight_step fs s1) = (q, s2)"
  shows "if key' = key
    then q = p \<and> filter (\<lambda>t. snd t = key) (sf_started s2) = filter (\<lambda>t. snd t = key) (sf_started s1)
    else q \<noteq> p"
proof -
  have "flight_inv newSingleFlight" by (simp add: flight_inv_def newSingleFlight_def)
  then have inv: "flight_inv (fold policy_flights.flight_step es newSingleFlight)"
    by (rule policy_flights.inv_steps)
  show ?thesis
    using policy_flights.coalesced [OF inv assms(1,2)] policy_flights.separate [OF inv assms(1,2), of key' q s2] assms(3)
    by auto
qed

theorem single_flight_coalesces_witness:
  "\<exists>p s1. runFlight ''a'' newSingleFlight = (p, s1) \<and> fst (runFlight ''a'' (snd (runFlight ''b'' s1))) = p"
proof -
  obtain p s1 where s1: "runFlight ''a'' newSingleFlight = (p, s1)" by (cases "runFlight ''a'' newSingleFlight")
  obtain q s2 where s2: "runFlight ''a'' (snd (runFlight ''b'' s1)) = (q, s2)"
    by (cases "runFlight ''a'' (snd (runFlight ''b'' s1))")
  have "q = p"
    using single_flight_coalesces [of "''a''" "[]" p s1 "[Join ''b'']" "''a''" q s2] s1 s2 by simp
  with s1 s2 show ?thesis by simp
qed

end
