(* ===== verification/Premise_Guard.thy ===== *)
theory Premise_Guard
  imports Premise_Policy Js_Value
begin

text \<open>
  \<open>packages/runtime-core/src/premise-guard.ts\<close>: the local execution kernel of a guarded
  action. The adapter's conditional commit is code of the connector, an argument; the model
  returns, beside the result, the list of the receipt slices the commit was called with.
  \<open>clock i\<close> is the reading of \<open>Date.now()\<close> for the \<open>i\<close>-th critical premise, \<open>dp\<close> is
  \<open>Date.parse\<close>, \<open>fmt\<close> the text of a number.
\<close>

datatype premise_guard_state = GuardFresh | GuardStale | GuardInvalid | GuardUnknown
datatype premise_guard_decision = ALLOW | GuardRevalidate | GuardReject | GuardUnsupported

text \<open>
  \<open>valid\<close> is checked to be a boolean and \<open>state\<close> to be a known state at run time; what
  else they may hold is \<open>None\<close>.
\<close>

record premise_guard_receipt =
  gr_premiseId :: string
  gr_state :: "premise_guard_state option"
  gr_valid :: "bool option"
  gr_identityKey :: string
  gr_versionToken :: string
  gr_artifactDigest :: "jsvalue option"
  gr_migration :: "jsvalue option"
  gr_lease :: "jsvalue option"
  gr_alerts :: "jsvalue option"
  gr_revoked :: "bool option"

record guard_lease =
  gl_leaseId :: string
  gl_fencingToken :: string

record premise_guard_intent =
  gi_actionDigest :: string
  gi_criticalPremises :: "string list"
  gi_requiredCapability :: premise_policy_capability
  gi_idempotencyKey :: string
  gi_lease :: "guard_lease option"

datatype commit_reason = CommitVersionMismatch | CommitReject | CommitRevalidate

record 'r premise_guard_commit_result =
  gc_accepted :: bool
  gc_result :: "'r option"
  gc_reason :: "commit_reason option"
  gc_observedVersion :: "string option"
  gc_observedReceipts :: "premise_guard_receipt list option"

record 'r premise_guard_adapter =
  ga_capabilities :: "premise_policy_capability list"
  ga_commit :: "premise_guard_intent \<Rightarrow> premise_guard_receipt list \<Rightarrow> exn + 'r premise_guard_commit_result"

record 'r premise_guard_result =
  gg_accepted :: bool
  gg_decision :: premise_guard_decision
  gg_result :: "'r option"
  gg_reason :: "string option"
  gg_observedVersion :: "string option"
  gg_observedReceipts :: "premise_guard_receipt list option"

section \<open>Receipts\<close>

definition stringifyField :: "(rat \<Rightarrow> string) \<Rightarrow> jsvalue option \<Rightarrow> string option" where
  "stringifyField fmt f = (case f of None \<Rightarrow> None | Some v \<Rightarrow> stringify fmt v)"

definition receiptLeaseUsable ::
  "(string \<Rightarrow> int option) \<Rightarrow> int \<Rightarrow> premise_guard_receipt \<Rightarrow> premise_guard_intent \<Rightarrow> bool" where
  "receiptLeaseUsable dp now receipt intent =
     (case gi_lease intent of
        None \<Rightarrow> True
      | Some l \<Rightarrow>
          (case gr_lease receipt of
             Some (JObj plain ps) \<Rightarrow>
               (let value = JObj plain ps in
                property value ''leaseId'' = JStr (gl_leaseId l) \<and>
                property value ''fencingToken'' = JStr (gl_fencingToken l) \<and>
                property value ''invalidated'' \<noteq> JBool True \<and>
                (case property value ''expiresAt'' of
                   JStr t \<Rightarrow> (case dp t of None \<Rightarrow> False | Some e \<Rightarrow> now < e)
                 | _ \<Rightarrow> False))
           | _ \<Rightarrow> False))"

definition receiptAcceptable :: "premise_guard_receipt \<Rightarrow> bool" where
  "receiptAcceptable r = (gr_premiseId r \<noteq> [] \<and> gr_identityKey r \<noteq> [] \<and> gr_versionToken r \<noteq> [] \<and>
     gr_valid r = Some True \<and> gr_state r = Some GuardFresh \<and> gr_revoked r \<noteq> Some True \<and>
     gr_alerts r \<noteq> Some (JStr ''RED'') \<and> gr_migration r \<noteq> Some (JStr ''BLOCKED''))"

text \<open>The four properties compared with the receipt the failed commit used.\<close>

definition sameEnvironment :: "(rat \<Rightarrow> string) \<Rightarrow> premise_guard_receipt \<Rightarrow> premise_guard_receipt \<Rightarrow> bool" where
  "sameEnvironment fmt r prior =
     (stringifyField fmt (gr_artifactDigest r) = stringifyField fmt (gr_artifactDigest prior) \<and>
      stringifyField fmt (gr_migration r) = stringifyField fmt (gr_migration prior) \<and>
      stringifyField fmt (gr_lease r) = stringifyField fmt (gr_lease prior) \<and>
      stringifyField fmt (gr_alerts r) = stringifyField fmt (gr_alerts prior))"

fun collectObserved ::
  "(rat \<Rightarrow> string) \<Rightarrow> (string, premise_guard_receipt) omap \<Rightarrow> premise_guard_receipt list
     \<Rightarrow> (string, premise_guard_receipt) omap \<Rightarrow> (string, premise_guard_receipt) omap option" where
  "collectObserved fmt previous [] byPremise = Some byPremise"
| "collectObserved fmt previous (r # rs) byPremise =
     (if \<not> receiptAcceptable r \<or> map_of byPremise (gr_premiseId r) \<noteq> None then None
      else (case map_of previous (gr_premiseId r) of
          None \<Rightarrow> None
        | Some prior \<Rightarrow> if \<not> sameEnvironment fmt r prior then None
            else collectObserved fmt previous rs (omap_set (gr_premiseId r) r byPremise)))"

text \<open>\<open>new Map(receipts.map((receipt) => [receipt.premiseId, receipt]))\<close>.\<close>

definition receiptsById :: "premise_guard_receipt list \<Rightarrow> (string, premise_guard_receipt) omap" where
  "receiptsById rs = fold (\<lambda>r. omap_set (gr_premiseId r) r) rs []"

definition completeObservedReceipts ::
  "(rat \<Rightarrow> string) \<Rightarrow> string list \<Rightarrow> premise_guard_receipt list option \<Rightarrow> premise_guard_receipt list
     \<Rightarrow> premise_guard_receipt list option" where
  "completeObservedReceipts fmt premiseIds receipts previous =
     (case receipts of
        None \<Rightarrow> None
      | Some rs \<Rightarrow>
          if length rs \<noteq> length premiseIds then None
          else (case collectObserved fmt (receiptsById previous) rs [] of
              None \<Rightarrow> None
            | Some byPremise \<Rightarrow>
                (let ordered = map (map_of byPremise) premiseIds in
                 if list_all (\<lambda>r. r \<noteq> None) ordered then Some (map the ordered) else None)))"

section \<open>The guard\<close>

definition refused :: "premise_guard_decision \<Rightarrow> string \<Rightarrow> 'r premise_guard_result" where
  "refused d reason = \<lparr>gg_accepted = False, gg_decision = d, gg_result = None, gg_reason = Some reason,
     gg_observedVersion = None, gg_observedReceipts = None\<rparr>"

text \<open>The loop over the critical premises: the slice, or the result it returns early.\<close>

fun selectSlice ::
  "(string \<Rightarrow> int option) \<Rightarrow> (nat \<Rightarrow> int) \<Rightarrow> premise_guard_intent \<Rightarrow> (string, premise_guard_receipt) omap
     \<Rightarrow> nat \<Rightarrow> string list \<Rightarrow> (premise_guard_decision \<times> string) + premise_guard_receipt list" where
  "selectSlice dp clock intent byPremise i [] = Inr []"
| "selectSlice dp clock intent byPremise i (premiseId # rest) =
     (case map_of byPremise premiseId of
        None \<Rightarrow> Inl (GuardReject, ''INCOMPLETE_SLICE'')
      | Some r \<Rightarrow>
          if gr_valid r \<noteq> Some True \<or> gr_state r = Some GuardUnknown \<or> gr_state r = Some GuardInvalid
            then Inl (GuardReject, ''INVALID_RECEIPT'')
          else if gr_state r = Some GuardStale then Inl (GuardRevalidate, ''STALE_RECEIPT'')
          else if \<not> receiptLeaseUsable dp (clock i) r intent then Inl (GuardReject, ''INVALID_LEASE'')
          else andThen (selectSlice dp clock intent byPremise (Suc i) rest) (\<lambda>selected. Inr (r # selected)))"

definition commitReasonText :: "commit_reason \<Rightarrow> string" where
  "commitReasonText r = (case r of CommitVersionMismatch \<Rightarrow> ''VERSION_MISMATCH''
     | CommitReject \<Rightarrow> ''REJECT'' | CommitRevalidate \<Rightarrow> ''REVALIDATE'')"

definition guardOutcome ::
  "(rat \<Rightarrow> string) \<Rightarrow> premise_guard_intent \<Rightarrow> premise_guard_receipt list \<Rightarrow> 'r premise_guard_commit_result
     \<Rightarrow> 'r premise_guard_result" where
  "guardOutcome fmt intent selected committed =
     (if gc_accepted committed then
        \<lparr>gg_accepted = True, gg_decision = ALLOW, gg_result = gc_result committed, gg_reason = None,
         gg_observedVersion = None, gg_observedReceipts = None\<rparr>
      else if gc_reason committed = Some CommitVersionMismatch \<or> gc_reason committed = Some CommitRevalidate then
        \<lparr>gg_accepted = False, gg_decision = GuardRevalidate, gg_result = None,
         gg_reason = map_option commitReasonText (gc_reason committed),
         gg_observedVersion = gc_observedVersion committed,
         gg_observedReceipts =
           completeObservedReceipts fmt (gi_criticalPremises intent) (gc_observedReceipts committed) selected\<rparr>
      else
        \<lparr>gg_accepted = False, gg_decision = GuardReject, gg_result = None,
         gg_reason = Some (nullish (map_option commitReasonText (gc_reason committed)) ''COMMIT_REJECTED''),
         gg_observedVersion = gc_observedVersion committed, gg_observedReceipts = None\<rparr>)"

definition executePremiseGuard ::
  "(string \<Rightarrow> int option) \<Rightarrow> (nat \<Rightarrow> int) \<Rightarrow> (rat \<Rightarrow> string) \<Rightarrow> premise_guard_intent \<Rightarrow> premise_guard_receipt list
     \<Rightarrow> 'r premise_guard_adapter \<Rightarrow> premise_guard_receipt list list \<times> (exn + 'r premise_guard_result)" where
  "executePremiseGuard dp clock fmt intent receipts adapter =
     (if gi_actionDigest intent = [] \<or> gi_idempotencyKey intent = [] \<or> gi_criticalPremises intent = []
        then ([], Inr (refused GuardReject ''INVALID_INTENT''))
      else if (case gi_lease intent of None \<Rightarrow> False | Some l \<Rightarrow> gl_leaseId l = [] \<or> gl_fencingToken l = [])
        then ([], Inr (refused GuardReject ''INVALID_INTENT''))
      else if length (unique (gi_criticalPremises intent)) \<noteq> length (gi_criticalPremises intent)
        then ([], Inr (refused GuardReject ''DUPLICATE_PREMISE''))
      else if length (unique (map gr_premiseId receipts)) \<noteq> length receipts
        then ([], Inr (refused GuardReject ''DUPLICATE_RECEIPT''))
      else if list_ex (\<lambda>r. gr_premiseId r = [] \<or> gr_identityKey r = [] \<or> gr_versionToken r = [] \<or>
            gr_valid r = None \<or> gr_state r = None) receipts
        then ([], Inr (refused GuardReject ''INVALID_RECEIPT''))
      else
        (let caps = set (ga_capabilities adapter);
             hasConditionalCommit = (CAS \<in> caps \<or> CONDITIONAL_ACTION \<in> caps)
         in
         if gi_requiredCapability intent \<notin> caps \<or> IDEMPOTENCY_KEY \<notin> caps \<or> \<not> hasConditionalCommit \<or>
             (gi_lease intent \<noteq> None \<and> FENCED_LEASE \<notin> caps)
           then ([], Inr (refused GuardUnsupported ''MISSING_CONDITIONAL_COMMIT''))
         else (case selectSlice dp clock intent (receiptsById receipts) 0 (gi_criticalPremises intent) of
             Inl (d, reason) \<Rightarrow> ([], Inr (refused d reason))
           | Inr selected \<Rightarrow>
               ([selected], andThen (ga_commit adapter intent selected)
                  (\<lambda>committed. Inr (guardOutcome fmt intent selected committed))))))"

section \<open>Lemmas\<close>

lemma fold_receipts:
  "distinct (map gr_premiseId rs) \<Longrightarrow> \<forall>r \<in> set rs. map_of m (gr_premiseId r) = None \<Longrightarrow>
     fold (\<lambda>r. omap_set (gr_premiseId r) r) rs m = m @ map (\<lambda>r. (gr_premiseId r, r)) rs"
proof (induction rs arbitrary: m)
  case (Cons r rs)
  have "\<forall>s \<in> set rs. map_of (m @ [(gr_premiseId r, r)]) (gr_premiseId s) = None"
    using Cons.prems by (auto simp: map_add_def image_iff split: option.splits)
  with Cons show ?case by (simp add: set_omap_set_absent)
qed simp

lemma receiptsById_iff:
  "distinct (map gr_premiseId rs) \<Longrightarrow> map_of (receiptsById rs) p = Some r \<longleftrightarrow> r \<in> set rs \<and> gr_premiseId r = p"
  by (auto simp: receiptsById_def fold_receipts comp_def)

lemma selectSlice_Inr:
  "selectSlice dp clock intent m i ps = Inr sel \<Longrightarrow>
     length sel = length ps \<and>
     (\<forall>j < length ps. map_of m (ps ! j) = Some (sel ! j) \<and> gr_valid (sel ! j) = Some True \<and>
        gr_state (sel ! j) \<in> {None, Some GuardFresh} \<and> receiptLeaseUsable dp (clock (i + j)) (sel ! j) intent)"
proof (induction ps arbitrary: i sel)
  case (Cons p ps)
  obtain r where r: "map_of m p = Some r" using Cons.prems by (cases "map_of m p") auto
  obtain sel' where sel': "selectSlice dp clock intent m (Suc i) ps = Inr sel'" and sel: "sel = r # sel'"
    using Cons.prems r by (auto simp: andThen_Inr_iff split: if_splits)
  have "gr_state r \<in> {None, Some GuardFresh}"
  proof (cases "gr_state r")
    case (Some s)
    with Cons.prems r show ?thesis by (cases s) (auto split: if_splits)
  qed simp
  moreover have "gr_valid r = Some True \<and> receiptLeaseUsable dp (clock i) r intent"
    using Cons.prems r by (auto split: if_splits)
  ultimately show ?case
    using Cons.IH [OF sel'] r sel by (auto simp: nth_Cons split: nat.splits)
qed simp

lemma executePremiseGuard_cases:
  assumes "executePremiseGuard dp clock fmt intent receipts adapter = (calls, res)"
  shows "(calls = [] \<and> (\<exists>d reason. d \<noteq> ALLOW \<and> res = Inr (refused d reason))) \<or>
    (\<exists>slice. calls = [slice] \<and> res = andThen (ga_commit adapter intent slice)
        (\<lambda>committed. Inr (guardOutcome fmt intent slice committed)) \<and>
      selectSlice dp clock intent (receiptsById receipts) 0 (gi_criticalPremises intent) = Inr slice \<and>
      gi_actionDigest intent \<noteq> [] \<and> gi_idempotencyKey intent \<noteq> [] \<and> gi_criticalPremises intent \<noteq> [] \<and>
      distinct (gi_criticalPremises intent) \<and> distinct (map gr_premiseId receipts) \<and>
      (\<forall>r \<in> set receipts. gr_valid r \<noteq> None \<and> gr_state r \<noteq> None \<and> gr_identityKey r \<noteq> [] \<and> gr_versionToken r \<noteq> []) \<and>
      gi_requiredCapability intent \<in> set (ga_capabilities adapter) \<and>
      IDEMPOTENCY_KEY \<in> set (ga_capabilities adapter) \<and>
      (CAS \<in> set (ga_capabilities adapter) \<or> CONDITIONAL_ACTION \<in> set (ga_capabilities adapter)) \<and>
      (gi_lease intent \<noteq> None \<longrightarrow> FENCED_LEASE \<in> set (ga_capabilities adapter)))"
proof -
  have slice: "d \<noteq> ALLOW" if "selectSlice dp clock intent m i ps = Inl (d, reason)" for d reason m i ps
    using that by (induction ps arbitrary: i) (auto simp: andThen_Inl_iff split: option.splits if_splits)
  have uniq: "length (unique (map gr_premiseId receipts)) \<noteq> length receipts \<longleftrightarrow> \<not> distinct (map gr_premiseId receipts)"
    by (metis length_map length_unique_iff)
  show ?thesis
    using assms slice
    by (fastforce simp: executePremiseGuard_def Let_def length_unique_iff uniq list_ex_iff
        split: if_splits sum.splits)
qed

lemma collectObserved_Some:
  "collectObserved fmt previous rs m = Some m' \<Longrightarrow>
     map_of m' p = Some r \<Longrightarrow> map_of m p = Some r \<or>
       r \<in> set rs \<and> gr_premiseId r = p \<and> receiptAcceptable r \<and>
       (\<exists>prior. map_of previous p = Some prior \<and> sameEnvironment fmt r prior)"
proof (induction rs arbitrary: m)
  case (Cons s rs)
  then obtain prior where p: "map_of previous (gr_premiseId s) = Some prior" "sameEnvironment fmt s prior"
    "receiptAcceptable s" "collectObserved fmt previous rs (omap_set (gr_premiseId s) s m) = Some m'"
    by (auto split: if_splits option.splits)
  from Cons.IH [OF p(4) Cons.prems(2)] p show ?case by (auto split: if_splits)
qed simp

lemma completeObservedReceipts_Some:
  assumes "completeObservedReceipts fmt ids reported previous = Some rs"
    and "distinct (map gr_premiseId previous)"
  shows "map gr_premiseId rs = ids \<and> (\<forall>r \<in> set rs. receiptAcceptable r \<and>
    (\<exists>reports. reported = Some reports \<and> r \<in> set reports) \<and>
    (\<exists>prior \<in> set previous. gr_premiseId prior = gr_premiseId r \<and> sameEnvironment fmt r prior))"
proof -
  obtain reports m where m: "reported = Some reports" "collectObserved fmt (receiptsById previous) reports [] = Some m"
    and all: "list_all (\<lambda>r. r \<noteq> None) (map (map_of m) ids)" and rs: "rs = map the (map (map_of m) ids)"
    using assms(1) by (auto simp: completeObservedReceipts_def Let_def split: option.splits if_splits)
  have entry: "map_of m p = Some (the (map_of m p))" if "p \<in> set ids" for p
    using all that by (auto simp: list_all_iff)
  have spec: "gr_premiseId (the (map_of m p)) = p \<and> the (map_of m p) \<in> set reports \<and>
      receiptAcceptable (the (map_of m p)) \<and>
      (\<exists>prior. map_of (receiptsById previous) p = Some prior \<and> sameEnvironment fmt (the (map_of m p)) prior)"
    if "p \<in> set ids" for p
    using collectObserved_Some [OF m(2) entry [OF that]] by simp
  have "map gr_premiseId rs = ids"
    unfolding rs using spec by (simp add: map_idI)
  moreover have "receiptAcceptable r \<and> r \<in> set reports \<and>
      (\<exists>prior \<in> set previous. gr_premiseId prior = gr_premiseId r \<and> sameEnvironment fmt r prior)" if r: "r \<in> set rs" for r
  proof -
    obtain p where p: "p \<in> set ids" "r = the (map_of m p)"
      using r unfolding rs by auto
    obtain prior where prior: "map_of (receiptsById previous) p = Some prior" "sameEnvironment fmt r prior"
      using spec [OF p(1)] p(2) by auto
    then have "prior \<in> set previous" "gr_premiseId prior = p"
      using assms(2) by (simp_all add: receiptsById_iff)
    with spec [OF p(1)] p(2) prior(2) show ?thesis by auto
  qed
  ultimately show ?thesis using m(1) by blast
qed

lemma guard_slice:
  assumes "executePremiseGuard dp clock fmt intent receipts adapter = ([slice], res)"
  shows "map gr_premiseId slice = gi_criticalPremises intent \<and> set slice \<subseteq> set receipts"
proof -
  have sel: "selectSlice dp clock intent (receiptsById receipts) 0 (gi_criticalPremises intent) = Inr slice"
    and ids: "distinct (map gr_premiseId receipts)"
    using executePremiseGuard_cases [OF assms] by auto
  note spec = selectSlice_Inr [OF sel]
  have item: "slice ! j \<in> set receipts \<and> gr_premiseId (slice ! j) = gi_criticalPremises intent ! j" if "j < length slice" for j
    using spec that ids by (simp add: receiptsById_iff)
  then show ?thesis
    using spec by (auto intro: nth_equalityI simp: in_set_conv_nth)
qed

section \<open>Properties\<close>

definition sampleReceipt :: premise_guard_receipt where
  "sampleReceipt = \<lparr>gr_premiseId = ''p'', gr_state = Some GuardFresh, gr_valid = Some True, gr_identityKey = ''k'',
     gr_versionToken = ''v1'', gr_artifactDigest = None, gr_migration = None, gr_lease = None, gr_alerts = None,
     gr_revoked = None\<rparr>"

definition sampleIntent :: premise_guard_intent where
  "sampleIntent = \<lparr>gi_actionDigest = ''d'', gi_criticalPremises = [''p''], gi_requiredCapability = CAS,
     gi_idempotencyKey = ''i'', gi_lease = None\<rparr>"

definition sampleAdapter :: "string premise_guard_adapter" where
  "sampleAdapter = \<lparr>ga_capabilities = [CAS, IDEMPOTENCY_KEY], ga_commit = (\<lambda>i rs. Inr
     (if rs = [sampleReceipt]
      then \<lparr>gc_accepted = False, gc_result = None, gc_reason = Some CommitVersionMismatch, gc_observedVersion = Some ''v2'',
            gc_observedReceipts = Some [sampleReceipt\<lparr>gr_versionToken := ''v2''\<rparr>]\<rparr>
      else \<lparr>gc_accepted = True, gc_result = Some ''done'', gc_reason = None, gc_observedVersion = None,
            gc_observedReceipts = None\<rparr>))\<rparr>"



text \<open>
  Evidence returned for a retry is complete and no weaker: when the guard hands back
  observed receipts, the decision is REVALIDATE, the receipts are those of the critical premises
  in order, each taken from the failed commit's report, valid, FRESH, not revoked, without a RED
  alert or a BLOCKED migration, and with the same artifact digest, migration, lease and alerts
  as the receipt of that premise the caller supplied.
\<close>

theorem guard_retry_evidence:
  assumes "executePremiseGuard dp clock fmt intent receipts adapter = (calls, Inr g)"
    and "gg_observedReceipts g = Some rs"
  shows "gg_decision g = GuardRevalidate \<and> map gr_premiseId rs = gi_criticalPremises intent \<and>
    (\<forall>r \<in> set rs. (gr_valid r = Some True \<and> gr_state r = Some GuardFresh \<and> gr_revoked r \<noteq> Some True \<and>
         gr_alerts r \<noteq> Some (JStr ''RED'') \<and> gr_migration r \<noteq> Some (JStr ''BLOCKED'')) \<and>
       (\<exists>slice c reports. calls = [slice] \<and> ga_commit adapter intent slice = Inr c \<and> \<not> gc_accepted c \<and>
          gc_observedReceipts c = Some reports \<and> r \<in> set reports) \<and>
       (\<exists>prior \<in> set receipts. gr_premiseId prior = gr_premiseId r \<and> sameEnvironment fmt r prior))"
proof -
  have "\<not> (calls = [] \<and> (\<exists>d reason. d \<noteq> ALLOW \<and> Inr g = Inr (refused d reason)))"
    using assms(2) by (auto simp: refused_def)
  then obtain slice where s: "calls = [slice]" "Inr g = andThen (ga_commit adapter intent slice)
        (\<lambda>committed. Inr (guardOutcome fmt intent slice committed))"
    using executePremiseGuard_cases [OF assms(1)] by blast
  then obtain c where c: "ga_commit adapter intent slice = Inr c" "g = guardOutcome fmt intent slice c"
    by (cases "ga_commit adapter intent slice") auto
  have slice: "map gr_premiseId slice = gi_criticalPremises intent" "set slice \<subseteq> set receipts"
    using guard_slice [OF assms(1) [unfolded s(1)]] by auto
  have out: "completeObservedReceipts fmt (gi_criticalPremises intent) (gc_observedReceipts c) slice = Some rs"
    "gg_decision g = GuardRevalidate" "\<not> gc_accepted c"
    using assms(2) c(2) by (auto simp: guardOutcome_def split: if_splits)
  have "distinct (map gr_premiseId slice)"
    using executePremiseGuard_cases [OF assms(1)] s(1) slice(1) by auto
  from completeObservedReceipts_Some [OF out(1) this] out(2,3) s(1) c(1) slice(2) show ?thesis
    unfolding receiptAcceptable_def by blast
qed

theorem guard_retry_evidence_witness:
  "\<exists>g. executePremiseGuard (\<lambda>t. None) (\<lambda>i. 0) (\<lambda>q. []) sampleIntent [sampleReceipt] sampleAdapter = ([[sampleReceipt]], Inr g) \<and>
     gg_decision g = GuardRevalidate \<and> gg_observedReceipts g = Some [sampleReceipt\<lparr>gr_versionToken := ''v2''\<rparr>]"
proof -
  let ?run = "executePremiseGuard (\<lambda>t. None) (\<lambda>i. 0) (\<lambda>q. []) sampleIntent [sampleReceipt] sampleAdapter"
  let ?g = "guardOutcome (\<lambda>q. []) sampleIntent [sampleReceipt]
    (case ga_commit sampleAdapter sampleIntent [sampleReceipt] of Inr c \<Rightarrow> c)"
  have run: "?run = ([[sampleReceipt]], Inr ?g)" by code_simp
  have obs: "gg_observedReceipts ?g = Some [sampleReceipt\<lparr>gr_versionToken := ''v2''\<rparr>]" by code_simp
  from guard_retry_evidence [OF run obs] run obs show ?thesis by blast
qed

end
