(* ===== verification/Receipt_Subsumption.thy ===== *)
theory Receipt_Subsumption
  imports Validation_Scope Predicate_Dependencies Js_Sort
begin

text \<open>
  \<open>packages/runtime-core/src/receipt-subsumption.ts\<close>: when a completed receipt may answer a
  narrower question, and which of several receipts answers it. \<open>Date.parse\<close> is \<open>dp\<close>,
  \<open>localeCompare\<close> \<open>lc\<close>; an exception inside the assessment is the reason INVALID.
\<close>

datatype receipt_subsumption_reason = MATCH | TENANT_MISMATCH | RESOURCE_MISMATCH | INCARNATION_MISMATCH
  | VERSION_SCHEME_MISMATCH | VERSION_MISMATCH | AUTHORIZATION_MISMATCH | POLICY_MISMATCH
  | CHANGE_SET_MISMATCH | VALIDATOR_MISMATCH | QUERY_FAMILY_MISMATCH | QUERY_INSUFFICIENT
  | SCOPE_INSUFFICIENT | FRONTIER_INSUFFICIENT | ReceiptExpired | ReceiptInvalid

record receipt_scope = premise_validation_scope +
  rs_queryFamily :: string
  rs_queryParts :: "string list"

record 'v receipt_candidate =
  rc_receiptId :: string
  rc_scope :: receipt_scope
  rc_observedAt :: string
  rc_expiresAt :: string
  rc_value :: 'v

record receipt_requirement =
  rq_scope :: receipt_scope
  rq_requiredQueryParts :: "string list"
  rq_requiredScopes :: "string list"
  rq_requiredFrontier :: "string list"
  rq_now :: string

record 'v receipt_subsumption_result =
  rx_eligible :: bool
  rx_reason :: receipt_subsumption_reason
  rx_receipt :: "'v receipt_candidate option"

fun ascending :: "string option \<Rightarrow> string list \<Rightarrow> bool" where
  "ascending previous [] = True"
| "ascending previous (v # vs) =
     ((case previous of None \<Rightarrow> True | Some p \<Rightarrow> p < v) \<and> ascending (Some v) vs)"

definition set_of :: "string list \<Rightarrow> string \<Rightarrow> exn + string set" where
  "set_of values name =
     (if list_ex (\<lambda>v. \<not> nonBlank v) values then Inl (NotText name)
      else if \<not> ascending None values then Inl (NotSorted name)
      else Inr (set values))"

definition timestamp :: "(string \<Rightarrow> int option) \<Rightarrow> string \<Rightarrow> string \<Rightarrow> exn + int" where
  "timestamp dp v name =
     andThen (requiredNonBlank name v) (\<lambda>t. case dp t of None \<Rightarrow> Inl (NotTimestamp name) | Some ms \<Rightarrow> Inr ms)"

definition covers :: "string set \<Rightarrow> string set \<Rightarrow> bool" where
  "covers available requiredValues = (requiredValues \<subseteq> available)"

definition validateScope :: "receipt_scope \<Rightarrow> string \<Rightarrow> exn + unit" where
  "validateScope s name =
     andThen (requiredNonBlank (name @ ''.tenantId'') (vs_tenantId s)) (\<lambda>_.
     andThen (requiredNonBlank (name @ ''.resourceId'') (vs_resourceId s)) (\<lambda>_.
     andThen (requiredNonBlank (name @ ''.incarnationId'') (vs_incarnationId s)) (\<lambda>_.
     andThen (requiredNonBlank (name @ ''.versionScheme'') (vs_versionScheme s)) (\<lambda>_.
     andThen (requiredNonBlank (name @ ''.versionToken'') (vs_versionToken s)) (\<lambda>_.
     andThen (requiredNonBlank (name @ ''.validatorId'') (vs_validatorId s)) (\<lambda>_.
     andThen (requiredNonBlank (name @ ''.authorizationContextDigest'') (vs_authorizationContextDigest s)) (\<lambda>_.
     andThen (requiredNonBlank (name @ ''.policyDigest'') (vs_policyDigest s)) (\<lambda>_.
     andThen (case vs_changeSetDigest s of None \<Rightarrow> Inr [] | Some d \<Rightarrow> requiredNonBlank (name @ ''.changeSetDigest'') d) (\<lambda>_.
     andThen (requiredNonBlank (name @ ''.queryFamily'') (rs_queryFamily s)) (\<lambda>_.
     andThen (set_of (rs_queryParts s) (name @ ''.queryParts'')) (\<lambda>_.
     andThen (set_of (vs_scopes s) (name @ ''.scopes'')) (\<lambda>_.
     andThen (set_of (vs_causalFrontier s) (name @ ''.causalFrontier'')) (\<lambda>_. Inr ())))))))))))))"

text \<open>\<open>values.join("\u0000")\<close>.\<close>

fun joinNul :: "string list \<Rightarrow> string" where
  "joinNul [] = []"
| "joinNul (t # ts) = t @ concat (map (\<lambda>t. CHR 0x00 # t) ts)"

definition scopeReason :: "receipt_scope \<Rightarrow> receipt_scope \<Rightarrow> receipt_requirement \<Rightarrow> exn + receipt_subsumption_reason" where
  "scopeReason candidate requiredScope requirement =
     (if vs_tenantId candidate \<noteq> vs_tenantId requiredScope then Inr TENANT_MISMATCH
      else if vs_resourceId candidate \<noteq> vs_resourceId requiredScope then Inr RESOURCE_MISMATCH
      else if vs_incarnationId candidate \<noteq> vs_incarnationId requiredScope then Inr INCARNATION_MISMATCH
      else if vs_versionScheme candidate \<noteq> vs_versionScheme requiredScope then Inr VERSION_SCHEME_MISMATCH
      else if vs_versionToken candidate \<noteq> vs_versionToken requiredScope then Inr VERSION_MISMATCH
      else if vs_validatorId candidate \<noteq> vs_validatorId requiredScope then Inr VALIDATOR_MISMATCH
      else if vs_authorizationContextDigest candidate \<noteq> vs_authorizationContextDigest requiredScope then Inr AUTHORIZATION_MISMATCH
      else if vs_policyDigest candidate \<noteq> vs_policyDigest requiredScope then Inr POLICY_MISMATCH
      else if vs_changeSetDigest candidate \<noteq> vs_changeSetDigest requiredScope then Inr CHANGE_SET_MISMATCH
      else if rs_queryFamily candidate \<noteq> rs_queryFamily requiredScope then Inr QUERY_FAMILY_MISMATCH
      else
        andThen (set_of (rs_queryParts candidate) ''candidate.queryParts'') (\<lambda>parts.
        andThen (set_of (rq_requiredQueryParts requirement) ''requiredQueryParts'') (\<lambda>requiredParts.
          if \<not> covers parts requiredParts then Inr QUERY_INSUFFICIENT
          else
            andThen (set_of (vs_scopes candidate) ''candidate.scopes'') (\<lambda>scopes.
            andThen (set_of (rq_requiredScopes requirement) ''requiredScopes'') (\<lambda>requiredScopes.
              if \<not> covers scopes requiredScopes then Inr SCOPE_INSUFFICIENT
              else if joinNul (vs_causalFrontier candidate) \<noteq> joinNul (vs_causalFrontier requiredScope)
                then Inr FRONTIER_INSUFFICIENT
              else
                andThen (set_of (rq_requiredFrontier requirement) ''requiredFrontier'') (\<lambda>requiredFrontier.
                  if \<not> covers (set (vs_causalFrontier requiredScope)) requiredFrontier then Inr FRONTIER_INSUFFICIENT
                  else Inr MATCH))))))"

definition ineligible :: "receipt_subsumption_reason \<Rightarrow> 'v receipt_subsumption_result" where
  "ineligible r = \<lparr>rx_eligible = False, rx_reason = r, rx_receipt = None\<rparr>"

text \<open>The body of the \<open>try\<close>, and the function around it.\<close>

definition assessChecked ::
  "(string \<Rightarrow> int option) \<Rightarrow> 'v receipt_candidate \<Rightarrow> receipt_requirement \<Rightarrow> exn + 'v receipt_subsumption_result" where
  "assessChecked dp candidate requirement =
     andThen (requiredNonBlank ''receiptId'' (rc_receiptId candidate)) (\<lambda>_.
     andThen (validateScope (rc_scope candidate) ''candidate.scope'') (\<lambda>_.
     andThen (validateScope (rq_scope requirement) ''requirement.scope'') (\<lambda>_.
     andThen (timestamp dp (rq_now requirement) ''now'') (\<lambda>now.
     andThen (timestamp dp (rc_observedAt candidate) ''observedAt'') (\<lambda>observedAt.
     andThen (timestamp dp (rc_expiresAt candidate) ''expiresAt'') (\<lambda>expiresAt.
       if expiresAt \<le> observedAt \<or> observedAt > now then Inr (ineligible ReceiptInvalid)
       else if now \<ge> expiresAt then Inr (ineligible ReceiptExpired)
       else
         andThen (set_of (rq_requiredQueryParts requirement) ''requiredQueryParts'') (\<lambda>_.
         andThen (set_of (rq_requiredScopes requirement) ''requiredScopes'') (\<lambda>_.
         andThen (set_of (rq_requiredFrontier requirement) ''requiredFrontier'') (\<lambda>_.
         andThen (scopeReason (rc_scope candidate) (rq_scope requirement) requirement) (\<lambda>reason.
           Inr (if reason = MATCH
                then \<lparr>rx_eligible = True, rx_reason = reason, rx_receipt = Some candidate\<rparr>
                else ineligible reason)))))))))))"

definition assessReceiptSubsumption ::
  "(string \<Rightarrow> int option) \<Rightarrow> 'v receipt_candidate \<Rightarrow> receipt_requirement \<Rightarrow> 'v receipt_subsumption_result" where
  "assessReceiptSubsumption dp candidate requirement =
     (case assessChecked dp candidate requirement of Inl e \<Rightarrow> ineligible ReceiptInvalid | Inr r \<Rightarrow> r)"

definition resultOrder ::
  "(string \<Rightarrow> int option) \<Rightarrow> (string \<Rightarrow> string \<Rightarrow> int) \<Rightarrow> 'v receipt_subsumption_result \<Rightarrow> 'v receipt_subsumption_result \<Rightarrow> int" where
  "resultOrder dp lc left right =
     (let l = the (rx_receipt left); r = the (rx_receipt right) in
      orElse (the (dp (rc_observedAt r)) - the (dp (rc_observedAt l)))
        (orElse (the (dp (rc_expiresAt r)) - the (dp (rc_expiresAt l)))
           (lc (rc_receiptId l) (rc_receiptId r))))"

definition selectSubsumingReceipt ::
  "(string \<Rightarrow> int option) \<Rightarrow> (string \<Rightarrow> string \<Rightarrow> int) \<Rightarrow> 'v receipt_candidate list \<Rightarrow> receipt_requirement
     \<Rightarrow> 'v receipt_subsumption_result" where
  "selectSubsumingReceipt dp lc candidates requirement =
     (case sortBy (resultOrder dp lc)
        (filter (\<lambda>r. rx_eligible r \<and> rx_receipt r \<noteq> None)
           (map (\<lambda>c. assessReceiptSubsumption dp c requirement) candidates)) of
        [] \<Rightarrow> ineligible ReceiptInvalid
      | best # others \<Rightarrow> best)"

section \<open>Lemmas\<close>

lemma set_of_Inr: "set_of vs name = Inr s \<Longrightarrow> s = set vs \<and> (\<forall>v \<in> set vs. nonBlank v) \<and> ascending None vs"
  by (auto simp: set_of_def list_ex_iff split: if_splits)

lemma ascending_sorted: "ascending p vs \<Longrightarrow> sorted_wrt (<) vs \<and> (\<forall>q. p = Some q \<longrightarrow> (\<forall>v \<in> set vs. q < v))"
proof (induction p vs rule: ascending.induct)
  case (2 previous v vs)
  then show ?case by (auto split: option.splits)
qed simp

text \<open>The join is injective on the items without a NUL.\<close>

definition noNul :: "string \<Rightarrow> bool" where "noNul s = (CHR 0x00 \<notin> set s)"

lemma joinNul_tail: "concat (map (\<lambda>t. CHR 0x00 # t) ts) = [] \<or> hd (concat (map (\<lambda>t. CHR 0x00 # t) ts)) = CHR 0x00"
  by (cases ts) auto

lemma append_delimited:
  assumes "noNul a" "noNul b" "r = [] \<or> hd r = CHR 0x00" "s = [] \<or> hd s = CHR 0x00" and "a @ r = b @ s"
  shows "a = b \<and> r = s"
proof -
  have nil: "us = []" if "us @ v = w" "noNul us" "w = [] \<or> hd w = CHR 0x00" for us v w :: string
    using that by (cases us) (auto simp: noNul_def)
  from assms(5) obtain us where "a = b @ us \<and> us @ r = s \<or> a @ us = b \<and> r = us @ s"
    by (auto simp: append_eq_append_conv2)
  then show ?thesis
  proof
    assume us: "a = b @ us \<and> us @ r = s"
    with assms(1) have "noNul us" by (simp add: noNul_def)
    with nil [of us r s] us assms(4) have "us = []" by blast
    with us show ?thesis by simp
  next
    assume us: "a @ us = b \<and> r = us @ s"
    with assms(2) have "noNul us" by (auto simp: noNul_def)
    with nil [of us s r] us assms(3) have "us = []" by blast
    with us show ?thesis by simp
  qed
qed

lemma joinNul_inject:
  assumes "\<forall>t \<in> set xs. noNul t \<and> t \<noteq> []" "\<forall>t \<in> set ys. noNul t \<and> t \<noteq> []" and "joinNul xs = joinNul ys"
  shows "xs = ys"
  using assms
proof (induction xs arbitrary: ys)
  case Nil
  then show ?case by (cases ys) auto
next
  case (Cons x xs)
  then obtain y ys' where ys: "ys = y # ys'" by (cases ys) auto
  have "x = y \<and> concat (map (\<lambda>t. CHR 0x00 # t) xs) = concat (map (\<lambda>t. CHR 0x00 # t) ys')"
    using Cons.prems ys by (intro append_delimited joinNul_tail) auto
  moreover from this have "joinNul xs = joinNul ys'" by (cases xs; cases ys') simp_all
  ultimately show ?case using Cons.IH [of ys'] Cons.prems(1,2) ys by simp
qed

section \<open>Assessment\<close>

definition freshWindow :: "(string \<Rightarrow> int option) \<Rightarrow> 'v receipt_candidate \<Rightarrow> string \<Rightarrow> bool" where
  "freshWindow dp c now = (case (dp (rc_observedAt c), dp now, dp (rc_expiresAt c)) of
     (Some a, Some t, Some b) \<Rightarrow> a \<le> t \<and> t < b | _ \<Rightarrow> False)"

lemma requiredNonBlank_Inr [simp]: "requiredNonBlank name v = Inr r \<longleftrightarrow> nonBlank v \<and> r = v"
  by (auto simp: requiredNonBlank_def)

lemma timestamp_Inr: "timestamp dp v name = Inr ms \<longleftrightarrow> nonBlank v \<and> dp v = Some ms"
  by (auto simp: timestamp_def andThen_Inr_iff split: option.splits)

lemma scopeReason_MATCH:
  "scopeReason c s q = Inr MATCH \<Longrightarrow>
     premise_validation_scope.truncate c\<lparr>vs_queryDigest := [], vs_scopes := [], vs_causalFrontier := []\<rparr> =
     premise_validation_scope.truncate s\<lparr>vs_queryDigest := [], vs_scopes := [], vs_causalFrontier := []\<rparr> \<and>
     rs_queryFamily c = rs_queryFamily s \<and> set (rq_requiredQueryParts q) \<subseteq> set (rs_queryParts c) \<and>
     set (rq_requiredScopes q) \<subseteq> set (vs_scopes c) \<and>
     joinNul (vs_causalFrontier c) = joinNul (vs_causalFrontier s) \<and>
     set (rq_requiredFrontier q) \<subseteq> set (vs_causalFrontier s)"
  by (auto simp: scopeReason_def covers_def andThen_Inr_iff premise_validation_scope.truncate_def
      dest!: set_of_Inr split: if_splits)

lemma validateScope_items:
  "validateScope s name = Inr u \<Longrightarrow> (\<forall>t \<in> set (vs_causalFrontier s). nonBlank t)"
  by (auto simp: validateScope_def andThen_Inr_iff dest!: set_of_Inr)

lemma assess_eligible:
  assumes "rx_eligible (assessReceiptSubsumption dp c q)"
  shows "assessReceiptSubsumption dp c q = \<lparr>rx_eligible = True, rx_reason = MATCH, rx_receipt = Some c\<rparr> \<and>
    freshWindow dp c (rq_now q) \<and> scopeReason (rc_scope c) (rq_scope q) q = Inr MATCH \<and>
    (\<forall>t \<in> set (vs_causalFrontier (rc_scope c)) \<union> set (vs_causalFrontier (rq_scope q)). nonBlank t)"
proof -
  obtain r where r: "assessChecked dp c q = Inr r" "rx_eligible r"
    using assms by (auto simp: assessReceiptSubsumption_def ineligible_def split: sum.splits)
  then have steps: "validateScope (rc_scope c) ''candidate.scope'' = Inr ()"
    "validateScope (rq_scope q) ''requirement.scope'' = Inr ()"
    "freshWindow dp c (rq_now q)" "scopeReason (rc_scope c) (rq_scope q) q = Inr MATCH"
    "r = \<lparr>rx_eligible = True, rx_reason = MATCH, rx_receipt = Some c\<rparr>"
    by (auto simp: assessChecked_def ineligible_def timestamp_Inr andThen_Inr_iff freshWindow_def split: if_splits)
  then show ?thesis using validateScope_items r(1) by (auto simp: assessReceiptSubsumption_def)
qed

lemma comparison_diff: "comparison (\<lambda>a b. g b - g a :: int)"
  by (auto simp: comparison_def)

lemma resultOrder_comparison: "comparison lc \<Longrightarrow> comparison (resultOrder dp lc)"
  unfolding resultOrder_def Let_def
  using comparison_orElse [OF comparison_diff [of "\<lambda>r. the (dp (rc_observedAt (the (rx_receipt r))))"]
      comparison_orElse [OF comparison_diff [of "\<lambda>r. the (dp (rc_expiresAt (the (rx_receipt r))))"]
        comparison_on [of lc "\<lambda>r. rc_receiptId (the (rx_receipt r))"]]]
  by simp

definition eligibleResults ::
  "(string \<Rightarrow> int option) \<Rightarrow> 'v receipt_candidate list \<Rightarrow> receipt_requirement \<Rightarrow> 'v receipt_subsumption_result list" where
  "eligibleResults dp cs q =
     filter (\<lambda>r. rx_eligible r \<and> rx_receipt r \<noteq> None) (map (\<lambda>c. assessReceiptSubsumption dp c q) cs)"

lemma eligibleResults_iff:
  "r \<in> set (eligibleResults dp cs q) \<longleftrightarrow> (\<exists>c \<in> set cs. r = assessReceiptSubsumption dp c q \<and> rx_eligible r)"
  using assess_eligible [of dp _ q] by (force simp: eligibleResults_def)

lemma select_eq:
  "selectSubsumingReceipt dp lc cs q =
     (case sortBy (resultOrder dp lc) (eligibleResults dp cs q) of [] \<Rightarrow> ineligible ReceiptInvalid | b # rest \<Rightarrow> b)"
  by (simp only: selectSubsumingReceipt_def eligibleResults_def)

lemma select_spec:
  assumes "comparison lc"
  shows "(eligibleResults dp cs q = [] \<and> selectSubsumingReceipt dp lc cs q = ineligible ReceiptInvalid) \<or>
    (selectSubsumingReceipt dp lc cs q \<in> set (eligibleResults dp cs q) \<and>
     (\<forall>r \<in> set (eligibleResults dp cs q). resultOrder dp lc (selectSubsumingReceipt dp lc cs q) r \<le> 0))"
proof -
  have sorted: "sorted_wrt (\<lambda>a b. resultOrder dp lc a b \<le> 0) (sortBy (resultOrder dp lc) (eligibleResults dp cs q))"
    by (rule sorted_sortBy [OF resultOrder_comparison [OF assms]])
  show ?thesis
  proof (cases "sortBy (resultOrder dp lc) (eligibleResults dp cs q)")
    case Nil
    then have "set (eligibleResults dp cs q) = {}" using set_sortBy by (metis list.set(1))
    with Nil show ?thesis by (simp add: select_eq)
  next
    case (Cons b rest)
    have sel: "selectSubsumingReceipt dp lc cs q = b"
      using Cons by (simp add: select_eq)
    have mem: "set (eligibleResults dp cs q) = insert b (set rest)"
      using Cons set_sortBy by (metis list.set(2))
    have "resultOrder dp lc b b \<le> 0"
      using comparisonD(1) [OF resultOrder_comparison [OF assms]] by (metis linear)
    with sorted Cons mem sel show ?thesis by auto
  qed
qed

section \<open>Properties\<close>

definition sampleReceiptScope :: receipt_scope where
  "sampleReceiptScope = \<lparr>vs_tenantId = ''t'', vs_resourceId = ''r'', vs_incarnationId = ''i'',
     vs_versionScheme = ''etag'', vs_versionToken = ''v1'', vs_validatorId = ''val'',
     vs_authorizationContextDigest = ''a'', vs_policyDigest = ''p'', vs_queryDigest = ''q'',
     vs_scopes = [''x'', ''y''], vs_changeSetDigest = None, vs_causalFrontier = [''e1'', ''e2''],
     rs_queryFamily = ''rows'', rs_queryParts = [''a'', ''b'']\<rparr>"

definition sampleCandidate :: "string \<Rightarrow> string \<Rightarrow> unit receipt_candidate" where
  "sampleCandidate i observed = \<lparr>rc_receiptId = i, rc_scope = sampleReceiptScope, rc_observedAt = observed,
     rc_expiresAt = ''999999'', rc_value = ()\<rparr>"

definition sampleRequirement :: receipt_requirement where
  "sampleRequirement = \<lparr>rq_scope = sampleReceiptScope, rq_requiredQueryParts = [''b''], rq_requiredScopes = [''x''],
     rq_requiredFrontier = [''e1''], rq_now = ''4444''\<rparr>"

definition lengthDate :: "string \<Rightarrow> int option" where "lengthDate s = Some (int (length s))"

text \<open>
  C34: A receipt answers only a question it covers: if a candidate is eligible, it was observed
  for the required tenant, resource, incarnation, version scheme and token, validator,
  authorization, policy, change set and query family; it holds all required query parts and
  scopes; its window contains the required time; and its causal frontier is the required one
  wherever no frontier item contains a NUL character.
\<close>

theorem subsumption_sound:
  assumes "rx_eligible (assessReceiptSubsumption dp c q)"
  shows "rx_receipt (assessReceiptSubsumption dp c q) = Some c \<and> freshWindow dp c (rq_now q) \<and>
     premise_validation_scope.truncate (rc_scope c)\<lparr>vs_queryDigest := [], vs_scopes := [], vs_causalFrontier := []\<rparr> =
     premise_validation_scope.truncate (rq_scope q)\<lparr>vs_queryDigest := [], vs_scopes := [], vs_causalFrontier := []\<rparr> \<and>
     rs_queryFamily (rc_scope c) = rs_queryFamily (rq_scope q) \<and>
     set (rq_requiredQueryParts q) \<subseteq> set (rs_queryParts (rc_scope c)) \<and>
     set (rq_requiredScopes q) \<subseteq> set (vs_scopes (rc_scope c)) \<and>
     set (rq_requiredFrontier q) \<subseteq> set (vs_causalFrontier (rq_scope q)) \<and>
     ((\<forall>t \<in> set (vs_causalFrontier (rc_scope c)) \<union> set (vs_causalFrontier (rq_scope q)). noNul t) \<longrightarrow>
        vs_causalFrontier (rc_scope c) = vs_causalFrontier (rq_scope q))"
proof -
  note e = assess_eligible [OF assms]
  then have "joinNul (vs_causalFrontier (rc_scope c)) = joinNul (vs_causalFrontier (rq_scope q))"
    using scopeReason_MATCH by blast
  with e have "(\<forall>t \<in> set (vs_causalFrontier (rc_scope c)) \<union> set (vs_causalFrontier (rq_scope q)). noNul t) \<longrightarrow>
        vs_causalFrontier (rc_scope c) = vs_causalFrontier (rq_scope q)"
    using joinNul_inject nonBlank_not_Nil by blast
  with e scopeReason_MATCH [of "rc_scope c" "rq_scope q" q] show ?thesis by simp
qed

theorem subsumption_sound_witness:
  "freshWindow lengthDate (sampleCandidate ''r1'' ''22'') (rq_now sampleRequirement)"
proof -
  have "rx_eligible (assessReceiptSubsumption lengthDate (sampleCandidate ''r1'' ''22'') sampleRequirement)" by code_simp
  from subsumption_sound [OF this] show ?thesis by blast
qed

text \<open>
  The selection is complete and prefers the latest evidence: it answers with an eligible
  candidate whenever there is one, and no eligible candidate was observed later, nor observed
  at the same time with a later expiry.
\<close>

theorem selection_latest:
  assumes "comparison lc" and "c \<in> set cs" and "rx_eligible (assessReceiptSubsumption dp c q)"
  shows "\<exists>best. best \<in> set cs \<and> selectSubsumingReceipt dp lc cs q = assessReceiptSubsumption dp best q \<and>
    rx_eligible (assessReceiptSubsumption dp best q) \<and> rx_receipt (selectSubsumingReceipt dp lc cs q) = Some best \<and>
    (the (dp (rc_observedAt c)), the (dp (rc_expiresAt c))) \<in>
      {(a, b). a < the (dp (rc_observedAt best)) \<or>
         a = the (dp (rc_observedAt best)) \<and> b \<le> the (dp (rc_expiresAt best))}"
proof -
  have mem: "assessReceiptSubsumption dp c q \<in> set (eligibleResults dp cs q)"
    using assms(2,3) by (auto simp: eligibleResults_iff)
  have sel: "selectSubsumingReceipt dp lc cs q \<in> set (eligibleResults dp cs q)"
    and le: "resultOrder dp lc (selectSubsumingReceipt dp lc cs q) (assessReceiptSubsumption dp c q) \<le> 0"
    using select_spec [OF assms(1), of dp cs q] mem by auto
  from sel obtain best where best: "best \<in> set cs" "selectSubsumingReceipt dp lc cs q = assessReceiptSubsumption dp best q"
    "rx_eligible (assessReceiptSubsumption dp best q)"
    unfolding eligibleResults_iff by metis
  have "rx_receipt (assessReceiptSubsumption dp best q) = Some best" "rx_receipt (assessReceiptSubsumption dp c q) = Some c"
    using assess_eligible [OF best(3)] assess_eligible [OF assms(3)] by auto
  with best le show ?thesis
    by (intro exI [of _ best]) (auto simp: resultOrder_def orElse_def split: if_splits)
qed

theorem selection_latest_witness:
  "\<exists>best. selectSubsumingReceipt lengthDate (\<lambda>a b. 0) [sampleCandidate ''r1'' ''1'', sampleCandidate ''r2'' ''22''] sampleRequirement =
     assessReceiptSubsumption lengthDate best sampleRequirement \<and> rx_eligible (assessReceiptSubsumption lengthDate best sampleRequirement)"
proof -
  have c: "comparison (\<lambda>a b :: string. 0 :: int)" by (simp add: comparison_def)
  have e: "rx_eligible (assessReceiptSubsumption lengthDate (sampleCandidate ''r1'' ''1'') sampleRequirement)" by code_simp
  from selection_latest [OF c _ e, of "[sampleCandidate ''r1'' ''1'', sampleCandidate ''r2'' ''22'']"]
  show ?thesis by auto
qed

text \<open>
  Two different causal frontiers can be taken for one: the comparison joins the items with
  NUL characters, so a receipt observed at the frontier of one event whose name contains a NUL is
  eligible for a requirement whose frontier is the two events of its parts.
\<close>

theorem frontier_join_ambiguous:
  "\<exists>c q. rx_eligible (assessReceiptSubsumption lengthDate (c :: unit receipt_candidate) q) \<and>
     vs_causalFrontier (rc_scope c) = [''a'' @ [CHR 0x00] @ ''b''] \<and> vs_causalFrontier (rq_scope q) = [''a'', ''b'']"
proof -
  let ?c = "sampleCandidate ''r1'' ''22''\<lparr>rc_scope := sampleReceiptScope\<lparr>vs_causalFrontier := [''a'' @ [CHR 0x00] @ ''b'']\<rparr>\<rparr>"
  let ?q = "sampleRequirement\<lparr>rq_scope := sampleReceiptScope\<lparr>vs_causalFrontier := [''a'', ''b'']\<rparr>, rq_requiredFrontier := [''a'']\<rparr>"
  have "rx_eligible (assessReceiptSubsumption lengthDate ?c ?q)" by code_simp
  then show ?thesis by (intro exI [of _ ?c] exI [of _ ?q]) simp
qed

end
