(* ===== verification/Receipt_Cache.thy ===== *)
theory Receipt_Cache
  imports Premise_Guard
begin

text \<open>
  \<open>packages/runtime-core/src/receipt-cache.ts\<close>: the bounded cache of completed validation
  receipts and the two assessments of event continuity. \<open>RuntimeNegativeCache\<close> and
  \<open>semanticFingerprint\<close>, of the same file, are in \<open>Negative_Cache\<close>. \<open>Date.parse\<close> is \<open>dp\<close>,
  SHA-256 \<open>sha\<close>.
\<close>

section \<open>The receipt cache\<close>

record runtime_receipt =
  re_scope :: premise_validation_scope
  re_state :: string
  re_valid :: bool
  re_observedAt :: string
  re_expiresAt :: string
  re_value :: jsvalue
  re_semanticFingerprint :: "string option"

datatype lookup_status = HIT | MISS | LookupReject
datatype lookup_reason = LookupNotFound | LookupExpired | LookupInvalidScope

record runtime_receipt_lookup =
  rl_status :: lookup_status
  rl_reason :: "lookup_reason option"
  rl_receipt :: "runtime_receipt option"

record runtime_receipt_cache =
  rt_entries :: "(string, runtime_receipt) omap"
  rt_maxEntries :: int
  rt_hits :: int
  rt_misses :: int
  rt_staleRejections :: int
  rt_evictions :: int

definition newReceiptCache :: "jsnum option \<Rightarrow> exn + runtime_receipt_cache" where
  "newReceiptCache maxEntries =
     (let m = nullish maxEntries (Integral 1024) in
      if \<not> validToken m then Inl (NotInRange ''maxEntries'')
      else Inr \<lparr>rt_entries = [], rt_maxEntries = int_of m, rt_hits = 0, rt_misses = 0, rt_staleRejections = 0,
                rt_evictions = 0\<rparr>)"

definition assertTimestamp :: "(string \<Rightarrow> int option) \<Rightarrow> string \<Rightarrow> string \<Rightarrow> exn + unit" where
  "assertTimestamp dp v name = guard (dp v \<noteq> None) (NotTimestamp name)"

definition sameOrBefore :: "(string \<Rightarrow> int option) \<Rightarrow> string \<Rightarrow> string \<Rightarrow> bool" where
  "sameOrBefore dp now expiry = before (dp now) (dp expiry)"

function dropOldest :: "runtime_receipt_cache \<Rightarrow> runtime_receipt_cache" where
  "dropOldest st =
     (if int (length (rt_entries st)) > rt_maxEntries st \<and> rt_entries st \<noteq> []
      then dropOldest (st\<lparr>rt_entries := tl (rt_entries st), rt_evictions := rt_evictions st + 1\<rparr>)
      else st)"
  by pat_completeness auto
termination by (relation "measure (\<lambda>st. length (rt_entries st))") auto

declare dropOldest.simps [simp del]

text \<open>The guards of \<open>put\<close> and the key under which the receipt is stored.\<close>

definition receiptKey ::
  "(string \<Rightarrow> int option) \<Rightarrow> (string \<Rightarrow> string) \<Rightarrow> runtime_receipt \<Rightarrow> exn + string" where
  "receiptKey dp sha r =
     andThen (guard (re_state r = ''FRESH'' \<and> re_valid r) (Failure ''only valid FRESH receipts may enter the cache'')) (\<lambda>_.
     andThen (assertTimestamp dp (re_observedAt r) ''receipt.observedAt'') (\<lambda>_.
     andThen (assertTimestamp dp (re_expiresAt r) ''receipt.expiresAt'') (\<lambda>_.
     andThen (guard (sameOrBefore dp (re_observedAt r) (re_expiresAt r)) (NotInRange ''expiry'')) (\<lambda>_.
       premiseValidationScopeKey sha (re_scope r)))))"

definition putReceipt ::
  "(string \<Rightarrow> int option) \<Rightarrow> (string \<Rightarrow> string) \<Rightarrow> runtime_receipt \<Rightarrow> runtime_receipt_cache
     \<Rightarrow> (exn + string) \<times> runtime_receipt_cache" where
  "putReceipt dp sha r st =
     (case receiptKey dp sha r of
        Inl e \<Rightarrow> (Inl e, st)
      | Inr key \<Rightarrow>
          (let st1 = st\<lparr>rt_entries := omap_delete key (rt_entries st)\<rparr> in
           case cloneJson (re_value r) of
             Inl e \<Rightarrow> (Inl e, st1)
           | Inr v \<Rightarrow>
               (Inr key, dropOldest (st1\<lparr>rt_entries := omap_set key (r\<lparr>re_value := v\<rparr>) (rt_entries st1)\<rparr>))))"

definition getReceipt ::
  "(string \<Rightarrow> int option) \<Rightarrow> (string \<Rightarrow> string) \<Rightarrow> premise_validation_scope \<Rightarrow> string \<Rightarrow> runtime_receipt_cache
     \<Rightarrow> (exn + runtime_receipt_lookup) \<times> runtime_receipt_cache" where
  "getReceipt dp sha scope now st =
     (case assertTimestamp dp now ''now'' of
        Inl e \<Rightarrow> (Inl e, st)
      | Inr u \<Rightarrow>
          (case premiseValidationScopeKey sha scope of
             Inl e \<Rightarrow> (Inr \<lparr>rl_status = LookupReject, rl_reason = Some LookupInvalidScope, rl_receipt = None\<rparr>, st)
           | Inr key \<Rightarrow>
               (case map_of (rt_entries st) key of
                  None \<Rightarrow> (Inr \<lparr>rl_status = MISS, rl_reason = Some LookupNotFound, rl_receipt = None\<rparr>,
                    st\<lparr>rt_misses := rt_misses st + 1\<rparr>)
                | Some r \<Rightarrow>
                    if \<not> sameOrBefore dp now (re_expiresAt r) then
                      (Inr \<lparr>rl_status = LookupReject, rl_reason = Some LookupExpired, rl_receipt = None\<rparr>,
                       st\<lparr>rt_entries := omap_delete key (rt_entries st), rt_staleRejections := rt_staleRejections st + 1\<rparr>)
                    else
                      (andThen (cloneJson (re_value r)) (\<lambda>v. Inr \<lparr>rl_status = HIT, rl_reason = None,
                         rl_receipt = Some (r\<lparr>re_value := v\<rparr>)\<rparr>),
                       st\<lparr>rt_hits := rt_hits st + 1\<rparr>))))"

definition invalidateReceipt ::
  "(string \<Rightarrow> string) \<Rightarrow> premise_validation_scope \<Rightarrow> runtime_receipt_cache \<Rightarrow> bool \<times> runtime_receipt_cache" where
  "invalidateReceipt sha scope st =
     (case premiseValidationScopeKey sha scope of
        Inl e \<Rightarrow> (False, st)
      | Inr key \<Rightarrow> (map_of (rt_entries st) key \<noteq> None, st\<lparr>rt_entries := omap_delete key (rt_entries st)\<rparr>))"

definition clearReceipts :: "runtime_receipt_cache \<Rightarrow> runtime_receipt_cache" where
  "clearReceipts st = st\<lparr>rt_entries := []\<rparr>"

section \<open>What the cache promises\<close>

text \<open>
  The specification is the unbounded map from keys to the last receipt put under the key and
  not invalidated since. The cache may forget entries, never alter them.
\<close>

datatype cache_op = PutR runtime_receipt | GetR premise_validation_scope string
  | InvalidateR premise_validation_scope | ClearR

fun cacheStep ::
  "(string \<Rightarrow> int option) \<Rightarrow> (string \<Rightarrow> string) \<Rightarrow> cache_op \<Rightarrow> runtime_receipt_cache \<Rightarrow> runtime_receipt_cache" where
  "cacheStep dp sha (PutR r) st = snd (putReceipt dp sha r st)"
| "cacheStep dp sha (GetR s now) st = snd (getReceipt dp sha s now st)"
| "cacheStep dp sha (InvalidateR s) st = snd (invalidateReceipt sha s st)"
| "cacheStep dp sha ClearR st = clearReceipts st"

text \<open>A receipt that may enter: the guards of \<open>put\<close>, and a value JSON can carry.\<close>

definition admissible :: "(string \<Rightarrow> int option) \<Rightarrow> runtime_receipt \<Rightarrow> bool" where
  "admissible dp r = (re_state r = ''FRESH'' \<and> re_valid r \<and> before (dp (re_observedAt r)) (dp (re_expiresAt r)))"

fun lastPut ::
  "(string \<Rightarrow> int option) \<Rightarrow> (string \<Rightarrow> string) \<Rightarrow> cache_op \<Rightarrow> (string \<rightharpoonup> runtime_receipt) \<Rightarrow> (string \<rightharpoonup> runtime_receipt)" where
  "lastPut dp sha (PutR r) m =
     (case premiseValidationScopeKey sha (re_scope r) of
        Inr key \<Rightarrow> if admissible dp r then
            (case jsonCopy (re_value r) of None \<Rightarrow> m(key := None) | Some v \<Rightarrow> m(key \<mapsto> r\<lparr>re_value := v\<rparr>))
          else m
      | Inl e \<Rightarrow> m)"
| "lastPut dp sha (GetR s now) m = m"
| "lastPut dp sha (InvalidateR s) m =
     (case premiseValidationScopeKey sha s of Inr key \<Rightarrow> m(key := None) | Inl e \<Rightarrow> m)"
| "lastPut dp sha ClearR m = (\<lambda>k. None)"

definition cache_ok ::
  "(string \<Rightarrow> string) \<Rightarrow> (string \<rightharpoonup> runtime_receipt) \<Rightarrow> runtime_receipt_cache \<Rightarrow> bool" where
  "cache_ok sha m st = (omap_ok (rt_entries st) \<and> map_of (rt_entries st) \<subseteq>\<^sub>m m \<and>
     int (length (rt_entries st)) \<le> rt_maxEntries st \<and> 1 \<le> rt_maxEntries st \<and>
     (\<forall>k r. m k = Some r \<longrightarrow> premiseValidationScopeKey sha (re_scope r) = Inr k \<and>
        jsonCopy (re_value r) = Some (re_value r)))"

lemma omap_ok_tl: "omap_ok es \<Longrightarrow> omap_ok (tl es)"
  by (cases es) (auto simp: omap_ok_def)

lemma omap_tl_le: "omap_ok es \<Longrightarrow> map_of (tl es) \<subseteq>\<^sub>m map_of es"
  by (cases es) (auto simp: omap_ok_def map_le_def dom_def dest!: map_of_SomeD intro: rev_image_eqI)

lemma dropOldest_spec:
  "omap_ok (rt_entries st) \<Longrightarrow> 0 \<le> rt_maxEntries st \<Longrightarrow>
   omap_ok (rt_entries (dropOldest st)) \<and> map_of (rt_entries (dropOldest st)) \<subseteq>\<^sub>m map_of (rt_entries st) \<and>
   rt_maxEntries (dropOldest st) = rt_maxEntries st \<and>
   int (length (rt_entries (dropOldest st))) \<le> rt_maxEntries st"
proof (induction st rule: dropOldest.induct)
  case (1 st)
  show ?case
  proof (cases "int (length (rt_entries st)) > rt_maxEntries st \<and> rt_entries st \<noteq> []")
    case False
    with 1 show ?thesis by (subst (1 2 3 4) dropOldest.simps) auto
  next
    case True
    let ?st = "st\<lparr>rt_entries := tl (rt_entries st), rt_evictions := rt_evictions st + 1\<rparr>"
    have step: "dropOldest st = dropOldest ?st" by (subst dropOldest.simps) (use True in simp)
    note le = omap_tl_le [OF 1(2)]
    have "omap_ok (rt_entries ?st)" using 1(2) omap_ok_tl by simp
    with 1(1) [OF True] 1(3)
    have ih: "omap_ok (rt_entries (dropOldest ?st)) \<and> map_of (rt_entries (dropOldest ?st)) \<subseteq>\<^sub>m map_of (tl (rt_entries st)) \<and>
        rt_maxEntries (dropOldest ?st) = rt_maxEntries st \<and> int (length (rt_entries (dropOldest ?st))) \<le> rt_maxEntries st"
      by simp
    have "map_of (rt_entries (dropOldest ?st)) \<subseteq>\<^sub>m map_of (rt_entries st)"
      using ih le by (blast intro: map_le_trans)
    with ih show ?thesis unfolding step by blast
  qed
qed

lemma cloneJson_iff: "cloneJson v = Inr w \<longleftrightarrow> jsonCopy v = Some w" "cloneJson v = Inl e \<longleftrightarrow> jsonCopy v = None \<and> e = NotSerializable"
  by (auto simp: cloneJson_def split: option.splits)

lemma receiptKey_Inr_iff:
  "receiptKey dp sha r = Inr key \<longleftrightarrow> admissible dp r \<and> premiseValidationScopeKey sha (re_scope r) = Inr key"
  by (auto simp: receiptKey_def andThen_Inr_iff admissible_def assertTimestamp_def sameOrBefore_def before_def
      split: option.splits)

lemma putReceipt_cases:
  assumes "putReceipt dp sha r st = (res, st')"
  shows "(\<not> (admissible dp r \<and> (\<exists>k. premiseValidationScopeKey sha (re_scope r) = Inr k)) \<and> st' = st \<and> isl res) \<or>
    (\<exists>k. admissible dp r \<and> premiseValidationScopeKey sha (re_scope r) = Inr k \<and>
       ((jsonCopy (re_value r) = None \<and> isl res \<and> st' = st\<lparr>rt_entries := omap_delete k (rt_entries st)\<rparr>) \<or>
        (\<exists>v. jsonCopy (re_value r) = Some v \<and> res = Inr k \<and>
           st' = dropOldest (st\<lparr>rt_entries := omap_set k (r\<lparr>re_value := v\<rparr>) (omap_delete k (rt_entries st))\<rparr>))))"
proof (cases "receiptKey dp sha r")
  case (Inl e)
  then have "\<not> (admissible dp r \<and> (\<exists>k. premiseValidationScopeKey sha (re_scope r) = Inr k))"
    using receiptKey_Inr_iff [of dp sha r] by auto
  moreover have "res = Inl e \<and> st' = st" using assms Inl by (simp add: putReceipt_def)
  ultimately show ?thesis by simp
next
  case (Inr k)
  then have "admissible dp r \<and> premiseValidationScopeKey sha (re_scope r) = Inr k"
    by (simp add: receiptKey_Inr_iff)
  with Inr assms show ?thesis
    by (auto simp: putReceipt_def Let_def cloneJson_iff split: sum.splits)
qed

lemma cache_ok_delete:
  assumes "cache_ok sha m st"
  shows "cache_ok sha (m(k := None)) (st\<lparr>rt_entries := omap_delete k (rt_entries st)\<rparr>)"
    and "cache_ok sha m (st\<lparr>rt_entries := omap_delete k (rt_entries st)\<rparr>)"
  using assms length_omap_delete [of "rt_entries st" k]
  by (auto simp: cache_ok_def map_le_def dom_def)

lemma cache_ok_counters [simp]:
  "cache_ok sha m (st\<lparr>rt_hits := n\<rparr>) = cache_ok sha m st"
  "cache_ok sha m (st\<lparr>rt_misses := n\<rparr>) = cache_ok sha m st"
  "cache_ok sha m (st\<lparr>rt_staleRejections := n\<rparr>) = cache_ok sha m st"
  by (simp_all add: cache_ok_def)

lemma cache_ok_put:
  assumes "cache_ok sha m st" and "putReceipt dp sha r st = (res, st')"
  shows "cache_ok sha (lastPut dp sha (PutR r) m) st' \<and> rt_maxEntries st' = rt_maxEntries st"
  using putReceipt_cases [OF assms(2)]
proof (elim disjE exE conjE)
  assume "\<not> (admissible dp r \<and> (\<exists>k. premiseValidationScopeKey sha (re_scope r) = Inr k))" "st' = st"
  with assms(1) show ?thesis by (auto split: sum.splits)
next
  fix k assume "admissible dp r" "premiseValidationScopeKey sha (re_scope r) = Inr k" "jsonCopy (re_value r) = None"
    "st' = st\<lparr>rt_entries := omap_delete k (rt_entries st)\<rparr>"
  with cache_ok_delete(1) [OF assms(1), of k] show ?thesis by simp
next
  fix k v assume k: "admissible dp r" "premiseValidationScopeKey sha (re_scope r) = Inr k" "jsonCopy (re_value r) = Some v"
    and st': "st' = dropOldest (st\<lparr>rt_entries := omap_set k (r\<lparr>re_value := v\<rparr>) (omap_delete k (rt_entries st))\<rparr>)"
  let ?es = "omap_set k (r\<lparr>re_value := v\<rparr>) (omap_delete k (rt_entries st))"
  have "omap_ok ?es" "0 \<le> rt_maxEntries st" using assms(1) by (auto simp: cache_ok_def)
  with dropOldest_spec [of "st\<lparr>rt_entries := ?es\<rparr>"] st'
  have d: "omap_ok (rt_entries st')" "map_of (rt_entries st') \<subseteq>\<^sub>m map_of ?es" "rt_maxEntries st' = rt_maxEntries st"
    "int (length (rt_entries st')) \<le> rt_maxEntries st" by auto
  have "map_of ?es \<subseteq>\<^sub>m m(k \<mapsto> r\<lparr>re_value := v\<rparr>)"
    using assms(1) by (auto simp: cache_ok_def map_le_def dom_def)
  with d(2) have "map_of (rt_entries st') \<subseteq>\<^sub>m m(k \<mapsto> r\<lparr>re_value := v\<rparr>)" by (rule map_le_trans)
  with d k assms(1) jsonCopy_idem [OF k(3)] show ?thesis by (auto simp: cache_ok_def)
qed

lemma cache_ok_step:
  assumes "cache_ok sha m st"
  shows "cache_ok sha (lastPut dp sha x m) (cacheStep dp sha x st) \<and>
    rt_maxEntries (cacheStep dp sha x st) = rt_maxEntries st"
proof (cases x)
  case (PutR r)
  obtain res st' where "putReceipt dp sha r st = (res, st')" by (cases "putReceipt dp sha r st")
  with cache_ok_put [OF assms this] PutR show ?thesis by simp
next
  case (GetR s now)
  show ?thesis
    using assms cache_ok_delete(2) [OF assms] GetR
    by (auto simp: getReceipt_def split: sum.splits option.splits)
next
  case (InvalidateR s)
  then show ?thesis
    using assms cache_ok_delete(1) [OF assms] by (auto simp: invalidateReceipt_def split: sum.splits)
next
  case ClearR
  with assms show ?thesis by (auto simp: cache_ok_def clearReceipts_def)
qed

definition runCache ::
  "(string \<Rightarrow> int option) \<Rightarrow> (string \<Rightarrow> string) \<Rightarrow> cache_op list \<Rightarrow> runtime_receipt_cache \<Rightarrow> runtime_receipt_cache" where
  "runCache dp sha xs st = fold (cacheStep dp sha) xs st"

definition lastPuts ::
  "(string \<Rightarrow> int option) \<Rightarrow> (string \<Rightarrow> string) \<Rightarrow> cache_op list \<Rightarrow> (string \<rightharpoonup> runtime_receipt)" where
  "lastPuts dp sha xs = fold (lastPut dp sha) xs (\<lambda>k. None)"

lemma cache_ok_run:
  assumes "newReceiptCache n = Inr st0"
  shows "cache_ok sha (lastPuts dp sha xs) (runCache dp sha xs st0) \<and> rt_maxEntries (runCache dp sha xs st0) = rt_maxEntries st0"
proof -
  have "cache_ok sha (\<lambda>k. None) st0"
    using assms by (auto simp: newReceiptCache_def Let_def cache_ok_def validToken_def split: if_splits)
  moreover have "cache_ok sha m st \<Longrightarrow>
      cache_ok sha (fold (lastPut dp sha) xs m) (fold (cacheStep dp sha) xs st) \<and>
      rt_maxEntries (fold (cacheStep dp sha) xs st) = rt_maxEntries st" for m st
  proof (induction xs arbitrary: m st)
    case (Cons x xs)
    show ?case
      using cache_ok_step [OF Cons.prems, of dp x] Cons.IH [OF conjunct1 [OF cache_ok_step [OF Cons.prems, of dp x]]]
      by simp
  qed simp
  ultimately show ?thesis by (simp add: runCache_def lastPuts_def)
qed

section \<open>Event continuity\<close>

text \<open>
  Sequence numbers are numbers of the language; NaN and the infinities, which the language's
  sort leaves in an unspecified place, are outside the model of \<open>assessEventContinuity\<close>.
\<close>

definition isSafeRat :: "rat \<Rightarrow> bool" where
  "isSafeRat q = (q = of_int \<lfloor>q\<rfloor> \<and> \<bar>q\<bar> \<le> of_int MAX_SAFE_INTEGER)"

datatype continuity_status = ContinuityFresh | ContinuityUnknown

record event_continuity_result =
  ec_status :: continuity_status
  ec_reason :: "string option"
  ec_finalSequence :: "rat option"
  ec_applied :: "rat list"

fun contiguous :: "rat list \<Rightarrow> bool" where
  "contiguous (x # y # rest) = (y = x + 1 \<and> contiguous (y # rest))"
| "contiguous rest = True"

definition assessEventContinuity :: "rat list \<Rightarrow> event_continuity_result" where
  "assessEventContinuity events =
     (if events = [] then \<lparr>ec_status = ContinuityUnknown, ec_reason = Some ''EMPTY'', ec_finalSequence = None, ec_applied = []\<rparr>
      else (let sequences = sort (unique events) in
        if list_ex (\<lambda>q. \<not> isSafeRat q \<or> q < 0) sequences then
          \<lparr>ec_status = ContinuityUnknown, ec_reason = Some ''INVALID_SEQUENCE'', ec_finalSequence = None, ec_applied = sequences\<rparr>
        else if \<not> contiguous sequences then
          \<lparr>ec_status = ContinuityUnknown, ec_reason = Some ''GAP'', ec_finalSequence = None, ec_applied = sequences\<rparr>
        else \<lparr>ec_status = ContinuityFresh, ec_reason = None, ec_finalSequence = Some (last sequences), ec_applied = sequences\<rparr>))"

text \<open>The ordered variant. A property of an event may be absent (\<open>None\<close>).\<close>

record ordered_event_observation =
  oe_streamId :: string
  oe_sequence :: jsnum
  oe_kind :: string
  oe_eventId :: "string option"
  oe_cursor :: "string option"

record ordered_continuity_result =
  oc_status :: continuity_status
  oc_reason :: "string option"
  oc_finalSequence :: "int option"
  oc_applied :: "int list"
  oc_duplicates :: "int list"

definition orNull :: "string option \<Rightarrow> jsvalue" where
  "orNull t = (case t of None \<Rightarrow> JNull | Some s \<Rightarrow> JStr s)"

definition eventFingerprint :: "ordered_event_observation \<Rightarrow> string" where
  "eventFingerprint e = nullish (stringify (\<lambda>q. []) (JArr [JStr (oe_kind e), orNull (oe_eventId e), orNull (oe_cursor e)])) []"

text \<open>The variables of the loop.\<close>

record continuity_loop =
  cl_applied :: "int list"
  cl_duplicates :: "int list"
  cl_fingerprints :: "(int, string) omap"
  cl_lastSequence :: "int option"
  cl_hasSnapshot :: bool

definition continuityUnknown :: "string \<Rightarrow> continuity_loop \<Rightarrow> ordered_continuity_result" where
  "continuityUnknown reason s = \<lparr>oc_status = ContinuityUnknown, oc_reason = Some reason, oc_finalSequence = None,
     oc_applied = cl_applied s, oc_duplicates = cl_duplicates s\<rparr>"

definition continuityStep ::
  "ordered_event_observation \<Rightarrow> int option \<Rightarrow> bool \<Rightarrow> ordered_event_observation \<Rightarrow> continuity_loop
     \<Rightarrow> string + continuity_loop" where
  "continuityStep first expectedSequence requireSnapshot e s =
     (let sequence = int_of (oe_sequence e);
          fingerprint = eventFingerprint e;
          prior = map_of (cl_fingerprints s) sequence
      in
      if oe_streamId e = [] \<or> (oe_kind e \<noteq> ''SNAPSHOT'' \<and> oe_kind e \<noteq> ''DELTA'') then Inl ''INVALID_EVENT''
      else if oe_streamId e \<noteq> oe_streamId first then Inl ''STREAM_MISMATCH''
      else if \<not> validTime (oe_sequence e) then Inl ''INVALID_SEQUENCE''
      else if (case cl_lastSequence s of None \<Rightarrow> False | Some l \<Rightarrow> sequence < l) then Inl ''REORDERED''
      else if (case cl_lastSequence s of None \<Rightarrow> False | Some l \<Rightarrow> sequence > l + 1) then Inl ''GAP''
      else if prior \<noteq> None then
        (if prior \<noteq> Some fingerprint then Inl ''CONFLICT''
         else Inr (s\<lparr>cl_duplicates := cl_duplicates s @ [sequence]\<rparr>))
      else if cl_lastSequence s = None \<and> (case expectedSequence of None \<Rightarrow> False | Some x \<Rightarrow> sequence \<noteq> x)
        then Inl ''GAP''
      else if requireSnapshot \<and> \<not> cl_hasSnapshot s \<and> oe_kind e \<noteq> ''SNAPSHOT'' then Inl ''DELTA_BEFORE_SNAPSHOT''
      else Inr \<lparr>cl_applied = cl_applied s @ [sequence], cl_duplicates = cl_duplicates s,
                cl_fingerprints = omap_set sequence fingerprint (cl_fingerprints s),
                cl_lastSequence = Some sequence, cl_hasSnapshot = (cl_hasSnapshot s \<or> oe_kind e = ''SNAPSHOT'')\<rparr>)"

fun continuityLoop ::
  "ordered_event_observation \<Rightarrow> int option \<Rightarrow> bool \<Rightarrow> ordered_event_observation list \<Rightarrow> continuity_loop
     \<Rightarrow> ordered_continuity_result" where
  "continuityLoop first expectedSequence requireSnapshot [] s =
     \<lparr>oc_status = ContinuityFresh, oc_reason = None, oc_finalSequence = cl_lastSequence s,
      oc_applied = cl_applied s, oc_duplicates = cl_duplicates s\<rparr>"
| "continuityLoop first expectedSequence requireSnapshot (e # es) s =
     (case continuityStep first expectedSequence requireSnapshot e s of
        Inl reason \<Rightarrow> continuityUnknown reason s
      | Inr s1 \<Rightarrow> continuityLoop first expectedSequence requireSnapshot es s1)"

definition emptyLoop :: continuity_loop where
  "emptyLoop = \<lparr>cl_applied = [], cl_duplicates = [], cl_fingerprints = [], cl_lastSequence = None, cl_hasSnapshot = False\<rparr>"

definition assessOrderedEventContinuity ::
  "ordered_event_observation list \<Rightarrow> jsnum option \<Rightarrow> bool option \<Rightarrow> ordered_continuity_result" where
  "assessOrderedEventContinuity events expectedSequence requireSnapshot =
     (case events of
        [] \<Rightarrow> continuityUnknown ''EMPTY'' emptyLoop
      | first # rest \<Rightarrow>
          if (case expectedSequence of None \<Rightarrow> False | Some n \<Rightarrow> \<not> validTime n)
            then continuityUnknown ''INVALID_SEQUENCE'' emptyLoop
          else continuityLoop first (map_option int_of expectedSequence) (requireSnapshot = Some True) events emptyLoop)"

lemma eventFingerprint_inject:
  "eventFingerprint d = eventFingerprint e \<longleftrightarrow>
     oe_kind d = oe_kind e \<and> oe_eventId d = oe_eventId e \<and> oe_cursor d = oe_cursor e"
proof -
  let ?v = "\<lambda>e. JArr [JStr (oe_kind e), orNull (oe_eventId e), orNull (oe_cursor e)]"
  have shape: "eventFingerprint e = render (\<lambda>n. []) (?v e)" for e
    by (cases "oe_eventId e"; cases "oe_cursor e") (simp_all add: eventFingerprint_def orNull_def)
  have json: "jsonTree {} (?v e)" for e
    by (cases "oe_eventId e"; cases "oe_cursor e") (simp_all add: orNull_def)
  have num: "numberText (\<lambda>n. []) {}" by (simp add: numberText_def)
  have orNull: "orNull a = orNull b \<longleftrightarrow> a = b" for a b by (cases a; cases b) (auto simp: orNull_def)
  have "?v d = ?v e" if "eventFingerprint d = eventFingerprint e"
    using that render_prefix_free [OF num json [of d] json [of e], of "[]" "[]"] by (simp add: shape)
  then show ?thesis by (auto simp: eventFingerprint_def orNull)
qed

text \<open>
  The specification of an ordered delivery: every event is well formed and of one stream, the
  first is the expected (and, if required, a snapshot), and each later event either repeats the
  sequence number before it with the same content or has the next number.
\<close>

definition sameContent :: "ordered_event_observation \<Rightarrow> ordered_event_observation \<Rightarrow> bool" where
  "sameContent d e = (oe_kind d = oe_kind e \<and> oe_eventId d = oe_eventId e \<and> oe_cursor d = oe_cursor e)"

definition wellFormedEvent :: "string \<Rightarrow> ordered_event_observation \<Rightarrow> bool" where
  "wellFormedEvent stream e = (oe_streamId e = stream \<and> stream \<noteq> [] \<and> oe_kind e \<in> {''SNAPSHOT'', ''DELTA''} \<and>
     validTime (oe_sequence e))"

fun orderedFrom :: "ordered_event_observation \<Rightarrow> ordered_event_observation list \<Rightarrow> bool" where
  "orderedFrom d [] = True"
| "orderedFrom d (e # es) =
     ((int_of (oe_sequence e) = int_of (oe_sequence d) \<and> sameContent d e \<or>
       int_of (oe_sequence e) = int_of (oe_sequence d) + 1) \<and> orderedFrom e es)"

definition loopAt :: "ordered_event_observation \<Rightarrow> continuity_loop \<Rightarrow> bool" where
  "loopAt d s = (cl_lastSequence s = Some (int_of (oe_sequence d)) \<and>
     map_of (cl_fingerprints s) (int_of (oe_sequence d)) = Some (eventFingerprint d) \<and>
     (\<forall>n. n > int_of (oe_sequence d) \<longrightarrow> map_of (cl_fingerprints s) n = None))"

lemma continuityStep_later:
  assumes "loopAt d s" and "requireSnapshot \<longrightarrow> cl_hasSnapshot s"
  shows "(\<exists>s1. continuityStep first x requireSnapshot e s = Inr s1) \<longleftrightarrow>
     wellFormedEvent (oe_streamId first) e \<and>
     (int_of (oe_sequence e) = int_of (oe_sequence d) \<and> sameContent d e \<or>
      int_of (oe_sequence e) = int_of (oe_sequence d) + 1)"
    and "continuityStep first x requireSnapshot e s = Inr s1 \<Longrightarrow>
      loopAt e s1 \<and> (requireSnapshot \<longrightarrow> cl_hasSnapshot s1)"
proof -
  let ?n = "int_of (oe_sequence e)" and ?d = "int_of (oe_sequence d)"
  have at: "cl_lastSequence s = Some ?d" "map_of (cl_fingerprints s) ?d = Some (eventFingerprint d)"
    "n > ?d \<Longrightarrow> map_of (cl_fingerprints s) n = None" for n
    using assms(1) by (auto simp: loopAt_def)
  consider "?n < ?d" | "?n = ?d" | "?n = ?d + 1" | "?n > ?d + 1" by linarith
  then have "((\<exists>s1. continuityStep first x requireSnapshot e s = Inr s1) \<longleftrightarrow>
       wellFormedEvent (oe_streamId first) e \<and> (?n = ?d \<and> sameContent d e \<or> ?n = ?d + 1)) \<and>
     (continuityStep first x requireSnapshot e s = Inr s1 \<longrightarrow> loopAt e s1 \<and> (requireSnapshot \<longrightarrow> cl_hasSnapshot s1))"
  proof cases
    case 2
    with at assms(2) show ?thesis
      by (auto simp: continuityStep_def Let_def wellFormedEvent_def sameContent_def eventFingerprint_inject loopAt_def)
  next
    case 3
    with at(1,2) at(3) [of "?d + 1"] at(3) assms(2) show ?thesis
      by (auto simp: continuityStep_def Let_def wellFormedEvent_def loopAt_def)
  qed (use at in \<open>auto simp: continuityStep_def Let_def wellFormedEvent_def\<close>)
  then show "(\<exists>s1. continuityStep first x requireSnapshot e s = Inr s1) \<longleftrightarrow>
       wellFormedEvent (oe_streamId first) e \<and> (?n = ?d \<and> sameContent d e \<or> ?n = ?d + 1)"
    and "continuityStep first x requireSnapshot e s = Inr s1 \<Longrightarrow> loopAt e s1 \<and> (requireSnapshot \<longrightarrow> cl_hasSnapshot s1)"
    by blast+
qed

lemma continuityLoop_later:
  "loopAt d s \<Longrightarrow> requireSnapshot \<longrightarrow> cl_hasSnapshot s \<Longrightarrow>
   oc_status (continuityLoop first x requireSnapshot es s) = ContinuityFresh \<longleftrightarrow>
     (\<forall>e \<in> set es. wellFormedEvent (oe_streamId first) e) \<and> orderedFrom d es"
proof (induction es arbitrary: d s)
  case (Cons e es)
  show ?case
  proof (cases "continuityStep first x requireSnapshot e s")
    case (Inl r)
    then have "\<not> (wellFormedEvent (oe_streamId first) e \<and>
      (int_of (oe_sequence e) = int_of (oe_sequence d) \<and> sameContent d e \<or>
       int_of (oe_sequence e) = int_of (oe_sequence d) + 1))"
      using continuityStep_later(1) [OF Cons.prems, of first x e] by auto
    with Inl show ?thesis by (auto simp: continuityUnknown_def)
  next
    case (Inr s1)
    with continuityStep_later(1) [OF Cons.prems, of first x e]
    have ok: "wellFormedEvent (oe_streamId first) e \<and>
      (int_of (oe_sequence e) = int_of (oe_sequence d) \<and> sameContent d e \<or>
       int_of (oe_sequence e) = int_of (oe_sequence d) + 1)" by auto
    from continuityStep_later(2) [OF Cons.prems Inr]
    have "loopAt e s1" "requireSnapshot \<longrightarrow> cl_hasSnapshot s1" by auto
    from Cons.IH [OF this] Inr ok show ?thesis by auto
  qed
qed simp

lemma continuityStep_first:
  "continuityStep e x requireSnapshot e emptyLoop =
     (if \<not> (oe_streamId e \<noteq> [] \<and> oe_kind e \<in> {''SNAPSHOT'', ''DELTA''}) then Inl ''INVALID_EVENT''
      else if \<not> validTime (oe_sequence e) then Inl ''INVALID_SEQUENCE''
      else if x \<noteq> None \<and> x \<noteq> Some (int_of (oe_sequence e)) then Inl ''GAP''
      else if requireSnapshot \<and> oe_kind e \<noteq> ''SNAPSHOT'' then Inl ''DELTA_BEFORE_SNAPSHOT''
      else Inr \<lparr>cl_applied = [int_of (oe_sequence e)], cl_duplicates = [],
        cl_fingerprints = omap_set (int_of (oe_sequence e)) (eventFingerprint e) [],
        cl_lastSequence = Some (int_of (oe_sequence e)), cl_hasSnapshot = (oe_kind e = ''SNAPSHOT'')\<rparr>)"
  by (cases x) (auto simp: continuityStep_def emptyLoop_def Let_def)

lemma contiguous_interval:
  "contiguous (of_int a # xs) \<Longrightarrow> \<exists>b \<ge> a. set (of_int a # xs) = of_int ` {a..b} \<and> last (of_int a # xs) = of_int b"
proof (induction xs arbitrary: a)
  case Nil
  show ?case by (intro exI [of _ a]) simp
next
  case (Cons y ys)
  from Cons.prems have e: "y = of_int a + 1" and c: "contiguous (y # ys)"
    unfolding contiguous.simps by blast+
  have y: "y = of_int (a + 1)" "contiguous (of_int (a + 1) # ys)" using c unfolding e by simp_all
  from Cons.IH [OF y(2)] obtain b where b: "b \<ge> a + 1" "set (of_int (a + 1) # ys) = of_int ` {a + 1..b}"
    "last (of_int (a + 1) # ys) = of_int b" by blast
  have "{a..b} = insert a {a + 1..b}" using b(1) by auto
  with b y(1) show ?case by (intro exI [of _ b]) auto
qed

lemma interval_contiguous: "contiguous (map of_int [a..b])"
proof (induction "nat (b - a)" arbitrary: a)
  case 0
  then show ?case by (cases "a = b") (auto simp: upto.simps)
next
  case (Suc n)
  then have "a < b" by simp
  then have "[a..b] = a # (a + 1) # [a + 1 + 1..b]" "[a + 1..b] = (a + 1) # [a + 1 + 1..b]"
    using upto_rec1 [of a b] upto_rec1 [of "a + 1" b] by simp_all
  with Suc.hyps(1) [of "a + 1"] Suc.hyps(2) show ?case by simp
qed

lemma contiguous_sort_iff:
  assumes "xs \<noteq> []" and "\<forall>q \<in> set xs. q = of_int \<lfloor>q\<rfloor>"
  shows "contiguous (sort (unique xs)) \<longleftrightarrow> (\<exists>a b. set xs = of_int ` {a..b})"
proof
  assume c: "contiguous (sort (unique xs))"
  obtain x rest where s: "sort (unique xs) = x # rest"
    using assms(1) by (cases "sort (unique xs)") (metis list.set(1) set_empty set_sort set_unique, blast)
  then have "x \<in> set xs" by (metis list.set_intros(1) set_sort set_unique)
  then have "x = of_int \<lfloor>x\<rfloor>" using assms(2) by blast
  then obtain b where "set (x # rest) = of_int ` {\<lfloor>x\<rfloor>..b}"
    using contiguous_interval [of "\<lfloor>x\<rfloor>" rest] c s by metis
  with s show "\<exists>a b. set xs = of_int ` {a..b}" by (metis set_sort set_unique)
next
  assume "\<exists>a b. set xs = of_int ` {a..b}"
  then obtain a b where ab: "set xs = of_int ` {a..b}" by blast
  have "sort (unique xs) = map of_int [a..b]"
  proof (rule sorted_distinct_set_unique)
    show "sorted (map rat_of_int [a..b])"
      by (rule sorted_wrt_map_mono [of "(<)", THEN strict_sorted_imp_sorted]) (auto simp: sorted_wrt_map)
    show "distinct (map rat_of_int [a..b])" by (simp add: distinct_map inj_on_def)
  qed (use ab in auto)
  then show "contiguous (sort (unique xs))" by (simp add: interval_contiguous)
qed

section \<open>Properties\<close>

definition cacheDate :: "string \<Rightarrow> int option" where "cacheDate s = Some (int (length s))"

definition sampleRuntimeReceipt :: runtime_receipt where
  "sampleRuntimeReceipt = \<lparr>re_scope = sampleScope, re_state = ''FRESH'', re_valid = True, re_observedAt = ''1'',
     re_expiresAt = ''333'', re_value = JStr ''v'', re_semanticFingerprint = None\<rparr>"

text \<open>
  C35: The receipt cache is a forgetful copy of the last receipts put: after any run from a new
  cache, every hit returns the receipt that was put last, without an invalidation since, under
  exactly the scope asked for (all its fields equal, its sets of scopes and frontier events
  equal), unchanged but for the JSON copy of its value, admissible, and not expired at the time
  of the question. The cache never holds more than \<open>maxEntries\<close> receipts.
\<close>

theorem receipt_hit_is_last_put:
  assumes "inj sha" and "newReceiptCache n = Inr st0"
    and "getReceipt dp sha scope now (runCache dp sha xs st0) = (Inr l, st)" and "rl_status l = HIT"
  shows "\<exists>k r. premiseValidationScopeKey sha scope = Inr k \<and> lastPuts dp sha xs k = Some r \<and> rl_receipt l = Some r \<and>
    before (dp now) (dp (re_expiresAt r)) \<and>
    (re_scope r)\<lparr>vs_scopes := [], vs_causalFrontier := []\<rparr> = scope\<lparr>vs_scopes := [], vs_causalFrontier := []\<rparr> \<and>
    set (vs_scopes (re_scope r)) = set (vs_scopes scope) \<and>
    set (vs_causalFrontier (re_scope r)) = set (vs_causalFrontier scope) \<and>
    int (length (rt_entries st)) \<le> rt_maxEntries st0"
proof -
  let ?c = "runCache dp sha xs st0"
  have ok: "cache_ok sha (lastPuts dp sha xs) ?c" "rt_maxEntries ?c = rt_maxEntries st0"
    using cache_ok_run [OF assms(2)] by auto
  obtain k r v where k: "premiseValidationScopeKey sha scope = Inr k" and r: "map_of (rt_entries ?c) k = Some r"
    and exp: "sameOrBefore dp now (re_expiresAt r)" and v: "jsonCopy (re_value r) = Some v"
    and l: "rl_receipt l = Some (r\<lparr>re_value := v\<rparr>)" and st: "rt_entries st = rt_entries ?c"
    using assms(3,4) by (auto simp: getReceipt_def andThen_Inr_iff cloneJson_iff split: sum.splits option.splits if_splits)
  have last: "lastPuts dp sha xs k = Some r"
    using ok(1) r by (auto simp: cache_ok_def map_le_def dom_def)
  then have rk: "premiseValidationScopeKey sha (re_scope r) = Inr k" and "v = re_value r"
    using ok(1) v by (auto simp: cache_ok_def)
  from validationScopeKey_eq_iff [OF assms(1) rk k]
  have same: "normalForm (re_scope r) = normalForm scope" by simp
  have "int (length (rt_entries st)) \<le> rt_maxEntries st0"
    using ok st by (simp add: cache_ok_def)
  with k last l exp same \<open>v = re_value r\<close> show ?thesis
    by (intro exI [of _ k] exI [of _ r]) (simp add: sameOrBefore_def normalForm_eq_iff)
qed

lemma sampleRuntimeReceipt_put:
  "getReceipt cacheDate id sampleScope ''22'' (runCache cacheDate id [PutR sampleRuntimeReceipt]
     \<lparr>rt_entries = [], rt_maxEntries = 2, rt_hits = 0, rt_misses = 0, rt_staleRejections = 0, rt_evictions = 0\<rparr>) =
   (Inr \<lparr>rl_status = HIT, rl_reason = None, rl_receipt = Some sampleRuntimeReceipt\<rparr>,
    \<lparr>rt_entries = [(the (case premiseValidationScopeKey id sampleScope of Inr k \<Rightarrow> Some k), sampleRuntimeReceipt)],
     rt_maxEntries = 2, rt_hits = 1, rt_misses = 0, rt_staleRejections = 0, rt_evictions = 0\<rparr>)"
  by code_simp

theorem receipt_hit_is_last_put_witness:
  "\<exists>k. premiseValidationScopeKey id sampleScope = Inr k \<and>
     lastPuts cacheDate id [PutR sampleRuntimeReceipt] k = Some sampleRuntimeReceipt"
proof -
  have "newReceiptCache (Some (Integral 2)) = Inr \<lparr>rt_entries = [], rt_maxEntries = 2, rt_hits = 0, rt_misses = 0,
     rt_staleRejections = 0, rt_evictions = 0\<rparr>"
    by (simp add: newReceiptCache_def MAX_SAFE_INTEGER_def)
  from receipt_hit_is_last_put [OF inj_on_id this sampleRuntimeReceipt_put] show ?thesis by auto
qed

text \<open>
  A batch of events is continuous exactly when its sequence numbers, in any order and with
  any repetition, are an unbroken interval of non-negative safe integers; the last of them is
  then reported as the final sequence.
\<close>

theorem event_continuity_iff:
  "ec_status (assessEventContinuity es) = ContinuityFresh \<longleftrightarrow>
     es \<noteq> [] \<and> (\<forall>q \<in> set es. isSafeRat q \<and> 0 \<le> q) \<and> (\<exists>a b. set es = of_int ` {a..b})"
proof (cases "es \<noteq> [] \<and> (\<forall>q \<in> set es. isSafeRat q \<and> 0 \<le> q)")
  case True
  then have int: "\<forall>q \<in> set es. q = of_int \<lfloor>q\<rfloor>" by (auto simp: isSafeRat_def)
  have safe: "\<not> list_ex (\<lambda>q. \<not> isSafeRat q \<or> q < 0) (sort (unique es))"
    using True by (auto simp: list_ex_iff)
  have "ec_status (assessEventContinuity es) = ContinuityFresh \<longleftrightarrow> contiguous (sort (unique es))"
    using True safe by (simp add: assessEventContinuity_def Let_def)
  also have "\<dots> \<longleftrightarrow> (\<exists>a b. set es = of_int ` {a..b})"
    by (rule contiguous_sort_iff) (use True int in auto)
  finally show ?thesis using True by blast
next
  case False
  then show ?thesis by (auto simp: assessEventContinuity_def Let_def list_ex_iff)
qed

theorem event_continuity_iff_witness:
  "ec_status (assessEventContinuity [2, 0, 1, 2]) = ContinuityFresh"
proof -
  have "{0..2 :: int} = {0, 1, 2}" by auto
  then have "set [2, 0, 1, 2] = (of_int ` {0..2} :: rat set)" by auto
  then have "\<exists>a b. set [2, 0, 1, 2 :: rat] = of_int ` {a..b}" by blast
  moreover have "\<forall>q \<in> set [2, 0, 1, 2 :: rat]. isSafeRat q \<and> 0 \<le> q"
    by (simp add: isSafeRat_def MAX_SAFE_INTEGER_def)
  ultimately show ?thesis
    using event_continuity_iff [of "[2, 0, 1, 2]"] by blast
qed

text \<open>
  An ordered delivery is accepted exactly when it is one: all events are well formed and of
  one stream, the first has the expected number and, where one is required, is a snapshot, and
  each later event repeats the number before it with the same kind, id and cursor or has the
  next number.
\<close>

theorem ordered_continuity_iff:
  "oc_status (assessOrderedEventContinuity es expected requireSnapshot) = ContinuityFresh \<longleftrightarrow>
     (\<exists>e rest. es = e # rest \<and> (\<forall>d \<in> set es. wellFormedEvent (oe_streamId e) d) \<and>
        (\<forall>n. expected = Some n \<longrightarrow> validTime n \<and> int_of (oe_sequence e) = int_of n) \<and>
        (requireSnapshot = Some True \<longrightarrow> oe_kind e = ''SNAPSHOT'') \<and> orderedFrom e rest)"
proof (cases es)
  case Nil
  then show ?thesis by (simp add: assessOrderedEventContinuity_def continuityUnknown_def)
next
  case (Cons e rest)
  let ?snap = "requireSnapshot = Some True" and ?x = "map_option int_of expected"
  show ?thesis
  proof (cases "continuityStep e ?x ?snap e emptyLoop")
    case (Inl r)
    then have "oc_status (assessOrderedEventContinuity es expected requireSnapshot) \<noteq> ContinuityFresh"
      using Cons by (simp add: assessOrderedEventContinuity_def continuityUnknown_def)
    moreover have "\<not> (wellFormedEvent (oe_streamId e) e \<and> (\<forall>n. expected = Some n \<longrightarrow> int_of (oe_sequence e) = int_of n) \<and>
        (?snap \<longrightarrow> oe_kind e = ''SNAPSHOT''))"
      using Inl by (auto simp: continuityStep_first wellFormedEvent_def split: if_splits)
    ultimately show ?thesis using Cons by auto
  next
    case (Inr s1)
    have at: "loopAt e s1" "?snap \<longrightarrow> cl_hasSnapshot s1"
      using Inr by (auto simp: continuityStep_first loopAt_def split: if_splits)
    have first: "wellFormedEvent (oe_streamId e) e" "\<forall>n. expected = Some n \<longrightarrow> int_of (oe_sequence e) = int_of n"
      "?snap \<longrightarrow> oe_kind e = ''SNAPSHOT''"
      using Inr by (auto simp: continuityStep_first wellFormedEvent_def split: if_splits)
    show ?thesis
      using continuityLoop_later [OF at, of e ?x rest] Inr first Cons
      by (cases expected) (auto simp: assessOrderedEventContinuity_def continuityUnknown_def)
  qed
qed

definition sampleEvent :: "int \<Rightarrow> string \<Rightarrow> ordered_event_observation" where
  "sampleEvent n kind = \<lparr>oe_streamId = ''s'', oe_sequence = Integral n, oe_kind = kind, oe_eventId = None, oe_cursor = None\<rparr>"

theorem ordered_continuity_iff_witness:
  "oc_status (assessOrderedEventContinuity
     [sampleEvent 3 ''SNAPSHOT'', sampleEvent 3 ''SNAPSHOT'', sampleEvent 4 ''DELTA''] (Some (Integral 3)) (Some True)) =
   ContinuityFresh"
  using ordered_continuity_iff [of "[sampleEvent 3 ''SNAPSHOT'', sampleEvent 3 ''SNAPSHOT'', sampleEvent 4 ''DELTA'']"
      "Some (Integral 3)" "Some True"]
  by (simp add: sampleEvent_def wellFormedEvent_def sameContent_def MAX_SAFE_INTEGER_def)

end
