(* ===== verification/Negative_Cache.thy ===== *)
theory Negative_Cache
  imports Receipt_Cache Eviction
begin

text \<open>
  \<open>packages/runtime-core/src/receipt-cache.ts\<close>, \<open>RuntimeNegativeCache\<close>: negative facts, kept apart
  from receipts, bounded in total and per tenant, and \<open>semanticFingerprint\<close>. \<open>Date.parse\<close> is \<open>dp\<close>,
  SHA-256 \<open>sha\<close>; an insertion whose eviction loops do not return is \<open>None\<close>.
\<close>

section \<open>The cache\<close>

record negative_entry =
  ng_tenantId :: string
  ng_reason :: string
  ng_expiresAt :: string

record negative_cache =
  nk_entries :: "(string, negative_entry) omap"
  nk_tenantCounts :: "(string, int) omap"
  nk_maxEntries :: int
  nk_maxEntriesPerTenant :: "int option"
  nk_hits :: int
  nk_misses :: int
  nk_expirations :: int
  nk_evictions :: int
  nk_peakEntries :: int

datatype delete_reason = Expiration | Eviction | Replace

record negative_answer =
  na_negative :: bool
  na_reason :: "string option"

definition newNegativeCache :: "jsnum option \<Rightarrow> jsnum option \<Rightarrow> exn + negative_cache" where
  "newNegativeCache maxEntries perTenant =
     (let m = nullish maxEntries (Integral 1024) in
      if \<not> validToken m then Inl (NotInRange ''maxEntries'')
      else if (case perTenant of None \<Rightarrow> False | Some p \<Rightarrow> \<not> validToken p)
        then Inl (NotInRange ''maxEntriesPerTenant'')
      else Inr \<lparr>nk_entries = [], nk_tenantCounts = [], nk_maxEntries = int_of m,
                nk_maxEntriesPerTenant = map_option int_of perTenant, nk_hits = 0, nk_misses = 0,
                nk_expirations = 0, nk_evictions = 0, nk_peakEntries = 0\<rparr>)"

definition countOf :: "negative_cache \<Rightarrow> string \<Rightarrow> int" where
  "countOf st t = nullish (map_of (nk_tenantCounts st) t) 0"

definition deleteNegative :: "negative_cache \<Rightarrow> string \<Rightarrow> delete_reason \<Rightarrow> bool \<times> negative_cache" where
  "deleteNegative st key reason =
     (case map_of (nk_entries st) key of
        None \<Rightarrow> (False, st)
      | Some entry \<Rightarrow>
          (let count = countOf st (ng_tenantId entry) in
           (True, st\<lparr>nk_entries := omap_delete key (nk_entries st),
              nk_tenantCounts :=
                (if count \<le> 1 then omap_delete (ng_tenantId entry) (nk_tenantCounts st)
                 else omap_set (ng_tenantId entry) (count - 1) (nk_tenantCounts st)),
              nk_expirations := nk_expirations st + (if reason = Expiration then 1 else 0),
              nk_evictions := nk_evictions st + (if reason = Eviction then 1 else 0)\<rparr>)))"

definition evictOldestNegative :: "string option \<Rightarrow> negative_cache \<Rightarrow> negative_cache" where
  "evictOldestNegative tenant st =
     (case find (\<lambda>(k, e). tenant = None \<or> tenant = Some (ng_tenantId e)) (nk_entries st) of
        None \<Rightarrow> st
      | Some (k, e) \<Rightarrow> snd (deleteNegative st k Eviction))"

definition enforceBounds :: "string \<Rightarrow> negative_cache \<Rightarrow> negative_cache option" where
  "enforceBounds t st =
     Option.bind (while_option (\<lambda>s. int (length (nk_entries s)) > nk_maxEntries s) (evictOldestNegative None) st) (\<lambda>s.
       case nk_maxEntriesPerTenant s of
         None \<Rightarrow> Some s
       | Some cap \<Rightarrow> while_option (\<lambda>s. countOf s t > cap) (evictOldestNegative (Some t)) s)"

definition putNegative ::
  "(string \<Rightarrow> int option) \<Rightarrow> (string \<Rightarrow> string) \<Rightarrow> premise_validation_scope \<Rightarrow> string \<Rightarrow> string \<Rightarrow> negative_cache
     \<Rightarrow> ((exn + string) \<times> negative_cache) option" where
  "putNegative dp sha scope reason expiresAt st =
     (case andThen (guard (reason \<noteq> []) (NotText ''reason'')) (\<lambda>_.
           andThen (assertTimestamp dp expiresAt ''expiresAt'') (\<lambda>_. premiseValidationScopeKey sha scope)) of
        Inl e \<Rightarrow> Some (Inl e, st)
      | Inr key \<Rightarrow>
          (let st1 = snd (deleteNegative st key Replace); t = vs_tenantId scope;
               entries = omap_set key \<lparr>ng_tenantId = t, ng_reason = reason, ng_expiresAt = expiresAt\<rparr> (nk_entries st1)
           in map_option (\<lambda>st2. (Inr key, st2))
             (enforceBounds t (st1\<lparr>nk_entries := entries,
                nk_tenantCounts := omap_set t (countOf st1 t + 1) (nk_tenantCounts st1),
                nk_peakEntries := max (nk_peakEntries st1) (int (length entries))\<rparr>))))"

definition missNegative :: "negative_cache \<Rightarrow> (exn + negative_answer) \<times> negative_cache" where
  "missNegative st = (Inr \<lparr>na_negative = False, na_reason = None\<rparr>, st\<lparr>nk_misses := nk_misses st + 1\<rparr>)"

definition getNegative ::
  "(string \<Rightarrow> int option) \<Rightarrow> (string \<Rightarrow> string) \<Rightarrow> premise_validation_scope \<Rightarrow> string \<Rightarrow> negative_cache
     \<Rightarrow> (exn + negative_answer) \<times> negative_cache" where
  "getNegative dp sha scope now st =
     (case assertTimestamp dp now ''now'' of
        Inl e \<Rightarrow> (Inl e, st)
      | Inr u \<Rightarrow>
          (case premiseValidationScopeKey sha scope of
             Inl e \<Rightarrow> missNegative st
           | Inr key \<Rightarrow>
               (case map_of (nk_entries st) key of
                  None \<Rightarrow> missNegative st
                | Some entry \<Rightarrow>
                    if \<not> sameOrBefore dp now (ng_expiresAt entry)
                    then missNegative (snd (deleteNegative st key Expiration))
                    else (Inr \<lparr>na_negative = True, na_reason = Some (ng_reason entry)\<rparr>,
                          st\<lparr>nk_hits := nk_hits st + 1\<rparr>))))"

definition clearNegatives :: "negative_cache \<Rightarrow> negative_cache" where
  "clearNegatives st = st\<lparr>nk_entries := [], nk_tenantCounts := []\<rparr>"

text \<open>
  The digest of a semantic state: four non-empty texts under a domain of their own. There are no
  numbers in it, so the text of numbers plays no part.
\<close>

record semantic_input =
  si_resourceId :: string
  si_incarnationId :: string
  si_aspect :: string
  si_digest :: string

definition semanticObject :: "semantic_input \<Rightarrow> jsvalue" where
  "semanticObject i = JObj True [(''domain'', JStr ''premise-semantic-fingerprint/1''), (''resourceId'', JStr (si_resourceId i)),
     (''incarnationId'', JStr (si_incarnationId i)), (''aspect'', JStr (si_aspect i)), (''digest'', JStr (si_digest i))]"

definition semanticFingerprint :: "(string \<Rightarrow> string) \<Rightarrow> semantic_input \<Rightarrow> exn + string" where
  "semanticFingerprint sha i =
     (case find (\<lambda>(name, v). v = []) [(''resourceId'', si_resourceId i), (''incarnationId'', si_incarnationId i),
        (''aspect'', si_aspect i), (''digest'', si_digest i)] of
        Some (name, v) \<Rightarrow> Inl (NotText name)
      | None \<Rightarrow> andThen (canonicalWith (\<lambda>n. Inr []) False (semanticObject i)) (\<lambda>t. Inr (''sha256:'' @ sha t)))"

section \<open>The invariant\<close>

definition entriesFor :: "negative_cache \<Rightarrow> string \<Rightarrow> nat" where
  "entriesFor st t = length (filter (\<lambda>p. ng_tenantId (snd p) = t) (nk_entries st))"

definition counted :: "negative_cache \<Rightarrow> bool" where
  "counted st = (omap_ok (nk_entries st) \<and> (\<forall>t. countOf st t = int (entriesFor st t)) \<and>
     nk_maxEntries st \<ge> 1 \<and> (\<forall>c. nk_maxEntriesPerTenant st = Some c \<longrightarrow> c \<ge> 1))"

definition limits :: "negative_cache \<Rightarrow> int \<times> int option" where
  "limits st = (nk_maxEntries st, nk_maxEntriesPerTenant st)"

definition within_limits :: "negative_cache \<Rightarrow> bool" where
  "within_limits st = (int (length (nk_entries st)) \<le> nk_maxEntries st \<and>
     (\<forall>c t. nk_maxEntriesPerTenant st = Some c \<longrightarrow> int (entriesFor st t) \<le> c))"

lemma counted_new: "newNegativeCache m p = Inr st \<Longrightarrow> counted st \<and> within_limits st \<and> nk_entries st = []"
  by (cases p) (auto simp: newNegativeCache_def counted_def within_limits_def countOf_def entriesFor_def validToken_def Let_def
      split: if_splits)

lemma deleteNegative_spec:
  assumes "counted st" and "deleteNegative st key reason = (b, st')"
  shows "counted st' \<and> limits st' = limits st \<and> nk_entries st' = omap_delete key (nk_entries st)"
proof (cases "map_of (nk_entries st) key")
  case None
  with assms show ?thesis by (auto simp: deleteNegative_def omap_delete_absent)
next
  case (Some e)
  let ?t = "ng_tenantId e" and ?es = "omap_delete key (nk_entries st)"
  have ok: "omap_ok (nk_entries st)" using assms(1) by (simp add: counted_def)
  have st': "nk_entries st' = ?es" "limits st' = limits st" "nk_tenantCounts st' =
      (if countOf st ?t \<le> 1 then omap_delete ?t (nk_tenantCounts st)
       else omap_set ?t (countOf st ?t - 1) (nk_tenantCounts st))"
    using assms(2) Some by (auto simp: deleteNegative_def Let_def limits_def)
  have "countOf st' t = int (entriesFor st' t)" for t
  proof -
    have "entriesFor st t = entriesFor st' t + (if ?t = t then 1 else 0)"
      using length_filter_delete [OF ok Some, of "\<lambda>p. ng_tenantId (snd p) = t"] by (simp add: entriesFor_def st')
    moreover have "countOf st t = int (entriesFor st t)" using assms(1) by (simp add: counted_def)
    moreover have "countOf st' t = (if ?t = t then (if countOf st ?t \<le> 1 then 0 else countOf st ?t - 1) else countOf st t)"
      by (simp add: countOf_def st'(3))
    ultimately show ?thesis by auto
  qed
  with ok st' assms(1) show ?thesis by (auto simp: counted_def limits_def)
qed

lemma evictOldestNegative_spec:
  assumes "counted st"
  shows "counted (evictOldestNegative p st) \<and> limits (evictOldestNegative p st) = limits st \<and>
    set (nk_entries (evictOldestNegative p st)) \<subseteq> set (nk_entries st) \<and>
    (e \<in> set (nk_entries st) \<and> (p = None \<or> p = Some (ng_tenantId (snd e))) \<longrightarrow>
       length (nk_entries (evictOldestNegative p st)) < length (nk_entries st))"
proof (cases "find (\<lambda>(k, e). p = None \<or> p = Some (ng_tenantId e)) (nk_entries st)")
  case None
  then have "evictOldestNegative p st = st" by (simp add: evictOldestNegative_def)
  moreover have "\<not> (p = None \<or> p = Some (ng_tenantId (snd e)))" if "e \<in> set (nk_entries st)"
    using None that by (cases e) (force simp: find_None_iff)
  ultimately show ?thesis using assms by auto
next
  case (Some q)
  obtain k x where q: "q = (k, x)" by (cases q)
  have mem: "(k, x) \<in> set (nk_entries st)" using Some q by (metis find_Some_iff nth_mem)
  obtain b st1 where r: "deleteNegative st k Eviction = (b, st1)" by (cases "deleteNegative st k Eviction")
  note spec = deleteNegative_spec [OF assms r]
  have "map_of (nk_entries st) k = Some x" using mem assms by (simp add: counted_def omap_get_iff)
  moreover have "nk_entries st \<noteq> []" using mem by auto
  ultimately have "length (nk_entries st1) < length (nk_entries st)"
    using spec assms by (simp add: length_omap_delete counted_def)
  with Some q r spec show ?thesis by (auto simp: evictOldestNegative_def set_omap_delete)
qed

interpretation negatives: eviction counted nk_entries limits
    "\<lambda>tenant p. tenant = None \<or> tenant = Some (ng_tenantId (snd p))" evictOldestNegative
  by unfold_locales (use evictOldestNegative_spec in blast)+

lemma counted_distinct: "counted st \<Longrightarrow> distinct (nk_entries st)"
  by (auto simp: counted_def omap_ok_def distinct_map)

lemma fewer: "counted st \<Longrightarrow> negatives.within st t \<Longrightarrow>
    length (nk_entries t) \<le> length (nk_entries st) \<and> entriesFor t u \<le> entriesFor st u"
proof
  assume "counted st" and within: "negatives.within st t"
  then have d: "distinct (nk_entries t)" "distinct (nk_entries st)" "set (nk_entries t) \<subseteq> set (nk_entries st)"
    by (simp_all add: counted_distinct negatives.within_def)
  then show "length (nk_entries t) \<le> length (nk_entries st)"
    by (metis card_mono distinct_card List.finite_set)
  have "set (filter (\<lambda>p. ng_tenantId (snd p) = u) (nk_entries t)) \<subseteq> set (filter (\<lambda>p. ng_tenantId (snd p) = u) (nk_entries st))"
    using d(3) by auto
  with d show "entriesFor t u \<le> entriesFor st u"
    unfolding entriesFor_def by (metis card_mono distinct_card distinct_filter List.finite_set)
qed

text \<open>The bounds are enforced: of the total, and of the tenant that inserted.\<close>

lemma enforceBounds_spec:
  assumes "counted st"
  shows "\<exists>s. enforceBounds t st = Some s \<and> negatives.within st s \<and> int (length (nk_entries s)) \<le> nk_maxEntries st \<and>
    (\<forall>c. nk_maxEntriesPerTenant st = Some c \<longrightarrow> int (entriesFor s t) \<le> c)"
proof -
  have "\<exists>e \<in> set (nk_entries s). None = None \<or> None = Some (ng_tenantId (snd e))"
    if "negatives.within st s" "int (length (nk_entries s)) > nk_maxEntries s" for s
    using that by (cases "nk_entries s") (auto simp: negatives.within_def counted_def)
  from negatives.drains [of st "\<lambda>s. int (length (nk_entries s)) > nk_maxEntries s" None, OF assms this]
  obtain s where s: "while_option (\<lambda>s. int (length (nk_entries s)) > nk_maxEntries s) (evictOldestNegative None) st = Some s"
    "negatives.within st s" "int (length (nk_entries s)) \<le> nk_maxEntries s" by auto
  then have lim: "nk_maxEntries s = nk_maxEntries st" "nk_maxEntriesPerTenant s = nk_maxEntriesPerTenant st" "counted s"
    by (simp_all add: negatives.within_def limits_def)
  show ?thesis
  proof (cases "nk_maxEntriesPerTenant st")
    case None
    with s lim show ?thesis by (simp add: enforceBounds_def)
  next
    case (Some c)
    have "\<exists>e \<in> set (nk_entries u). Some t = None \<or> Some t = Some (ng_tenantId (snd e))"
      if "negatives.within s u" "countOf u t > c" for u
    proof -
      have "filter (\<lambda>p. ng_tenantId (snd p) = t) (nk_entries u) \<noteq> []"
        using that Some lim by (auto simp: negatives.within_def counted_def entriesFor_def)
      then show ?thesis by (auto simp: filter_empty_conv)
    qed
    from negatives.drains [of s "\<lambda>s. countOf s t > c" "Some t", OF lim(3) this]
    obtain u where u: "while_option (\<lambda>s. countOf s t > c) (evictOldestNegative (Some t)) s = Some u"
      "negatives.within s u" "countOf u t \<le> c" by auto
    then have "counted u" by (simp add: negatives.within_def)
    with u(3) have "int (entriesFor u t) \<le> c" by (simp add: counted_def)
    moreover have "length (nk_entries u) \<le> length (nk_entries s)" using fewer [OF lim(3) u(2)] by blast
    ultimately show ?thesis
      using s u lim Some negatives.within_trans [OF s(2) u(2)] by (auto simp: enforceBounds_def)
  qed
qed

section \<open>Runs\<close>

datatype negative_cache_op = PutN premise_validation_scope string string
  | GetN premise_validation_scope string | ClearN

fun negativeCacheStep ::
  "(string \<Rightarrow> int option) \<Rightarrow> (string \<Rightarrow> string) \<Rightarrow> negative_cache_op \<Rightarrow> negative_cache \<Rightarrow> negative_cache option" where
  "negativeCacheStep dp sha (PutN s r e) st = map_option snd (putNegative dp sha s r e st)"
| "negativeCacheStep dp sha (GetN s now) st = Some (snd (getNegative dp sha s now st))"
| "negativeCacheStep dp sha ClearN st = Some (clearNegatives st)"

fun runNegativeCache ::
  "(string \<Rightarrow> int option) \<Rightarrow> (string \<Rightarrow> string) \<Rightarrow> negative_cache_op list \<Rightarrow> negative_cache \<Rightarrow> negative_cache option" where
  "runNegativeCache dp sha [] st = Some st"
| "runNegativeCache dp sha (x # xs) st = Option.bind (negativeCacheStep dp sha x st) (runNegativeCache dp sha xs)"

text \<open>The specification: the last negative fact put under each key since the last clear.\<close>

fun lastNegative ::
  "(string \<Rightarrow> int option) \<Rightarrow> (string \<Rightarrow> string) \<Rightarrow> negative_cache_op \<Rightarrow> (string \<rightharpoonup> negative_entry) \<Rightarrow> (string \<rightharpoonup> negative_entry)" where
  "lastNegative dp sha (PutN s r e) m =
     (case premiseValidationScopeKey sha s of
        Inr key \<Rightarrow> if r \<noteq> [] \<and> dp e \<noteq> None
          then m(key \<mapsto> \<lparr>ng_tenantId = vs_tenantId s, ng_reason = r, ng_expiresAt = e\<rparr>) else m
      | Inl x \<Rightarrow> m)"
| "lastNegative dp sha (GetN s now) m = m"
| "lastNegative dp sha ClearN m = (\<lambda>k. None)"

definition lastNegatives ::
  "(string \<Rightarrow> int option) \<Rightarrow> (string \<Rightarrow> string) \<Rightarrow> negative_cache_op list \<Rightarrow> (string \<rightharpoonup> negative_entry)" where
  "lastNegatives dp sha xs = fold (lastNegative dp sha) xs (\<lambda>k. None)"

definition negatives_ok :: "(string \<rightharpoonup> negative_entry) \<Rightarrow> negative_cache \<Rightarrow> bool" where
  "negatives_ok m st = (counted st \<and> within_limits st \<and> map_of (nk_entries st) \<subseteq>\<^sub>m m)"

lemma subset_map_le:
  assumes "omap_ok es" "omap_ok fs" "set es \<subseteq> set fs"
  shows "map_of es \<subseteq>\<^sub>m map_of fs"
proof (intro map_le_def [THEN iffD2] ballI)
  fix k assume "k \<in> dom (map_of es)"
  then obtain v where v: "map_of es k = Some v" by auto
  then have "(k, v) \<in> set fs" using assms(1,3) by (auto simp: omap_get_iff)
  then have "map_of fs k = Some v" using assms(2) by (simp add: omap_get_iff)
  with v show "map_of es k = map_of fs k" by simp
qed

lemma negatives_ok_delete:
  assumes "negatives_ok m st" and "deleteNegative st key reason = (b, st')"
  shows "negatives_ok m st'"
proof -
  note spec = deleteNegative_spec [OF conjunct1 [OF assms(1) [unfolded negatives_ok_def]] assms(2)]
  have within: "negatives.within st st'" using spec by (auto simp: negatives.within_def set_omap_delete)
  have "within_limits st'"
    using assms(1) fewer [OF _ within] spec
    by (simp add: negatives_ok_def within_limits_def limits_def) (metis of_nat_mono order_trans)
  moreover have "map_of (nk_entries st') \<subseteq>\<^sub>m m" using assms(1) spec by (auto simp: negatives_ok_def map_le_def)
  ultimately show ?thesis using spec by (simp add: negatives_ok_def)
qed

lemma putNegative_ok:
  assumes ok: "negatives_ok m st"
  shows "\<exists>res st'. putNegative dp sha s r e st = Some (res, st') \<and> negatives_ok (lastNegative dp sha (PutN s r e) m) st' \<and>
    limits st' = limits st"
proof (cases "r \<noteq> [] \<and> dp e \<noteq> None \<and> (\<exists>key. premiseValidationScopeKey sha s = Inr key)")
  case False
  then obtain x where "andThen (guard (r \<noteq> []) (NotText ''reason'')) (\<lambda>_. andThen (assertTimestamp dp e ''expiresAt'')
      (\<lambda>_. premiseValidationScopeKey sha s)) = Inl x"
    by (cases "r = []"; cases "dp e"; cases "premiseValidationScopeKey sha s") (auto simp: guard_def assertTimestamp_def)
  with False ok show ?thesis by (auto simp: putNegative_def split: sum.splits)
next
  case True
  then obtain key where key: "premiseValidationScopeKey sha s = Inr key" and guards: "r \<noteq> []" "dp e \<noteq> None" by blast
  let ?t = "vs_tenantId s" and ?e = "\<lparr>ng_tenantId = vs_tenantId s, ng_reason = r, ng_expiresAt = e\<rparr>"
  obtain b st1 where del: "deleteNegative st key Replace = (b, st1)" by (cases "deleteNegative st key Replace")
  have st: "counted st" using ok by (simp add: negatives_ok_def)
  note spec = deleteNegative_spec [OF st del]
  let ?es = "nk_entries st1 @ [(key, ?e)]"
  have es: "omap_set key ?e (nk_entries st1) = ?es" using spec by (intro set_omap_set_absent) simp
  define st2 where "st2 = st1\<lparr>nk_entries := ?es, nk_tenantCounts := omap_set ?t (countOf st1 ?t + 1) (nk_tenantCounts st1),
    nk_peakEntries := max (nk_peakEntries st1) (int (length ?es))\<rparr>"
  have run: "putNegative dp sha s r e st = map_option (\<lambda>st2. (Inr key, st2)) (enforceBounds ?t st2)"
    using guards key del es by (simp add: putNegative_def assertTimestamp_def Let_def st2_def)
  have "entriesFor st2 t = entriesFor st1 t + (if t = ?t then 1 else 0)" "countOf st2 t = countOf st1 t + (if t = ?t then 1 else 0)" for t
    by (simp_all add: entriesFor_def countOf_def st2_def)
  moreover have "omap_ok ?es" unfolding es [symmetric] using spec st by (simp add: counted_def)
  ultimately have st2: "counted st2" "limits st2 = limits st" "nk_entries st2 = ?es"
    using spec by (auto simp: counted_def limits_def st2_def)
  from enforceBounds_spec [OF st2(1), of ?t] obtain st3 where st3: "enforceBounds ?t st2 = Some st3" "negatives.within st2 st3"
    "int (length (nk_entries st3)) \<le> nk_maxEntries st2"
    "\<forall>c. nk_maxEntriesPerTenant st2 = Some c \<longrightarrow> int (entriesFor st3 ?t) \<le> c" by blast
  have lim: "counted st3" "limits st3 = limits st" using st3(2) st2(2) by (simp_all add: negatives.within_def)
  have other: "entriesFor st3 t \<le> entriesFor st t" if "t \<noteq> ?t" for t
  proof -
    have "entriesFor st3 t \<le> entriesFor st2 t" using fewer [OF st2(1) st3(2)] by blast
    also have "\<dots> = entriesFor st1 t" using that by (simp add: entriesFor_def st2_def)
    also have "negatives.within st st1" using spec by (auto simp: negatives.within_def set_omap_delete)
    then have "entriesFor st1 t \<le> entriesFor st t" using fewer [OF st] by blast
    finally show ?thesis .
  qed
  have "within_limits st3"
    unfolding within_limits_def
  proof (intro conjI allI impI)
    show "int (length (nk_entries st3)) \<le> nk_maxEntries st3" using st3(3) st2(2) lim(2) by (simp add: limits_def)
    fix c t assume c: "nk_maxEntriesPerTenant st3 = Some c"
    show "int (entriesFor st3 t) \<le> c"
    proof (cases "t = ?t")
      case True
      with st3(4) c lim(2) st2(2) show ?thesis by (simp add: limits_def)
    next
      case False
      then have "int (entriesFor st3 t) \<le> int (entriesFor st t)" using other by simp
      also have "\<dots> \<le> c" using ok c lim(2) by (simp add: negatives_ok_def within_limits_def limits_def)
      finally show ?thesis .
    qed
  qed
  moreover have "map_of (nk_entries st3) \<subseteq>\<^sub>m m(key \<mapsto> ?e)"
  proof -
    have "map_of (nk_entries st3) \<subseteq>\<^sub>m map_of ?es"
      by (rule subset_map_le) (use st2 st3(2) lim(1) in \<open>simp_all add: counted_def negatives.within_def\<close>)
    moreover have "map_of ?es \<subseteq>\<^sub>m m(key \<mapsto> ?e)"
      using ok spec unfolding es [symmetric] by (auto simp: negatives_ok_def map_le_def)
    ultimately show ?thesis by (rule map_le_trans)
  qed
  ultimately show ?thesis using run st3(1) lim key guards by (simp add: negatives_ok_def)
qed

lemma getNegative_ok:
  assumes "negatives_ok m st"
  shows "negatives_ok m (snd (getNegative dp sha s now st)) \<and> limits (snd (getNegative dp sha s now st)) = limits st"
proof -
  have tick: "negatives_ok m (t\<lparr>nk_misses := n\<rparr>) = negatives_ok m t" "negatives_ok m (t\<lparr>nk_hits := n\<rparr>) = negatives_ok m t"
    "limits (t\<lparr>nk_misses := n\<rparr>) = limits t" "limits (t\<lparr>nk_hits := n\<rparr>) = limits t" for t n
    by (simp_all add: negatives_ok_def counted_def within_limits_def limits_def countOf_def entriesFor_def)
  have del: "negatives_ok m (snd (deleteNegative st key x)) \<and> limits (snd (deleteNegative st key x)) = limits st" for key x
    using negatives_ok_delete [OF assms] deleteNegative_spec assms
    by (cases "deleteNegative st key x") (fastforce simp: negatives_ok_def)
  show ?thesis
    using assms del by (auto simp: getNegative_def missNegative_def tick split: sum.splits option.splits)
qed

lemma negatives_run:
  assumes "newNegativeCache n p = Inr st0"
  shows "\<exists>st. runNegativeCache dp sha xs st0 = Some st \<and> negatives_ok (lastNegatives dp sha xs) st \<and> limits st = limits st0"
proof -
  have "\<exists>st. runNegativeCache dp sha xs s = Some st \<and> negatives_ok (fold (lastNegative dp sha) xs m) st \<and> limits st = limits s"
    if "negatives_ok m s" for m s
    using that
  proof (induction xs arbitrary: m s)
    case (Cons x xs)
    have "\<exists>s1. negativeCacheStep dp sha x s = Some s1 \<and> negatives_ok (lastNegative dp sha x m) s1 \<and> limits s1 = limits s"
    proof (cases x)
      case (PutN sc r e)
      with putNegative_ok [OF Cons.prems, of dp sha sc r e] show ?thesis by auto
    next
      case (GetN sc now)
      with getNegative_ok [OF Cons.prems, of dp sha sc now] show ?thesis by simp
    next
      case ClearN
      with Cons.prems show ?thesis
        by (auto simp: negatives_ok_def counted_def within_limits_def clearNegatives_def countOf_def entriesFor_def limits_def)
    qed
    with Cons.IH show ?case by fastforce
  qed simp
  moreover have "negatives_ok (\<lambda>k. None) st0" using counted_new [OF assms] by (simp add: negatives_ok_def)
  ultimately show ?thesis by (auto simp: lastNegatives_def)
qed

section \<open>Properties\<close>

definition sampleNegativeCache :: negative_cache where
  "sampleNegativeCache = \<lparr>nk_entries = [], nk_tenantCounts = [], nk_maxEntries = 2, nk_maxEntriesPerTenant = Some 1,
     nk_hits = 0, nk_misses = 0, nk_expirations = 0, nk_evictions = 0, nk_peakEntries = 0\<rparr>"

lemma sampleNegativeCache_new: "newNegativeCache (Some (Integral 2)) (Some (Integral 1)) = Inr sampleNegativeCache"
  by code_simp

text \<open>
  C40: The negative cache is bounded and forgetful but never invents: from a new cache every run of
  insertions, lookups and clears completes (both eviction loops return), keeps at most
  \<open>maxEntries\<close> entries in all and \<open>maxEntriesPerTenant\<close> of any tenant, and a lookup that then
  answers NEGATIVE gives the reason put last, since the last clear, under the key of the scope it
  asks for, with an expiry after the time of the question.
\<close>

theorem negative_cache_faithful:
  assumes "newNegativeCache n p = Inr st0"
  shows "\<exists>st. runNegativeCache dp sha xs st0 = Some st \<and> int (length (nk_entries st)) \<le> nk_maxEntries st0 \<and>
    (\<forall>c t. nk_maxEntriesPerTenant st0 = Some c \<longrightarrow>
       int (length (filter (\<lambda>q. ng_tenantId (snd q) = t) (nk_entries st))) \<le> c) \<and>
    (\<forall>scope now a st'. getNegative dp sha scope now st = (Inr a, st') \<and> na_negative a \<longrightarrow>
       (\<exists>k e. premiseValidationScopeKey sha scope = Inr k \<and> lastNegatives dp sha xs k = Some e \<and>
          na_reason a = Some (ng_reason e) \<and> before (dp now) (dp (ng_expiresAt e))))"
proof -
  obtain st where st: "runNegativeCache dp sha xs st0 = Some st" "negatives_ok (lastNegatives dp sha xs) st"
    "limits st = limits st0" using negatives_run [OF assms] by blast
  have "\<exists>k e. premiseValidationScopeKey sha scope = Inr k \<and> lastNegatives dp sha xs k = Some e \<and>
      na_reason a = Some (ng_reason e) \<and> before (dp now) (dp (ng_expiresAt e))"
    if get: "getNegative dp sha scope now st = (Inr a, st')" "na_negative a" for scope now a st'
  proof -
    obtain k e where "premiseValidationScopeKey sha scope = Inr k" "map_of (nk_entries st) k = Some e"
      "na_reason a = Some (ng_reason e)" "before (dp now) (dp (ng_expiresAt e))"
      using get by (auto simp: getNegative_def missNegative_def sameOrBefore_def split: sum.splits option.splits if_splits)
    moreover from this(2) st(2) have "lastNegatives dp sha xs k = Some e"
      by (auto simp: negatives_ok_def map_le_def dom_def)
    ultimately show ?thesis by blast
  qed
  with st show ?thesis by (auto simp: negatives_ok_def within_limits_def limits_def entriesFor_def)
qed

theorem negative_cache_faithful_witness:
  "\<exists>st. runNegativeCache cacheDate id [PutN sampleScope ''gone'' ''333''] sampleNegativeCache = Some st \<and>
     int (length (nk_entries st)) \<le> 2 \<and> na_negative (projr (fst (getNegative cacheDate id sampleScope ''22'' st)))"
proof -
  let ?run = "runNegativeCache cacheDate id [PutN sampleScope ''gone'' ''333''] sampleNegativeCache"
  have "na_negative (projr (fst (getNegative cacheDate id sampleScope ''22'' (the ?run))))" by code_simp
  moreover obtain st where "?run = Some st" "int (length (nk_entries st)) \<le> nk_maxEntries sampleNegativeCache"
    using negative_cache_faithful [OF sampleNegativeCache_new, of cacheDate id "[PutN sampleScope ''gone'' ''333'']"] by blast
  ultimately show ?thesis by (simp add: sampleNegativeCache_def)
qed

definition semanticComplete :: "semantic_input \<Rightarrow> bool" where
  "semanticComplete i = (si_resourceId i \<noteq> [] \<and> si_incarnationId i \<noteq> [] \<and> si_aspect i \<noteq> [] \<and> si_digest i \<noteq> [])"

lemma semanticFingerprint_Inr:
  "(\<exists>t. canonicalWith (\<lambda>n. Inr []) False (semanticObject i) = Inr t) \<and>
   (semanticFingerprint sha i = Inr f \<longleftrightarrow> semanticComplete i \<and>
     (\<exists>t. canonicalWith (\<lambda>n. Inr []) False (semanticObject i) = Inr t \<and> f = ''sha256:'' @ sha t))"
proof
  have "jsonValue {} (semanticObject i)" by (simp add: semanticObject_def)
  then show "\<exists>t. canonicalWith (\<lambda>n. Inr []) False (semanticObject i) = Inr t" using canonical_defined by blast
  show "semanticFingerprint sha i = Inr f \<longleftrightarrow> semanticComplete i \<and>
     (\<exists>t. canonicalWith (\<lambda>n. Inr []) False (semanticObject i) = Inr t \<and> f = ''sha256:'' @ sha t)"
    by (auto simp: semanticFingerprint_def semanticComplete_def andThen_Inr_iff)
qed

lemma semanticObject_inject:
  assumes "sortKeys (semanticObject i) = sortKeys (semanticObject j)"
  shows "i = j"
proof -
  note field = sortKeys_field [OF assms [unfolded semanticObject_def]]
  have "si_resourceId i = si_resourceId j" by (rule field [of "''resourceId''" "JStr (si_resourceId i)"]) auto
  moreover have "si_incarnationId i = si_incarnationId j" by (rule field [of "''incarnationId''" "JStr (si_incarnationId i)"]) auto
  moreover have "si_aspect i = si_aspect j" by (rule field [of "''aspect''" "JStr (si_aspect i)"]) auto
  moreover have "si_digest i = si_digest j" by (rule field [of "''digest''" "JStr (si_digest i)"]) auto
  ultimately show ?thesis by (cases i; cases j) simp
qed

text \<open>
  A semantic fingerprint names its input: it is defined exactly for four non-empty fields, and,
  SHA-256 taken as injective, two inputs have the same fingerprint only if all four fields are equal.
\<close>

theorem semantic_fingerprint_iff:
  assumes "inj sha"
  shows "((\<exists>f. semanticFingerprint sha i = Inr f) \<longleftrightarrow>
      si_resourceId i \<noteq> [] \<and> si_incarnationId i \<noteq> [] \<and> si_aspect i \<noteq> [] \<and> si_digest i \<noteq> []) \<and>
    (semanticFingerprint sha i = Inr f \<and> semanticFingerprint sha j = Inr f \<longrightarrow> i = j)"
proof -
  have "i = j" if fp: "semanticFingerprint sha i = Inr f" "semanticFingerprint sha j = Inr f"
  proof -
    obtain a where a: "canonicalWith (\<lambda>n. Inr []) False (semanticObject i) = Inr a"
      "canonicalWith (\<lambda>n. Inr []) False (semanticObject j) = Inr a"
      using fp assms by (auto simp: semanticFingerprint_Inr dest: injD)
    have "numberText (\<lambda>n. []) {}" "jsonValue {} (semanticObject i)" "jsonValue {} (semanticObject j)"
      by (simp_all add: numberText_def semanticObject_def)
    from canonical_inject [of "\<lambda>n. Inr []" "\<lambda>n. []", OF _ this a] show ?thesis
      by (intro semanticObject_inject) simp
  qed
  moreover have "(\<exists>f. semanticFingerprint sha i = Inr f) \<longleftrightarrow> semanticComplete i"
    using semanticFingerprint_Inr [of i sha] by blast
  ultimately show ?thesis by (auto simp: semanticComplete_def)
qed

definition sampleSemantic :: semantic_input where
  "sampleSemantic = \<lparr>si_resourceId = ''r'', si_incarnationId = ''i'', si_aspect = ''a'', si_digest = ''d''\<rparr>"

theorem semantic_fingerprint_iff_witness:
  "\<exists>t. semanticFingerprint id sampleSemantic = Inr t"
  using semantic_fingerprint_iff [OF inj_on_id, of sampleSemantic] by (simp add: sampleSemantic_def)

end
