(* ===== verification/Protocol_V1.thy ===== *)
theory Protocol_V1
  imports Js_Value
begin

text \<open>
  \<open>packages/protocol-types/src/index.ts\<close>: the validators of the \<open>premise/0.1\<close> wire values.
  Their inputs are arbitrary values (\<open>jsvalue\<close>); a validator returns the issues it found in the
  order the source records them. \<open>Date.parse\<close> is the argument \<open>dp\<close> (\<open>None\<close> is NaN).
\<close>

type_synonym issue = "string \<times> string"

definition issueIf :: "bool \<Rightarrow> string \<Rightarrow> string \<Rightarrow> issue list" where
  "issueIf c path message = (if c then [(path, message)] else [])"

lemma issueIf_Nil [simp]: "issueIf c p m = [] \<longleftrightarrow> \<not> c"
  by (simp add: issueIf_def)

section \<open>Dates and digests\<close>

text \<open>
  The prefix of a text that matches a pattern of literal characters and digits (\<open>d\<close>), removed.
\<close>

definition isDigit :: "char \<Rightarrow> bool" where
  "isDigit c = (48 \<le> (of_char c :: nat) \<and> (of_char c :: nat) \<le> 57)"

fun matchPattern :: "string \<Rightarrow> string \<Rightarrow> string option" where
  "matchPattern [] s = Some s"
| "matchPattern (p # ps) [] = None"
| "matchPattern (p # ps) (c # cs) =
     (if (if p = CHR ''d'' then isDigit c else c = p) then matchPattern ps cs else None)"

text \<open>\<open>(?:\.\d+)?\<close>, then \<open>(?:Z|[+-]\d{2}:\d{2})$\<close>.\<close>

definition dropFraction :: "string \<Rightarrow> string option" where
  "dropFraction s = (case s of
     CHR ''.'' # t \<Rightarrow> (if t \<noteq> [] \<and> isDigit (hd t) then Some (dropWhile isDigit t) else None)
   | _ \<Rightarrow> Some s)"

definition isZone :: "string \<Rightarrow> bool" where
  "isZone s = (case s of [] \<Rightarrow> False
   | c # t \<Rightarrow> (c = CHR ''Z'' \<and> t = []) \<or>
       ((c = CHR ''+'' \<or> c = CHR ''-'') \<and> matchPattern ''dd:dd'' t = Some []))"

definition dateTimeText :: "string \<Rightarrow> bool" where
  "dateTimeText s = (case matchPattern ''dddd-dd-ddTdd:dd:dd'' s of None \<Rightarrow> False
     | Some rest \<Rightarrow> (case dropFraction rest of None \<Rightarrow> False | Some z \<Rightarrow> isZone z))"

definition isDateTime :: "(string \<Rightarrow> int option) \<Rightarrow> jsvalue \<Rightarrow> bool" where
  "isDateTime dp v = (case v of JStr s \<Rightarrow> dateTimeText s \<and> dp s \<noteq> None | _ \<Rightarrow> False)"

text \<open>\<open>/^sha256:.+$/\<close>; the dot matches no line terminator.\<close>

definition digestText :: "string \<Rightarrow> bool" where
  "digestText s = (take 7 s = ''sha256:'' \<and> drop 7 s \<noteq> [] \<and>
     list_all (\<lambda>c. (of_char c :: nat) \<noteq> 10 \<and> (of_char c :: nat) \<noteq> 13) (drop 7 s))"

definition isDigest :: "jsvalue \<Rightarrow> bool" where
  "isDigest v = (case v of JStr s \<Rightarrow> digestText s | _ \<Rightarrow> False)"

definition isNonEmptyString :: "jsvalue \<Rightarrow> bool" where
  "isNonEmptyString v = (case v of JStr s \<Rightarrow> s \<noteq> [] | _ \<Rightarrow> False)"

text \<open>Membership in a set of literal texts.\<close>

definition isOneOf :: "string list \<Rightarrow> jsvalue \<Rightarrow> bool" where
  "isOneOf ts v = (case v of JStr s \<Rightarrow> s \<in> set ts | _ \<Rightarrow> False)"

definition statusNames :: "string list" where
  "statusNames = [''FRESH'', ''STALE'', ''INVALID'', ''UNKNOWN'']"

definition policyNames :: "string list" where
  "policyNames = [''IMMUTABLE'', ''VERSIONED'', ''TTL'', ''MANUAL'']"

definition validatorResultNames :: "string list" where
  "validatorResultNames = [''UNCHANGED'', ''CHANGED'', ''MISSING'', ''UNKNOWN'']"

definition capabilityNames :: "string list" where
  "capabilityNames = [''RECORD'', ''DEPENDENCY'', ''REVALIDATION'', ''RETRIEVAL'', ''GATE'']"

text \<open>\<open>${path}[${index}]\<close>.\<close>

definition itemPath :: "string \<Rightarrow> nat \<Rightarrow> string" where
  "itemPath path i = path @ ''['' @ natText i @ '']''"

text \<open>An array of non-empty texts (\<open>Array.isArray(v) && !v.some(...)\<close>), and its texts.\<close>

fun arrayItems :: "jsvalue \<Rightarrow> jsvalue list" where
  "arrayItems (JArr vs) = vs"
| "arrayItems v = []"

definition isArray :: "jsvalue \<Rightarrow> bool" where
  "isArray v = (case v of JArr vs \<Rightarrow> True | _ \<Rightarrow> False)"

definition isTextArray :: "jsvalue \<Rightarrow> bool" where
  "isTextArray v = (isArray v \<and> list_all isNonEmptyString (arrayItems v))"

section \<open>Envelopes\<close>

definition v1_validateVersion :: "jsvalue \<Rightarrow> string \<Rightarrow> issue list" where
  "v1_validateVersion v path =
     issueIf (\<not> isRecord v \<or> \<not> isNonEmptyString (property v ''scheme'') \<or> \<not> isNonEmptyString (property v ''token''))
       path ''must contain non-empty scheme and token strings''"

definition v1_validateValidator :: "jsvalue \<Rightarrow> string \<Rightarrow> issue list" where
  "v1_validateValidator v path =
     issueIf (\<not> isRecord v \<or> \<not> isNonEmptyString (property v ''id'') \<or> \<not> isNonEmptyString (property v ''operation''))
       path ''must contain non-empty id and operation strings''"

definition v1_validateSource :: "(string \<Rightarrow> int option) \<Rightarrow> jsvalue \<Rightarrow> string \<Rightarrow> issue list" where
  "v1_validateSource dp v path =
     (if \<not> isRecord v then [(path, ''must be an object'')]
      else
        issueIf (\<not> isNonEmptyString (property v ''sourceUri'')) (path @ ''.sourceUri'') ''must be a non-empty string'' @
        issueIf (\<not> isDateTime dp (property v ''observedAt'')) (path @ ''.observedAt'') ''must be an ISO date-time string'' @
        issueIf (hasOwn v ''version'' \<noteq> hasOwn v ''validator'') path ''version and validator must appear together'' @
        (if hasOwn v ''version'' then v1_validateVersion (property v ''version'') (path @ ''.version'') else []) @
        (if hasOwn v ''validator'' then v1_validateValidator (property v ''validator'') (path @ ''.validator'') else []))"

definition validateValidity :: "(string \<Rightarrow> int option) \<Rightarrow> jsvalue \<Rightarrow> string \<Rightarrow> string \<Rightarrow> issue list" where
  "validateValidity dp v path statusMessage =
     (if \<not> isRecord v then [(path, ''must be an object'')]
      else
        issueIf (\<not> isOneOf statusNames (property v ''status'')) (path @ ''.status'') statusMessage @
        issueIf (\<not> isDateTime dp (property v ''checkedAt'')) (path @ ''.checkedAt'') ''must be an ISO date-time string'' @
        issueIf (\<not> isOneOf policyNames (property v ''policy'')) (path @ ''.policy'') ''must be a PREMiSE validity policy'' @
        issueIf (property v ''policy'' = JStr ''TTL'' \<and> \<not> isDateTime dp (property v ''expiresAt''))
          (path @ ''.expiresAt'') ''is required for TTL policy and must be an ISO date-time string'' @
        issueIf (property v ''policy'' \<noteq> JStr ''TTL'' \<and> hasOwn v ''expiresAt'')
          (path @ ''.expiresAt'') ''is only allowed for TTL policy'')"

fun v1_validateSources :: "(string \<Rightarrow> int option) \<Rightarrow> jsvalue \<Rightarrow> nat \<Rightarrow> jsvalue list \<Rightarrow> issue list" where
  "v1_validateSources dp validity i [] = []"
| "v1_validateSources dp validity i (source # sources) =
     v1_validateSource dp source (itemPath ''$.provenance'' i) @
     issueIf (isRecord source \<and> isRecord validity \<and> property validity ''policy'' = JStr ''VERSIONED'' \<and>
         (\<not> hasOwn source ''version'' \<or> \<not> hasOwn source ''validator''))
       (itemPath ''$.provenance'' i) ''VERSIONED provenance requires version and validator'' @
     v1_validateSources dp validity (Suc i) sources"

definition validateMemoryEnvelope :: "(string \<Rightarrow> int option) \<Rightarrow> jsvalue \<Rightarrow> issue list" where
  "validateMemoryEnvelope dp v =
     (if \<not> isRecord v then [(''$'', ''must be an object'')]
      else
        (let provenance = property v ''provenance'';
             validity = property v ''validity'';
             dependsOn = property v ''dependsOn'';
             provenanceCount = length (arrayItems provenance);
             dependencyCount = length (arrayItems dependsOn)
         in
         concat (map (\<lambda>k. issueIf
             (k \<notin> set [''specVersion'', ''memoryId'', ''contentDigest'', ''provenance'', ''validity'', ''dependsOn''])
             (''$.'' @ k) ''is not a permitted envelope field'') (ownKeys v)) @
         issueIf (property v ''specVersion'' \<noteq> JStr ''premise/0.1'') ''$.specVersion'' ''must equal premise/0.1'' @
         issueIf (\<not> isNonEmptyString (property v ''memoryId'')) ''$.memoryId'' ''must be a non-empty string'' @
         issueIf (hasOwn v ''contentDigest'' \<and> \<not> isDigest (property v ''contentDigest''))
           ''$.contentDigest'' ''must use the sha256: digest prefix and a non-empty digest'' @
         (if hasOwn v ''provenance'' then
            (if \<not> isArray provenance then [(''$.provenance'', ''must be an array'')]
             else issueIf (provenanceCount = 0) ''$.provenance'' ''must contain at least one source when present'' @
               v1_validateSources dp validity 0 (arrayItems provenance))
          else []) @
         validateValidity dp validity ''$.validity'' ''must be a PREMiSE memory status'' @
         (if \<not> isTextArray dependsOn then [(''$.dependsOn'', ''must be an array of non-empty memory ids'')]
          else issueIf (length (unique (arrayItems dependsOn)) \<noteq> dependencyCount)
            ''$.dependsOn'' ''must not contain duplicate memory ids'') @
         issueIf (provenanceCount = 0 \<and> dependencyCount = 0) ''$'' ''must contain provenance or at least one dependency'' @
         issueIf (isRecord validity \<and> property validity ''policy'' = JStr ''VERSIONED'' \<and> provenanceCount = 0)
           ''$.provenance'' ''is required for VERSIONED policy''))"

definition isMemoryEnvelope :: "(string \<Rightarrow> int option) \<Rightarrow> jsvalue \<Rightarrow> bool" where
  "isMemoryEnvelope dp v = (validateMemoryEnvelope dp v = [])"

definition parseMemoryEnvelope :: "(string \<Rightarrow> int option) \<Rightarrow> jsvalue \<Rightarrow> issue list + jsvalue" where
  "parseMemoryEnvelope dp v =
     (let issues = validateMemoryEnvelope dp v in if issues \<noteq> [] then Inl issues else Inr v)"

section \<open>Validation results, capabilities, usability\<close>

definition isValidationResult :: "(string \<Rightarrow> int option) \<Rightarrow> jsvalue \<Rightarrow> bool" where
  "isValidationResult dp v =
     (if \<not> isRecord v \<or> \<not> isNonEmptyString (property v ''memoryId'') \<or>
         \<not> isOneOf validatorResultNames (property v ''result'') \<or> \<not> isDateTime dp (property v ''checkedAt'') \<or>
         \<not> isOneOf statusNames (property v ''status'') then False
      else
        (let result = property v ''result'';
             expectedStatus = (if result = JStr ''UNCHANGED'' then ''FRESH''
               else if result = JStr ''CHANGED'' \<or> result = JStr ''MISSING'' then ''INVALID'' else ''UNKNOWN'')
         in
         if property v ''status'' \<noteq> JStr expectedStatus then False
         else if result = JStr ''UNCHANGED'' \<or> result = JStr ''CHANGED''
           then v1_validateVersion (property v ''version'') ''$.version'' = []
         else property v ''version'' = JUndefined))"

definition isCapabilitiesDeclaration :: "jsvalue \<Rightarrow> bool" where
  "isCapabilitiesDeclaration v =
     (if \<not> isRecord v \<or> property v ''specVersion'' \<noteq> JStr ''premise/0.1'' \<or> \<not> isArray (property v ''capabilities'')
        then False
      else
        (let declared = arrayItems (property v ''capabilities'') in
         if \<not> list_all (isOneOf capabilityNames) declared \<or> length (unique declared) \<noteq> length declared then False
         else if property v ''profile'' \<noteq> JUndefined \<and> property v ''profile'' \<noteq> JStr ''PREMiSE-compatible v0.1'' then False
         else property v ''profile'' = JUndefined \<or>
           list_all (\<lambda>c. JStr c \<in> set declared) [''RECORD'', ''DEPENDENCY'', ''REVALIDATION'']))"

datatype memory_status = StatusFresh | StatusStale | StatusInvalid | StatusUnknown
datatype usability_decision = USABLE | REVALIDATE_FIRST | REJECTED

definition usabilityForStatus :: "memory_status \<Rightarrow> usability_decision" where
  "usabilityForStatus s =
     (if s = StatusFresh then USABLE else if s = StatusInvalid then REJECTED else REVALIDATE_FIRST)"

definition statusName :: "memory_status \<Rightarrow> string" where
  "statusName s = (case s of StatusFresh \<Rightarrow> ''FRESH'' | StatusStale \<Rightarrow> ''STALE''
     | StatusInvalid \<Rightarrow> ''INVALID'' | StatusUnknown \<Rightarrow> ''UNKNOWN'')"

section \<open>Lemmas\<close>

lemma isNonEmptyString_iff: "isNonEmptyString v \<longleftrightarrow> (\<exists>s. v = JStr s \<and> s \<noteq> [])"
  by (cases v) (auto simp: isNonEmptyString_def)

lemma isNonEmptyString_JStr [simp]: "isNonEmptyString (JStr s) \<longleftrightarrow> s \<noteq> []"
  by (simp add: isNonEmptyString_def)

lemma isDateTime_JStr [simp]: "isDateTime dp (JStr s) \<longleftrightarrow> dateTimeText s \<and> dp s \<noteq> None"
  by (simp add: isDateTime_def)

lemma isDateTime_JUndefined [simp]: "\<not> isDateTime dp JUndefined" "\<not> isNonEmptyString JUndefined"
  by (simp_all add: isDateTime_def isNonEmptyString_def)

lemma isDigest_JStr [simp]: "isDigest (JStr s) \<longleftrightarrow> digestText s"
  by (simp add: isDigest_def)

lemma isOneOf_JStr [simp]: "isOneOf ts (JStr s) \<longleftrightarrow> s \<in> set ts"
  by (simp add: isOneOf_def)

lemma isRecord_JObj [simp]: "isRecord (JObj p ps)" "\<not> isRecord JUndefined"
  by (simp_all add: isRecord_def)

lemma isArray_simps [simp]: "isArray (JArr vs)" "\<not> isArray JUndefined"
  by (simp_all add: isArray_def)

lemma isTextArray_JArr: "isTextArray (JArr vs) \<longleftrightarrow> list_all isNonEmptyString vs"
  by (simp add: isTextArray_def)

lemma statusName_inject [simp]: "statusName s = statusName t \<longleftrightarrow> s = t"
  by (cases s; cases t) (simp_all add: statusName_def)

text \<open>The validators without their paths and messages.\<close>

definition wfV1Pair :: "string \<Rightarrow> string \<Rightarrow> jsvalue \<Rightarrow> bool" where
  "wfV1Pair a b v = (isRecord v \<and> isNonEmptyString (property v a) \<and> isNonEmptyString (property v b))"

definition wfV1Source :: "(string \<Rightarrow> int option) \<Rightarrow> jsvalue \<Rightarrow> jsvalue \<Rightarrow> bool" where
  "wfV1Source dp validity v =
     (isRecord v \<and> isNonEmptyString (property v ''sourceUri'') \<and> isDateTime dp (property v ''observedAt'') \<and>
      (hasOwn v ''version'' \<longleftrightarrow> hasOwn v ''validator'') \<and>
      (hasOwn v ''version'' \<longrightarrow> wfV1Pair ''scheme'' ''token'' (property v ''version'') \<and>
         wfV1Pair ''id'' ''operation'' (property v ''validator'')) \<and>
      (isRecord validity \<and> property validity ''policy'' = JStr ''VERSIONED'' \<longrightarrow> hasOwn v ''version''))"

definition wfValidity :: "(string \<Rightarrow> int option) \<Rightarrow> jsvalue \<Rightarrow> bool" where
  "wfValidity dp v =
     (isRecord v \<and> isOneOf statusNames (property v ''status'') \<and> isDateTime dp (property v ''checkedAt'') \<and>
      isOneOf policyNames (property v ''policy'') \<and>
      (if property v ''policy'' = JStr ''TTL'' then isDateTime dp (property v ''expiresAt'')
       else \<not> hasOwn v ''expiresAt''))"

lemma validateValidity_Nil: "validateValidity dp v path m = [] \<longleftrightarrow> wfValidity dp v"
  by (auto simp: validateValidity_def wfValidity_def)

lemma v1_validateSources_Nil:
  "v1_validateSources dp validity i sources = [] \<longleftrightarrow> list_all (wfV1Source dp validity) sources"
  by (induction sources arbitrary: i)
    (auto simp: v1_validateSource_def wfV1Source_def v1_validateVersion_def v1_validateValidator_def wfV1Pair_def
      split: if_splits)

text \<open>A valid \<open>premise/0.1\<close> envelope.\<close>

definition wfV1Envelope :: "(string \<Rightarrow> int option) \<Rightarrow> jsvalue \<Rightarrow> bool" where
  "wfV1Envelope dp v =
     (isRecord v \<and>
      set (ownKeys v) \<subseteq> {''specVersion'', ''memoryId'', ''contentDigest'', ''provenance'', ''validity'', ''dependsOn''} \<and>
      property v ''specVersion'' = JStr ''premise/0.1'' \<and> isNonEmptyString (property v ''memoryId'') \<and>
      (hasOwn v ''contentDigest'' \<longrightarrow> isDigest (property v ''contentDigest'')) \<and>
      (hasOwn v ''provenance'' \<longrightarrow> isArray (property v ''provenance'') \<and> arrayItems (property v ''provenance'') \<noteq> [] \<and>
         list_all (wfV1Source dp (property v ''validity'')) (arrayItems (property v ''provenance''))) \<and>
      wfValidity dp (property v ''validity'') \<and>
      isTextArray (property v ''dependsOn'') \<and> distinct (arrayItems (property v ''dependsOn'')) \<and>
      (arrayItems (property v ''provenance'') \<noteq> [] \<or> arrayItems (property v ''dependsOn'') \<noteq> []) \<and>
      (property (property v ''validity'') ''policy'' = JStr ''VERSIONED'' \<longrightarrow> arrayItems (property v ''provenance'') \<noteq> []))"

lemma unknownKeys_Nil: "concat (map (\<lambda>k. issueIf (k \<notin> S) (p k) m) ks) = [] \<longleftrightarrow> set ks \<subseteq> S"
  by (induction ks) auto

lemma validateMemoryEnvelope_Nil: "validateMemoryEnvelope dp v = [] \<longleftrightarrow> wfV1Envelope dp v"
proof (cases "isRecord v")
  case False
  then show ?thesis by (simp add: validateMemoryEnvelope_def wfV1Envelope_def)
next
  case True
  have validity: "wfValidity dp w \<Longrightarrow> isRecord w" for w by (simp add: wfValidity_def)
  show ?thesis
    unfolding validateMemoryEnvelope_def wfV1Envelope_def Let_def if_not_P [OF True [THEN not_not [THEN iffD2]]]
      append_is_Nil_conv unknownKeys_Nil validateValidity_Nil
    using True validity
    by (auto simp: v1_validateSources_Nil length_unique_iff split: if_splits)
qed

end
