(* ===== verification/Protocol_V2.thy ===== *)
theory Protocol_V2
  imports Protocol_V1
begin

text \<open>
  \<open>packages/protocol-types/src/v2.ts\<close>: the \<open>premise/2\<close> contracts. A validator returns the
  issues of an arbitrary value in the order the source records them; \<open>wf...\<close> are the same
  conditions without paths and messages. Envelopes, events and stream events are also given as
  records, with the value they stand for; \<open>Date.parse\<close> is \<open>dp\<close>.
\<close>

definition isTenantId :: "jsvalue \<Rightarrow> bool" where
  "isTenantId v = (case v of JStr s \<Rightarrow> s \<noteq> [] \<and> s = trim s | _ \<Rightarrow> False)"

lemma isTenantId_JStr [simp]: "isTenantId (JStr s) \<longleftrightarrow> validText s"
  by (auto simp: isTenantId_def validText_def)

definition rejectUnknown :: "jsvalue \<Rightarrow> string \<Rightarrow> string list \<Rightarrow> issue list" where
  "rejectUnknown v path allowed =
     concat (map (\<lambda>k. issueIf (k \<notin> set allowed) (path @ ''.'' @ k) ''is not a permitted field'') (ownKeys v))"

lemma rejectUnknown_Nil [simp]: "rejectUnknown v path allowed = [] \<longleftrightarrow> set (ownKeys v) \<subseteq> set allowed"
  unfolding rejectUnknown_def by (rule unknownKeys_Nil)

section \<open>Parts of an envelope\<close>

definition validateVersion :: "jsvalue \<Rightarrow> string \<Rightarrow> issue list" where
  "validateVersion v path =
     (if \<not> isRecord v then [(path, ''must be an object'')]
      else rejectUnknown v path [''scheme'', ''token''] @
        issueIf (\<not> isNonEmptyString (property v ''scheme'')) (path @ ''.scheme'') ''must be a non-empty string'' @
        issueIf (\<not> isNonEmptyString (property v ''token'')) (path @ ''.token'') ''must be a non-empty string'')"

definition validateValidator :: "jsvalue \<Rightarrow> string \<Rightarrow> issue list" where
  "validateValidator v path =
     (if \<not> isRecord v then [(path, ''must be an object'')]
      else rejectUnknown v path [''id'', ''operation''] @
        issueIf (\<not> isNonEmptyString (property v ''id'')) (path @ ''.id'') ''must be a non-empty string'' @
        issueIf (\<not> isNonEmptyString (property v ''operation'')) (path @ ''.operation'') ''must be a non-empty string'')"

definition isUnitScore :: "jsvalue \<Rightarrow> bool" where
  "isUnitScore v = (case v of JNum n \<Rightarrow> isFinite n \<and> 0 \<le> numValue n \<and> numValue n \<le> 1 | _ \<Rightarrow> False)"

definition validateConfidence :: "(string \<Rightarrow> int option) \<Rightarrow> jsvalue \<Rightarrow> string \<Rightarrow> issue list" where
  "validateConfidence dp v path =
     (if \<not> isRecord v then [(path, ''must be an object'')]
      else rejectUnknown v path [''score'', ''method'', ''assessedAt'', ''rationale''] @
        issueIf (\<not> hasOwn v ''score'' \<or> (property v ''score'' \<noteq> JNull \<and> \<not> isUnitScore (property v ''score'')))
          (path @ ''.score'') ''must be null or a finite number between 0 and 1'' @
        issueIf (\<not> isNonEmptyString (property v ''method'')) (path @ ''.method'') ''must be a non-empty string'' @
        issueIf (hasOwn v ''assessedAt'' \<and> \<not> isDateTime dp (property v ''assessedAt''))
          (path @ ''.assessedAt'') ''must be an ISO date-time string'' @
        issueIf (hasOwn v ''rationale'' \<and> \<not> isNonEmptyString (property v ''rationale''))
          (path @ ''.rationale'') ''must be a non-empty string'')"

text \<open>The milliseconds of a valid date, if the property holds one.\<close>

definition dateOf :: "(string \<Rightarrow> int option) \<Rightarrow> jsvalue \<Rightarrow> int option" where
  "dateOf dp v = (case v of JStr s \<Rightarrow> if dateTimeText s then dp s else None | _ \<Rightarrow> None)"

lemma isDateTime_dateOf: "isDateTime dp v \<longleftrightarrow> dateOf dp v \<noteq> None"
  by (cases v) (auto simp: dateOf_def isDateTime_def)

definition validateWindow :: "(string \<Rightarrow> int option) \<Rightarrow> jsvalue \<Rightarrow> string \<Rightarrow> issue list" where
  "validateWindow dp v path =
     (let validFrom = dateOf dp (property v ''validFrom''); validUntil = dateOf dp (property v ''validUntil'') in
      issueIf (hasOwn v ''validFrom'' \<and> validFrom = None) (path @ ''.validFrom'') ''must be an ISO date-time string'' @
      issueIf (hasOwn v ''validUntil'' \<and> validUntil = None) (path @ ''.validUntil'') ''must be an ISO date-time string'' @
      issueIf (case (validFrom, validUntil) of (Some a, Some b) \<Rightarrow> a \<ge> b | _ \<Rightarrow> False)
        path ''validFrom must be before validUntil'')"

definition validateEvidence :: "(string \<Rightarrow> int option) \<Rightarrow> jsvalue \<Rightarrow> string \<Rightarrow> issue list" where
  "validateEvidence dp v path =
     (if \<not> isRecord v then [(path, ''must be an object'')]
      else rejectUnknown v path [''evidenceId'', ''sourceUri'', ''observedAt'', ''validFrom'', ''validUntil'', ''version'',
            ''validator'', ''confidence'', ''kind''] @
        issueIf (\<not> isNonEmptyString (property v ''evidenceId'')) (path @ ''.evidenceId'') ''must be a non-empty string'' @
        issueIf (\<not> isNonEmptyString (property v ''sourceUri'')) (path @ ''.sourceUri'') ''must be a non-empty string'' @
        issueIf (\<not> isDateTime dp (property v ''observedAt'')) (path @ ''.observedAt'') ''must be an ISO date-time string'' @
        validateWindow dp v path @
        issueIf (hasOwn v ''version'' \<noteq> hasOwn v ''validator'') path ''version and validator must appear together'' @
        (if hasOwn v ''version'' then validateVersion (property v ''version'') (path @ ''.version'') else []) @
        (if hasOwn v ''validator'' then validateValidator (property v ''validator'') (path @ ''.validator'') else []) @
        (if hasOwn v ''confidence'' then validateConfidence dp (property v ''confidence'') (path @ ''.confidence'') else []) @
        issueIf (hasOwn v ''kind'' \<and> \<not> isNonEmptyString (property v ''kind'')) (path @ ''.kind'') ''must be a non-empty string'')"

definition validateTemporal :: "(string \<Rightarrow> int option) \<Rightarrow> jsvalue \<Rightarrow> string \<Rightarrow> issue list" where
  "validateTemporal dp v path =
     (if \<not> isRecord v then [(path, ''must be an object'')]
      else rejectUnknown v path [''asOf'', ''validFrom'', ''validUntil''] @
        issueIf (\<not> isDateTime dp (property v ''asOf'')) (path @ ''.asOf'') ''must be an ISO date-time string'' @
        validateWindow dp v path)"

definition v2_validateValidity :: "(string \<Rightarrow> int option) \<Rightarrow> jsvalue \<Rightarrow> string \<Rightarrow> issue list" where
  "v2_validateValidity dp v path =
     (if \<not> isRecord v then [(path, ''must be an object'')]
      else rejectUnknown v path [''status'', ''checkedAt'', ''policy'', ''expiresAt''] @
        validateValidity dp v path ''must be a PREMiSE v2 memory status'')"

definition resolutionStrategies :: "string list" where
  "resolutionStrategies = [''MANUAL'', ''PREFER_CONFIDENCE'', ''PREFER_NEWEST'', ''MERGE'']"

text \<open>A property that, if present, names one of the given evidence ids.\<close>

definition evidenceReference :: "jsvalue \<Rightarrow> string \<Rightarrow> string \<Rightarrow> jsvalue list \<Rightarrow> string \<Rightarrow> issue list" where
  "evidenceReference v field path ids message =
     (if hasOwn v field then
        (if \<not> isNonEmptyString (property v field) then [(path @ ''.'' @ field, ''must be a non-empty string'')]
         else issueIf (property v field \<notin> set ids) (path @ ''.'' @ field) message)
      else [])"

definition validateResolution :: "(string \<Rightarrow> int option) \<Rightarrow> jsvalue \<Rightarrow> string \<Rightarrow> jsvalue list \<Rightarrow> issue list" where
  "validateResolution dp v path conflictEvidenceIds =
     (if \<not> isRecord v then [(path, ''must be an object'')]
      else rejectUnknown v path [''strategy'', ''resolvedAt'', ''selectedEvidenceId'', ''note''] @
        issueIf (\<not> isOneOf resolutionStrategies (property v ''strategy''))
          (path @ ''.strategy'') ''must be a supported conflict resolution strategy'' @
        issueIf (\<not> isDateTime dp (property v ''resolvedAt'')) (path @ ''.resolvedAt'') ''must be an ISO date-time string'' @
        evidenceReference v ''selectedEvidenceId'' path conflictEvidenceIds ''must reference evidence in the conflict'' @
        issueIf (hasOwn v ''note'' \<and> \<not> isNonEmptyString (property v ''note'')) (path @ ''.note'') ''must be a non-empty string'')"

definition textOf :: "jsvalue \<Rightarrow> string" where
  "textOf v = (case v of JStr s \<Rightarrow> s | _ \<Rightarrow> [])"

definition validateConflict :: "(string \<Rightarrow> int option) \<Rightarrow> jsvalue \<Rightarrow> string \<Rightarrow> jsvalue list \<Rightarrow> issue list" where
  "validateConflict dp v path evidenceIds =
     (if \<not> isRecord v then [(path, ''must be an object'')]
      else
        (let ids = arrayItems (property v ''evidenceIds'');
             malformed = (\<not> isTextArray (property v ''evidenceIds'') \<or> length ids < 2);
             status = property v ''status''
         in
         rejectUnknown v path [''conflictId'', ''evidenceIds'', ''status'', ''resolution''] @
         issueIf (\<not> isNonEmptyString (property v ''conflictId'')) (path @ ''.conflictId'') ''must be a non-empty string'' @
         (if malformed then [(path @ ''.evidenceIds'', ''must contain at least two non-empty evidence ids'')]
          else
            issueIf (length (unique ids) \<noteq> length ids) (path @ ''.evidenceIds'') ''must not contain duplicate evidence ids'' @
            concat (map (\<lambda>i. issueIf (i \<notin> set evidenceIds) (path @ ''.evidenceIds'')
              (''references unknown evidence '' @ textOf i)) ids)) @
         issueIf (\<not> isOneOf [''OPEN'', ''RESOLVED''] status) (path @ ''.status'') ''must be OPEN or RESOLVED'' @
         issueIf (status = JStr ''OPEN'' \<and> hasOwn v ''resolution'')
           (path @ ''.resolution'') ''is not allowed for an OPEN conflict'' @
         issueIf (status = JStr ''RESOLVED'' \<and> \<not> hasOwn v ''resolution'')
           (path @ ''.resolution'') ''is required for a RESOLVED conflict'' @
         (if hasOwn v ''resolution'' then
            validateResolution dp (property v ''resolution'') (path @ ''.resolution'') (if malformed then [] else unique ids)
          else [])))"

definition validateSignature :: "(string \<Rightarrow> int option) \<Rightarrow> jsvalue \<Rightarrow> string \<Rightarrow> jsvalue list \<Rightarrow> issue list" where
  "validateSignature dp v path evidenceIds =
     (if \<not> isRecord v then [(path, ''must be an object'')]
      else rejectUnknown v path [''signatureId'', ''signerId'', ''keyId'', ''algorithm'', ''value'', ''signedAt'', ''evidenceId''] @
        concat (map (\<lambda>f. issueIf (\<not> isNonEmptyString (property v f)) (path @ ''.'' @ f) ''must be a non-empty string'')
          [''signatureId'', ''signerId'', ''keyId'', ''value'']) @
        issueIf (property v ''algorithm'' \<noteq> JStr ''ed25519'') (path @ ''.algorithm'') ''must equal ed25519'' @
        issueIf (\<not> isDateTime dp (property v ''signedAt'')) (path @ ''.signedAt'') ''must be an ISO date-time string'' @
        evidenceReference v ''evidenceId'' path evidenceIds ''must reference evidence in this envelope'')"

section \<open>Envelopes\<close>

text \<open>
  The three arrays of identified parts are walked alike: validate the part, then, if it has a
  non-empty id, report an id seen before and remember it. The ids seen are the second result.
\<close>

fun validateParts ::
  "(jsvalue \<Rightarrow> string \<Rightarrow> issue list) \<Rightarrow> string \<Rightarrow> string \<Rightarrow> nat \<Rightarrow> jsvalue list \<Rightarrow> jsvalue list
     \<Rightarrow> issue list \<times> jsvalue list" where
  "validateParts validate path idField i seen [] = ([], seen)"
| "validateParts validate path idField i seen (part # parts) =
     (let here = itemPath path i;
          identifier = property part idField;
          identified = (isRecord part \<and> isNonEmptyString identifier);
          own = validate part here @
            issueIf (identified \<and> identifier \<in> set seen) (here @ ''.'' @ idField) ''must be unique in the envelope''
      in case validateParts validate path idField (Suc i)
           (if identified \<and> identifier \<notin> set seen then seen @ [identifier] else seen) parts of
        (issues, seen') \<Rightarrow> (own @ issues, seen'))"

definition validateMemoryEnvelopeV2 :: "(string \<Rightarrow> int option) \<Rightarrow> jsvalue \<Rightarrow> issue list" where
  "validateMemoryEnvelopeV2 dp v =
     (if \<not> isRecord v then [(''$'', ''must be an object'')]
      else
        (let evidence = property v ''evidence''; conflicts = property v ''conflicts'';
             validity = property v ''validity''; dependsOn = property v ''dependsOn'';
             signatures = property v ''signatures'';
             evidenceRun = validateParts (validateEvidence dp) ''$.evidence'' ''evidenceId'' 0 [] (arrayItems evidence);
             evidenceIds = snd evidenceRun;
             openConflict = list_ex (\<lambda>c. isRecord c \<and> property c ''status'' = JStr ''OPEN'') (arrayItems conflicts);
             dependencyCount = (if isTextArray dependsOn then length (arrayItems dependsOn) else 0)
         in
         rejectUnknown v ''$'' [''specVersion'', ''tenantId'', ''memoryId'', ''contentDigest'', ''evidence'', ''confidence'',
           ''conflicts'', ''temporal'', ''validity'', ''dependsOn'', ''signatures''] @
         issueIf (property v ''specVersion'' \<noteq> JStr ''premise/2'') ''$.specVersion'' ''must equal premise/2'' @
         issueIf (\<not> isTenantId (property v ''tenantId''))
           ''$.tenantId'' ''must be a non-empty tenant id without surrounding whitespace'' @
         issueIf (\<not> isNonEmptyString (property v ''memoryId'')) ''$.memoryId'' ''must be a non-empty string'' @
         issueIf (hasOwn v ''contentDigest'' \<and> \<not> isDigest (property v ''contentDigest''))
           ''$.contentDigest'' ''must use the sha256: digest prefix and a non-empty digest'' @
         (if \<not> isArray evidence then [(''$.evidence'', ''must be an array'')] else fst evidenceRun) @
         validateConfidence dp (property v ''confidence'') ''$.confidence'' @
         (if \<not> isArray conflicts then [(''$.conflicts'', ''must be an array'')]
          else fst (validateParts (\<lambda>c p. validateConflict dp c p evidenceIds) ''$.conflicts'' ''conflictId'' 0 []
            (arrayItems conflicts))) @
         validateTemporal dp (property v ''temporal'') ''$.temporal'' @
         v2_validateValidity dp validity ''$.validity'' @
         issueIf (openConflict \<and> isRecord validity \<and> property validity ''status'' = JStr ''FRESH'')
           ''$.validity.status'' ''cannot be FRESH while a conflict is OPEN'' @
         (if \<not> isTextArray dependsOn then [(''$.dependsOn'', ''must be an array of non-empty memory ids'')]
          else issueIf (length (unique (arrayItems dependsOn)) \<noteq> length (arrayItems dependsOn))
            ''$.dependsOn'' ''must not contain duplicate memory ids'') @
         issueIf (length (arrayItems evidence) = 0 \<and> dependencyCount = 0)
           ''$'' ''must contain evidence or at least one dependency'' @
         (if \<not> isArray signatures then [(''$.signatures'', ''must be an array'')]
          else fst (validateParts (\<lambda>s p. validateSignature dp s p evidenceIds) ''$.signatures'' ''signatureId'' 0 []
            (arrayItems signatures)))))"

definition isMemoryEnvelopeV2 :: "(string \<Rightarrow> int option) \<Rightarrow> jsvalue \<Rightarrow> bool" where
  "isMemoryEnvelopeV2 dp v = (validateMemoryEnvelopeV2 dp v = [])"

definition parseMemoryEnvelopeV2 :: "(string \<Rightarrow> int option) \<Rightarrow> jsvalue \<Rightarrow> issue list + jsvalue" where
  "parseMemoryEnvelopeV2 dp v =
     (let issues = validateMemoryEnvelopeV2 dp v in if issues \<noteq> [] then Inl issues else Inr v)"

section \<open>Operation requests\<close>

definition operationNames :: "string list" where
  "operationNames = [''register'', ''derive'', ''replace'', ''signal'', ''validate'', ''migrate'']"

definition validateV2OperationRequest :: "(string \<Rightarrow> int option) \<Rightarrow> jsvalue \<Rightarrow> issue list" where
  "validateV2OperationRequest dp v =
     (if \<not> isRecord v then [(''$'', ''must be an object'')]
      else
        rejectUnknown v ''$'' [''specVersion'', ''tenantId'', ''operationId'', ''operation'', ''idempotencyKey'',
          ''requestDigest'', ''requestedAt'', ''payload''] @
        issueIf (property v ''specVersion'' \<noteq> JStr ''premise/2'') ''$.specVersion'' ''must equal premise/2'' @
        issueIf (\<not> isTenantId (property v ''tenantId''))
          ''$.tenantId'' ''must be a non-empty tenant id without surrounding whitespace'' @
        issueIf (\<not> isNonEmptyString (property v ''operationId'')) ''$.operationId'' ''must be a non-empty string'' @
        issueIf (\<not> isOneOf operationNames (property v ''operation'')) ''$.operation'' ''must be a supported v2 operation'' @
        issueIf (\<not> isNonEmptyString (property v ''idempotencyKey'')) ''$.idempotencyKey'' ''must be a non-empty string'' @
        issueIf (\<not> isDigest (property v ''requestDigest''))
          ''$.requestDigest'' ''must use the sha256: digest prefix and a non-empty digest'' @
        issueIf (\<not> isDateTime dp (property v ''requestedAt'')) ''$.requestedAt'' ''must be an ISO date-time string'' @
        issueIf (\<not> isRecord (property v ''payload'')) ''$.payload'' ''must be an object'')"

definition parseV2OperationRequest :: "(string \<Rightarrow> int option) \<Rightarrow> jsvalue \<Rightarrow> issue list + jsvalue" where
  "parseV2OperationRequest dp v =
     (let issues = validateV2OperationRequest dp v in if issues \<noteq> [] then Inl issues else Inr v)"

datatype idempotency_decision = NEW | REPLAY | CONFLICT

record idempotency_request =
  iq_tenantId :: string
  iq_operation :: string
  iq_idempotencyKey :: string
  iq_requestDigest :: string

definition classifyIdempotency :: "idempotency_request \<Rightarrow> idempotency_request option \<Rightarrow> idempotency_decision" where
  "classifyIdempotency incoming existing =
     (case existing of None \<Rightarrow> NEW
      | Some e \<Rightarrow>
          if iq_tenantId incoming \<noteq> iq_tenantId e \<or> iq_operation incoming \<noteq> iq_operation e \<or>
             iq_idempotencyKey incoming \<noteq> iq_idempotencyKey e then NEW
          else if iq_requestDigest incoming = iq_requestDigest e then REPLAY else CONFLICT)"

section \<open>Events\<close>

definition eventsWithMemory :: "string list" where
  "eventsWithMemory = [''MemoryRegistered'', ''MemoryDerived'', ''MemoryStaled'', ''MemoryInvalidated'',
     ''MemoryRevalidated'', ''MemoryReplaced'', ''ConflictDetected'', ''ConflictResolved'', ''MemoryMigrated'']"

definition eventTypeNames :: "string list" where
  "eventTypeNames = [''MemoryRegistered'', ''MemoryDerived'', ''SourceChanged'', ''MemoryStaled'', ''MemoryInvalidated'',
     ''MemoryRevalidated'', ''MemoryReplaced'', ''ConflictDetected'', ''ConflictResolved'', ''MemoryMigrated'']"

definition eventFields :: "string list" where
  "eventFields = [''specVersion'', ''tenantId'', ''eventId'', ''operationId'', ''idempotencyKey'', ''requestDigest'',
     ''type'', ''occurredAt'', ''memoryId'', ''payload'']"

definition validateV2Event :: "(string \<Rightarrow> int option) \<Rightarrow> jsvalue \<Rightarrow> issue list" where
  "validateV2Event dp v =
     (if \<not> isRecord v then [(''$'', ''must be an object'')]
      else
        rejectUnknown v ''$'' eventFields @
        issueIf (property v ''specVersion'' \<noteq> JStr ''premise/2'') ''$.specVersion'' ''must equal premise/2'' @
        issueIf (\<not> isTenantId (property v ''tenantId''))
          ''$.tenantId'' ''must be a non-empty tenant id without surrounding whitespace'' @
        issueIf (\<not> isNonEmptyString (property v ''eventId'')) ''$.eventId'' ''must be a non-empty string'' @
        issueIf (\<not> isNonEmptyString (property v ''operationId'')) ''$.operationId'' ''must be a non-empty string'' @
        issueIf (\<not> isNonEmptyString (property v ''idempotencyKey'')) ''$.idempotencyKey'' ''must be a non-empty string'' @
        issueIf (\<not> isDigest (property v ''requestDigest''))
          ''$.requestDigest'' ''must use the sha256: digest prefix and a non-empty digest'' @
        issueIf (\<not> isOneOf eventTypeNames (property v ''type'')) ''$.type'' ''must be a supported v2 event type'' @
        issueIf (\<not> isDateTime dp (property v ''occurredAt'')) ''$.occurredAt'' ''must be an ISO date-time string'' @
        issueIf (hasOwn v ''memoryId'' \<and> \<not> isNonEmptyString (property v ''memoryId''))
          ''$.memoryId'' ''must be a non-empty string when present'' @
        issueIf (isOneOf eventsWithMemory (property v ''type'') \<and> \<not> isNonEmptyString (property v ''memoryId''))
          ''$.memoryId'' ''is required for this event type'' @
        issueIf (\<not> isRecord (property v ''payload'')) ''$.payload'' ''must be an object'')"

definition parseV2Event :: "(string \<Rightarrow> int option) \<Rightarrow> jsvalue \<Rightarrow> issue list + jsvalue" where
  "parseV2Event dp v = (let issues = validateV2Event dp v in if issues \<noteq> [] then Inl issues else Inr v)"

section \<open>Stream events and pages\<close>

definition streamFields :: "string list" where
  "streamFields = [''streamId'', ''sequence'', ''kind'', ''cursor'', ''sourceVersion'']"

text \<open>\<open>{ ...input }\<close> without the stream metadata.\<close>

definition withoutStream :: "jsvalue \<Rightarrow> jsvalue" where
  "withoutStream v = (case v of JObj plain ps \<Rightarrow> JObj True (filter (\<lambda>(k, w). k \<notin> set streamFields) ps) | _ \<Rightarrow> v)"

definition isSequence :: "jsvalue \<Rightarrow> bool" where
  "isSequence v = (case safeInteger v of None \<Rightarrow> False | Some n \<Rightarrow> 0 \<le> n)"

definition validateV2StreamEvent :: "(string \<Rightarrow> int option) \<Rightarrow> jsvalue \<Rightarrow> issue list" where
  "validateV2StreamEvent dp v =
     (if \<not> isRecord v then [(''$'', ''must be an object'')]
      else
        rejectUnknown v ''$'' (eventFields @ streamFields) @
        validateV2Event dp (withoutStream v) @
        issueIf (\<not> isNonEmptyString (property v ''streamId'')) ''$.streamId'' ''must be a non-empty string'' @
        issueIf (\<not> isSequence (property v ''sequence'')) ''$.sequence'' ''must be a non-negative safe integer'' @
        issueIf (\<not> isOneOf [''SNAPSHOT'', ''DELTA''] (property v ''kind'')) ''$.kind'' ''must be SNAPSHOT or DELTA'' @
        issueIf (hasOwn v ''cursor'' \<and> \<not> isNonEmptyString (property v ''cursor''))
          ''$.cursor'' ''must be a non-empty string when present'' @
        (if hasOwn v ''sourceVersion'' then validateVersion (property v ''sourceVersion'') ''$.sourceVersion'' else []))"

definition parseV2StreamEvent :: "(string \<Rightarrow> int option) \<Rightarrow> jsvalue \<Rightarrow> issue list + jsvalue" where
  "parseV2StreamEvent dp v = (let issues = validateV2StreamEvent dp v in if issues \<noteq> [] then Inl issues else Inr v)"

definition relocate :: "string \<Rightarrow> issue \<Rightarrow> issue" where
  "relocate path issue = (path @ (if fst issue = ''$'' then [] else drop 1 (fst issue)), snd issue)"

fun validatePageEvents :: "(string \<Rightarrow> int option) \<Rightarrow> jsvalue \<Rightarrow> nat \<Rightarrow> jsvalue list \<Rightarrow> issue list" where
  "validatePageEvents dp page i [] = []"
| "validatePageEvents dp page i (e # es) =
     map (relocate (itemPath ''$.events'' i)) (validateV2StreamEvent dp e) @
     issueIf (isRecord e \<and> property e ''streamId'' \<noteq> property page ''streamId'')
       (itemPath ''$.events'' i @ ''.streamId'') ''must match page.streamId'' @
     issueIf (isRecord e \<and> property e ''tenantId'' \<noteq> property page ''tenantId'')
       (itemPath ''$.events'' i @ ''.tenantId'') ''must match page.tenantId'' @
     validatePageEvents dp page (Suc i) es"

definition beyondHead :: "jsvalue \<Rightarrow> jsvalue \<Rightarrow> bool" where
  "beyondHead head e = (isRecord e \<and> (case (safeInteger head, safeInteger (property e ''sequence'')) of
     (Some h, Some n) \<Rightarrow> n > h | _ \<Rightarrow> False))"

definition validateV2EventStreamPage :: "(string \<Rightarrow> int option) \<Rightarrow> jsvalue \<Rightarrow> issue list" where
  "validateV2EventStreamPage dp v =
     (if \<not> isRecord v then [(''$'', ''must be an object'')]
      else
        (let events = property v ''events'' in
         rejectUnknown v ''$'' [''specVersion'', ''tenantId'', ''streamId'', ''events'', ''headSequence'', ''nextCursor''] @
         issueIf (property v ''specVersion'' \<noteq> JStr ''premise/2'') ''$.specVersion'' ''must equal premise/2'' @
         issueIf (\<not> isTenantId (property v ''tenantId''))
           ''$.tenantId'' ''must be a non-empty tenant id without surrounding whitespace'' @
         issueIf (\<not> isNonEmptyString (property v ''streamId'')) ''$.streamId'' ''must be a non-empty string'' @
         (if \<not> isArray events then [(''$.events'', ''must be an array'')]
          else validatePageEvents dp v 0 (arrayItems events)) @
         issueIf (\<not> isSequence (property v ''headSequence'')) ''$.headSequence'' ''must be a non-negative safe integer'' @
         issueIf (hasOwn v ''nextCursor'' \<and> \<not> isNonEmptyString (property v ''nextCursor''))
           ''$.nextCursor'' ''must be a non-empty string when present'' @
         issueIf (list_ex (beyondHead (property v ''headSequence'')) (arrayItems events))
           ''$.headSequence'' ''must be at least the greatest event sequence''))"

definition parseV2EventStreamPage :: "(string \<Rightarrow> int option) \<Rightarrow> jsvalue \<Rightarrow> issue list + jsvalue" where
  "parseV2EventStreamPage dp v =
     (let issues = validateV2EventStreamPage dp v in if issues \<noteq> [] then Inl issues else Inr v)"

definition isV2StreamCapability :: "jsvalue \<Rightarrow> bool" where
  "isV2StreamCapability v =
     isOneOf [''ORDERED_EVENTS'', ''AUTHORITATIVE_SNAPSHOT'', ''DELTA_EVENTS'', ''DUPLICATE_SAFE''] v"

section \<open>Migration from premise/0.1\<close>

definition fieldIf :: "bool \<Rightarrow> string \<Rightarrow> jsvalue \<Rightarrow> (string \<times> jsvalue) list" where
  "fieldIf c k v = (if c then [(k, v)] else [])"

definition migrateSource :: "nat \<Rightarrow> jsvalue \<Rightarrow> jsvalue" where
  "migrateSource index source = JObj True
     ([(''evidenceId'', JStr (''v1:'' @ natText (index + 1))),
       (''sourceUri'', property source ''sourceUri''),
       (''observedAt'', property source ''observedAt'')] @
      (let both = (property source ''version'' \<noteq> JUndefined \<and> property source ''validator'' \<noteq> JUndefined) in
       fieldIf both ''version'' (property source ''version'') @ fieldIf both ''validator'' (property source ''validator'')))"

fun migrateSources :: "nat \<Rightarrow> jsvalue list \<Rightarrow> jsvalue list" where
  "migrateSources i [] = []"
| "migrateSources i (s # ss) = migrateSource i s # migrateSources (Suc i) ss"

definition migratedEnvelope :: "jsvalue \<Rightarrow> string \<Rightarrow> jsvalue \<Rightarrow> jsvalue" where
  "migratedEnvelope v1 tenantId migratedAt =
     (let validity = property v1 ''validity''; expiresAt = property validity ''expiresAt'' in
      JObj True
       ([(''specVersion'', JStr ''premise/2''), (''tenantId'', JStr tenantId), (''memoryId'', property v1 ''memoryId'')] @
        fieldIf (property v1 ''contentDigest'' \<noteq> JUndefined) ''contentDigest'' (property v1 ''contentDigest'') @
        [(''evidence'', JArr (migrateSources 0 (arrayItems (property v1 ''provenance'')))),
         (''confidence'', JObj True [(''score'', JNull), (''method'', JStr ''v1-migration''), (''assessedAt'', migratedAt)]),
         (''conflicts'', JArr []),
         (''temporal'', JObj True ([(''asOf'', migratedAt)] @ fieldIf (expiresAt \<noteq> JUndefined) ''validUntil'' expiresAt)),
         (''validity'', JObj True
            ([(''status'', property validity ''status''), (''checkedAt'', property validity ''checkedAt''),
              (''policy'', property validity ''policy'')] @ fieldIf (expiresAt \<noteq> JUndefined) ''expiresAt'' expiresAt)),
         (''dependsOn'', JArr (arrayItems (property v1 ''dependsOn''))),
         (''signatures'', JArr [])]))"

definition migrateV1Envelope ::
  "(string \<Rightarrow> int option) \<Rightarrow> jsvalue \<Rightarrow> jsvalue \<Rightarrow> jsvalue \<Rightarrow> issue list + jsvalue" where
  "migrateV1Envelope dp v tenantId migratedAt =
     (let migrationIssues =
        issueIf (\<not> isTenantId tenantId) ''$.options.tenantId''
          ''is required and must be a non-empty tenant id without surrounding whitespace'' @
        issueIf (migratedAt \<noteq> JUndefined \<and> \<not> isDateTime dp migratedAt)
          ''$.options.migratedAt'' ''must be an ISO date-time string''
      in
      if migrationIssues \<noteq> [] then Inl migrationIssues
      else if validateMemoryEnvelope dp v \<noteq> [] then
        Inl (map (\<lambda>(path, message). (if path = ''$'' then ''$.v1'' else ''$.v1'' @ drop 1 path,
            ''invalid v1 envelope: '' @ message)) (validateMemoryEnvelope dp v))
      else
        (let migrated = migratedEnvelope v (textOf tenantId)
               (if migratedAt = JUndefined then property (property v ''validity'') ''checkedAt'' else migratedAt);
             issues = validateMemoryEnvelopeV2 dp migrated
         in if issues \<noteq> [] then Inl issues else Inr migrated))"

section \<open>Well-formed values\<close>

definition fieldsWithin :: "jsvalue \<Rightarrow> string list \<Rightarrow> bool" where
  "fieldsWithin v allowed = (isRecord v \<and> set (ownKeys v) \<subseteq> set allowed)"

text \<open>An optional property that satisfies a predicate where it is present.\<close>

definition optionalField :: "jsvalue \<Rightarrow> string \<Rightarrow> (jsvalue \<Rightarrow> bool) \<Rightarrow> bool" where
  "optionalField v k P = (hasOwn v k \<longrightarrow> P (property v k))"

definition wfPair :: "string \<Rightarrow> string \<Rightarrow> jsvalue \<Rightarrow> bool" where
  "wfPair a b v = (fieldsWithin v [a, b] \<and> isNonEmptyString (property v a) \<and> isNonEmptyString (property v b))"

definition wfConfidence :: "(string \<Rightarrow> int option) \<Rightarrow> jsvalue \<Rightarrow> bool" where
  "wfConfidence dp v =
     (fieldsWithin v [''score'', ''method'', ''assessedAt'', ''rationale''] \<and>
      hasOwn v ''score'' \<and> (property v ''score'' = JNull \<or> isUnitScore (property v ''score'')) \<and>
      isNonEmptyString (property v ''method'') \<and> optionalField v ''assessedAt'' (isDateTime dp) \<and>
      optionalField v ''rationale'' isNonEmptyString)"

definition wfWindow :: "(string \<Rightarrow> int option) \<Rightarrow> jsvalue \<Rightarrow> bool" where
  "wfWindow dp v =
     (optionalField v ''validFrom'' (isDateTime dp) \<and> optionalField v ''validUntil'' (isDateTime dp) \<and>
      (case (dateOf dp (property v ''validFrom''), dateOf dp (property v ''validUntil'')) of
         (Some a, Some b) \<Rightarrow> a < b | _ \<Rightarrow> True))"

definition wfEvidence :: "(string \<Rightarrow> int option) \<Rightarrow> jsvalue \<Rightarrow> bool" where
  "wfEvidence dp v =
     (fieldsWithin v [''evidenceId'', ''sourceUri'', ''observedAt'', ''validFrom'', ''validUntil'', ''version'',
        ''validator'', ''confidence'', ''kind''] \<and>
      isNonEmptyString (property v ''evidenceId'') \<and> isNonEmptyString (property v ''sourceUri'') \<and>
      isDateTime dp (property v ''observedAt'') \<and> wfWindow dp v \<and>
      (hasOwn v ''version'' \<longleftrightarrow> hasOwn v ''validator'') \<and>
      optionalField v ''version'' (wfPair ''scheme'' ''token'') \<and> optionalField v ''validator'' (wfPair ''id'' ''operation'') \<and>
      optionalField v ''confidence'' (wfConfidence dp) \<and> optionalField v ''kind'' isNonEmptyString)"

definition wfTemporal :: "(string \<Rightarrow> int option) \<Rightarrow> jsvalue \<Rightarrow> bool" where
  "wfTemporal dp v =
     (fieldsWithin v [''asOf'', ''validFrom'', ''validUntil''] \<and> isDateTime dp (property v ''asOf'') \<and> wfWindow dp v)"

definition wfValidityV2 :: "(string \<Rightarrow> int option) \<Rightarrow> jsvalue \<Rightarrow> bool" where
  "wfValidityV2 dp v = (fieldsWithin v [''status'', ''checkedAt'', ''policy'', ''expiresAt''] \<and> wfValidity dp v)"

definition wfResolution :: "(string \<Rightarrow> int option) \<Rightarrow> jsvalue list \<Rightarrow> jsvalue \<Rightarrow> bool" where
  "wfResolution dp ids v =
     (fieldsWithin v [''strategy'', ''resolvedAt'', ''selectedEvidenceId'', ''note''] \<and>
      isOneOf resolutionStrategies (property v ''strategy'') \<and> isDateTime dp (property v ''resolvedAt'') \<and>
      optionalField v ''selectedEvidenceId'' (\<lambda>i. isNonEmptyString i \<and> i \<in> set ids) \<and>
      optionalField v ''note'' isNonEmptyString)"

definition wfConflict :: "(string \<Rightarrow> int option) \<Rightarrow> jsvalue list \<Rightarrow> jsvalue \<Rightarrow> bool" where
  "wfConflict dp evidenceIds v =
     (fieldsWithin v [''conflictId'', ''evidenceIds'', ''status'', ''resolution''] \<and>
      isNonEmptyString (property v ''conflictId'') \<and> isTextArray (property v ''evidenceIds'') \<and>
      2 \<le> length (arrayItems (property v ''evidenceIds'')) \<and> distinct (arrayItems (property v ''evidenceIds'')) \<and>
      set (arrayItems (property v ''evidenceIds'')) \<subseteq> set evidenceIds \<and>
      isOneOf [''OPEN'', ''RESOLVED''] (property v ''status'') \<and>
      (hasOwn v ''resolution'' \<longleftrightarrow> property v ''status'' = JStr ''RESOLVED'') \<and>
      optionalField v ''resolution'' (wfResolution dp (arrayItems (property v ''evidenceIds''))))"

definition wfSignature :: "(string \<Rightarrow> int option) \<Rightarrow> jsvalue list \<Rightarrow> jsvalue \<Rightarrow> bool" where
  "wfSignature dp evidenceIds v =
     (fieldsWithin v [''signatureId'', ''signerId'', ''keyId'', ''algorithm'', ''value'', ''signedAt'', ''evidenceId''] \<and>
      list_all (\<lambda>f. isNonEmptyString (property v f)) [''signatureId'', ''signerId'', ''keyId'', ''value''] \<and>
      property v ''algorithm'' = JStr ''ed25519'' \<and> isDateTime dp (property v ''signedAt'') \<and>
      optionalField v ''evidenceId'' (\<lambda>i. isNonEmptyString i \<and> i \<in> set evidenceIds))"

text \<open>The ids of the parts of an array.\<close>

definition partIds :: "string \<Rightarrow> jsvalue \<Rightarrow> jsvalue list" where
  "partIds f v = map (\<lambda>p. property p f) (arrayItems v)"

definition wfEnvelopeV2 :: "(string \<Rightarrow> int option) \<Rightarrow> jsvalue \<Rightarrow> bool" where
  "wfEnvelopeV2 dp v =
     (let evidence = property v ''evidence''; conflicts = property v ''conflicts'';
          dependsOn = property v ''dependsOn''; signatures = property v ''signatures'';
          ids = partIds ''evidenceId'' evidence
      in
      fieldsWithin v [''specVersion'', ''tenantId'', ''memoryId'', ''contentDigest'', ''evidence'', ''confidence'',
        ''conflicts'', ''temporal'', ''validity'', ''dependsOn'', ''signatures''] \<and>
      property v ''specVersion'' = JStr ''premise/2'' \<and> isTenantId (property v ''tenantId'') \<and>
      isNonEmptyString (property v ''memoryId'') \<and> optionalField v ''contentDigest'' isDigest \<and>
      isArray evidence \<and> list_all (wfEvidence dp) (arrayItems evidence) \<and> distinct ids \<and>
      wfConfidence dp (property v ''confidence'') \<and>
      isArray conflicts \<and> list_all (wfConflict dp ids) (arrayItems conflicts) \<and>
      distinct (partIds ''conflictId'' conflicts) \<and>
      wfTemporal dp (property v ''temporal'') \<and> wfValidityV2 dp (property v ''validity'') \<and>
      \<not> (property (property v ''validity'') ''status'' = JStr ''FRESH'' \<and>
         list_ex (\<lambda>c. property c ''status'' = JStr ''OPEN'') (arrayItems conflicts)) \<and>
      isTextArray dependsOn \<and> distinct (arrayItems dependsOn) \<and>
      (arrayItems evidence \<noteq> [] \<or> arrayItems dependsOn \<noteq> []) \<and>
      isArray signatures \<and> list_all (wfSignature dp ids) (arrayItems signatures) \<and>
      distinct (partIds ''signatureId'' signatures))"

lemma validateVersion_Nil: "validateVersion v p = [] \<longleftrightarrow> wfPair ''scheme'' ''token'' v"
  by (auto simp: validateVersion_def wfPair_def fieldsWithin_def)

lemma validateValidator_Nil: "validateValidator v p = [] \<longleftrightarrow> wfPair ''id'' ''operation'' v"
  by (auto simp: validateValidator_def wfPair_def fieldsWithin_def)

lemma validateConfidence_Nil: "validateConfidence dp v p = [] \<longleftrightarrow> wfConfidence dp v"
  by (auto simp: validateConfidence_def wfConfidence_def fieldsWithin_def optionalField_def)

lemma validateWindow_Nil: "validateWindow dp v p = [] \<longleftrightarrow> wfWindow dp v"
  by (auto simp: validateWindow_def wfWindow_def optionalField_def Let_def isDateTime_dateOf split: option.splits)

lemma validateEvidence_Nil: "validateEvidence dp v p = [] \<longleftrightarrow> wfEvidence dp v"
  by (auto simp: validateEvidence_def wfEvidence_def fieldsWithin_def optionalField_def validateWindow_Nil
      validateVersion_Nil validateValidator_Nil validateConfidence_Nil)

lemma validateTemporal_Nil: "validateTemporal dp v p = [] \<longleftrightarrow> wfTemporal dp v"
  by (auto simp: validateTemporal_def wfTemporal_def fieldsWithin_def validateWindow_Nil)

lemma v2_validateValidity_Nil: "v2_validateValidity dp v p = [] \<longleftrightarrow> wfValidityV2 dp v"
  by (auto simp: v2_validateValidity_def wfValidityV2_def fieldsWithin_def validateValidity_Nil)

lemma evidenceReference_Nil:
  "evidenceReference v f p ids m = [] \<longleftrightarrow> optionalField v f (\<lambda>i. isNonEmptyString i \<and> i \<in> set ids)"
  by (auto simp: evidenceReference_def optionalField_def)

lemma validateResolution_Nil: "validateResolution dp v p ids = [] \<longleftrightarrow> wfResolution dp ids v"
  by (auto simp: validateResolution_def wfResolution_def fieldsWithin_def evidenceReference_Nil optionalField_def)

lemma wfResolution_cong: "set ids = set ids' \<Longrightarrow> wfResolution dp ids v = wfResolution dp ids' v"
  by (simp add: wfResolution_def)

lemma validateConflict_Nil: "validateConflict dp v p ids = [] \<longleftrightarrow> wfConflict dp ids v"
proof (cases "isRecord v \<and> isTextArray (property v ''evidenceIds'') \<and> 2 \<le> length (arrayItems (property v ''evidenceIds''))")
  case False
  then show ?thesis by (auto simp: validateConflict_def wfConflict_def fieldsWithin_def Let_def)
next
  case True
  have uniq: "wfResolution dp (unique vs) w = wfResolution dp vs w" for vs w
    by (rule wfResolution_cong) simp
  have unknown: "concat (map (\<lambda>i. issueIf (i \<notin> S) q (m i)) vs) = [] \<longleftrightarrow> set vs \<subseteq> S" for S q m and vs :: "jsvalue list"
    by (induction vs) auto
  have status: "isOneOf [''OPEN'', ''RESOLVED''] w \<longleftrightarrow> w = JStr ''OPEN'' \<or> w = JStr ''RESOLVED''" for w
    by (cases w) (auto simp: isOneOf_def)
  show ?thesis
    using True unfolding validateConflict_def wfConflict_def Let_def
    by (auto simp: fieldsWithin_def unknown status length_unique_iff validateResolution_Nil uniq optionalField_def)
qed

lemma validateSignature_Nil: "validateSignature dp v p ids = [] \<longleftrightarrow> wfSignature dp ids v"
  by (auto simp: validateSignature_def wfSignature_def fieldsWithin_def evidenceReference_Nil)

lemma validateParts_spec:
  assumes "\<And>part p. validate part p = [] \<longleftrightarrow> P part"
    and "\<And>part. P part \<Longrightarrow> isRecord part \<and> isNonEmptyString (property part f)"
  shows "fst (validateParts validate path f i seen parts) = [] \<longleftrightarrow>
      list_all P parts \<and> distinct (map (\<lambda>p. property p f) parts) \<and> (\<forall>p \<in> set parts. property p f \<notin> set seen)"
    and "list_all P parts \<Longrightarrow>
      set (snd (validateParts validate path f i seen parts)) = set seen \<union> set (map (\<lambda>p. property p f) parts)"
proof (induction parts arbitrary: i seen)
  case (Cons part parts)
  {
    case 1
    show ?case
    proof (cases "P part")
      case False
      then show ?thesis using assms(1) by (auto simp: Let_def split: prod.splits)
    next
      case True
      with assms(2) have id: "isRecord part \<and> isNonEmptyString (property part f)" by blast
      show ?thesis
        using Cons.IH(1) [of "Suc i" "seen @ [property part f]"] True id assms(1)
        by (auto simp: Let_def image_iff split: prod.splits)
    qed
  next
    case 2
    then have "P part" by simp
    with assms(2) have id: "isRecord part \<and> isNonEmptyString (property part f)" by blast
    show ?case
      using Cons.IH(2) [of "Suc i" "seen @ [property part f]"] Cons.IH(2) [of "Suc i" seen] 2 id
      by (auto simp: Let_def split: prod.splits)
  }
qed simp_all

lemma wf_part_ids:
  "wfEvidence dp p \<Longrightarrow> isRecord p \<and> isNonEmptyString (property p ''evidenceId'')"
  "wfConflict dp ids p \<Longrightarrow> isRecord p \<and> isNonEmptyString (property p ''conflictId'')"
  "wfSignature dp ids p \<Longrightarrow> isRecord p \<and> isNonEmptyString (property p ''signatureId'')"
  by (simp_all add: wfEvidence_def wfConflict_def wfSignature_def fieldsWithin_def)

lemmas evidence_parts = validateParts_spec [OF validateEvidence_Nil wf_part_ids(1)]

lemma conflict_parts:
  "fst (validateParts (\<lambda>c p. validateConflict dp c p ids) path ''conflictId'' i seen cs) = [] \<longleftrightarrow>
     list_all (wfConflict dp ids) cs \<and> distinct (map (\<lambda>p. property p ''conflictId'') cs) \<and>
     (\<forall>p \<in> set cs. property p ''conflictId'' \<notin> set seen)"
  by (rule validateParts_spec(1) [OF validateConflict_Nil wf_part_ids(2)])

lemma signature_parts:
  "fst (validateParts (\<lambda>s p. validateSignature dp s p ids) path ''signatureId'' i seen ss) = [] \<longleftrightarrow>
     list_all (wfSignature dp ids) ss \<and> distinct (map (\<lambda>p. property p ''signatureId'') ss) \<and>
     (\<forall>p \<in> set ss. property p ''signatureId'' \<notin> set seen)"
  by (rule validateParts_spec(1) [OF validateSignature_Nil wf_part_ids(3)])

lemma validateMemoryEnvelopeV2_Nil: "validateMemoryEnvelopeV2 dp v = [] \<longleftrightarrow> wfEnvelopeV2 dp v"
proof (cases "isRecord v \<and> list_all (wfEvidence dp) (arrayItems (property v ''evidence''))")
  case False
  have "fst (validateParts (validateEvidence dp) p f 0 [] es) \<noteq> []" if "\<not> list_all (wfEvidence dp) es" for p f es
  proof -
    have "validateParts (validateEvidence dp) p f i seen es = (iss, r) \<Longrightarrow> iss = [] \<Longrightarrow> list_all (wfEvidence dp) es"
      for i seen iss r
      by (induction es arbitrary: i seen iss r) (auto simp: Let_def validateEvidence_Nil split: prod.splits)
    with that show ?thesis by (metis prod.collapse)
  qed
  moreover have "isArray (property v ''evidence'')" if "\<not> list_all (wfEvidence dp) (arrayItems (property v ''evidence''))"
    using that by (cases "property v ''evidence''") auto
  ultimately show ?thesis
    using False by (auto simp: validateMemoryEnvelopeV2_def wfEnvelopeV2_def fieldsWithin_def Let_def)
next
  case True
  let ?evidence = "arrayItems (property v ''evidence'')"
  let ?ids = "snd (validateParts (validateEvidence dp) ''$.evidence'' ''evidenceId'' 0 [] ?evidence)"
  have ids: "set ?ids = set (partIds ''evidenceId'' (property v ''evidence''))"
    using evidence_parts(2) True by (simp add: partIds_def)
  have evidence: "fst (validateParts (validateEvidence dp) ''$.evidence'' ''evidenceId'' 0 [] ?evidence) = [] \<longleftrightarrow>
      distinct (partIds ''evidenceId'' (property v ''evidence''))"
    using evidence_parts(1) True by (simp add: partIds_def)
  have conflicts: "fst (validateParts (\<lambda>c p. validateConflict dp c p ?ids) ''$.conflicts'' ''conflictId'' 0 [] cs) = [] \<longleftrightarrow>
      list_all (wfConflict dp (partIds ''evidenceId'' (property v ''evidence''))) cs \<and>
      distinct (map (\<lambda>p. property p ''conflictId'') cs)" for cs
  proof -
    have "wfConflict dp ?ids = wfConflict dp (partIds ''evidenceId'' (property v ''evidence''))"
      using ids by (simp add: wfConflict_def fun_eq_iff)
    then show ?thesis using conflict_parts [of dp ?ids _ _ "[]" cs] by simp
  qed
  have signatures: "fst (validateParts (\<lambda>s p. validateSignature dp s p ?ids) ''$.signatures'' ''signatureId'' 0 [] ss) = [] \<longleftrightarrow>
      list_all (wfSignature dp (partIds ''evidenceId'' (property v ''evidence''))) ss \<and>
      distinct (map (\<lambda>p. property p ''signatureId'') ss)" for ss
  proof -
    have "wfSignature dp ?ids = wfSignature dp (partIds ''evidenceId'' (property v ''evidence''))"
      using ids by (simp add: wfSignature_def fun_eq_iff)
    then show ?thesis using signature_parts [of dp ?ids _ _ "[]" ss] by simp
  qed
  have records: "list_all (wfConflict dp ids) cs \<Longrightarrow>
      list_ex (\<lambda>c. isRecord c \<and> property c ''status'' = JStr ''OPEN'') cs \<longleftrightarrow>
      list_ex (\<lambda>c. property c ''status'' = JStr ''OPEN'') cs" for ids cs
    by (induction cs) (auto simp: wfConflict_def fieldsWithin_def)
  have validity: "wfValidityV2 dp w \<Longrightarrow> isRecord w" for w by (simp add: wfValidityV2_def fieldsWithin_def)
  have "fst (validateParts (\<lambda>c p. validateConflict dp c p ?ids) ''$.conflicts'' ''conflictId'' 0 [] cs) = [] \<Longrightarrow>
      list_ex (\<lambda>c. isRecord c \<and> property c ''status'' = JStr ''OPEN'') cs \<longleftrightarrow>
      list_ex (\<lambda>c. property c ''status'' = JStr ''OPEN'') cs" for cs
    using conflicts records by blast
  then show ?thesis
    using True validity evidence conflicts signatures
    unfolding validateMemoryEnvelopeV2_def wfEnvelopeV2_def Let_def
    by (simp add: fieldsWithin_def optionalField_def validateConfidence_Nil validateTemporal_Nil
        v2_validateValidity_Nil length_unique_iff) (auto simp: partIds_def)
qed

section \<open>Decimal texts are injective\<close>

fun decimalValue :: "nat \<Rightarrow> string \<Rightarrow> nat" where
  "decimalValue n [] = n"
| "decimalValue n (c # cs) = decimalValue (10 * n + (of_char c - 48)) cs"

lemma decimalValue_append: "decimalValue n (s @ t) = decimalValue (decimalValue n s) t"
  by (induction s arbitrary: n) auto

lemma of_char_digit: "d < 10 \<Longrightarrow> (of_char (char_of (48 + d :: nat)) :: nat) = 48 + d"
  by (simp add: of_char_of)

lemma decimalValue_natText: "decimalValue 0 (natText n) = n"
proof (induction n rule: natText.induct)
  case (1 n)
  have digit: "(of_char (char_of (48 + d :: nat)) :: nat) - 48 = d" if "d < 10" for d
    using of_char_digit [OF that] by simp
  show ?case
  proof (cases "n < 10")
    case True
    then show ?thesis using digit [OF True] by (simp add: natText.simps [of n])
  next
    case False
    then show ?thesis
      using 1 digit [of "n mod 10"] by (simp add: natText.simps [of n] decimalValue_append)
  qed
qed

lemma natText_inject [simp]: "natText m = natText n \<longleftrightarrow> m = n"
  by (metis decimalValue_natText)

section \<open>Migration\<close>

lemma arrayItems_migrateSources: "migrateSources i ss = [] \<longleftrightarrow> ss = []"
  by (cases ss) auto

text \<open>What v1 leaves open and v2 forbids: other properties in a version or a validator.\<close>

definition plainReferences :: "jsvalue \<Rightarrow> bool" where
  "plainReferences v1 = list_all (\<lambda>s.
     optionalField s ''version'' (\<lambda>w. fieldsWithin w [''scheme'', ''token'']) \<and>
     optionalField s ''validator'' (\<lambda>w. fieldsWithin w [''id'', ''operation'']))
     (arrayItems (property v1 ''provenance''))"

lemma property_absent: "\<not> hasOwn v k \<Longrightarrow> property v k = JUndefined"
  by (cases v) (auto simp: hasOwn_def ownKeys_def property_def nullish_def dest!: map_of_SomeD intro: rev_image_eqI
      split: option.splits)

lemma property_JObj: "property (JObj p ps) k = nullish (map_of ps k) JUndefined"
  by (simp add: property_def)

lemma hasOwn_JObj: "hasOwn (JObj p ps) k \<longleftrightarrow> k \<in> fst ` set ps"
  by (simp add: hasOwn_def ownKeys_def)

lemma ownKeys_JObj [simp]: "ownKeys (JObj p ps) = map fst ps"
  by (simp add: ownKeys_def)

lemmas object_simps = property_JObj hasOwn_JObj fieldIf_def

lemma defined_version:
  assumes "wfV1Source dp validity s"
  shows "property s ''version'' \<noteq> JUndefined \<longleftrightarrow> hasOwn s ''version''"
    and "property s ''validator'' \<noteq> JUndefined \<longleftrightarrow> hasOwn s ''version''"
proof -
  have "isRecord w \<Longrightarrow> w \<noteq> JUndefined" for w by auto
  with assms show "property s ''version'' \<noteq> JUndefined \<longleftrightarrow> hasOwn s ''version''"
    "property s ''validator'' \<noteq> JUndefined \<longleftrightarrow> hasOwn s ''version''"
    using property_absent [of s] by (auto simp: wfV1Source_def wfV1Pair_def)
qed

lemma wfEvidence_migrated:
  assumes "wfV1Source dp validity s"
    and "optionalField s ''version'' (\<lambda>w. fieldsWithin w [''scheme'', ''token''])"
    and "optionalField s ''validator'' (\<lambda>w. fieldsWithin w [''id'', ''operation''])"
  shows "wfEvidence dp (migrateSource i s)"
proof (cases "hasOwn s ''version''")
  case False
  with assms(1) defined_version [OF assms(1)] show ?thesis
    by (simp add: migrateSource_def wfEvidence_def fieldsWithin_def wfWindow_def optionalField_def object_simps Let_def
        wfV1Source_def dateOf_def)
next
  case True
  with assms have "wfPair ''scheme'' ''token'' (property s ''version'')" "wfPair ''id'' ''operation'' (property s ''validator'')"
    by (auto simp: wfV1Source_def wfV1Pair_def wfPair_def optionalField_def)
  with True assms(1) defined_version [OF assms(1)] show ?thesis
    by (simp add: migrateSource_def wfEvidence_def fieldsWithin_def wfWindow_def optionalField_def object_simps Let_def
        wfV1Source_def dateOf_def)
qed

lemma migratedIds:
  "map (\<lambda>p. property p ''evidenceId'') (migrateSources i ss) = map (\<lambda>j. JStr (''v1:'' @ natText (j + 1))) [i..<i + length ss]"
proof (induction ss arbitrary: i)
  case (Cons s ss)
  have "[i..<i + length (s # ss)] = i # [Suc i..<Suc i + length ss]"
    by (simp add: upt_rec)
  with Cons [of "Suc i"] show ?case by (simp add: migrateSource_def object_simps)
qed simp

lemma migratedEvidence:
  assumes "list_all (wfV1Source dp validity) ss"
    and "list_all (\<lambda>s. optionalField s ''version'' (\<lambda>w. fieldsWithin w [''scheme'', ''token'']) \<and>
     optionalField s ''validator'' (\<lambda>w. fieldsWithin w [''id'', ''operation''])) ss"
  shows "list_all (wfEvidence dp) (migrateSources i ss)"
    and "distinct (map (\<lambda>p. property p ''evidenceId'') (migrateSources i ss))"
proof -
  show "list_all (wfEvidence dp) (migrateSources i ss)"
    using assms by (induction ss arbitrary: i) (auto intro: wfEvidence_migrated)
  show "distinct (map (\<lambda>p. property p ''evidenceId'') (migrateSources i ss))"
    unfolding migratedIds by (simp add: distinct_map inj_on_def)
qed

lemma wfEnvelope_migrated:
  assumes v1: "wfV1Envelope dp v" and "plainReferences v" and "validText tenant" and "isDateTime dp stamp"
  shows "wfEnvelopeV2 dp (migratedEnvelope v tenant stamp)"
proof -
  let ?validity = "property v ''validity''" and ?sources = "arrayItems (property v ''provenance'')"
  have validity: "wfValidity dp ?validity" using v1 by (simp add: wfV1Envelope_def)
  have expires: "property ?validity ''expiresAt'' = JUndefined \<or> isDateTime dp (property ?validity ''expiresAt'')"
    and ttl: "property ?validity ''policy'' = JStr ''TTL'' \<longleftrightarrow> property ?validity ''expiresAt'' \<noteq> JUndefined"
    using validity property_absent [of ?validity "''expiresAt''"] by (auto simp: wfValidity_def split: if_splits)
  have sources: "list_all (wfV1Source dp ?validity) ?sources"
    using v1 property_absent [of v "''provenance''"] by (cases "hasOwn v ''provenance''") (auto simp: wfV1Envelope_def)
  note evidence = migratedEvidence [OF sources assms(2) [unfolded plainReferences_def], of 0]
  have digest: "property v ''contentDigest'' \<noteq> JUndefined \<longrightarrow> isDigest (property v ''contentDigest'')"
    using v1 property_absent [of v "''contentDigest''"] by (auto simp: wfV1Envelope_def)
  have temporal: "wfTemporal dp (JObj True ([(''asOf'', stamp)] @
      fieldIf (property ?validity ''expiresAt'' \<noteq> JUndefined) ''validUntil'' (property ?validity ''expiresAt'')))"
    using expires assms(4)
    by (auto simp: wfTemporal_def fieldsWithin_def wfWindow_def optionalField_def object_simps dateOf_def [of dp JUndefined])
  have wfval: "wfValidityV2 dp (JObj True ([(''status'', property ?validity ''status''),
      (''checkedAt'', property ?validity ''checkedAt''), (''policy'', property ?validity ''policy'')] @
      fieldIf (property ?validity ''expiresAt'' \<noteq> JUndefined) ''expiresAt'' (property ?validity ''expiresAt'')))"
    using expires ttl validity
    by (auto simp: wfValidityV2_def wfValidity_def fieldsWithin_def object_simps)
  have confidence: "wfConfidence dp (JObj True [(''score'', JNull), (''method'', JStr ''v1-migration''), (''assessedAt'', stamp)])"
    using assms(4) by (simp add: wfConfidence_def fieldsWithin_def optionalField_def object_simps)
  have rest: "isTextArray (JArr (arrayItems (property v ''dependsOn'')))" "distinct (arrayItems (property v ''dependsOn''))"
    "?sources \<noteq> [] \<or> arrayItems (property v ''dependsOn'') \<noteq> []" "isNonEmptyString (property v ''memoryId'')"
    using v1 by (auto simp: wfV1Envelope_def isTextArray_def)
  show ?thesis
    using evidence digest temporal wfval confidence rest assms(3)
    unfolding wfEnvelopeV2_def migratedEnvelope_def Let_def
    by (simp add: fieldsWithin_def optionalField_def property_JObj hasOwn_JObj partIds_def arrayItems_migrateSources
        fieldIf_def [of _ "''contentDigest''"] del: append.simps(2))
qed

section \<open>Properties\<close>

text \<open>
  C38: The v2 envelope parser accepts exactly the well-formed envelopes and returns its input
  unchanged: only permitted fields, evidence, conflict and signature ids unique, every reference
  from a conflict, a resolution or a signature resolved, validity windows ordered, an expiry
  exactly for the TTL policy, evidence or a dependency present, and no FRESH status while a
  conflict is OPEN.
\<close>

theorem envelope_accepted_iff:
  "parseMemoryEnvelopeV2 dp v = Inr w \<longleftrightarrow> w = v \<and> wfEnvelopeV2 dp v"
  by (auto simp: parseMemoryEnvelopeV2_def Let_def validateMemoryEnvelopeV2_Nil)

lemma relocate_Nil [simp]: "map (relocate p) issues = [] \<longleftrightarrow> issues = []"
  by simp

lemma streamEvent_record: "validateV2StreamEvent dp e = [] \<Longrightarrow> isRecord e"
  by (cases "isRecord e") (simp_all add: validateV2StreamEvent_def)

lemma validatePageEvents_Nil:
  "validatePageEvents dp page i es = [] \<Longrightarrow> e \<in> set es \<Longrightarrow>
     validateV2StreamEvent dp e = [] \<and> isRecord e \<and> property e ''streamId'' = property page ''streamId'' \<and>
     property e ''tenantId'' = property page ''tenantId''"
  using streamEvent_record by (induction es arbitrary: i) auto

lemma streamEvent_base:
  assumes "validateV2StreamEvent dp e = []"
  shows "validateV2Event dp (withoutStream e) = [] \<and> isNonEmptyString (property e ''streamId'') \<and>
     isSequence (property e ''sequence'') \<and> (property e ''kind'' = JStr ''SNAPSHOT'' \<or> property e ''kind'' = JStr ''DELTA'')"
proof -
  have "isOneOf [''SNAPSHOT'', ''DELTA''] w \<Longrightarrow> w = JStr ''SNAPSHOT'' \<or> w = JStr ''DELTA''" for w
    by (cases w) (auto simp: isOneOf_def)
  with assms show ?thesis by (auto simp: validateV2StreamEvent_def split: if_splits)
qed

text \<open>
  C39: A page that parses can be applied event by event: each of its events is a valid event of
  the page's stream and tenant once its stream metadata is removed, carries a known kind, and
  has a sequence number between zero and the page's head.
\<close>

theorem accepted_page_events:
  assumes "parseV2EventStreamPage dp page = Inr p" and "e \<in> set (arrayItems (property page ''events''))"
  shows "p = page \<and> parseV2StreamEvent dp e = Inr e \<and> parseV2Event dp (withoutStream e) = Inr (withoutStream e) \<and>
    property e ''streamId'' = property page ''streamId'' \<and> property e ''tenantId'' = property page ''tenantId'' \<and>
    (property e ''kind'' = JStr ''SNAPSHOT'' \<or> property e ''kind'' = JStr ''DELTA'') \<and>
    (\<exists>n h. safeInteger (property e ''sequence'') = Some n \<and> safeInteger (property page ''headSequence'') = Some h \<and>
       0 \<le> n \<and> n \<le> h)"
proof -
  have page: "validateV2EventStreamPage dp page = []" "p = page"
    using assms(1) by (auto simp: parseV2EventStreamPage_def Let_def split: if_splits)
  then have events: "isArray (property page ''events'')"
    "validatePageEvents dp page 0 (arrayItems (property page ''events'')) = []"
    and head: "isSequence (property page ''headSequence'')"
    and beyond: "\<not> list_ex (beyondHead (property page ''headSequence'')) (arrayItems (property page ''events''))"
    by (auto simp: validateV2EventStreamPage_def Let_def split: if_splits)
  from validatePageEvents_Nil [OF events(2) assms(2)]
  have e: "validateV2StreamEvent dp e = []" "isRecord e" "property e ''streamId'' = property page ''streamId''"
    "property e ''tenantId'' = property page ''tenantId''" by auto
  note base = streamEvent_base [OF e(1)]
  obtain n where n: "safeInteger (property e ''sequence'') = Some n" "0 \<le> n"
    using base by (auto simp: isSequence_def split: option.splits)
  obtain h where h: "safeInteger (property page ''headSequence'') = Some h"
    using head by (auto simp: isSequence_def split: option.splits)
  have "n \<le> h" using beyond assms(2) e(2) n(1) h by (auto simp: list_ex_iff beyondHead_def)
  then show ?thesis
    using page(2) e base n h by (auto simp: parseV2StreamEvent_def parseV2Event_def Let_def)
qed

definition sampleDates :: "string \<Rightarrow> int option" where
  "sampleDates s = Some (int (length s))"

definition sampleStreamEvent :: jsvalue where
  "sampleStreamEvent = JObj True
     [(''specVersion'', JStr ''premise/2''), (''tenantId'', JStr ''t''), (''eventId'', JStr ''e''), (''operationId'', JStr ''o''),
      (''idempotencyKey'', JStr ''k''), (''requestDigest'', JStr ''sha256:d''), (''type'', JStr ''SourceChanged''),
      (''occurredAt'', JStr ''2024-01-02T03:04:05.678Z''), (''payload'', JObj True []), (''streamId'', JStr ''s''),
      (''sequence'', JNum (Finite 4)), (''kind'', JStr ''SNAPSHOT'')]"

definition samplePage :: jsvalue where
  "samplePage = JObj True
     [(''specVersion'', JStr ''premise/2''), (''tenantId'', JStr ''t''), (''streamId'', JStr ''s''),
      (''events'', JArr [sampleStreamEvent]), (''headSequence'', JNum (Finite 4))]"

theorem accepted_page_events_witness:
  "parseV2Event sampleDates (withoutStream sampleStreamEvent) = Inr (withoutStream sampleStreamEvent)"
proof -
  have "validateV2EventStreamPage sampleDates samplePage = []" by code_simp
  then have p: "parseV2EventStreamPage sampleDates samplePage = Inr samplePage"
    by (simp add: parseV2EventStreamPage_def)
  have e: "sampleStreamEvent \<in> set (arrayItems (property samplePage ''events''))" by code_simp
  from accepted_page_events [OF p e] show ?thesis by blast
qed

text \<open>
  Migration is total on the envelopes it should accept: a valid \<open>premise/0.1\<close> envelope
  whose version and validator objects have no other properties migrates, for every tenant id and
  date the options may hold, to an envelope the v2 parser accepts, with the same memory id,
  dependencies, validity status and one piece of evidence per source.
\<close>

theorem migration_total:
  assumes "parseMemoryEnvelope dp v = Inr w" and "plainReferences v"
    and "isTenantId tenant" and "migratedAt = JUndefined \<or> isDateTime dp migratedAt"
  shows "\<exists>m. migrateV1Envelope dp v tenant migratedAt = Inr m \<and> parseMemoryEnvelopeV2 dp m = Inr m \<and>
    property m ''tenantId'' = tenant \<and> property m ''memoryId'' = property v ''memoryId'' \<and>
    arrayItems (property m ''dependsOn'') = arrayItems (property v ''dependsOn'') \<and>
    property (property m ''validity'') ''status'' = property (property v ''validity'') ''status'' \<and>
    length (arrayItems (property m ''evidence'')) = length (arrayItems (property v ''provenance''))"
proof -
  have v1: "validateMemoryEnvelope dp v = []"
    using assms(1) by (auto simp: parseMemoryEnvelope_def Let_def split: if_splits)
  then have wf: "wfV1Envelope dp v" by (simp add: validateMemoryEnvelope_Nil)
  obtain t where t: "tenant = JStr t" "validText t"
    using assms(3) by (cases tenant) (auto simp: isTenantId_def validText_def)
  let ?at = "if migratedAt = JUndefined then property (property v ''validity'') ''checkedAt'' else migratedAt"
  let ?m = "migratedEnvelope v t ?at"
  have "isDateTime dp ?at"
    using assms(4) wf by (auto simp: wfV1Envelope_def wfValidity_def)
  from wfEnvelope_migrated [OF wf assms(2) t(2) this]
  have m: "validateMemoryEnvelopeV2 dp ?m = []" by (simp add: validateMemoryEnvelopeV2_Nil)
  have "length (migrateSources i ss) = length ss" for i ss by (induction ss arbitrary: i) auto
  moreover have "migrateV1Envelope dp v tenant migratedAt = Inr ?m"
    using v1 m t assms(3,4) by (auto simp: migrateV1Envelope_def Let_def textOf_def issueIf_def)
  ultimately show ?thesis
    using m t by (intro exI [of _ ?m])
      (simp add: parseMemoryEnvelopeV2_def migratedEnvelope_def Let_def property_JObj fieldIf_def)
qed

definition sampleV1 :: "jsvalue \<Rightarrow> jsvalue" where
  "sampleV1 version = JObj True
     [(''specVersion'', JStr ''premise/0.1''), (''memoryId'', JStr ''m''),
      (''provenance'', JArr [JObj True [(''sourceUri'', JStr ''file://a''), (''observedAt'', JStr ''2024-01-02T03:04:05Z''),
         (''version'', version), (''validator'', JObj True [(''id'', JStr ''v''), (''operation'', JStr ''o'')])]]),
      (''validity'', JObj True [(''status'', JStr ''FRESH''), (''checkedAt'', JStr ''2024-01-02T03:04:05Z''),
         (''policy'', JStr ''VERSIONED'')]),
      (''dependsOn'', JArr [])]"

theorem migration_total_witness:
  "\<exists>m. migrateV1Envelope sampleDates (sampleV1 (JObj True [(''scheme'', JStr ''etag''), (''token'', JStr ''1'')]))
     (JStr ''t'') JUndefined = Inr m"
proof -
  let ?v = "sampleV1 (JObj True [(''scheme'', JStr ''etag''), (''token'', JStr ''1'')])"
  have "validateMemoryEnvelope sampleDates ?v = []" by code_simp
  then have "parseMemoryEnvelope sampleDates ?v = Inr ?v" by (simp add: parseMemoryEnvelope_def)
  moreover have "plainReferences ?v" by code_simp
  moreover have "isTenantId (JStr ''t'')" by code_simp
  ultimately show ?thesis using migration_total by blast
qed

text \<open>
  Without the restriction migration is partial: a valid v1 envelope whose version has a further
  property is rejected with an issue about the migrated envelope.
\<close>

theorem migration_partial:
  "\<exists>v issues. parseMemoryEnvelope sampleDates v = Inr v \<and> migrateV1Envelope sampleDates v (JStr ''t'') JUndefined = Inl issues \<and>
     fst ` set issues = {''$.evidence[0].version.note''}"
proof -
  let ?v = "sampleV1 (JObj True [(''scheme'', JStr ''etag''), (''token'', JStr ''1''), (''note'', JStr ''x'')])"
  have "validateMemoryEnvelope sampleDates ?v = []" by code_simp
  then have "parseMemoryEnvelope sampleDates ?v = Inr ?v" by (simp add: parseMemoryEnvelope_def)
  moreover have "migrateV1Envelope sampleDates ?v (JStr ''t'') JUndefined =
      Inl [(''$.evidence[0].version.note'', ''is not a permitted field'')]" by code_simp
  ultimately show ?thesis by (intro exI [of _ ?v]) simp
qed

end
