(* ===== verification/Runtime_Store.thy ===== *)
theory Runtime_Store
  imports Protocol_V2 Receipt_Cache
begin

text \<open>
  \<open>packages/runtime-core/src/index.ts\<close>, first part: records, events and
  \<open>InMemoryRuntimeStore\<close>. An envelope and an event are records whose \<open>...Value\<close> is the object
  the validators of \<open>protocol-types\<close> see; the parts of an envelope the runtime only passes on
  (confidence, conflicts, temporal declaration, signatures) stay values. \<open>compactOperational\<close>, which needs the checkpoints of \<open>checkpoint.ts\<close>, is not modelled.
\<close>

section \<open>Envelopes and events\<close>

record version_reference =
  vr_scheme :: string
  vr_token :: string

record validator_reference =
  va_id :: string
  va_operation :: string

record evidence_reference =
  ev_evidenceId :: string
  ev_sourceUri :: string
  ev_observedAt :: string
  ev_version :: "version_reference option"
  ev_validator :: "validator_reference option"
  ev_validFrom :: "string option"
  ev_validUntil :: "string option"
  ev_confidence :: "jsvalue option"
  ev_kind :: "string option"

record validity =
  vy_status :: memory_status
  vy_checkedAt :: string
  vy_policy :: string
  vy_expiresAt :: "string option"

record memory_envelope =
  me_tenantId :: string
  me_memoryId :: string
  me_contentDigest :: "string option"
  me_evidence :: "evidence_reference list"
  me_confidence :: jsvalue
  me_conflicts :: jsvalue
  me_temporal :: jsvalue
  me_validity :: validity
  me_dependsOn :: "string list"
  me_signatures :: jsvalue

datatype v2_event_type = MemoryRegistered | MemoryDerived | SourceChanged | MemoryStaled | MemoryInvalidated
  | MemoryRevalidated | MemoryReplaced | ConflictDetected | ConflictResolved | MemoryMigrated

record v2_event =
  xe_tenantId :: string
  xe_eventId :: string
  xe_operationId :: string
  xe_idempotencyKey :: string
  xe_requestDigest :: string
  xe_type :: v2_event_type
  xe_occurredAt :: string
  xe_memoryId :: "string option"
  xe_payload :: jsvalue

definition textField :: "string \<Rightarrow> string option \<Rightarrow> (string \<times> jsvalue) list" where
  "textField k t = (case t of None \<Rightarrow> [] | Some s \<Rightarrow> [(k, JStr s)])"

definition versionValue :: "version_reference \<Rightarrow> jsvalue" where
  "versionValue r = JObj True [(''scheme'', JStr (vr_scheme r)), (''token'', JStr (vr_token r))]"

definition evidenceValue :: "evidence_reference \<Rightarrow> jsvalue" where
  "evidenceValue e = JObj True
     ([(''evidenceId'', JStr (ev_evidenceId e)), (''sourceUri'', JStr (ev_sourceUri e)),
       (''observedAt'', JStr (ev_observedAt e))] @
      (case ev_version e of None \<Rightarrow> [] | Some r \<Rightarrow> [(''version'', versionValue r)]) @
      (case ev_validator e of None \<Rightarrow> []
       | Some r \<Rightarrow> [(''validator'', JObj True [(''id'', JStr (va_id r)), (''operation'', JStr (va_operation r))])]) @
      textField ''validFrom'' (ev_validFrom e) @ textField ''validUntil'' (ev_validUntil e) @
      (case ev_confidence e of None \<Rightarrow> [] | Some c \<Rightarrow> [(''confidence'', c)]) @ textField ''kind'' (ev_kind e))"

definition validityValue :: "validity \<Rightarrow> jsvalue" where
  "validityValue v = JObj True
     ([(''status'', JStr (statusName (vy_status v))), (''checkedAt'', JStr (vy_checkedAt v)),
       (''policy'', JStr (vy_policy v))] @ textField ''expiresAt'' (vy_expiresAt v))"

definition envelopeValue :: "memory_envelope \<Rightarrow> jsvalue" where
  "envelopeValue e = JObj True
     ([(''specVersion'', JStr ''premise/2''), (''tenantId'', JStr (me_tenantId e)), (''memoryId'', JStr (me_memoryId e))] @
      textField ''contentDigest'' (me_contentDigest e) @
      [(''evidence'', JArr (map evidenceValue (me_evidence e))), (''confidence'', me_confidence e),
       (''conflicts'', me_conflicts e), (''temporal'', me_temporal e), (''validity'', validityValue (me_validity e)),
       (''dependsOn'', JArr (map JStr (me_dependsOn e))), (''signatures'', me_signatures e)])"

definition eventTypeName :: "v2_event_type \<Rightarrow> string" where
  "eventTypeName t = (case t of MemoryRegistered \<Rightarrow> ''MemoryRegistered'' | MemoryDerived \<Rightarrow> ''MemoryDerived''
     | SourceChanged \<Rightarrow> ''SourceChanged'' | MemoryStaled \<Rightarrow> ''MemoryStaled'' | MemoryInvalidated \<Rightarrow> ''MemoryInvalidated''
     | MemoryRevalidated \<Rightarrow> ''MemoryRevalidated'' | MemoryReplaced \<Rightarrow> ''MemoryReplaced''
     | ConflictDetected \<Rightarrow> ''ConflictDetected'' | ConflictResolved \<Rightarrow> ''ConflictResolved''
     | MemoryMigrated \<Rightarrow> ''MemoryMigrated'')"

definition eventValue :: "v2_event \<Rightarrow> jsvalue" where
  "eventValue e = JObj True
     ([(''specVersion'', JStr ''premise/2''), (''tenantId'', JStr (xe_tenantId e)), (''eventId'', JStr (xe_eventId e)),
       (''operationId'', JStr (xe_operationId e)), (''idempotencyKey'', JStr (xe_idempotencyKey e)),
       (''requestDigest'', JStr (xe_requestDigest e)), (''type'', JStr (eventTypeName (xe_type e))),
       (''occurredAt'', JStr (xe_occurredAt e))] @
      textField ''memoryId'' (xe_memoryId e) @ [(''payload'', xe_payload e)])"

definition invalidContract :: exn where
  "invalidContract = Failure ''Invalid PREMiSE v2 contract''"

definition parseEnvelope :: "(string \<Rightarrow> int option) \<Rightarrow> memory_envelope \<Rightarrow> exn + memory_envelope" where
  "parseEnvelope dp e =
     (case parseMemoryEnvelopeV2 dp (envelopeValue e) of Inl issues \<Rightarrow> Inl invalidContract | Inr v \<Rightarrow> Inr e)"

definition parseEvent :: "(string \<Rightarrow> int option) \<Rightarrow> v2_event \<Rightarrow> exn + v2_event" where
  "parseEvent dp e =
     (case parseV2Event dp (eventValue e) of Inl issues \<Rightarrow> Inl invalidContract | Inr v \<Rightarrow> Inr e)"

text \<open>The JSON copy of a record or an event: its texts stay, its values are copied.\<close>

definition copyValue :: "jsvalue \<Rightarrow> jsvalue" where
  "copyValue v = nullish (jsonCopy v) JUndefined"

definition copyEvidence :: "evidence_reference \<Rightarrow> evidence_reference" where
  "copyEvidence e = e\<lparr>ev_confidence := Option.bind (ev_confidence e) jsonCopy\<rparr>"

definition copyEnvelope :: "memory_envelope \<Rightarrow> memory_envelope" where
  "copyEnvelope e = e\<lparr>me_evidence := map copyEvidence (me_evidence e),
     me_confidence := copyValue (me_confidence e), me_conflicts := copyValue (me_conflicts e),
     me_temporal := copyValue (me_temporal e), me_signatures := copyValue (me_signatures e)\<rparr>"

record runtime_record =
  rr_envelope :: memory_envelope
  rr_content :: jsvalue

definition copyRecord :: "runtime_record \<Rightarrow> runtime_record" where
  "copyRecord r = \<lparr>rr_envelope = copyEnvelope (rr_envelope r), rr_content = copyValue (rr_content r)\<rparr>"

definition copyEvent :: "v2_event \<Rightarrow> v2_event" where
  "copyEvent e = e\<lparr>xe_payload := copyValue (xe_payload e)\<rparr>"

definition recordValue :: "runtime_record \<Rightarrow> jsvalue" where
  "recordValue r = JObj True ((''envelope'', envelopeValue (rr_envelope r)) #
     (if rr_content r = JUndefined then [] else [(''content'', rr_content r)]))"

text \<open>\<open>canonicalJson\<close> and \<open>digestFor\<close>.\<close>

definition canonicalJson :: "(rat \<Rightarrow> string) \<Rightarrow> jsvalue \<Rightarrow> exn + string" where
  "canonicalJson fmt v = canonicalWith (\<lambda>n. Inr (stringifyNumber fmt n)) False v"

definition digestFor :: "(rat \<Rightarrow> string) \<Rightarrow> (string \<Rightarrow> string) \<Rightarrow> jsvalue \<Rightarrow> exn + string" where
  "digestFor fmt sha v = andThen (canonicalJson fmt v) (\<lambda>t. Inr (''sha256:v2:'' @ sha t))"

section \<open>The in-memory store\<close>

record runtime_idempotency_record =
  id_idempotencyKey :: string
  id_tenantId :: string
  id_eventId :: string
  id_operationId :: string
  id_requestDigest :: string
  id_type :: v2_event_type
  id_occurredAt :: string
  id_memoryId :: "string option"

definition eventIdempotencyRecord :: "v2_event \<Rightarrow> runtime_idempotency_record" where
  "eventIdempotencyRecord e = \<lparr>id_idempotencyKey = xe_idempotencyKey e, id_tenantId = xe_tenantId e,
     id_eventId = xe_eventId e, id_operationId = xe_operationId e, id_requestDigest = xe_requestDigest e,
     id_type = xe_type e, id_occurredAt = xe_occurredAt e, id_memoryId = xe_memoryId e\<rparr>"

definition sameEventIdentity :: "runtime_idempotency_record \<Rightarrow> runtime_idempotency_record \<Rightarrow> bool" where
  "sameEventIdentity l r =
     (id_tenantId l = id_tenantId r \<and> id_idempotencyKey l = id_idempotencyKey r \<and> id_eventId l = id_eventId r \<and>
      id_operationId l = id_operationId r \<and> id_requestDigest l = id_requestDigest r \<and> id_type l = id_type r \<and>
      id_occurredAt l = id_occurredAt r \<and> id_memoryId l = id_memoryId r)"

record runtime_store =
  st_records :: "(string, runtime_record) omap"
  st_events :: "(string, v2_event) omap"
  st_idempotency :: "(string, runtime_idempotency_record) omap"
  st_revision :: int

definition newRuntimeStore :: runtime_store where
  "newRuntimeStore = \<lparr>st_records = [], st_events = [], st_idempotency = [], st_revision = 0\<rparr>"

definition storeGet :: "runtime_store \<Rightarrow> string \<Rightarrow> runtime_record option" where
  "storeGet st memoryId = map_option copyRecord (map_of (st_records st) memoryId)"

definition storeGetMany :: "runtime_store \<Rightarrow> string list \<Rightarrow> runtime_record list" where
  "storeGetMany st ids = concat (map (\<lambda>i. case storeGet st i of None \<Rightarrow> [] | Some r \<Rightarrow> [r]) (unique ids))"

definition storeList :: "runtime_store \<Rightarrow> runtime_record list" where
  "storeList st = map (\<lambda>p. copyRecord (snd p)) (st_records st)"

definition storePut :: "(string \<Rightarrow> int option) \<Rightarrow> runtime_record \<Rightarrow> runtime_store \<Rightarrow> exn + runtime_store" where
  "storePut dp r st =
     andThen (parseEnvelope dp (rr_envelope r)) (\<lambda>envelope.
       Inr (st\<lparr>st_records := omap_set (me_memoryId envelope) (copyRecord r) (st_records st),
              st_revision := st_revision st + 1\<rparr>))"

definition storeGetEvent :: "runtime_store \<Rightarrow> string \<Rightarrow> v2_event option" where
  "storeGetEvent st key =
     (case map_of (st_events st) key of
        Some e \<Rightarrow> Some (copyEvent e)
      | None \<Rightarrow> map_option (\<lambda>m. \<lparr>xe_tenantId = id_tenantId m, xe_eventId = id_eventId m, xe_operationId = id_operationId m,
          xe_idempotencyKey = id_idempotencyKey m, xe_requestDigest = id_requestDigest m, xe_type = id_type m,
          xe_occurredAt = id_occurredAt m, xe_memoryId = id_memoryId m, xe_payload = JObj True []\<rparr>)
          (map_of (st_idempotency st) key))"

definition storeAppendEvent :: "(string \<Rightarrow> int option) \<Rightarrow> v2_event \<Rightarrow> runtime_store \<Rightarrow> exn + runtime_store" where
  "storeAppendEvent dp event st =
     andThen (parseEvent dp event) (\<lambda>parsed.
       (let incoming = eventIdempotencyRecord parsed; key = xe_idempotencyKey parsed in
        case map_of (st_idempotency st) key of
          Some existing \<Rightarrow>
            if \<not> sameEventIdentity existing incoming then Inl (Failure (''Conflicting idempotency key: '' @ key)) else Inr st
        | None \<Rightarrow>
            (case map_of (st_events st) key of
               Some existing \<Rightarrow>
                 if xe_eventId existing \<noteq> xe_eventId parsed \<or> xe_requestDigest existing \<noteq> xe_requestDigest parsed
                 then Inl (Failure (''Conflicting idempotency key: '' @ key)) else Inr st
             | None \<Rightarrow> Inr (st\<lparr>st_idempotency := omap_set key incoming (st_idempotency st),
                               st_events := omap_set key (copyEvent parsed) (st_events st)\<rparr>))))"

definition storeHasEvent :: "runtime_store \<Rightarrow> string \<Rightarrow> bool" where
  "storeHasEvent st key = (map_of (st_idempotency st) key \<noteq> None)"

text \<open>
  \<open>putAndAppend\<close> writes the record, then the event: where the event is refused the record stays
  written, so the state left behind accompanies the exception.
\<close>

definition storePutAndAppend ::
  "(string \<Rightarrow> int option) \<Rightarrow> runtime_record \<Rightarrow> v2_event \<Rightarrow> runtime_store \<Rightarrow> (exn + unit) \<times> runtime_store" where
  "storePutAndAppend dp r event st =
     (case storePut dp r st of
        Inl e \<Rightarrow> (Inl e, st)
      | Inr st1 \<Rightarrow> (case storeAppendEvent dp event st1 of Inl e \<Rightarrow> (Inl e, st1) | Inr st2 \<Rightarrow> (Inr (), st2)))"

definition storePutIfUnchanged ::
  "(string \<Rightarrow> int option) \<Rightarrow> (rat \<Rightarrow> string) \<Rightarrow> runtime_record \<Rightarrow> runtime_record \<Rightarrow> v2_event \<Rightarrow> runtime_store
     \<Rightarrow> (exn + bool) \<times> runtime_store" where
  "storePutIfUnchanged dp fmt expected r event st =
     (case map_of (st_records st) (me_memoryId (rr_envelope expected)) of
        None \<Rightarrow> (Inr False, st)
      | Some current \<Rightarrow>
          (case canonicalJson fmt (recordValue current) of
             Inl e \<Rightarrow> (Inl e, st)
           | Inr a \<Rightarrow>
               (case canonicalJson fmt (recordValue expected) of
                  Inl e \<Rightarrow> (Inl e, st)
                | Inr b \<Rightarrow>
                    if a \<noteq> b then (Inr False, st)
                    else (case storePutAndAppend dp r event st of
                        (Inl e, st1) \<Rightarrow> (Inl e, st1) | (Inr u, st1) \<Rightarrow> (Inr True, st1)))))"

section \<open>Snapshots\<close>

record runtime_snapshot =
  sn_format :: string
  sn_version :: int
  sn_capturedAt :: string
  sn_records :: "runtime_record list"
  sn_events :: "v2_event list"

definition storeSnapshot :: "runtime_store \<Rightarrow> string \<Rightarrow> runtime_snapshot" where
  "storeSnapshot st capturedAt = \<lparr>sn_format = ''premise-runtime-snapshot'', sn_version = 1, sn_capturedAt = capturedAt,
     sn_records = storeList st, sn_events = map (\<lambda>p. copyEvent (snd p)) (st_events st)\<rparr>"

fun restoreRecords ::
  "(string \<Rightarrow> int option) \<Rightarrow> runtime_record list \<Rightarrow> (string, runtime_record) omap
     \<Rightarrow> exn + (string, runtime_record) omap" where
  "restoreRecords dp [] m = Inr m"
| "restoreRecords dp (r # rs) m =
     andThen (parseEnvelope dp (rr_envelope r)) (\<lambda>envelope.
       restoreRecords dp rs (omap_set (me_memoryId envelope) (copyRecord r) m))"

fun restoreEvents ::
  "(string \<Rightarrow> int option) \<Rightarrow> v2_event list \<Rightarrow> (string, v2_event) omap \<Rightarrow> exn + (string, v2_event) omap" where
  "restoreEvents dp [] m = Inr m"
| "restoreEvents dp (e # es) m =
     andThen (parseEvent dp e) (\<lambda>parsed.
       (let conflict = (case map_of m (xe_idempotencyKey parsed) of None \<Rightarrow> False
          | Some existing \<Rightarrow> xe_eventId existing \<noteq> xe_eventId parsed \<or> xe_requestDigest existing \<noteq> xe_requestDigest parsed)
        in if conflict then Inl (Failure (''Conflicting idempotency key: '' @ xe_idempotencyKey parsed))
           else restoreEvents dp es (omap_set (xe_idempotencyKey parsed) (copyEvent parsed) m)))"

definition storeRestore :: "(string \<Rightarrow> int option) \<Rightarrow> runtime_snapshot \<Rightarrow> runtime_store \<Rightarrow> exn + runtime_store" where
  "storeRestore dp snapshot st =
     (if sn_format snapshot \<noteq> ''premise-runtime-snapshot'' \<or> sn_version snapshot \<noteq> 1
        then Inl (Failure ''Unsupported PREMiSE runtime snapshot'')
      else andThen (restoreRecords dp (sn_records snapshot) []) (\<lambda>nextRecords.
           andThen (restoreEvents dp (sn_events snapshot) []) (\<lambda>nextEvents.
             Inr \<lparr>st_records = nextRecords, st_events = nextEvents,
                  st_idempotency = map (\<lambda>(k, e). (k, eventIdempotencyRecord e)) nextEvents,
                  st_revision = st_revision st + int (length nextRecords)\<rparr>)))"

section \<open>Facts about copies\<close>

lemma copyValue_idem [simp]: "copyValue (copyValue v) = copyValue v"
  by (cases "jsonCopy v") (auto simp: copyValue_def dest: jsonCopy_idem)

lemma copyEvidence_idem [simp]: "copyEvidence (copyEvidence e) = copyEvidence e"
  by (cases "ev_confidence e"; cases "jsonCopy (the (ev_confidence e))") (auto simp: copyEvidence_def dest: jsonCopy_idem)

lemma copyRecord_idem [simp]: "copyRecord (copyRecord r) = copyRecord r"
  by (simp add: copyRecord_def copyEnvelope_def)

lemma copyEvidence_simps [simp]:
  "ev_sourceUri (copyEvidence e) = ev_sourceUri e" "ev_evidenceId (copyEvidence e) = ev_evidenceId e"
  "ev_version (copyEvidence e) = ev_version e"
  by (simp_all add: copyEvidence_def)

lemma copyEnvelope_simps [simp]:
  "me_tenantId (copyEnvelope e) = me_tenantId e" "me_memoryId (copyEnvelope e) = me_memoryId e"
  "me_validity (copyEnvelope e) = me_validity e" "me_dependsOn (copyEnvelope e) = me_dependsOn e"
  "me_contentDigest (copyEnvelope e) = me_contentDigest e"
  "me_evidence (copyEnvelope e) = map copyEvidence (me_evidence e)"
  by (simp_all add: copyEnvelope_def)

lemma copyRecord_simps [simp]:
  "rr_envelope (copyRecord r) = copyEnvelope (rr_envelope r)" "rr_content (copyRecord r) = copyValue (rr_content r)"
  by (simp_all add: copyRecord_def)

lemma copyEvent_idem [simp]: "copyEvent (copyEvent e) = copyEvent e"
  by (simp add: copyEvent_def)

lemma copyEvent_simps [simp]:
  "xe_tenantId (copyEvent e) = xe_tenantId e" "xe_eventId (copyEvent e) = xe_eventId e"
  "xe_operationId (copyEvent e) = xe_operationId e" "xe_idempotencyKey (copyEvent e) = xe_idempotencyKey e"
  "xe_requestDigest (copyEvent e) = xe_requestDigest e" "xe_type (copyEvent e) = xe_type e"
  "xe_occurredAt (copyEvent e) = xe_occurredAt e" "xe_memoryId (copyEvent e) = xe_memoryId e"
  "eventIdempotencyRecord (copyEvent e) = eventIdempotencyRecord e"
  by (simp_all add: copyEvent_def eventIdempotencyRecord_def)

lemma parseEnvelope_same: "parseEnvelope dp e = Inr e' \<Longrightarrow> e' = e"
  by (auto simp: parseEnvelope_def split: sum.splits)

lemma parseEvent_same: "parseEvent dp e = Inr e' \<Longrightarrow> e' = e"
  by (auto simp: parseEvent_def split: sum.splits)

text \<open>What the two writes do: a record goes under its identifier; an event is new, or already known as it is.\<close>

lemma storePut_Inr:
  "storePut dp r st = Inr st' \<Longrightarrow>
     st' = st\<lparr>st_records := omap_set (me_memoryId (rr_envelope r)) (copyRecord r) (st_records st), st_revision := st_revision st + 1\<rparr> \<and>
     parseEnvelope dp (rr_envelope r) = Inr (rr_envelope r)"
  by (auto simp: storePut_def andThen_Inr_iff dest: parseEnvelope_same)

lemma storeAppendEvent_Inr:
  assumes "storeAppendEvent dp e st = Inr st'"
  shows "parseEvent dp e = Inr e \<and> (st' = st \<or>
    map_of (st_events st) (xe_idempotencyKey e) = None \<and> map_of (st_idempotency st) (xe_idempotencyKey e) = None \<and>
    st' = st\<lparr>st_idempotency := omap_set (xe_idempotencyKey e) (eventIdempotencyRecord e) (st_idempotency st),
             st_events := omap_set (xe_idempotencyKey e) (copyEvent e) (st_events st)\<rparr>)"
  using assms parseEvent_same [of dp e]
  by (cases "map_of (st_idempotency st) (xe_idempotencyKey e)"; cases "map_of (st_events st) (xe_idempotencyKey e)")
    (auto simp: storeAppendEvent_def andThen_Inr_iff Let_def split: if_splits)


end
