(* ===== verification/Runtime.thy ===== *)
theory Runtime
  imports Runtime_Store
begin

text \<open>
  \<open>packages/runtime-core/src/index.ts\<close>, second part: \<open>PremiseRuntime\<close> over the in-memory store
  with its default options, that is without instrumentation, signature verification, receipt
  cache, journal and incremental frontier engine, whose branches are not taken then. The clock,
  \<open>randomUUID\<close>, \<open>Date.parse\<close>, SHA-256 and the text of numbers come from the environment \<open>env\<close>; a
  call of the clock or of \<open>randomUUID\<close> uses up one of their readings.

  An operation takes the state to its result and the state it leaves, also where it throws:
  what was written before the exception stays written. A validation is asynchronous, so it is
  two operations, the one that loads the snapshot and the one that applies the reports; other
  operations may run in between.
\<close>

section \<open>State and exceptions\<close>

record runtime_env =
  en_dp :: "string \<Rightarrow> int option"
  en_fmt :: "rat \<Rightarrow> string"
  en_sha :: "string \<Rightarrow> string"
  en_clock :: "nat \<Rightarrow> string"
  en_uuid :: "nat \<Rightarrow> string"

record stream_state =
  ss_nextSequence :: int
  ss_seen :: "(int, string) omap"
  ss_hasSnapshot :: bool

record premise_runtime =
  pr_store :: runtime_store
  pr_tenantId :: string
  pr_principalTenantId :: string
  pr_streamStates :: "(string, stream_state) omap"
  pr_sourceMemoryIds :: "(string, string list) omap"
  pr_dependentsByDependency :: "(string, string list) omap"
  pr_recordOrder :: "(string, int) omap"
  pr_nextRecordOrder :: int
  pr_indexedStoreRevision :: "int option"
  pr_ticks :: nat
  pr_uuids :: nat

definition bindR ::
  "('s \<Rightarrow> (exn + 'a) \<times> 's) \<Rightarrow> ('a \<Rightarrow> 's \<Rightarrow> (exn + 'b) \<times> 's) \<Rightarrow> 's \<Rightarrow> (exn + 'b) \<times> 's" where
  "bindR m f s = (case m s of (Inl e, s1) \<Rightarrow> (Inl e, s1) | (Inr x, s1) \<Rightarrow> f x s1)"

definition retR :: "'a \<Rightarrow> 's \<Rightarrow> (exn + 'a) \<times> 's" where "retR x s = (Inr x, s)"

definition liftR :: "(exn + 'a) \<Rightarrow> 's \<Rightarrow> (exn + 'a) \<times> 's" where "liftR r s = (r, s)"

definition failR :: "string \<Rightarrow> 's \<Rightarrow> (exn + 'a) \<times> 's" where "failR m s = (Inl (Failure m), s)"

lemma bindR_Inr_iff:
  "bindR m f s = (Inr y, s') \<longleftrightarrow> (\<exists>x s1. m s = (Inr x, s1) \<and> f x s1 = (Inr y, s'))"
  by (auto simp: bindR_def split: prod.splits sum.splits)

lemma retR_iff [simp]: "retR x s = (Inr y, s') \<longleftrightarrow> y = x \<and> s' = s"
  by (auto simp: retR_def)

lemma liftR_iff [simp]: "liftR r s = (Inr y, s') \<longleftrightarrow> r = Inr y \<and> s' = s"
  by (auto simp: liftR_def)

lemma failR_iff [simp]: "failR m s = (Inr y, s') \<longleftrightarrow> False"
  by (auto simp: failR_def)

definition storeR :: "(runtime_store \<Rightarrow> (exn + 'a) \<times> runtime_store) \<Rightarrow> premise_runtime \<Rightarrow> (exn + 'a) \<times> premise_runtime" where
  "storeR f s = (case f (pr_store s) of (r, st) \<Rightarrow> (r, s\<lparr>pr_store := st\<rparr>))"

lemma storeR_iff: "storeR f s = (Inr y, s') \<longleftrightarrow> (\<exists>st. f (pr_store s) = (Inr y, st) \<and> s' = s\<lparr>pr_store := st\<rparr>)"
  by (auto simp: storeR_def split: prod.splits)

text \<open>
  What an operation leaves alone, also where it throws: \<open>keeps P s (m s)\<close> says that \<open>m\<close>, run in
  \<open>s\<close>, keeps the property \<open>P\<close> of the state. The collection \<open>keeping\<close> follows the structure of
  an operation.
\<close>

named_theorems keeping \<open>operations that keep a property of the state\<close>

definition keeps :: "('s \<Rightarrow> bool) \<Rightarrow> 's \<Rightarrow> (exn + 'a) \<times> 's \<Rightarrow> bool" where
  "keeps P s res = (P s \<longrightarrow> P (snd res))"

lemma keeps_bind [keeping]:
  "keeps P s (m s) \<Longrightarrow> (\<And>x t. keeps P t (f x t)) \<Longrightarrow> keeps P s (bindR m f s)"
  by (fastforce simp: keeps_def bindR_def split: prod.splits sum.splits)

lemma keeps_pure [keeping]: "keeps P s (retR x s)" "keeps P s (liftR r s)" "keeps P s (failR t s)" "keeps P s (r, s)"
  by (simp_all add: keeps_def retR_def liftR_def failR_def)

lemma keeps_if [keeping]: "keeps P s a \<Longrightarrow> keeps P s b \<Longrightarrow> keeps P s (if c then a else b)"
  by simp

lemma keeps_if_fun [keeping]: "keeps P s (m s) \<Longrightarrow> keeps P s (n s) \<Longrightarrow> keeps P s ((if c then m else n) s)"
  by simp

lemma keeps_let [keeping]: "(\<And>x. keeps P s (f x)) \<Longrightarrow> keeps P s (let x = v in f x)"
  by simp

lemma keeps_option [keeping]:
  "keeps P s a \<Longrightarrow> (\<And>x. keeps P s (f x)) \<Longrightarrow> keeps P s (case v of None \<Rightarrow> a | Some x \<Rightarrow> f x)"
  by (cases v) auto

lemma keeps_option_fun [keeping]:
  "keeps P s (m s) \<Longrightarrow> (\<And>x. keeps P s (f x s)) \<Longrightarrow> keeps P s ((case v of None \<Rightarrow> m | Some x \<Rightarrow> f x) s)"
  by (cases v) auto

lemma keepsD: "keeps P s res \<Longrightarrow> P s \<Longrightarrow> res = (r, s') \<Longrightarrow> P s'"
  by (simp add: keeps_def)

lemma keeps_storeR: "(\<And>s st. P s \<Longrightarrow> P (s\<lparr>pr_store := st\<rparr>)) \<Longrightarrow> keeps P s (storeR f s)"
  by (simp add: keeps_def storeR_def split: prod.splits)

definition nowR :: "runtime_env \<Rightarrow> premise_runtime \<Rightarrow> (exn + string) \<times> premise_runtime" where
  "nowR env s = (Inr (en_clock env (pr_ticks s)), s\<lparr>pr_ticks := pr_ticks s + 1\<rparr>)"

definition uuidR :: "runtime_env \<Rightarrow> premise_runtime \<Rightarrow> (exn + string) \<times> premise_runtime" where
  "uuidR env s = (Inr (en_uuid env (pr_uuids s)), s\<lparr>pr_uuids := pr_uuids s + 1\<rparr>)"

definition eventFor :: "premise_runtime \<Rightarrow> string \<Rightarrow> v2_event option" where
  "eventFor s key = storeGetEvent (pr_store s) key"

definition assertTenant :: "string \<Rightarrow> premise_runtime \<Rightarrow> (exn + unit) \<times> premise_runtime" where
  "assertTenant tenantId s =
     (if tenantId \<noteq> pr_tenantId s then failR (''Tenant boundary violation: '' @ tenantId) s else retR () s)"

section \<open>Indexes\<close>

text \<open>A map of sets: adding to the set of a key, removing from it.\<close>

definition multiAdd :: "'k \<Rightarrow> 'v \<Rightarrow> ('k, 'v list) omap \<Rightarrow> ('k, 'v list) omap" where
  "multiAdd k v m =
     (let vs = nullish (map_of m k) [] in omap_set k (if v \<in> set vs then vs else vs @ [v]) m)"

definition multiRemove :: "'k \<Rightarrow> 'v \<Rightarrow> ('k, 'v list) omap \<Rightarrow> ('k, 'v list) omap" where
  "multiRemove k v m =
     (case map_of m k of None \<Rightarrow> m
      | Some vs \<Rightarrow> (let rest = filter (\<lambda>w. w \<noteq> v) vs in
          if rest = [] then omap_delete k m else omap_set k rest m))"

definition indexRecord :: "runtime_record \<Rightarrow> premise_runtime \<Rightarrow> premise_runtime" where
  "indexRecord r s =
     (let e = rr_envelope r; i = me_memoryId e in
      if me_tenantId e \<noteq> pr_tenantId s then s
      else
        (let s1 = (if map_of (pr_recordOrder s) i = None
               then s\<lparr>pr_recordOrder := omap_set i (pr_nextRecordOrder s) (pr_recordOrder s),
                      pr_nextRecordOrder := pr_nextRecordOrder s + 1\<rparr>
               else s)
         in s1\<lparr>pr_sourceMemoryIds := fold (\<lambda>ev. multiAdd (ev_sourceUri ev) i) (me_evidence e) (pr_sourceMemoryIds s1),
               pr_dependentsByDependency := fold (\<lambda>d. multiAdd d i) (me_dependsOn e) (pr_dependentsByDependency s1)\<rparr>))"

definition deindexRecord :: "runtime_record \<Rightarrow> premise_runtime \<Rightarrow> premise_runtime" where
  "deindexRecord r s =
     (let e = rr_envelope r; i = me_memoryId e in
      if me_tenantId e \<noteq> pr_tenantId s then s
      else s\<lparr>pr_sourceMemoryIds := fold (\<lambda>ev. multiRemove (ev_sourceUri ev) i) (me_evidence e) (pr_sourceMemoryIds s),
             pr_dependentsByDependency := fold (\<lambda>d. multiRemove d i) (me_dependsOn e) (pr_dependentsByDependency s)\<rparr>)"

definition syncStoreRevision :: "premise_runtime \<Rightarrow> premise_runtime" where
  "syncStoreRevision s = s\<lparr>pr_indexedStoreRevision := Some (st_revision (pr_store s))\<rparr>"

definition rebuildIndexes :: "premise_runtime \<Rightarrow> premise_runtime" where
  "rebuildIndexes s =
     syncStoreRevision (fold indexRecord (storeList (pr_store s))
       (s\<lparr>pr_sourceMemoryIds := [], pr_dependentsByDependency := [], pr_recordOrder := [], pr_nextRecordOrder := 0\<rparr>))"

definition refreshIndexesIfStoreChanged :: "premise_runtime \<Rightarrow> premise_runtime" where
  "refreshIndexesIfStoreChanged s =
     (if pr_indexedStoreRevision s \<noteq> Some (st_revision (pr_store s)) then rebuildIndexes s else s)"

definition orderOf :: "premise_runtime \<Rightarrow> string \<Rightarrow> int" where
  "orderOf s i = nullish (map_of (pr_recordOrder s) i) MAX_SAFE_INTEGER"

definition orderedIds :: "premise_runtime \<Rightarrow> string list \<Rightarrow> string list" where
  "orderedIds s ids = sortBy (\<lambda>l r. orderOf s l - orderOf s r) ids"

text \<open>One round of the traversal: the dependents not seen yet join the queue.\<close>

fun pushUnseen :: "string list \<Rightarrow> string list \<Rightarrow> string list \<Rightarrow> string list \<times> string list" where
  "pushUnseen seen queue [] = (seen, queue)"
| "pushUnseen seen queue (d # ds) =
     (if d \<in> set seen then pushUnseen seen queue ds else pushUnseen (d # seen) (queue @ [d]) ds)"

definition dependentsOf :: "premise_runtime \<Rightarrow> string \<Rightarrow> string list" where
  "dependentsOf s i = orderedIds s (nullish (map_of (pr_dependentsByDependency s) i) [])"

lemma pushUnseen_spec:
  "pushUnseen seen queue ds = (seen', queue') \<Longrightarrow>
     \<exists>new. queue' = queue @ new \<and> distinct new \<and> set new = set ds - set seen \<and> set seen' = set seen \<union> set ds"
proof (induction seen queue ds arbitrary: rule: pushUnseen.induct)
  case (2 seen queue d ds)
  show ?case
  proof (cases "d \<in> set seen")
    case True
    with 2 show ?thesis by auto
  next
    case False
    with 2 obtain new where "queue' = (queue @ [d]) @ new" "distinct new" "set new = set ds - set (d # seen)"
      "set seen' = set (d # seen) \<union> set ds" by auto
    with False show ?thesis by (intro exI [of _ "d # new"]) auto
  qed
qed simp

definition graphIds :: "premise_runtime \<Rightarrow> string set" where
  "graphIds s = (\<Union>p \<in> set (pr_dependentsByDependency s). set (snd p))"

lemma dependentsOf_graphIds: "set (dependentsOf s i) \<subseteq> graphIds s"
proof (cases "map_of (pr_dependentsByDependency s) i")
  case (Some vs)
  then have "(i, vs) \<in> set (pr_dependentsByDependency s)" by (rule map_of_SomeD)
  with Some show ?thesis by (force simp: dependentsOf_def orderedIds_def graphIds_def nullish_def)
qed (simp add: dependentsOf_def orderedIds_def nullish_def)

function closureLoop :: "premise_runtime \<Rightarrow> string list \<Rightarrow> string list \<Rightarrow> string list" where
  "closureLoop s seen [] = []"
| "closureLoop s seen (i # queue) =
     (case pushUnseen seen queue (dependentsOf s i) of (seen', queue') \<Rightarrow> i # closureLoop s seen' queue')"
  by pat_completeness auto
termination
proof (relation "measure (\<lambda>(s, seen, queue). length queue + card (graphIds s - set seen))")
  fix s seen i queue seen' queue'
  assume "(seen', queue') = pushUnseen seen queue (dependentsOf s i)"
  then obtain new where new: "queue' = queue @ new" "distinct new" "set new = set (dependentsOf s i) - set seen"
    "set seen' = set seen \<union> set (dependentsOf s i)"
    using pushUnseen_spec [OF sym] by blast
  have fin: "finite (graphIds s)" by (simp add: graphIds_def)
  have "graphIds s - set seen = (graphIds s - set seen') \<union> set new"
    using new dependentsOf_graphIds [of s i] by auto
  moreover have "(graphIds s - set seen') \<inter> set new = {}" using new by auto
  ultimately have "card (graphIds s - set seen) = card (graphIds s - set seen') + length new"
    using fin new(2) by (simp add: card_Un_disjoint distinct_card)
  then show "((s, seen', queue'), (s, seen, i # queue)) \<in>
      measure (\<lambda>(s, seen, queue). length queue + card (graphIds s - set seen))"
    using new(1) by simp
qed simp

definition dependentClosure :: "premise_runtime \<Rightarrow> string list \<Rightarrow> string list" where
  "dependentClosure s seeds = closureLoop s (rev (unique seeds)) (unique seeds)"

definition affectedBySourceChange :: "premise_runtime \<Rightarrow> string list \<Rightarrow> string list" where
  "affectedBySourceChange s direct = dependentClosure s direct"

section \<open>Events and persistence\<close>

definition orNullText :: "string option \<Rightarrow> jsvalue" where
  "orNullText t = (case t of None \<Rightarrow> JNull | Some s \<Rightarrow> JStr s)"

definition requestValue :: "v2_event_type \<Rightarrow> string option \<Rightarrow> jsvalue \<Rightarrow> jsvalue" where
  "requestValue type memoryId request =
     JObj True [(''type'', JStr (eventTypeName type)), (''memoryId'', orNullText memoryId), (''request'', request)]"

definition emit ::
  "runtime_env \<Rightarrow> v2_event_type \<Rightarrow> string option \<Rightarrow> jsvalue \<Rightarrow> string \<Rightarrow> bool \<Rightarrow> jsvalue \<Rightarrow> premise_runtime
     \<Rightarrow> (exn + v2_event) \<times> premise_runtime" where
  "emit env type memoryId payload idempotencyKey persist requestPayload =
     bindR (liftR (digestFor (en_fmt env) (en_sha env) (requestValue type memoryId requestPayload))) (\<lambda>requestDigest s.
       case eventFor s idempotencyKey of
         Some existing \<Rightarrow>
           if xe_type existing \<noteq> type \<or> xe_memoryId existing \<noteq> memoryId \<or> xe_requestDigest existing \<noteq> requestDigest
           then failR (''Conflicting idempotency key: '' @ idempotencyKey) s
           else retR existing s
       | None \<Rightarrow>
           bindR (uuidR env) (\<lambda>u. bindR (nowR env) (\<lambda>now s1.
             (let eventId = ''evt_'' @ pr_tenantId s1 @ ''_'' @ u;
                  event = \<lparr>xe_tenantId = pr_tenantId s1, xe_eventId = eventId, xe_operationId = eventId,
                    xe_idempotencyKey = idempotencyKey, xe_requestDigest = requestDigest, xe_type = type,
                    xe_occurredAt = now, xe_memoryId = (if memoryId = Some [] then None else memoryId),
                    xe_payload = payload\<rparr>
              in if persist
                 then bindR (storeR (\<lambda>st. case storeAppendEvent (en_dp env) event st of
                        Inl e \<Rightarrow> (Inl e, st) | Inr st1 \<Rightarrow> (Inr (), st1))) (\<lambda>_. retR event) s1
                 else retR event s1))) s)"

definition persistRecordAndEvent ::
  "runtime_env \<Rightarrow> runtime_record \<Rightarrow> v2_event \<Rightarrow> premise_runtime \<Rightarrow> (exn + unit) \<times> premise_runtime" where
  "persistRecordAndEvent env r event = storeR (storePutAndAppend (en_dp env) r event)"

definition persistRecordIfCurrent ::
  "runtime_env \<Rightarrow> runtime_record \<Rightarrow> runtime_record \<Rightarrow> v2_event \<Rightarrow> premise_runtime \<Rightarrow> (exn + unit) \<times> premise_runtime" where
  "persistRecordIfCurrent env expected r event =
     bindR (storeR (storePutIfUnchanged (en_dp env) (en_fmt env) expected r event)) (\<lambda>ok.
       if \<not> ok then failR (''Concurrent mutation detected during revalidation: '' @ me_memoryId (rr_envelope expected))
       else retR ())"

definition withStatus ::
  "runtime_env \<Rightarrow> memory_envelope \<Rightarrow> memory_status \<Rightarrow> premise_runtime \<Rightarrow> (exn + memory_envelope) \<times> premise_runtime" where
  "withStatus env e status =
     bindR (nowR env) (\<lambda>now. liftR (parseEnvelope (en_dp env)
       (e\<lparr>me_validity := (me_validity e)\<lparr>vy_status := status, vy_checkedAt := now\<rparr>\<rparr>)))"

section \<open>Writing records\<close>

definition runtimeGet :: "premise_runtime \<Rightarrow> string \<Rightarrow> string \<Rightarrow> runtime_record option" where
  "runtimeGet s memoryId principalTenant =
     (case storeGet (pr_store s) memoryId of
        None \<Rightarrow> None
      | Some r \<Rightarrow> if me_tenantId (rr_envelope r) = principalTenant then Some r else None)"

definition requireRecord :: "string \<Rightarrow> premise_runtime \<Rightarrow> (exn + runtime_record) \<times> premise_runtime" where
  "requireRecord memoryId s =
     (case runtimeGet s memoryId (pr_principalTenantId s) of
        None \<Rightarrow> failR (''Memory not found or inaccessible: '' @ memoryId) s
      | Some r \<Rightarrow> retR r s)"

definition runtimeList :: "premise_runtime \<Rightarrow> string \<Rightarrow> runtime_record list" where
  "runtimeList s principalTenant = filter (\<lambda>r. me_tenantId (rr_envelope r) = principalTenant) (storeList (pr_store s))"

definition requestOf :: "memory_envelope \<Rightarrow> jsvalue \<Rightarrow> jsvalue" where
  "requestOf e content = JObj True [(''envelope'', envelopeValue e), (''content'', content)]"

definition updateR :: "(premise_runtime \<Rightarrow> premise_runtime) \<Rightarrow> premise_runtime \<Rightarrow> (exn + unit) \<times> premise_runtime" where
  "updateR f s = (Inr (), f s)"

lemma updateR_iff [simp]: "updateR f s = (Inr u, s') \<longleftrightarrow> s' = f s"
  by (auto simp: updateR_def)

text \<open>The common end of \<open>register\<close> and \<open>derive\<close>.\<close>

definition addRecord ::
  "runtime_env \<Rightarrow> runtime_record \<Rightarrow> v2_event \<Rightarrow> bool \<Rightarrow> string \<Rightarrow> premise_runtime \<Rightarrow> (exn + unit) \<times> premise_runtime" where
  "addRecord env stored event isReplay idempotencyKey s =
     (let i = me_memoryId (rr_envelope stored) in
      if isReplay then
        (if storeGet (pr_store s) i = None then failR (''Idempotent event has no corresponding memory: '' @ idempotencyKey) s
         else retR () s)
      else if storeGet (pr_store s) i \<noteq> None then failR (''Memory already registered: '' @ i) s
      else bindR (persistRecordAndEvent env stored event) (\<lambda>_. updateR (\<lambda>s1. syncStoreRevision (indexRecord stored s1))) s)"

definition register ::
  "runtime_env \<Rightarrow> runtime_record \<Rightarrow> string option \<Rightarrow> premise_runtime \<Rightarrow> (exn + unit) \<times> premise_runtime" where
  "register env r eventId =
     bindR (liftR (parseEnvelope (en_dp env) (rr_envelope r))) (\<lambda>envelope s.
       (let i = me_memoryId envelope; idempotencyKey = nullish eventId (''register:'' @ i);
            isReplay = (eventFor s idempotencyKey \<noteq> None) in
        bindR (assertTenant (me_tenantId envelope)) (\<lambda>_ s1.
          if eventId = None \<and> storeGet (pr_store s1) i \<noteq> None then failR (''Memory already registered: '' @ i) s1
          else bindR (liftR (cloneJson (rr_content r))) (\<lambda>content.
               bindR (emit env MemoryRegistered (Some i) (JObj True [(''envelope'', envelopeValue envelope)]) idempotencyKey
                  False (requestOf envelope content)) (\<lambda>event.
                 addRecord env \<lparr>rr_envelope = envelope, rr_content = content\<rparr> event isReplay idempotencyKey)) s1) s))"

definition checkDependencies :: "string list \<Rightarrow> premise_runtime \<Rightarrow> (exn + unit) \<times> premise_runtime" where
  "checkDependencies ds s =
     (case find (\<lambda>d. case storeGet (pr_store s) d of None \<Rightarrow> True
          | Some r \<Rightarrow> me_tenantId (rr_envelope r) \<noteq> pr_tenantId s) ds of
        None \<Rightarrow> retR () s
      | Some d \<Rightarrow> failR (''Missing required dependency: '' @ d) s)"

definition derive ::
  "runtime_env \<Rightarrow> runtime_record \<Rightarrow> string option \<Rightarrow> premise_runtime \<Rightarrow> (exn + unit) \<times> premise_runtime" where
  "derive env r eventId =
     bindR (liftR (parseEnvelope (en_dp env) (rr_envelope r))) (\<lambda>envelope s.
       (let i = me_memoryId envelope; idempotencyKey = nullish eventId (''derive:'' @ i);
            isReplay = (eventFor s idempotencyKey \<noteq> None) in
        bindR (assertTenant (me_tenantId envelope)) (\<lambda>_ s1.
          if eventId = None \<and> storeGet (pr_store s1) i \<noteq> None then failR (''Memory already registered: '' @ i) s1
          else if me_dependsOn envelope = [] then failR ''Derived memory must have at least one dependency'' s1
          else bindR (checkDependencies (me_dependsOn envelope)) (\<lambda>_.
               bindR (liftR (cloneJson (rr_content r))) (\<lambda>content.
               bindR (emit env MemoryDerived (Some i)
                  (JObj True [(''dependsOn'', JArr (map JStr (me_dependsOn envelope)))]) idempotencyKey
                  False (requestOf envelope content)) (\<lambda>event.
                 addRecord env \<lparr>rr_envelope = envelope, rr_content = content\<rparr> event isReplay idempotencyKey))) s1) s))"

definition replace ::
  "runtime_env \<Rightarrow> string \<Rightarrow> jsvalue \<Rightarrow> memory_envelope \<Rightarrow> string option \<Rightarrow> premise_runtime
     \<Rightarrow> (exn + unit) \<times> premise_runtime" where
  "replace env memoryId content envelope eventId =
     bindR (requireRecord memoryId) (\<lambda>current.
     bindR (liftR (parseEnvelope (en_dp env) envelope)) (\<lambda>next s.
       (let idempotencyKey = nullish eventId (''replace:'' @ memoryId @ '':'' @ nullish (me_contentDigest next) ''none'');
            isReplay = (eventFor s idempotencyKey \<noteq> None) in
        if me_memoryId next \<noteq> memoryId then failR ''Replacement must keep the memory ID'' s
        else bindR (assertTenant (me_tenantId next)) (\<lambda>_.
             bindR (liftR (cloneJson content)) (\<lambda>copy.
             bindR (emit env MemoryReplaced (Some memoryId)
                (JObj True [(''previousDigest'', case me_contentDigest (rr_envelope current) of None \<Rightarrow> JUndefined | Some d \<Rightarrow> JStr d),
                            (''nextDigest'', case me_contentDigest next of None \<Rightarrow> JUndefined | Some d \<Rightarrow> JStr d)])
                idempotencyKey False
                (JObj True [(''memoryId'', JStr memoryId), (''envelope'', envelopeValue next), (''content'', copy)])) (\<lambda>event.
               if isReplay then retR ()
               else (let stored = \<lparr>rr_envelope = next, rr_content = copy\<rparr> in
                 bindR (persistRecordAndEvent env stored event) (\<lambda>_.
                   updateR (\<lambda>s1. syncStoreRevision (indexRecord stored (deindexRecord current s1)))))))) s)))"

section \<open>Reading\<close>

datatype runtime_decision = USABLE_NOW | REVALIDATE | REJECT

definition usability :: "memory_status \<Rightarrow> runtime_decision" where
  "usability status =
     (if status = StatusFresh then USABLE_NOW else if status = StatusInvalid then REJECT else REVALIDATE)"

record runtime_check_item =
  ci_memoryId :: string
  ci_status :: memory_status
  ci_decision :: runtime_decision
  ci_reason :: "string option"

record runtime_retrieval =
  rt_record :: runtime_record
  rt_status :: memory_status
  rt_decision :: runtime_decision

text \<open>The map of a batch read, by the identifier inside the record; the last record of an identifier stays.\<close>

definition readMany :: "runtime_store \<Rightarrow> string list \<Rightarrow> (string, runtime_record) omap" where
  "readMany st memoryIds =
     (let ids = unique memoryIds in
      if ids = [] then []
      else fold (\<lambda>r. omap_set (me_memoryId (rr_envelope r)) r)
             (filter (\<lambda>r. me_memoryId (rr_envelope r) \<in> set ids) (storeGetMany st ids)) [])"

definition checkItem :: "(string, runtime_record) omap \<Rightarrow> string \<Rightarrow> string \<Rightarrow> runtime_check_item" where
  "checkItem records principalTenant memoryId =
     (let rejected = \<lparr>ci_memoryId = memoryId, ci_status = StatusInvalid, ci_decision = REJECT,
        ci_reason = Some ''missing or inaccessible memory''\<rparr> in
      case map_of records memoryId of
        None \<Rightarrow> rejected
      | Some r \<Rightarrow>
          (let status = vy_status (me_validity (rr_envelope r)) in
           if me_tenantId (rr_envelope r) = principalTenant
           then \<lparr>ci_memoryId = memoryId, ci_status = status, ci_decision = usability status, ci_reason = None\<rparr>
           else rejected))"

definition checkMany :: "premise_runtime \<Rightarrow> string list \<Rightarrow> string \<Rightarrow> runtime_check_item list" where
  "checkMany s memoryIds principalTenant =
     (let records = readMany (pr_store s) memoryIds;
          checked = map (\<lambda>i. (i, checkItem records principalTenant i)) (unique memoryIds)
      in map (\<lambda>i. the (map_of checked i)) memoryIds)"

definition check :: "premise_runtime \<Rightarrow> string list \<Rightarrow> string \<Rightarrow> runtime_check_item list" where
  "check s memoryIds principalTenant = checkMany s memoryIds principalTenant"

definition retrieve :: "premise_runtime \<Rightarrow> string list \<Rightarrow> string \<Rightarrow> runtime_retrieval list" where
  "retrieve s memoryIds principalTenant =
     (let records = readMany (pr_store s) memoryIds in
      concat (map (\<lambda>i. case map_of records i of
           None \<Rightarrow> []
         | Some r \<Rightarrow>
             (let status = vy_status (me_validity (rr_envelope r)) in
              if me_tenantId (rr_envelope r) \<noteq> principalTenant then []
              else if usability status = REJECT then []
              else [\<lparr>rt_record = r, rt_status = status, rt_decision = usability status\<rparr>]))
        (unique memoryIds)))"

section \<open>Validation\<close>

datatype validation_result = UNCHANGED | CHANGED | MISSING | UNKNOWN

record validation_report =
  rp_memoryId :: string
  rp_result :: validation_result
  rp_status :: memory_status
  rp_checkedAt :: string
  rp_sourceUri :: "string option"
  rp_version :: "version_reference option"
  rp_evidenceId :: "string option"
  rp_reason :: "string option"

definition resultName :: "validation_result \<Rightarrow> string" where
  "resultName r = (case r of UNCHANGED \<Rightarrow> ''UNCHANGED'' | CHANGED \<Rightarrow> ''CHANGED'' | MISSING \<Rightarrow> ''MISSING''
     | UNKNOWN \<Rightarrow> ''UNKNOWN'')"

definition statusOfResult :: "validation_result \<Rightarrow> memory_status" where
  "statusOfResult r = (if r = UNCHANGED then StatusFresh else if r = CHANGED \<or> r = MISSING then StatusInvalid
     else StatusUnknown)"

definition refreshEvidence :: "validation_report \<Rightarrow> version_reference \<Rightarrow> evidence_reference \<Rightarrow> evidence_reference" where
  "refreshEvidence rp ver ev =
     (let matches = (rp_evidenceId rp = None \<or> rp_evidenceId rp = Some (ev_evidenceId ev));
          sameSource = (rp_sourceUri rp = None \<or> rp_sourceUri rp = Some (ev_sourceUri ev)) in
      if matches \<and> sameSource then ev\<lparr>ev_version := Some ver, ev_observedAt := rp_checkedAt rp\<rparr> else ev)"

definition withValidation ::
  "runtime_env \<Rightarrow> memory_envelope \<Rightarrow> validation_report \<Rightarrow> memory_status \<Rightarrow> premise_runtime
     \<Rightarrow> (exn + memory_envelope) \<times> premise_runtime" where
  "withValidation env e rp status =
     (if rp_result rp \<noteq> UNCHANGED then withStatus env e status
      else case rp_version rp of
        None \<Rightarrow> withStatus env e status
      | Some ver \<Rightarrow> withStatus env (e\<lparr>me_evidence := map (refreshEvidence rp ver) (me_evidence e)\<rparr>) status)"

definition validationPayload :: "validation_report \<Rightarrow> memory_status \<Rightarrow> jsvalue" where
  "validationPayload rp status = JObj True
     ([(''result'', JStr (resultName (rp_result rp))), (''status'', JStr (statusName status))] @
      (case rp_version rp of None \<Rightarrow> [] | Some ver \<Rightarrow> [(''version'', versionValue ver)]) @
      (case rp_reason rp of None \<Rightarrow> [] | Some t \<Rightarrow> if t = [] then [] else [(''reason'', JStr t)]))"

definition applyValidation ::
  "runtime_env \<Rightarrow> runtime_record \<Rightarrow> validation_report \<Rightarrow> string option \<Rightarrow> premise_runtime
     \<Rightarrow> (exn + validation_report) \<times> premise_runtime" where
  "applyValidation env r rp eventId =
     (let e = rr_envelope r; i = me_memoryId e; status = statusOfResult (rp_result rp) in
      if rp_memoryId rp \<noteq> i then failR ''Validation report memory ID does not match record''
      else bindR (withValidation env e rp status) (\<lambda>envelope.
           bindR (emit env MemoryRevalidated (Some i) (validationPayload rp status)
              (nullish eventId (''revalidate:'' @ i @ '':'' @ rp_checkedAt rp)) False (validationPayload rp status)) (\<lambda>event.
           bindR (persistRecordIfCurrent env r \<lparr>rr_envelope = envelope, rr_content = rr_content r\<rparr> event) (\<lambda>_.
           bindR (updateR syncStoreRevision) (\<lambda>_. retR (rp\<lparr>rp_status := status\<rparr>))))))"

definition noEvidence :: "string \<Rightarrow> string \<Rightarrow> validation_report" where
  "noEvidence memoryId checkedAt = \<lparr>rp_memoryId = memoryId, rp_result = UNKNOWN, rp_status = StatusUnknown,
     rp_checkedAt = checkedAt, rp_sourceUri = None, rp_version = None, rp_evidenceId = None,
     rp_reason = Some ''memory has no evidence''\<rparr>"

text \<open>The report of the worst result; the memory identifier of a shared report is bound again.\<close>

definition selectReport :: "validation_report list \<Rightarrow> validation_report" where
  "selectReport reports =
     (case concat (map (\<lambda>w. take 1 (filter (\<lambda>rp. rp_result rp = w) reports)) [MISSING, CHANGED, UNKNOWN, UNCHANGED]) of
        [] \<Rightarrow> hd reports | rp # _ \<Rightarrow> rp)"

definition rebindReports :: "string \<Rightarrow> validation_report list \<Rightarrow> validation_report list" where
  "rebindReports memoryId reports = map (\<lambda>rp. rp\<lparr>rp_memoryId := memoryId\<rparr>) reports"

text \<open>
  \<open>revalidate\<close>: its start reads the record; it ends, once the validator has answered for every
  evidence of that record, with the reports applied to the record that was read. With the
  in-memory store \<open>assertRecordUnchanged\<close> returns at once.
\<close>

definition revalidateBegin :: "string \<Rightarrow> premise_runtime \<Rightarrow> (exn + runtime_record) \<times> premise_runtime" where
  "revalidateBegin memoryId = requireRecord memoryId"

definition revalidateFinish ::
  "runtime_env \<Rightarrow> runtime_record \<Rightarrow> validation_report list \<Rightarrow> string option \<Rightarrow> premise_runtime
     \<Rightarrow> (exn + validation_report) \<times> premise_runtime" where
  "revalidateFinish env r reports eventId =
     (if me_evidence (rr_envelope r) = []
      then bindR (nowR env) (\<lambda>now. applyValidation env r (noEvidence (me_memoryId (rr_envelope r)) now) eventId)
      else applyValidation env r (selectReport (rebindReports (me_memoryId (rr_envelope r)) reports)) eventId)"


text \<open>A step per element, in order, up to the first exception.\<close>

fun mapR :: "('a \<Rightarrow> 's \<Rightarrow> (exn + 'b) \<times> 's) \<Rightarrow> 'a list \<Rightarrow> 's \<Rightarrow> (exn + 'b list) \<times> 's" where
  "mapR f [] = retR []"
| "mapR f (x # xs) = bindR (f x) (\<lambda>y. bindR (mapR f xs) (\<lambda>ys. retR (y # ys)))"

lemma keeps_mapR [keeping]: "(\<And>x t. keeps P t (f x t)) \<Longrightarrow> keeps P s (mapR f xs s)"
  by (induction xs arbitrary: s) (auto intro!: keeping)

text \<open>
  \<open>revalidateMany\<close>: the start reads the batch and, for the records without evidence, the clock;
  the end applies one report per record.
\<close>

type_synonym pending_validation = "string \<times> runtime_record \<times> validation_report option"

definition loadPending ::
  "runtime_env \<Rightarrow> (string, runtime_record) omap \<Rightarrow> string \<Rightarrow> premise_runtime
     \<Rightarrow> (exn + string \<times> runtime_record) \<times> premise_runtime" where
  "loadPending env loaded memoryId s =
     (case map_of loaded memoryId of
        None \<Rightarrow> failR (''Memory not found or inaccessible: '' @ memoryId) s
      | Some r \<Rightarrow> if me_tenantId (rr_envelope r) \<noteq> pr_principalTenantId s
          then failR (''Memory not found or inaccessible: '' @ memoryId) s else retR (memoryId, r) s)"

definition startPending ::
  "runtime_env \<Rightarrow> string \<times> runtime_record \<Rightarrow> premise_runtime \<Rightarrow> (exn + pending_validation) \<times> premise_runtime" where
  "startPending env p =
     (if me_evidence (rr_envelope (snd p)) = []
      then bindR (nowR env) (\<lambda>now. retR (fst p, snd p, Some (noEvidence (fst p) now)))
      else retR (fst p, snd p, None))"

definition revalidateManyBegin ::
  "runtime_env \<Rightarrow> string list \<Rightarrow> premise_runtime \<Rightarrow> (exn + pending_validation list) \<times> premise_runtime" where
  "revalidateManyBegin env memoryIds s =
     bindR (mapR (loadPending env (readMany (pr_store s) memoryIds)) (unique memoryIds)) (mapR (startPending env)) s"

definition applyPending ::
  "runtime_env \<Rightarrow> (string \<Rightarrow> validation_report list) \<Rightarrow> string option \<Rightarrow> pending_validation \<Rightarrow> premise_runtime
     \<Rightarrow> (exn + string \<times> validation_report) \<times> premise_runtime" where
  "applyPending env reports eventId p =
     (case p of (memoryId, r, fixed) \<Rightarrow>
        bindR (applyValidation env r
            (nullish fixed (selectReport (rebindReports memoryId (reports memoryId))))
            (map_option (\<lambda>e. e @ '':'' @ memoryId) eventId))
          (\<lambda>rp. retR (memoryId, rp)))"

definition revalidateManyFinish ::
  "runtime_env \<Rightarrow> pending_validation list \<Rightarrow> (string \<Rightarrow> validation_report list) \<Rightarrow> string list \<Rightarrow> string option
     \<Rightarrow> premise_runtime \<Rightarrow> (exn + validation_report list) \<times> premise_runtime" where
  "revalidateManyFinish env pending reports memoryIds eventId =
     bindR (mapR (applyPending env reports eventId) pending) (\<lambda>applied.
       retR (map (\<lambda>i. the (map_of applied i)) memoryIds))"

section \<open>Guarded actions\<close>

datatype action_reason = VersionMismatch | ActionReject | ActionRevalidate | CasRequired

record commit_answer =
  ca_accepted :: bool
  ca_reason :: "action_reason option"
  ca_observedVersion :: "string option"
  ca_result :: "jsvalue option"

record action_request =
  aq_expectedVersion :: string
  aq_commit :: "(runtime_record \<Rightarrow> string \<Rightarrow> commit_answer) option"

record action_result =
  ar_accepted :: bool
  ar_memoryId :: string
  ar_expectedVersion :: string
  ar_reason :: "action_reason option"
  ar_observedVersion :: "string option"
  ar_result :: "jsvalue option"

definition evidenceTokens :: "runtime_record \<Rightarrow> string list" where
  "evidenceTokens r = concat (map (\<lambda>ev. case ev_version ev of None \<Rightarrow> [] | Some ver \<Rightarrow> [vr_token ver])
     (me_evidence (rr_envelope r)))"

definition refusedAction :: "string \<Rightarrow> action_request \<Rightarrow> action_reason \<Rightarrow> action_result" where
  "refusedAction memoryId q reason = \<lparr>ar_accepted = False, ar_memoryId = memoryId,
     ar_expectedVersion = aq_expectedVersion q, ar_reason = Some reason, ar_observedVersion = None, ar_result = None\<rparr>"

text \<open>The second component lists the calls of \<open>commit\<close>, with their arguments.\<close>

definition revalidateAndAct ::
  "premise_runtime \<Rightarrow> string \<Rightarrow> action_request \<Rightarrow> exn + action_result \<times> (runtime_record \<times> string) list" where
  "revalidateAndAct s memoryId q =
     (case requireRecord memoryId s of
        (Inl e, s1) \<Rightarrow> Inl e
      | (Inr r, s1) \<Rightarrow>
          (let versions = evidenceTokens r; decision = usability (vy_status (me_validity (rr_envelope r))) in
           if versions = [] \<or> list_ex (\<lambda>t. t \<noteq> aq_expectedVersion q) versions
             then Inr (refusedAction memoryId q VersionMismatch, [])
           else if decision = REJECT then Inr (refusedAction memoryId q ActionReject, [])
           else if decision = REVALIDATE then Inr (refusedAction memoryId q ActionRevalidate, [])
           else case aq_commit q of
             None \<Rightarrow> Inr (refusedAction memoryId q CasRequired, [])
           | Some commit \<Rightarrow>
               (let committed = commit r (aq_expectedVersion q) in
                Inr (\<lparr>ar_accepted = ca_accepted committed, ar_memoryId = memoryId,
                      ar_expectedVersion = aq_expectedVersion q, ar_reason = ca_reason committed,
                      ar_observedVersion = ca_observedVersion committed, ar_result = ca_result committed\<rparr>,
                     [(r, aq_expectedVersion q)]))))"

section \<open>Source changes\<close>

record source_change =
  sc_sourceUri :: string
  sc_version :: version_reference
  sc_eventId :: "string option"
  sc_observation :: "jsvalue option"

definition sourceChangeValue :: "source_change \<Rightarrow> jsvalue" where
  "sourceChangeValue c = JObj True
     ([(''sourceUri'', JStr (sc_sourceUri c)), (''version'', versionValue (sc_version c))] @
      textField ''eventId'' (sc_eventId c) @
      (case sc_observation c of None \<Rightarrow> [] | Some v \<Rightarrow> [(''observation'', v)]))"

definition sourceChangePayload :: "source_change \<Rightarrow> exn + jsvalue" where
  "sourceChangePayload c =
     (let base = [(''sourceUri'', JStr (sc_sourceUri c)), (''version'', versionValue (sc_version c))] in
      case sc_observation c of
        None \<Rightarrow> Inr (JObj True base)
      | Some v \<Rightarrow> andThen (cloneJson v) (\<lambda>w. Inr (JObj True (base @ [(''observation'', w)]))))"

definition sourceKey :: "source_change \<Rightarrow> string" where
  "sourceKey c = nullish (sc_eventId c)
     (''source:'' @ sc_sourceUri c @ '':'' @ vr_scheme (sc_version c) @ '':'' @ vr_token (sc_version c))"

fun keyedChanges ::
  "(rat \<Rightarrow> string) \<Rightarrow> source_change list \<Rightarrow> (string, source_change) omap \<Rightarrow> exn + (string, source_change) omap" where
  "keyedChanges fmt [] m = Inr m"
| "keyedChanges fmt (c # cs) m =
     andThen (canonicalJson fmt (sourceChangeValue c)) (\<lambda>k. keyedChanges fmt cs (omap_set k c m))"

definition staleMember ::
  "runtime_env \<Rightarrow> jsvalue \<Rightarrow> string \<Rightarrow> string \<Rightarrow> premise_runtime \<Rightarrow> (exn + unit) \<times> premise_runtime" where
  "staleMember env payload staleEventKey memoryId s =
     (case storeGet (pr_store s) memoryId of
        None \<Rightarrow> retR () s
      | Some r \<Rightarrow>
          (let e = rr_envelope r; status = vy_status (me_validity e) in
           if me_tenantId e \<noteq> pr_tenantId s \<or> status = StatusInvalid \<or> status = StatusStale then retR () s
           else bindR (withStatus env e StatusStale) (\<lambda>envelope.
                bindR (emit env MemoryStaled (Some memoryId) payload (staleEventKey @ '':'' @ memoryId) False payload) (\<lambda>event.
                  persistRecordAndEvent env \<lparr>rr_envelope = envelope, rr_content = rr_content r\<rparr> event)) s))"

definition staleAffected ::
  "runtime_env \<Rightarrow> jsvalue \<Rightarrow> string \<Rightarrow> string list \<Rightarrow> premise_runtime \<Rightarrow> (exn + string list) \<times> premise_runtime" where
  "staleAffected env payload staleEventKey affected =
     bindR (mapR (staleMember env payload staleEventKey) affected) (\<lambda>_.
     bindR (updateR syncStoreRevision) (\<lambda>_. retR affected))"

definition emitSource ::
  "runtime_env \<Rightarrow> source_change \<Rightarrow> premise_runtime \<Rightarrow> (exn + v2_event) \<times> premise_runtime" where
  "emitSource env c = bindR (liftR (sourceChangePayload c)) (\<lambda>payload.
     emit env SourceChanged None payload (sourceKey c) True payload)"

definition signalSingleSourceChanged ::
  "runtime_env \<Rightarrow> source_change \<Rightarrow> premise_runtime \<Rightarrow> (exn + string list) \<times> premise_runtime" where
  "signalSingleSourceChanged env c =
     bindR (updateR refreshIndexesIfStoreChanged) (\<lambda>_.
     bindR (emitSource env c) (\<lambda>sourceEvent s.
       (let direct = orderedIds s (nullish (map_of (pr_sourceMemoryIds s) (sc_sourceUri c)) []) in
        bindR (liftR (sourceChangePayload c)) (\<lambda>payload.
          staleAffected env payload (xe_eventId sourceEvent @ '':stale'') (affectedBySourceChange s direct)) s)))"

fun joinIds :: "string list \<Rightarrow> string" where
  "joinIds [] = []"
| "joinIds [t] = t"
| "joinIds (t # ts) = t @ '':'' @ joinIds ts"

definition signalBatch ::
  "runtime_env \<Rightarrow> source_change list \<Rightarrow> premise_runtime \<Rightarrow> (exn + string list) \<times> premise_runtime" where
  "signalBatch env changes =
     bindR (updateR refreshIndexesIfStoreChanged) (\<lambda>_.
     bindR (mapR (emitSource env) changes) (\<lambda>sourceEvents s.
       (let direct = orderedIds s (unique (concat (map
              (\<lambda>c. nullish (map_of (pr_sourceMemoryIds s) (sc_sourceUri c)) []) changes))) in
        bindR (mapR (\<lambda>c. liftR (sourceChangePayload c)) changes) (\<lambda>sourcePayload.
          staleAffected env (JObj True [(''changes'', JArr sourcePayload)])
            (joinIds (map xe_eventId sourceEvents) @ '':stale'') (affectedBySourceChange s direct)) s)))"

definition signalSourcesChanged ::
  "runtime_env \<Rightarrow> source_change list \<Rightarrow> premise_runtime \<Rightarrow> (exn + string list) \<times> premise_runtime" where
  "signalSourcesChanged env changes =
     (if changes = [] then retR []
      else if list_ex (\<lambda>c. sc_sourceUri c = []) changes then liftR (Inl (Failure ''sourceUri must be non-empty''))
      else bindR (liftR (keyedChanges (en_fmt env) changes [])) (\<lambda>keyed.
        (let uniqueChanges = map snd keyed in
         if length uniqueChanges = 1 then signalSingleSourceChanged env (hd uniqueChanges)
         else signalBatch env uniqueChanges)))"

definition signalSourceChanged ::
  "runtime_env \<Rightarrow> string \<Rightarrow> version_reference \<Rightarrow> string option \<Rightarrow> premise_runtime
     \<Rightarrow> (exn + string list) \<times> premise_runtime" where
  "signalSourceChanged env sourceUri ver eventId = signalSourcesChanged env
     [\<lparr>sc_sourceUri = sourceUri, sc_version = ver, sc_eventId = eventId, sc_observation = None\<rparr>]"

section \<open>Events, snapshots, history, construction\<close>

definition applyEvent :: "runtime_env \<Rightarrow> v2_event \<Rightarrow> premise_runtime \<Rightarrow> (exn + bool) \<times> premise_runtime" where
  "applyEvent env event s =
     (if storeHasEvent (pr_store s) (xe_idempotencyKey event) then retR False s
      else bindR (liftR (parseEvent (en_dp env) event)) (\<lambda>parsed.
           bindR (assertTenant (xe_tenantId parsed)) (\<lambda>_.
           bindR (storeR (\<lambda>st. case storeAppendEvent (en_dp env) parsed st of
               Inl e \<Rightarrow> (Inl e, st) | Inr st1 \<Rightarrow> (Inr (), st1))) (\<lambda>_. retR True))) s)"

definition snapshot :: "runtime_env \<Rightarrow> premise_runtime \<Rightarrow> (exn + runtime_snapshot) \<times> premise_runtime" where
  "snapshot env = bindR (nowR env) (\<lambda>now s. retR (storeSnapshot (pr_store s) now) s)"

definition trustRecord ::
  "runtime_env \<Rightarrow> runtime_record \<Rightarrow> premise_runtime \<Rightarrow> (exn + runtime_record) \<times> premise_runtime" where
  "trustRecord env r = bindR (liftR (parseEnvelope (en_dp env) (rr_envelope r))) (\<lambda>envelope.
     bindR (assertTenant (me_tenantId envelope)) (\<lambda>_. retR (r\<lparr>rr_envelope := envelope\<rparr>)))"

definition restore :: "runtime_env \<Rightarrow> runtime_snapshot \<Rightarrow> premise_runtime \<Rightarrow> (exn + unit) \<times> premise_runtime" where
  "restore env sn =
     bindR (mapR (trustRecord env) (sn_records sn)) (\<lambda>records.
     bindR (storeR (\<lambda>st. case storeRestore (en_dp env) (sn\<lparr>sn_records := records\<rparr>) st of
         Inl e \<Rightarrow> (Inl e, st) | Inr st1 \<Rightarrow> (Inr (), st1))) (\<lambda>_. updateR rebuildIndexes))"

definition history :: "premise_runtime \<Rightarrow> string option \<Rightarrow> v2_event list" where
  "history s memoryId =
     (let events = map (\<lambda>p. copyEvent (snd p)) (st_events (pr_store s)) in
      case memoryId of None \<Rightarrow> events | Some i \<Rightarrow> filter (\<lambda>e. xe_memoryId e = Some i) events)"

definition eventCount :: "premise_runtime \<Rightarrow> nat" where
  "eventCount s = length (st_events (pr_store s))"

text \<open>The constructor: the tenant from the options or the principal; the principal defaults to the tenant.\<close>

definition newPremiseRuntime :: "runtime_store \<Rightarrow> string option \<Rightarrow> string option \<Rightarrow> premise_runtime" where
  "newPremiseRuntime st tenantId principalTenant =
     (let tenant = nullish tenantId (nullish principalTenant ''default'') in
      rebuildIndexes \<lparr>pr_store = st, pr_tenantId = tenant, pr_principalTenantId = nullish principalTenant tenant,
        pr_streamStates = [], pr_sourceMemoryIds = [], pr_dependentsByDependency = [], pr_recordOrder = [],
        pr_nextRecordOrder = 0, pr_indexedStoreRevision = None, pr_ticks = 0, pr_uuids = 0\<rparr>)"


end
