(* ===== verification/Runtime_Stream.thy ===== *)
theory Runtime_Stream
  imports Runtime
begin

text \<open>
  Ordered source streams: \<open>applyStreamEvent\<close>, \<open>repairStreamFromSnapshot\<close>,
  \<open>streamRepairRequired\<close> and \<open>applyStreamBurst\<close> of \<open>packages/runtime-core/src/index.ts\<close>, and
  the planner of bursts of \<open>stream-burst.ts\<close>. A stream accepts the events of one contiguous run
  of sequence numbers that starts with a snapshot; anything else fences the stream until the
  next snapshot. The state of a stream is an entry of \<open>pr_streamStates\<close>: the source keeps one
  mutable object per stream in that map, which every writer also puts back into it.
\<close>

section \<open>Stream events and pages\<close>

datatype stream_kind = SNAPSHOT | DELTA

datatype stream_capability = ORDERED_EVENTS | AUTHORITATIVE_SNAPSHOT | DELTA_EVENTS | DUPLICATE_SAFE

record stream_event =
  se_event :: v2_event
  se_streamId :: string
  se_sequence :: int
  se_kind :: stream_kind
  se_cursor :: "string option"
  se_sourceVersion :: "version_reference option"

record stream_page =
  pg_tenantId :: string
  pg_streamId :: string
  pg_events :: "stream_event list"
  pg_headSequence :: int
  pg_nextCursor :: "string option"

definition intValue :: "int \<Rightarrow> jsvalue" where
  "intValue n = JNum (Finite (of_int n))"

definition kindName :: "stream_kind \<Rightarrow> string" where
  "kindName k = (case k of SNAPSHOT \<Rightarrow> ''SNAPSHOT'' | DELTA \<Rightarrow> ''DELTA'')"

definition streamEventValue :: "stream_event \<Rightarrow> jsvalue" where
  "streamEventValue e = (case eventValue (se_event e) of
     JObj plain ps \<Rightarrow> JObj True (ps @ [(''streamId'', JStr (se_streamId e)), (''sequence'', intValue (se_sequence e)),
        (''kind'', JStr (kindName (se_kind e)))] @ textField ''cursor'' (se_cursor e) @
        (case se_sourceVersion e of None \<Rightarrow> [] | Some r \<Rightarrow> [(''sourceVersion'', versionValue r)]))
   | v \<Rightarrow> v)"

definition parseStreamEvent :: "(string \<Rightarrow> int option) \<Rightarrow> stream_event \<Rightarrow> exn + stream_event" where
  "parseStreamEvent dp e =
     (case parseV2StreamEvent dp (streamEventValue e) of Inl issues \<Rightarrow> Inl invalidContract | Inr v \<Rightarrow> Inr e)"

definition pageValue :: "stream_page \<Rightarrow> jsvalue" where
  "pageValue p = JObj True
     ([(''specVersion'', JStr ''premise/2''), (''tenantId'', JStr (pg_tenantId p)), (''streamId'', JStr (pg_streamId p)),
       (''events'', JArr (map streamEventValue (pg_events p))), (''headSequence'', intValue (pg_headSequence p))] @
      textField ''nextCursor'' (pg_nextCursor p))"

definition parsePage :: "(string \<Rightarrow> int option) \<Rightarrow> stream_page \<Rightarrow> exn + stream_page" where
  "parsePage dp p =
     (case parseV2EventStreamPage dp (pageValue p) of Inl issues \<Rightarrow> Inl invalidContract | Inr v \<Rightarrow> Inr p)"

section \<open>One event\<close>

datatype repair_reason = GAP | REORDERED | STREAM_CONFLICT | DELTA_BEFORE_SNAPSHOT

datatype stream_outcome = Applied int | Duplicate int | RepairRequired int repair_reason

definition freshStream :: stream_state where
  "freshStream = \<lparr>ss_nextSequence = 0, ss_seen = [], ss_hasSnapshot = False\<rparr>"

definition fencedStream :: "int \<Rightarrow> stream_state" where
  "fencedStream n = \<lparr>ss_nextSequence = n, ss_seen = [], ss_hasSnapshot = False\<rparr>"

definition streamState :: "premise_runtime \<Rightarrow> string \<Rightarrow> stream_state" where
  "streamState s streamId = nullish (map_of (pr_streamStates s) streamId) freshStream"

definition setStream :: "string \<Rightarrow> stream_state \<Rightarrow> premise_runtime \<Rightarrow> premise_runtime" where
  "setStream streamId state s = s\<lparr>pr_streamStates := omap_set streamId state (pr_streamStates s)\<rparr>"

definition streamRepairRequired ::
  "stream_event \<Rightarrow> repair_reason \<Rightarrow> premise_runtime \<Rightarrow> (exn + stream_outcome) \<times> premise_runtime" where
  "streamRepairRequired e reason s =
     (Inr (RepairRequired (se_sequence e) reason), setStream (se_streamId e) (fencedStream (se_sequence e)) s)"

definition fingerprintValue :: "stream_event \<Rightarrow> jsvalue" where
  "fingerprintValue e = (let x = se_event e in JObj True
     [(''eventId'', JStr (xe_eventId x)), (''requestDigest'', JStr (xe_requestDigest x)),
      (''type'', JStr (eventTypeName (xe_type x))), (''occurredAt'', JStr (xe_occurredAt x)),
      (''memoryId'', orNullText (xe_memoryId x)), (''payload'', xe_payload x),
      (''sourceVersion'', case se_sourceVersion e of None \<Rightarrow> JNull | Some r \<Rightarrow> versionValue r),
      (''cursor'', orNullText (se_cursor e)), (''kind'', JStr (kindName (se_kind e)))])"

definition digestR :: "runtime_env \<Rightarrow> jsvalue \<Rightarrow> premise_runtime \<Rightarrow> (exn + string) \<times> premise_runtime" where
  "digestR env v = liftR (digestFor (en_fmt env) (en_sha env) v)"

text \<open>The event is handed to the store and the stream moves on.\<close>

definition acceptStreamEvent ::
  "stream_event \<Rightarrow> string \<Rightarrow> bool \<Rightarrow> premise_runtime \<Rightarrow> (exn + stream_outcome) \<times> premise_runtime" where
  "acceptStreamEvent e fingerprint accepted s =
     (let state = streamState s (se_streamId e); n = se_sequence e in
      (Inr (if accepted then Applied n else Duplicate n),
       setStream (se_streamId e) \<lparr>ss_nextSequence = n + 1, ss_seen = omap_set n fingerprint (ss_seen state),
         ss_hasSnapshot = (ss_hasSnapshot state \<or> se_kind e = SNAPSHOT)\<rparr> s))"

definition storeStreamEvent ::
  "runtime_env \<Rightarrow> stream_event \<Rightarrow> string \<Rightarrow> premise_runtime \<Rightarrow> (exn + stream_outcome) \<times> premise_runtime" where
  "storeStreamEvent env e fingerprint =
     bindR (applyEvent env (se_event e)) (\<lambda>accepted s.
       if accepted then acceptStreamEvent e fingerprint True s
       else case eventFor s (xe_idempotencyKey (se_event e)) of
         None \<Rightarrow> streamRepairRequired e STREAM_CONFLICT s
       | Some existing \<Rightarrow>
           bindR (digestR env (eventValue existing)) (\<lambda>a. bindR (digestR env (eventValue (se_event e))) (\<lambda>b.
             if a \<noteq> b then streamRepairRequired e STREAM_CONFLICT else acceptStreamEvent e fingerprint False)) s)"

definition applyStreamEvent ::
  "runtime_env \<Rightarrow> stream_event \<Rightarrow> premise_runtime \<Rightarrow> (exn + stream_outcome) \<times> premise_runtime" where
  "applyStreamEvent env event =
     bindR (liftR (parseStreamEvent (en_dp env) event)) (\<lambda>e.
     bindR (assertTenant (xe_tenantId (se_event e))) (\<lambda>_.
     bindR (digestR env (fingerprintValue e)) (\<lambda>fingerprint s.
       (let state = streamState s (se_streamId e); n = se_sequence e in
        case map_of (ss_seen state) n of
          Some prior \<Rightarrow>
            if prior = fingerprint then retR (Duplicate n) s else streamRepairRequired e STREAM_CONFLICT s
        | None \<Rightarrow>
            if n < ss_nextSequence state then streamRepairRequired e REORDERED s
            else if n > ss_nextSequence state then streamRepairRequired e GAP s
            else if \<not> ss_hasSnapshot state \<and> se_kind e \<noteq> SNAPSHOT then streamRepairRequired e DELTA_BEFORE_SNAPSHOT s
            else storeStreamEvent env e fingerprint s))))"

section \<open>Repair from an authoritative page\<close>

record repair_result =
  re_streamId :: string
  re_fromSequence :: int
  re_toSequence :: int
  re_applied :: "int list"
  re_duplicates :: "int list"

fun contiguousFrom :: "int \<Rightarrow> stream_event list \<Rightarrow> bool" where
  "contiguousFrom n [] = True"
| "contiguousFrom n (e # es) = (se_sequence e = n \<and> contiguousFrom (n + 1) es)"

definition contiguousEvents :: "stream_event list \<Rightarrow> bool" where
  "contiguousEvents es = (case es of [] \<Rightarrow> True | e # rest \<Rightarrow> contiguousFrom (se_sequence e + 1) rest)"

definition reasonText :: "repair_reason \<Rightarrow> string" where
  "reasonText r = (case r of GAP \<Rightarrow> ''GAP'' | REORDERED \<Rightarrow> ''REORDERED'' | STREAM_CONFLICT \<Rightarrow> ''CONFLICT''
     | DELTA_BEFORE_SNAPSHOT \<Rightarrow> ''DELTA_BEFORE_SNAPSHOT'')"

fun repairEvents ::
  "runtime_env \<Rightarrow> stream_event list \<Rightarrow> int list \<Rightarrow> int list \<Rightarrow> premise_runtime
     \<Rightarrow> (exn + int list \<times> int list) \<times> premise_runtime" where
  "repairEvents env [] applied duplicates s = (Inr (applied, duplicates), s)"
| "repairEvents env (e # es) applied duplicates s =
     (case applyStreamEvent env e s of
        (Inl err, s1) \<Rightarrow> (Inl err, s1)
      | (Inr (RepairRequired n reason), s1) \<Rightarrow>
          (Inl (Failure (''Authoritative stream repair failed: '' @ reasonText reason)), s1)
      | (Inr (Applied n), s1) \<Rightarrow> repairEvents env es (applied @ [n]) duplicates s1
      | (Inr (Duplicate n), s1) \<Rightarrow> repairEvents env es applied (duplicates @ [n]) s1)"

definition checkRepairPage :: "stream_page \<Rightarrow> exn + unit" where
  "checkRepairPage p =
     (let es = pg_events p in
      if es = [] then Inl (Failure ''Authoritative stream repair requires at least one event'')
      else if pg_nextCursor p \<noteq> None then Inl (Failure ''Authoritative stream repair requires a terminal page'')
      else if se_kind (hd es) \<noteq> SNAPSHOT then Inl (Failure ''Authoritative stream repair must begin with a SNAPSHOT'')
      else if se_sequence (last es) \<noteq> pg_headSequence p
        then Inl (Failure ''Authoritative stream repair page must end at headSequence'')
      else if \<not> contiguousEvents es then Inl (Failure ''Authoritative stream repair page must be contiguous'')
      else Inr ())"

definition repairStreamFromSnapshot ::
  "runtime_env \<Rightarrow> stream_page \<Rightarrow> premise_runtime \<Rightarrow> (exn + repair_result) \<times> premise_runtime" where
  "repairStreamFromSnapshot env page =
     bindR (liftR (parsePage (en_dp env) page)) (\<lambda>p.
     bindR (assertTenant (pg_tenantId p)) (\<lambda>_.
     bindR (liftR (checkRepairPage p)) (\<lambda>_ s.
       (let first = se_sequence (hd (pg_events p)); fence = setStream (pg_streamId p) (fencedStream first) in
        case repairEvents env (pg_events p) [] [] (fence s) of
          (Inl err, s1) \<Rightarrow> (Inl err, fence s1)
        | (Inr (applied, duplicates), s1) \<Rightarrow>
            (Inr \<lparr>re_streamId = pg_streamId p, re_fromSequence = first, re_toSequence = se_sequence (last (pg_events p)),
               re_applied = applied, re_duplicates = duplicates\<rparr>, s1)))))"

section \<open>Bursts\<close>

datatype preserve_reason = EMPTY_BURST | CAPABILITY_MISSING | NO_SNAPSHOT | NON_CONTIGUOUS | DELTA_CAPABILITY_MISSING
  | NOTHING_TO_SKIP

datatype burst_plan =
    COALESCED string string "stream_event list" "int list"
  | PRESERVED preserve_reason "stream_event list"

fun latestSnapshotFrom :: "nat \<Rightarrow> nat option \<Rightarrow> stream_event list \<Rightarrow> nat option" where
  "latestSnapshotFrom i found [] = found"
| "latestSnapshotFrom i found (e # es) = latestSnapshotFrom (i + 1) (if se_kind e = SNAPSHOT then Some i else found) es"

definition planRuntimeStreamBurst ::
  "(string \<Rightarrow> int option) \<Rightarrow> stream_event list \<Rightarrow> stream_capability list \<Rightarrow> exn + burst_plan" where
  "planRuntimeStreamBurst dp input capabilities =
     (if input = [] then Inr (PRESERVED EMPTY_BURST [])
      else andThen (traverse (parseStreamEvent dp) input) (\<lambda>events.
        (let first = hd events in
         if list_ex (\<lambda>e. se_streamId e \<noteq> se_streamId first \<or> xe_tenantId (se_event e) \<noteq> xe_tenantId (se_event first)) events
           then Inr (PRESERVED NON_CONTIGUOUS events)
         else if \<not> contiguousEvents events then Inr (PRESERVED NON_CONTIGUOUS events)
         else if ORDERED_EVENTS \<notin> set capabilities \<or> AUTHORITATIVE_SNAPSHOT \<notin> set capabilities
           then Inr (PRESERVED CAPABILITY_MISSING events)
         else case latestSnapshotFrom 0 None events of
           None \<Rightarrow> Inr (PRESERVED NO_SNAPSHOT events)
         | Some i \<Rightarrow>
             if i = 0 then Inr (PRESERVED NOTHING_TO_SKIP events)
             else if DELTA_EVENTS \<notin> set capabilities \<and> i < length events - 1
               then Inr (PRESERVED DELTA_CAPABILITY_MISSING events)
             else Inr (COALESCED (se_streamId first) (xe_tenantId (se_event first)) (drop i events)
                    (map se_sequence (take i events))))))"

datatype burst_status = BurstApplied | BurstRepaired | BurstRepairRequired repair_reason

record burst_result =
  bu_status :: burst_status
  bu_coalesced :: bool
  bu_applied :: "int list"
  bu_duplicates :: "int list"
  bu_skipped :: "int list"

fun applyInOrder ::
  "runtime_env \<Rightarrow> stream_event list \<Rightarrow> int list \<Rightarrow> int list \<Rightarrow> premise_runtime
     \<Rightarrow> (exn + burst_result) \<times> premise_runtime" where
  "applyInOrder env [] applied duplicates s =
     (Inr \<lparr>bu_status = BurstApplied, bu_coalesced = False, bu_applied = applied, bu_duplicates = duplicates, bu_skipped = []\<rparr>, s)"
| "applyInOrder env (e # es) applied duplicates s =
     (case applyStreamEvent env e s of
        (Inl err, s1) \<Rightarrow> (Inl err, s1)
      | (Inr (RepairRequired n reason), s1) \<Rightarrow>
          (Inr \<lparr>bu_status = BurstRepairRequired reason, bu_coalesced = False, bu_applied = applied,
             bu_duplicates = duplicates, bu_skipped = []\<rparr>, s1)
      | (Inr (Applied n), s1) \<Rightarrow> applyInOrder env es (applied @ [n]) duplicates s1
      | (Inr (Duplicate n), s1) \<Rightarrow> applyInOrder env es applied (duplicates @ [n]) s1)"

definition applyStreamBurst ::
  "runtime_env \<Rightarrow> stream_event list \<Rightarrow> stream_capability list \<Rightarrow> premise_runtime
     \<Rightarrow> (exn + burst_result) \<times> premise_runtime" where
  "applyStreamBurst env events capabilities =
     bindR (liftR (planRuntimeStreamBurst (en_dp env) events capabilities)) (\<lambda>plan.
       case plan of
         COALESCED streamId tenantId kept skipped \<Rightarrow>
           bindR (repairStreamFromSnapshot env \<lparr>pg_tenantId = tenantId, pg_streamId = streamId, pg_events = kept,
               pg_headSequence = se_sequence (last kept), pg_nextCursor = None\<rparr>) (\<lambda>repaired.
             retR \<lparr>bu_status = BurstRepaired, bu_coalesced = True, bu_applied = re_applied repaired,
               bu_duplicates = re_duplicates repaired, bu_skipped = skipped\<rparr>)
       | PRESERVED reason kept \<Rightarrow> applyInOrder env kept [] [])"

section \<open>The machine of one stream\<close>

text \<open>
  What \<open>applyStreamEvent\<close> implements: a stream is either fenced, waiting for a snapshot with a
  given number, or running, having accepted every number from its snapshot \<open>a\<close> up to, not
  including, \<open>n\<close>. An event is seen as its number and kind.
\<close>

datatype stream_view = Fenced int | Running int int

inductive stream_step :: "stream_view \<Rightarrow> int \<Rightarrow> stream_kind \<Rightarrow> stream_outcome \<Rightarrow> stream_view \<Rightarrow> bool" where
  start: "oc = Applied n \<or> oc = Duplicate n \<Longrightarrow> stream_step (Fenced n) n SNAPSHOT oc (Running n (n + 1))"
| continue: "oc = Applied n \<or> oc = Duplicate n \<Longrightarrow> stream_step (Running a n) n k oc (Running a (n + 1))"
| again: "a \<le> m \<Longrightarrow> m < n \<Longrightarrow> stream_step (Running a n) m k (Duplicate m) (Running a n)"
| altered: "a \<le> m \<Longrightarrow> m < n \<Longrightarrow> stream_step (Running a n) m k (RepairRequired m STREAM_CONFLICT) (Fenced m)"
| refused: "stream_step (Running a n) n k (RepairRequired n STREAM_CONFLICT) (Fenced n)"
| refused_start: "stream_step (Fenced n) n SNAPSHOT (RepairRequired n STREAM_CONFLICT) (Fenced n)"
| no_snapshot: "stream_step (Fenced n) n DELTA (RepairRequired n DELTA_BEFORE_SNAPSHOT) (Fenced n)"
| early: "m < n \<Longrightarrow> stream_step (Fenced n) m k (RepairRequired m REORDERED) (Fenced m)"
| late: "n < m \<Longrightarrow> stream_step (Fenced n) m k (RepairRequired m GAP) (Fenced m)"
| behind: "m < a \<Longrightarrow> stream_step (Running a n) m k (RepairRequired m REORDERED) (Fenced m)"
| ahead: "n < m \<Longrightarrow> stream_step (Running a n) m k (RepairRequired m GAP) (Fenced m)"

inductive_cases stream_step_Applied: "stream_step v m k (Applied j) w"
inductive_cases stream_step_Repair: "stream_step v m k (RepairRequired j r) w"
inductive_simps stream_step_from_fence: "stream_step (Fenced n) m k oc w"

definition streamStart :: "stream_state \<Rightarrow> int" where
  "streamStart t = ss_nextSequence t - int (length (ss_seen t))"

definition stream_ok :: "stream_state \<Rightarrow> bool" where
  "stream_ok t = (map fst (ss_seen t) = [streamStart t..ss_nextSequence t - 1] \<and> (ss_hasSnapshot t \<longleftrightarrow> ss_seen t \<noteq> []))"

definition streamView :: "stream_state \<Rightarrow> stream_view" where
  "streamView t = (if ss_hasSnapshot t then Running (streamStart t) (ss_nextSequence t) else Fenced (ss_nextSequence t))"

definition streams_ok :: "premise_runtime \<Rightarrow> bool" where
  "streams_ok s = (\<forall>i. stream_ok (streamState s i))"

lemma fenced_stream [simp]: "stream_ok (fencedStream n)" "streamView (fencedStream n) = Fenced n"
  by (simp_all add: stream_ok_def fencedStream_def streamView_def streamStart_def)

lemma streamState_setStream [simp]:
  "streamState (setStream i t s) j = (if j = i then t else streamState s j)"
  by (simp add: streamState_def setStream_def)

lemma streams_ok_setStream: "streams_ok s \<Longrightarrow> stream_ok t \<Longrightarrow> streams_ok (setStream i t s)"
  by (simp add: streams_ok_def)

lemma seen_iff:
  assumes "stream_ok t"
  shows "map_of (ss_seen t) n \<noteq> None \<longleftrightarrow> streamStart t \<le> n \<and> n < ss_nextSequence t"
proof -
  have "map_of (ss_seen t) n \<noteq> None \<longleftrightarrow> n \<in> set (map fst (ss_seen t))"
    by (simp add: map_of_eq_None_iff)
  also have "\<dots> \<longleftrightarrow> streamStart t \<le> n \<and> n < ss_nextSequence t"
    using assms by (auto simp only: stream_ok_def set_upto atLeastAtMost_iff)
  finally show ?thesis .
qed

text \<open>The state after the number \<open>ss_nextSequence\<close> is accepted.\<close>

definition advanced :: "stream_state \<Rightarrow> string \<Rightarrow> bool \<Rightarrow> stream_state" where
  "advanced t fingerprint isSnapshot = \<lparr>ss_nextSequence = ss_nextSequence t + 1,
     ss_seen = omap_set (ss_nextSequence t) fingerprint (ss_seen t), ss_hasSnapshot = (ss_hasSnapshot t \<or> isSnapshot)\<rparr>"

lemma omap_set_append: "k \<notin> fst ` set m \<Longrightarrow> omap_set k v m = m @ [(k, v)]"
  by (induction m) (auto simp: omap_set_def)

lemma advanced_ok:
  assumes "stream_ok t" and "ss_hasSnapshot t \<or> b"
  shows "stream_ok (advanced t f b)"
    and "streamView (advanced t f b) =
      (case streamView t of Fenced n \<Rightarrow> Running n (n + 1) | Running a n \<Rightarrow> Running a (n + 1))"
proof -
  have keys: "map fst (ss_seen t) = [streamStart t..ss_nextSequence t - 1]" and le: "streamStart t \<le> ss_nextSequence t"
    using assms(1) by (simp_all add: stream_ok_def streamStart_def)
  have "ss_nextSequence t \<notin> set (map fst (ss_seen t))" by (simp only: keys set_upto) simp
  then have seen: "ss_seen (advanced t f b) = ss_seen t @ [(ss_nextSequence t, f)]"
    by (simp add: advanced_def omap_set_append)
  then have start: "streamStart (advanced t f b) = streamStart t"
    by (simp add: streamStart_def) (simp add: advanced_def)
  show "stream_ok (advanced t f b)"
    using assms(2) le upto_rec2 [of "streamStart t" "ss_nextSequence t"]
    by (simp add: stream_ok_def start seen keys) (simp add: advanced_def)
  show "streamView (advanced t f b) =
      (case streamView t of Fenced n \<Rightarrow> Running n (n + 1) | Running a n \<Rightarrow> Running a (n + 1))"
    using assms start by (simp add: streamView_def) (auto simp: advanced_def stream_ok_def streamStart_def)
qed


lemma assertTenant_keeps [keeping]: "keeps P s (assertTenant t s)"
  unfolding assertTenant_def by (intro keeping)

lemma applyEvent_keeps:
  "(\<And>s st. P s \<Longrightarrow> P (s\<lparr>pr_store := st\<rparr>)) \<Longrightarrow> keeps P s (applyEvent env e s)"
  unfolding applyEvent_def by (intro keeping keeps_storeR)

lemma applyEvent_streams:
  assumes "applyEvent env e s = (r, s')"
  shows "streamState s' = streamState s"
proof -
  have "keeps (\<lambda>u. streamState u = streamState s) s (applyEvent env e s)"
    by (rule applyEvent_keeps) (simp add: streamState_def fun_eq_iff)
  from keepsD [OF this _ assms] show ?thesis by simp
qed

text \<open>What can become of an event that is next in its stream: accepted, or refused with the stream fenced.\<close>

definition settled :: "stream_event \<Rightarrow> string \<Rightarrow> premise_runtime \<Rightarrow> stream_outcome \<Rightarrow> premise_runtime \<Rightarrow> bool" where
  "settled e f s oc s' = (let i = se_streamId e; n = se_sequence e; b = (se_kind e = SNAPSHOT) in
     (\<forall>j. j \<noteq> i \<longrightarrow> streamState s' j = streamState s j) \<and>
     (oc = RepairRequired n STREAM_CONFLICT \<and> streamState s' i = fencedStream n \<or>
      (oc = Applied n \<or> oc = Duplicate n) \<and> streamState s' i = (streamState s i)
        \<lparr>ss_nextSequence := n + 1, ss_seen := omap_set n f (ss_seen (streamState s i)),
         ss_hasSnapshot := (ss_hasSnapshot (streamState s i) \<or> b)\<rparr>))"

lemma acceptStreamEvent_settled:
  assumes "acceptStreamEvent e f b s1 = (Inr oc, s')" and "streamState s1 = streamState s"
  shows "settled e f s oc s'"
proof -
  have oc: "oc = (if b then Applied (se_sequence e) else Duplicate (se_sequence e))"
    and s': "s' = setStream (se_streamId e) \<lparr>ss_nextSequence = se_sequence e + 1,
      ss_seen = omap_set (se_sequence e) f (ss_seen (streamState s1 (se_streamId e))),
      ss_hasSnapshot = (ss_hasSnapshot (streamState s1 (se_streamId e)) \<or> se_kind e = SNAPSHOT)\<rparr> s1"
    using assms(1) unfolding acceptStreamEvent_def Let_def by simp_all
  have "streamState s' j = (if j = se_streamId e then \<lparr>ss_nextSequence = se_sequence e + 1,
      ss_seen = omap_set (se_sequence e) f (ss_seen (streamState s (se_streamId e))),
      ss_hasSnapshot = (ss_hasSnapshot (streamState s (se_streamId e)) \<or> se_kind e = SNAPSHOT)\<rparr> else streamState s j)" for j
    unfolding s' streamState_setStream assms(2) by (rule refl)
  then show ?thesis unfolding settled_def Let_def oc by (cases b) simp_all
qed

lemma streamRepairRequired_settled:
  assumes "streamRepairRequired e STREAM_CONFLICT s1 = (Inr oc, s')" and "streamState s1 = streamState s"
  shows "settled e f s oc s'"
  using assms by (auto simp: streamRepairRequired_def settled_def Let_def)

lemma storeStreamEvent_settled:
  assumes "storeStreamEvent env e f s = (Inr oc, s')"
  shows "settled e f s oc s'"
proof -
  obtain b s1 where run: "applyEvent env (se_event e) s = (Inr b, s1)"
    using assms by (auto simp: storeStreamEvent_def bindR_Inr_iff)
  note same = applyEvent_streams [OF run]
  show ?thesis
  proof (cases b)
    case True
    with assms run have "acceptStreamEvent e f True s1 = (Inr oc, s')"
      by (simp add: storeStreamEvent_def bindR_def)
    then show ?thesis by (rule acceptStreamEvent_settled [OF _ same])
  next
    case False
    show ?thesis
    proof (cases "eventFor s1 (xe_idempotencyKey (se_event e))")
      case None
      with assms run False have "streamRepairRequired e STREAM_CONFLICT s1 = (Inr oc, s')"
        by (simp add: storeStreamEvent_def bindR_def)
      then show ?thesis by (rule streamRepairRequired_settled [OF _ same])
    next
      case (Some existing)
      with assms run False obtain c d :: string where
        "(if c \<noteq> d then streamRepairRequired e STREAM_CONFLICT else acceptStreamEvent e f False) s1 = (Inr oc, s')"
        by (simp add: storeStreamEvent_def bindR_def digestR_def liftR_def split: sum.splits)
      then show ?thesis
        using streamRepairRequired_settled [OF _ same] acceptStreamEvent_settled [OF _ same] by (cases "c = d") auto
    qed
  qed
qed

lemma settled_step:
  assumes ok: "streams_ok s" and st: "settled e f s oc s'" and i: "i = se_streamId e"
    and nxt: "se_sequence e = ss_nextSequence (streamState s i)"
    and kind: "ss_hasSnapshot (streamState s i) \<or> se_kind e = SNAPSHOT"
  shows "streams_ok s' \<and>
    stream_step (streamView (streamState s i)) (se_sequence e) (se_kind e) oc (streamView (streamState s' i))"
proof -
  let ?t = "streamState s i"
  have t: "stream_ok ?t" using ok by (simp add: streams_ok_def)
  have others: "stream_ok (streamState s' j)" if "j \<noteq> i" for j
    using ok st that by (simp add: settled_def Let_def i streams_ok_def)
  consider "oc = RepairRequired (se_sequence e) STREAM_CONFLICT" "streamState s' i = fencedStream (se_sequence e)"
    | "oc = Applied (se_sequence e) \<or> oc = Duplicate (se_sequence e)"
      "streamState s' i = advanced ?t f (se_kind e = SNAPSHOT)"
    using st unfolding settled_def Let_def i [symmetric] by (auto simp: nxt advanced_def)
  then show ?thesis
  proof cases
    case 1
    have "stream_step (streamView ?t) (se_sequence e) (se_kind e) oc (Fenced (se_sequence e))"
      using kind nxt 1(1) by (auto simp: streamView_def intro: stream_step.refused stream_step.refused_start)
    with 1(2) others show ?thesis by (metis fenced_stream streams_ok_def)
  next
    case 2
    note adv = advanced_ok [OF t kind, of f]
    have "stream_step (streamView ?t) (se_sequence e) (se_kind e) oc (streamView (streamState s' i))"
      using kind nxt 2(1) unfolding 2(2) adv(2)
      by (cases "ss_hasSnapshot ?t") (auto simp: streamView_def intro: stream_step.start stream_step.continue)
    with adv(1) 2(2) others show ?thesis by (metis streams_ok_def)
  qed
qed


lemma streamView_less:
  assumes "stream_ok t" and "map_of (ss_seen t) n = None" and "n < ss_nextSequence t"
  shows "stream_step (streamView t) n k (RepairRequired n REORDERED) (Fenced n)"
proof (cases "ss_hasSnapshot t")
  case True
  with assms seen_iff [OF assms(1), of n] show ?thesis
    by (auto simp: streamView_def intro: stream_step.behind)
next
  case False
  with assms(3) show ?thesis by (simp add: streamView_def stream_step.early)
qed

lemma streamView_greater:
  "ss_nextSequence t < n \<Longrightarrow> stream_step (streamView t) n k (RepairRequired n GAP) (Fenced n)"
  by (simp add: streamView_def stream_step.late stream_step.ahead)

lemma streamView_seen:
  assumes "stream_ok t" and "map_of (ss_seen t) n = Some f"
  shows "stream_step (streamView t) n k (Duplicate n) (streamView t)"
    and "stream_step (streamView t) n k (RepairRequired n STREAM_CONFLICT) (Fenced n)"
proof -
  have "streamStart t \<le> n" "n < ss_nextSequence t" "ss_hasSnapshot t"
    using assms seen_iff [OF assms(1), of n] by (auto simp: stream_ok_def)
  then show "stream_step (streamView t) n k (Duplicate n) (streamView t)"
    "stream_step (streamView t) n k (RepairRequired n STREAM_CONFLICT) (Fenced n)"
    by (simp_all add: streamView_def stream_step.again stream_step.altered)
qed

lemma streamRepairRequired_step:
  assumes "streams_ok s" and "streamRepairRequired e r s = (Inr oc, s')"
    and "stream_step v (se_sequence e) k (RepairRequired (se_sequence e) r) (Fenced (se_sequence e))"
  shows "streams_ok s' \<and> stream_step v (se_sequence e) k oc (streamView (streamState s' (se_streamId e))) \<and>
    (\<forall>j. j \<noteq> se_streamId e \<longrightarrow> streamState s' j = streamState s j)"
  using assms by (auto simp: streamRepairRequired_def streams_ok_setStream)

lemma parseStreamEvent_same: "parseStreamEvent dp e = Inr e' \<Longrightarrow> e' = e"
  by (auto simp: parseStreamEvent_def split: sum.splits)

lemma applyStreamEvent_cases:
  assumes "applyStreamEvent env e s = (Inr oc, s')"
  obtains f where "(let state = streamState s (se_streamId e); n = se_sequence e in
        case map_of (ss_seen state) n of
          Some prior \<Rightarrow> if prior = f then retR (Duplicate n) s else streamRepairRequired e STREAM_CONFLICT s
        | None \<Rightarrow>
            if n < ss_nextSequence state then streamRepairRequired e REORDERED s
            else if n > ss_nextSequence state then streamRepairRequired e GAP s
            else if \<not> ss_hasSnapshot state \<and> se_kind e \<noteq> SNAPSHOT then streamRepairRequired e DELTA_BEFORE_SNAPSHOT s
            else storeStreamEvent env e f s) = (Inr oc, s')"
  using assms parseStreamEvent_same
  by (fastforce simp: applyStreamEvent_def bindR_Inr_iff assertTenant_def digestR_def split: if_splits)

lemma applyStreamEvent_step:
  assumes ok: "streams_ok s" and run: "applyStreamEvent env e s = (Inr oc, s')"
  shows "streams_ok s' \<and>
    stream_step (streamView (streamState s (se_streamId e))) (se_sequence e) (se_kind e) oc
      (streamView (streamState s' (se_streamId e))) \<and>
    (\<forall>j. j \<noteq> se_streamId e \<longrightarrow> streamState s' j = streamState s j)"
proof -
  let ?t = "streamState s (se_streamId e)" and ?n = "se_sequence e"
  have t: "stream_ok ?t" using ok by (simp add: streams_ok_def)
  obtain f where f: "(let state = ?t; n = ?n in
        case map_of (ss_seen state) n of
          Some prior \<Rightarrow> if prior = f then retR (Duplicate n) s else streamRepairRequired e STREAM_CONFLICT s
        | None \<Rightarrow>
            if n < ss_nextSequence state then streamRepairRequired e REORDERED s
            else if n > ss_nextSequence state then streamRepairRequired e GAP s
            else if \<not> ss_hasSnapshot state \<and> se_kind e \<noteq> SNAPSHOT then streamRepairRequired e DELTA_BEFORE_SNAPSHOT s
            else storeStreamEvent env e f s) = (Inr oc, s')"
    using applyStreamEvent_cases [OF run] .
  note repair = streamRepairRequired_step [OF ok]
  show ?thesis
  proof (cases "map_of (ss_seen ?t) ?n")
    case (Some prior)
    then show ?thesis
    proof (cases "prior = f")
      case True
      with f Some have "oc = Duplicate ?n" "s' = s" by (auto simp: retR_def)
      with ok streamView_seen(1) [OF t Some] show ?thesis by simp
    next
      case False
      with f Some have "streamRepairRequired e STREAM_CONFLICT s = (Inr oc, s')" by simp
      from repair [OF this streamView_seen(2) [OF t Some]] show ?thesis by simp
    qed
  next
    case None
    consider "?n < ss_nextSequence ?t" | "?n > ss_nextSequence ?t"
      | "?n = ss_nextSequence ?t" "\<not> ss_hasSnapshot ?t \<and> se_kind e \<noteq> SNAPSHOT"
      | "?n = ss_nextSequence ?t" "ss_hasSnapshot ?t \<or> se_kind e = SNAPSHOT" by fastforce
    then show ?thesis
    proof cases
      case 1
      with f None have "streamRepairRequired e REORDERED s = (Inr oc, s')" by simp
      from repair [OF this streamView_less [OF t None 1]] show ?thesis by simp
    next
      case 2
      with f None have "streamRepairRequired e GAP s = (Inr oc, s')" by simp
      from repair [OF this streamView_greater [OF 2]] show ?thesis by simp
    next
      case 3
      then have v: "stream_step (streamView ?t) ?n (se_kind e) (RepairRequired ?n DELTA_BEFORE_SNAPSHOT) (Fenced ?n)"
        by (cases "se_kind e") (auto simp: streamView_def intro: stream_step.no_snapshot)
      from f None 3 have "streamRepairRequired e DELTA_BEFORE_SNAPSHOT s = (Inr oc, s')" by simp
      from repair [OF this v] show ?thesis by simp
    next
      case 4
      with f None have "storeStreamEvent env e f s = (Inr oc, s')" by auto
      then have set: "settled e f s oc s'" by (rule storeStreamEvent_settled)
      from settled_step [OF ok set refl 4] set show ?thesis by (simp add: settled_def Let_def)
    qed
  qed
qed

section \<open>Runs of events\<close>

lemma applyStreamEvent_error:
  assumes "applyStreamEvent env e s = (Inl err, s')"
  shows "streamState s' = streamState s"
proof -
  have store: "streamState s1 = streamState s" if "storeStreamEvent env x f s = (Inl err, s1)" for x f s1
  proof (cases "applyEvent env (se_event x) s")
    case (Pair r s2)
    with that applyEvent_streams [OF Pair] show ?thesis
      by (auto simp: storeStreamEvent_def bindR_def acceptStreamEvent_def streamRepairRequired_def digestR_def liftR_def
          Let_def split: sum.splits option.splits if_splits)
  qed
  show ?thesis
    using assms store
    by (auto simp: applyStreamEvent_def bindR_def liftR_def retR_def failR_def assertTenant_def digestR_def
        streamRepairRequired_def Let_def split: sum.splits option.splits if_splits)
qed

lemma applyStreamEvent_ok: "streams_ok s \<Longrightarrow> streams_ok (snd (applyStreamEvent env e s))"
proof (cases "applyStreamEvent env e s")
  case (Pair r s')
  assume ok: "streams_ok s"
  show ?thesis
  proof (cases r)
    case (Inl err)
    with Pair have "applyStreamEvent env e s = (Inl err, s')" by simp
    from applyStreamEvent_error [OF this] ok Pair show ?thesis by (simp add: streams_ok_def)
  next
    case (Inr oc)
    with Pair have "applyStreamEvent env e s = (Inr oc, s')" by simp
    from applyStreamEvent_step [OF ok this] Pair show ?thesis by simp
  qed
qed

definition streamRun :: "runtime_env \<Rightarrow> stream_event list \<Rightarrow> premise_runtime \<Rightarrow> premise_runtime" where
  "streamRun env es s = fold (\<lambda>e s. snd (applyStreamEvent env e s)) es s"

lemma streamRun_ok: "streams_ok s \<Longrightarrow> streams_ok (streamRun env es s)"
  unfolding streamRun_def by (induction es arbitrary: s) (simp_all add: applyStreamEvent_ok)

lemma indexRecord_streams: "pr_streamStates (indexRecord r s) = pr_streamStates s"
  by (simp add: indexRecord_def Let_def)

lemma fold_indexRecord_streams: "pr_streamStates (fold indexRecord rs s) = pr_streamStates s"
  by (induction rs arbitrary: s) (simp_all add: indexRecord_streams)

lemma newPremiseRuntime_streams: "pr_streamStates (newPremiseRuntime st t p) = []"
  by (simp add: newPremiseRuntime_def rebuildIndexes_def syncStoreRevision_def fold_indexRecord_streams Let_def)

lemma streams_ok_new: "streams_ok (newPremiseRuntime st t p)"
  by (simp add: streams_ok_def streamState_def newPremiseRuntime_streams freshStream_def stream_ok_def streamStart_def)

text \<open>An accepted event that was next in its stream is in the store.\<close>

lemma hasEvent_append:
  "storeAppendEvent dp e st = Inr st' \<Longrightarrow> map_of (st_events st) (xe_idempotencyKey e) = None \<Longrightarrow>
     storeHasEvent st' (xe_idempotencyKey e)"
  by (auto simp: storeAppendEvent_def storeHasEvent_def andThen_Inr_iff parseEvent_def Let_def
      split: sum.splits option.splits if_splits)

lemma hasEvent_mono:
  "storeAppendEvent dp e st = Inr st' \<Longrightarrow> storeHasEvent st k \<Longrightarrow> storeHasEvent st' k"
  by (auto simp: storeAppendEvent_def storeHasEvent_def andThen_Inr_iff Let_def
      split: sum.splits option.splits if_splits)


end
