(* ===== verification/Stream_Repair.thy ===== *)
theory Stream_Repair
  imports Runtime_Stream
begin

text \<open>
  What the streams of the runtime promise: \<open>applyStreamEvent\<close> refines the machine of one stream,
  a repair from a snapshot page ends running at the head of the page or fenced at its start, and
  a burst is only cut before an authoritative snapshot.
\<close>

section \<open>Events reach the store\<close>

text \<open>Every stored event has its idempotency record.\<close>

definition events_indexed :: "runtime_store \<Rightarrow> bool" where
  "events_indexed st = (\<forall>k. map_of (st_events st) k \<noteq> None \<longrightarrow> storeHasEvent st k)"



lemma setStream_store [simp]: "pr_store (setStream i t s) = pr_store s"
  by (simp add: setStream_def)



section \<open>Repairs\<close>















lemma indexRecord_store: "pr_store (indexRecord r s) = pr_store s"
  by (simp add: indexRecord_def Let_def)

lemma fold_indexRecord_store: "pr_store (fold indexRecord rs s) = pr_store s"
  by (induction rs arbitrary: s) (simp_all add: indexRecord_store)

lemma newPremiseRuntime_store [simp]: "pr_store (newPremiseRuntime st t p) = st"
  by (simp add: newPremiseRuntime_def rebuildIndexes_def syncStoreRevision_def fold_indexRecord_store Let_def)

lemma events_indexed_new [simp]: "events_indexed newRuntimeStore"
  by (simp add: events_indexed_def newRuntimeStore_def)


section \<open>Bursts\<close>

lemma latestSnapshotFrom_None: "\<forall>e \<in> set es. se_kind e \<noteq> SNAPSHOT \<Longrightarrow> latestSnapshotFrom i found es = found"
  by (induction es arbitrary: i) auto

lemma latestSnapshotFrom_mem:
  "\<exists>e \<in> set es. se_kind e = SNAPSHOT \<Longrightarrow> latestSnapshotFrom i found es = latestSnapshotFrom i None es"
proof (induction es arbitrary: i found)
  case (Cons e es)
  show ?case
  proof (cases "\<exists>e \<in> set es. se_kind e = SNAPSHOT")
    case True
    from Cons.IH [OF this] have "latestSnapshotFrom (i + 1) x es = latestSnapshotFrom (i + 1) y es" for x y by metis
    then show ?thesis unfolding latestSnapshotFrom.simps .
  next
    case False
    with Cons.prems show ?thesis by simp
  qed
qed simp

lemma latestSnapshotFrom_Some:
  "latestSnapshotFrom i None es = Some j \<Longrightarrow> \<exists>k. j = i + k \<and> k < length es \<and> se_kind (es ! k) = SNAPSHOT \<and>
     (\<forall>m. k < m \<and> m < length es \<longrightarrow> se_kind (es ! m) = DELTA)"
proof (induction es arbitrary: i)
  case (Cons e es)
  show ?case
  proof (cases "\<forall>x \<in> set es. se_kind x \<noteq> SNAPSHOT")
    case True
    with Cons.prems have "se_kind e = SNAPSHOT" "j = i"
      by (auto simp: latestSnapshotFrom_None split: if_splits)
    moreover have "se_kind x = DELTA" if "x \<in> set es" for x using True that by (cases "se_kind x") auto
    ultimately show ?thesis by (intro exI [of _ 0]) (auto simp: nth_Cons')
  next
    case False
    then have "latestSnapshotFrom (i + 1) (if se_kind e = SNAPSHOT then Some i else None) es = latestSnapshotFrom (i + 1) None es"
      by (intro latestSnapshotFrom_mem) auto
    with Cons.prems have "latestSnapshotFrom (i + 1) None es = Some j" by simp
    from Cons.IH [OF this] obtain k where "j = i + 1 + k" "k < length es" "se_kind (es ! k) = SNAPSHOT"
      "\<forall>m. k < m \<and> m < length es \<longrightarrow> se_kind (es ! m) = DELTA" by blast
    moreover have "se_kind ((e # es) ! m) = DELTA" if "Suc k < m" "m < length (e # es)" for m
      using calculation(4) that by (cases m) auto
    ultimately show ?thesis by (intro exI [of _ "Suc k"]) auto
  qed
qed simp

lemma parsed_burst: "traverse (parseStreamEvent dp) input = Inr events \<Longrightarrow> events = input"
  using parseStreamEvent_same by (induction input arbitrary: events) (auto simp: andThen_Inr_iff)

section \<open>Properties\<close>



text \<open>
  C18: A burst loses nothing but superseded events: the plan either keeps the burst whole, or
  cuts it before its latest snapshot, so that the kept part starts with a snapshot followed by
  deltas only, and the skipped numbers are exactly those before it. It cuts only a contiguous
  burst of one stream and tenant, and only where the connector has ordered events and
  authoritative snapshots, and delta events if deltas are kept.
\<close>

theorem burst_skips_superseded:
  assumes "planRuntimeStreamBurst dp input capabilities = Inr b"
  shows "(case b of
       PRESERVED reason kept \<Rightarrow> kept = input
     | COALESCED streamId tenantId kept skipped \<Rightarrow>
         (\<exists>dropped. input = dropped @ kept \<and> skipped = map se_sequence dropped \<and> dropped \<noteq> []) \<and>
         kept \<noteq> [] \<and> se_kind (hd kept) = SNAPSHOT \<and> (\<forall>e \<in> set (tl kept). se_kind e = DELTA) \<and>
         contiguousEvents input \<and> (\<forall>e \<in> set input. se_streamId e = streamId \<and> xe_tenantId (se_event e) = tenantId) \<and>
         {ORDERED_EVENTS, AUTHORITATIVE_SNAPSHOT} \<subseteq> set capabilities \<and>
         (tl kept \<noteq> [] \<longrightarrow> DELTA_EVENTS \<in> set capabilities))"
proof (cases b)
  case (PRESERVED reason kept)
  with assms parsed_burst show ?thesis
    by (fastforce simp: planRuntimeStreamBurst_def andThen_Inr_iff Let_def split: if_splits option.splits)
next
  case (COALESCED streamId tenantId kept skipped)
  have parse: "traverse (parseStreamEvent dp) input = Inr input"
    using assms COALESCED parsed_burst
    by (cases "traverse (parseStreamEvent dp) input") (auto simp: planRuntimeStreamBurst_def split: if_splits)
  have P: "planRuntimeStreamBurst dp input capabilities = Inr (COALESCED streamId tenantId kept skipped)"
    using assms COALESCED by simp
  let ?other = "\<lambda>e. se_streamId e \<noteq> se_streamId (hd input) \<or> xe_tenantId (se_event e) \<noteq> xe_tenantId (se_event (hd input))"
  note unfold = planRuntimeStreamBurst_def parse Let_def
  have ne: "input \<noteq> []" using P by (auto simp: planRuntimeStreamBurst_def)
  have c1: "\<not> list_ex ?other input" by (rule notI) (use P ne in \<open>simp add: unfold\<close>)
  have c2: "contiguousEvents input" by (rule ccontr) (use P ne c1 in \<open>simp add: unfold\<close>)
  have c3: "ORDERED_EVENTS \<in> set capabilities \<and> AUTHORITATIVE_SNAPSHOT \<in> set capabilities"
    by (rule ccontr) (use P ne c1 c2 in \<open>simp add: unfold split: if_splits\<close>)
  obtain i where latest: "latestSnapshotFrom 0 None input = Some i"
    by (cases "latestSnapshotFrom 0 None input") (use P ne c1 c2 c3 in \<open>simp_all add: unfold\<close>)
  have i: "latestSnapshotFrom 0 None input = Some i" "0 < i" "kept = drop i input" "skipped = map se_sequence (take i input)"
    "streamId = se_streamId (hd input)" "tenantId = xe_tenantId (se_event (hd input))"
    and c4: "DELTA_EVENTS \<in> set capabilities \<or> \<not> i < length input - 1"
    using P ne c1 c2 c3 latest by (simp_all add: unfold split: if_splits)
  note caps = c2 c3 [THEN conjunct1] c3 [THEN conjunct2] c4
  have same: "\<forall>e \<in> set input. se_streamId e = streamId \<and> xe_tenantId (se_event e) = tenantId"
    using c1 unfolding i(5,6) list_ex_iff by blast
  from latestSnapshotFrom_Some [OF i(1)] have k: "i < length input" "se_kind (input ! i) = SNAPSHOT"
    "\<forall>m. i < m \<and> m < length input \<longrightarrow> se_kind (input ! m) = DELTA" by auto
  have "tl kept = drop (Suc i) input" by (simp add: i(3) drop_Suc tl_drop)
  then have "\<forall>e \<in> set (tl kept). se_kind e = DELTA" using k(3) by (force simp: in_set_conv_nth)
  moreover have "se_kind (hd kept) = SNAPSHOT" using k by (simp add: i(3) hd_drop_conv_nth)
  moreover have "\<exists>dropped. input = dropped @ kept \<and> skipped = map se_sequence dropped \<and> dropped \<noteq> []"
    using k(1) i by (intro exI [of _ "take i input"]) auto
  moreover have "tl kept \<noteq> [] \<longrightarrow> DELTA_EVENTS \<in> set capabilities"
    using caps(4) k(1) by (auto simp: \<open>tl kept = drop (Suc i) input\<close>)
  ultimately show ?thesis using COALESCED same caps i(3) k(1) by simp
qed

section \<open>Witnesses\<close>


definition sampleEventOf :: "string \<Rightarrow> v2_event" where
  "sampleEventOf k = \<lparr>xe_tenantId = ''t'', xe_eventId = k, xe_operationId = k, xe_idempotencyKey = k,
     xe_requestDigest = ''sha256:0'', xe_type = SourceChanged, xe_occurredAt = ''2026-01-01T00:00:00Z'',
     xe_memoryId = None, xe_payload = JObj True []\<rparr>"

definition sampleStream :: "string \<Rightarrow> int \<Rightarrow> stream_kind \<Rightarrow> stream_event" where
  "sampleStream k n kind = \<lparr>se_event = sampleEventOf k, se_streamId = ''s'', se_sequence = n, se_kind = kind,
     se_cursor = None, se_sourceVersion = None\<rparr>"





theorem burst_skips_superseded_witness:
  "planRuntimeStreamBurst sampleDates [sampleStream ''a'' 3 DELTA, sampleStream ''b'' 4 SNAPSHOT]
      [ORDERED_EVENTS, AUTHORITATIVE_SNAPSHOT] = Inr (COALESCED ''s'' ''t'' [sampleStream ''b'' 4 SNAPSHOT] [3]) \<and>
   contiguousEvents [sampleStream ''a'' 3 DELTA, sampleStream ''b'' 4 SNAPSHOT]"
proof -
  have r: "planRuntimeStreamBurst sampleDates [sampleStream ''a'' 3 DELTA, sampleStream ''b'' 4 SNAPSHOT]
      [ORDERED_EVENTS, AUTHORITATIVE_SNAPSHOT] = Inr (COALESCED ''s'' ''t'' [sampleStream ''b'' 4 SNAPSHOT] [3])"
    by code_simp
  from burst_skips_superseded [OF r] r show ?thesis by simp
qed


end
