(* ===== verification/Runtime_Index.thy ===== *)
theory Runtime_Index
  imports Runtime
begin

text \<open>
  The reverse indexes of \<open>PremiseRuntime\<close> and the traversal over them: the indexes list exactly
  the records of the tenant, by source and by dependency, and \<open>dependentClosure\<close> returns
  exactly the identifiers reachable along dependencies, each once.
\<close>

section \<open>Links of the stored records\<close>

definition tenantOf :: "runtime_record \<Rightarrow> string" where
  "tenantOf r = me_tenantId (rr_envelope r)"

definition statusOf :: "runtime_record \<Rightarrow> memory_status" where
  "statusOf r = vy_status (me_validity (rr_envelope r))"

definition sourceUris :: "runtime_record \<Rightarrow> string set" where
  "sourceUris r = ev_sourceUri ` set (me_evidence (rr_envelope r))"

definition dependencies :: "runtime_record \<Rightarrow> string set" where
  "dependencies r = set (me_dependsOn (rr_envelope r))"

type_synonym records = "(string, runtime_record) omap"

text \<open>Every record lies under its own identifier and is its own JSON copy.\<close>

definition records_ok :: "records \<Rightarrow> bool" where
  "records_ok recs = (omap_ok recs \<and> (\<forall>(k, r) \<in> set recs. me_memoryId (rr_envelope r) = k \<and> copyRecord r = r))"

lemma records_okD:
  assumes "records_ok recs" and "map_of recs i = Some r"
  shows "me_memoryId (rr_envelope r) = i \<and> copyRecord r = r"
proof -
  have "(i, r) \<in> set recs" using assms(2) by (rule map_of_SomeD)
  with assms(1) show ?thesis by (auto simp: records_ok_def)
qed

lemma set_omap_set:
  fixes m :: "('a, 'b) omap"
  assumes ok: "omap_ok m"
  shows "set (omap_set k v m) = insert (k, v) {p \<in> set m. fst p \<noteq> k}"
proof (intro set_eqI)
  fix p :: "'a \<times> 'b"
  obtain j w where p: "p = (j, w)" by (cases p)
  have "(j, w) \<in> set (omap_set k v m) \<longleftrightarrow> map_of (omap_set k v m) j = Some w"
    using omap_get_iff [OF omap_ok_set [OF ok]] by metis
  also have "\<dots> \<longleftrightarrow> (j, w) \<in> insert (k, v) {p \<in> set m. fst p \<noteq> k}"
    using omap_get_iff [OF ok, of j w] by auto
  finally show "p \<in> set (omap_set k v m) \<longleftrightarrow> p \<in> insert (k, v) {p \<in> set m. fst p \<noteq> k}" by (simp add: p)
qed

lemma records_ok_put:
  "records_ok recs \<Longrightarrow> records_ok (omap_set (me_memoryId (rr_envelope r)) (copyRecord r) recs)"
  by (auto simp: records_ok_def set_omap_set)

definition sourcesOf :: "records \<Rightarrow> string \<Rightarrow> string \<Rightarrow> string set" where
  "sourcesOf recs t uri = {i. \<exists>r. map_of recs i = Some r \<and> tenantOf r = t \<and> uri \<in> sourceUris r}"

definition dependentsIn :: "records \<Rightarrow> string \<Rightarrow> string \<Rightarrow> string set" where
  "dependentsIn recs t d = {i. \<exists>r. map_of recs i = Some r \<and> tenantOf r = t \<and> d \<in> dependencies r}"

section \<open>Maps of sets\<close>

definition members :: "('k, 'v list) omap \<Rightarrow> 'k \<Rightarrow> 'v set" where
  "members m k = set (nullish (map_of m k) [])"

lemma members_Nil [simp]: "members [] k = {}"
  by (simp add: members_def)

lemma members_multiAdd [simp]: "members (multiAdd k v m) j = members m j \<union> (if j = k then {v} else {})"
  by (auto simp: members_def multiAdd_def Let_def)

lemma members_multiRemove [simp]: "members (multiRemove k v m) j = members m j - (if j = k then {v} else {})"
proof (cases "map_of m k")
  case (Some vs)
  show ?thesis
  proof (cases "filter (\<lambda>w. w \<noteq> v) vs = []")
    case True
    then have "set vs - {v} = {}" by (auto simp: filter_empty_conv)
    with Some True show ?thesis by (auto simp: members_def multiRemove_def)
  next
    case False
    with Some show ?thesis by (auto simp: members_def multiRemove_def Let_def)
  qed
qed (auto simp: members_def multiRemove_def)

lemma members_fold_multiAdd:
  "members (fold (\<lambda>x. multiAdd (f x) v) xs m) j = members m j \<union> (if j \<in> f ` set xs then {v} else {})"
  by (induction xs arbitrary: m) auto

lemma members_fold_multiRemove:
  "members (fold (\<lambda>x. multiRemove (f x) v) xs m) j = members m j - (if j \<in> f ` set xs then {v} else {})"
  by (induction xs arbitrary: m) auto

lemma members_fold_multiAdd_id:
  "members (fold (\<lambda>x. multiAdd x v) xs m) j = members m j \<union> (if j \<in> set xs then {v} else {})"
  by (induction xs arbitrary: m) auto

lemma members_fold_multiRemove_id:
  "members (fold (\<lambda>x. multiRemove x v) xs m) j = members m j - (if j \<in> set xs then {v} else {})"
  by (induction xs arbitrary: m) auto

section \<open>The indexes\<close>

abbreviation recordsOf :: "premise_runtime \<Rightarrow> records" where
  "recordsOf s \<equiv> st_records (pr_store s)"

definition idOf :: "runtime_record \<Rightarrow> string" where
  "idOf r = me_memoryId (rr_envelope r)"

lemma indexRecord_members:
  "members (pr_sourceMemoryIds (indexRecord r s)) uri = members (pr_sourceMemoryIds s) uri \<union>
     (if tenantOf r = pr_tenantId s \<and> uri \<in> sourceUris r then {idOf r} else {})"
  "members (pr_dependentsByDependency (indexRecord r s)) d = members (pr_dependentsByDependency s) d \<union>
     (if tenantOf r = pr_tenantId s \<and> d \<in> dependencies r then {idOf r} else {})"
  by (auto simp: indexRecord_def Let_def members_fold_multiAdd members_fold_multiAdd_id sourceUris_def dependencies_def
      tenantOf_def idOf_def)

lemma deindexRecord_members:
  "members (pr_sourceMemoryIds (deindexRecord r s)) uri = members (pr_sourceMemoryIds s) uri -
     (if tenantOf r = pr_tenantId s \<and> uri \<in> sourceUris r then {idOf r} else {})"
  "members (pr_dependentsByDependency (deindexRecord r s)) d = members (pr_dependentsByDependency s) d -
     (if tenantOf r = pr_tenantId s \<and> d \<in> dependencies r then {idOf r} else {})"
  by (auto simp: deindexRecord_def Let_def members_fold_multiRemove members_fold_multiRemove_id sourceUris_def
      dependencies_def tenantOf_def idOf_def)

text \<open>What indexing leaves alone.\<close>

definition idle :: "premise_runtime \<Rightarrow> runtime_store \<times> string \<times> string \<times> (string, stream_state) omap \<times> nat \<times> nat" where
  "idle s = (pr_store s, pr_tenantId s, pr_principalTenantId s, pr_streamStates s, pr_ticks s, pr_uuids s)"

lemma idle_index [simp]: "idle (indexRecord r s) = idle s" "idle (deindexRecord r s) = idle s"
  by (simp_all add: idle_def indexRecord_def deindexRecord_def Let_def)

lemma idle_fold_index: "idle (fold indexRecord rs s) = idle s"
  by (induction rs arbitrary: s) simp_all

lemma idle_sync [simp]: "idle (syncStoreRevision s) = idle s"
  by (simp add: idle_def syncStoreRevision_def)

lemma idle_rebuild [simp]: "idle (rebuildIndexes s) = idle s"
  by (simp add: rebuildIndexes_def idle_fold_index) (simp add: idle_def)

lemma idle_refresh [simp]: "idle (refreshIndexesIfStoreChanged s) = idle s"
  by (simp add: refreshIndexesIfStoreChanged_def)

lemma idleD:
  assumes "idle s = idle u"
  shows "pr_store s = pr_store u" "pr_tenantId s = pr_tenantId u" "pr_principalTenantId s = pr_principalTenantId u"
    "pr_streamStates s = pr_streamStates u"
  using assms by (simp_all add: idle_def)

lemmas index_idle [simp] = idle_index [THEN idleD(1)] idle_index [THEN idleD(2)] idle_index [THEN idleD(3)]
  idle_refresh [THEN idleD(1)] idle_refresh [THEN idleD(2)] idle_refresh [THEN idleD(3)]
  idle_rebuild [THEN idleD(1)] idle_rebuild [THEN idleD(2)] idle_rebuild [THEN idleD(3)]
  idle_sync [THEN idleD(1)] idle_sync [THEN idleD(2)] idle_sync [THEN idleD(3)]

definition index_exact :: "premise_runtime \<Rightarrow> bool" where
  "index_exact s = (\<forall>x. members (pr_sourceMemoryIds s) x = sourcesOf (recordsOf s) (pr_tenantId s) x \<and>
     members (pr_dependentsByDependency s) x = dependentsIn (recordsOf s) (pr_tenantId s) x)"

definition index_ok :: "premise_runtime \<Rightarrow> bool" where
  "index_ok s = (records_ok (recordsOf s) \<and>
     (pr_indexedStoreRevision s = Some (st_revision (pr_store s)) \<longrightarrow> index_exact s))"

lemma fold_indexRecord_members:
  "members (pr_sourceMemoryIds (fold indexRecord rs s)) x = members (pr_sourceMemoryIds s) x \<union>
     {idOf r | r. r \<in> set rs \<and> tenantOf r = pr_tenantId s \<and> x \<in> sourceUris r}"
  "members (pr_dependentsByDependency (fold indexRecord rs s)) x = members (pr_dependentsByDependency s) x \<union>
     {idOf r | r. r \<in> set rs \<and> tenantOf r = pr_tenantId s \<and> x \<in> dependencies r}"
  by (induction rs arbitrary: s) (auto simp: indexRecord_members)

lemma storeList_records:
  "records_ok (st_records st) \<Longrightarrow> {idOf r | r. r \<in> set (storeList st) \<and> P r} = {i. \<exists>r. map_of (st_records st) i = Some r \<and> P r}"
  by (force simp: storeList_def records_ok_def idOf_def omap_get_iff image_iff)

lemma rebuild_exact:
  assumes "records_ok (recordsOf s)"
  shows "index_exact (rebuildIndexes s)"
  using storeList_records [OF assms]
  by (simp add: index_exact_def sourcesOf_def dependentsIn_def)
    (simp add: rebuildIndexes_def syncStoreRevision_def fold_indexRecord_members)

lemma refresh_exact: "index_ok s \<Longrightarrow> index_exact (refreshIndexesIfStoreChanged s)"
  using rebuild_exact by (auto simp: refreshIndexesIfStoreChanged_def index_ok_def)

section \<open>The traversal\<close>

text \<open>The edges lead from a dependency to what depends on it.\<close>

definition edges :: "premise_runtime \<Rightarrow> (string \<times> string) set" where
  "edges s = {(d, i). i \<in> members (pr_dependentsByDependency s) d}"

lemma set_dependentsOf: "set (dependentsOf s d) = edges s `` {d}"
  by (auto simp: dependentsOf_def orderedIds_def edges_def members_def)

lemma Image_rtrancl_insert: "E `` {x} \<subseteq> W \<Longrightarrow> E\<^sup>* `` (insert x W) = insert x (E\<^sup>* `` W)"
proof -
  assume sub: "E `` {x} \<subseteq> W"
  have "E\<^sup>* `` {x} \<subseteq> insert x (E\<^sup>* `` W)"
  proof
    fix y assume "y \<in> E\<^sup>* `` {x}"
    then have "(x, y) \<in> E\<^sup>*" by simp
    then show "y \<in> insert x (E\<^sup>* `` W)"
      by (cases rule: converse_rtranclE) (use sub in auto)
  qed
  then show ?thesis by auto
qed

text \<open>
  The loop: with \<open>seen\<close> closed under edges but for the queue, it returns the queue and all that
  is reachable and not yet seen, each identifier once.
\<close>

lemma closureLoop_spec:
  assumes "set queue \<subseteq> set seen" and "distinct queue" and "edges s `` (set seen - set queue) \<subseteq> set seen"
  shows "set (closureLoop s seen queue) \<union> (set seen - set queue) = (edges s)\<^sup>* `` set seen \<and>
    set (closureLoop s seen queue) \<inter> (set seen - set queue) = {} \<and> distinct (closureLoop s seen queue)"
  using assms
proof (induction s seen queue rule: closureLoop.induct)
  case (1 s seen)
  then have "(edges s)\<^sup>* `` set seen = set seen"
    by (metis Diff_empty Image_closed_trancl list.set(1))
  then show ?case by simp
next
  case (2 s seen i queue)
  obtain seen' queue' where push: "pushUnseen seen queue (dependentsOf s i) = (seen', queue')"
    by (cases "pushUnseen seen queue (dependentsOf s i)")
  obtain new where new: "queue' = queue @ new" "distinct new" "set new = set (dependentsOf s i) - set seen"
    "set seen' = set seen \<union> set (dependentsOf s i)"
    using pushUnseen_spec [OF push] by blast
  have i: "i \<in> set seen" "i \<notin> set queue" using 2(2,3) by auto
  have q: "set queue' \<subseteq> set seen'" "distinct queue'" using 2(2,3) new by auto
  have settled: "set seen' - set queue' = insert i (set seen - set (i # queue))"
    using new i 2(2) by auto
  have closed: "edges s `` (set seen' - set queue') \<subseteq> set seen'"
    unfolding settled unfolding new(4) set_dependentsOf using 2(4) by auto
  from 2(1) [OF push [symmetric] q closed]
  have IH: "set (closureLoop s seen' queue') \<union> (set seen' - set queue') = (edges s)\<^sup>* `` set seen'"
    "set (closureLoop s seen' queue') \<inter> (set seen' - set queue') = {}" "distinct (closureLoop s seen' queue')"
    by auto
  have run: "closureLoop s seen (i # queue) = i # closureLoop s seen' queue'" using push by simp
  have reach: "(edges s)\<^sup>* `` set seen' = (edges s)\<^sup>* `` set seen"
    using i(1) unfolding new(4) set_dependentsOf by (auto intro: converse_rtrancl_into_rtrancl)
  show ?case
    using IH i unfolding settled run reach by auto
qed

lemma dependentClosure_spec:
  "set (dependentClosure s seeds) = (edges s)\<^sup>* `` set seeds \<and> distinct (dependentClosure s seeds)"
  using closureLoop_spec [of "unique seeds" "rev (unique seeds)" s] by (simp add: dependentClosure_def)

text \<open>In terms of the records: what depends on \<open>X\<close>, directly or through other identifiers.\<close>

definition dependsEdges :: "records \<Rightarrow> string \<Rightarrow> (string \<times> string) set" where
  "dependsEdges recs t = {(d, i). i \<in> dependentsIn recs t d}"

definition affectedIds :: "records \<Rightarrow> string \<Rightarrow> string set \<Rightarrow> string set" where
  "affectedIds recs t uris = (dependsEdges recs t)\<^sup>* `` (\<Union>uri \<in> uris. sourcesOf recs t uri)"

lemma edges_exact: "index_exact s \<Longrightarrow> edges s = dependsEdges (recordsOf s) (pr_tenantId s)"
  by (simp add: edges_def dependsEdges_def index_exact_def)

lemma affected_exact:
  assumes "index_exact s" and "set direct = (\<Union>uri \<in> uris. members (pr_sourceMemoryIds s) uri)"
  shows "set (affectedBySourceChange s direct) = affectedIds (recordsOf s) (pr_tenantId s) uris"
  using dependentClosure_spec [of s direct] assms(1)
  by (simp add: affectedBySourceChange_def affectedIds_def edges_exact assms(2)) (simp add: index_exact_def)

section \<open>What signalling does to the records\<close>

definition stalable :: "string \<Rightarrow> runtime_record \<Rightarrow> bool" where
  "stalable t r = (tenantOf r = t \<and> statusOf r \<noteq> StatusInvalid \<and> statusOf r \<noteq> StatusStale)"

definition staled :: "runtime_record \<Rightarrow> string \<Rightarrow> runtime_record" where
  "staled r now = r\<lparr>rr_envelope := (rr_envelope r)\<lparr>me_validity :=
     (me_validity (rr_envelope r))\<lparr>vy_status := StatusStale, vy_checkedAt := now\<rparr>\<rparr>\<rparr>"

text \<open>The records of \<open>A\<close> that may be staled are, at some time; nothing else changes.\<close>

definition staledIn :: "string \<Rightarrow> string set \<Rightarrow> records \<Rightarrow> records \<Rightarrow> bool" where
  "staledIn t A recs recs' = (\<forall>i. case map_of recs i of
       None \<Rightarrow> map_of recs' i = None
     | Some r \<Rightarrow> (if i \<in> A \<and> stalable t r then \<exists>now. map_of recs' i = Some (staled r now)
                 else map_of recs' i = Some r))"

lemma staled_simps [simp]:
  "tenantOf (staled r now) = tenantOf r" "sourceUris (staled r now) = sourceUris r"
  "dependencies (staled r now) = dependencies r" "statusOf (staled r now) = StatusStale"
  "me_memoryId (rr_envelope (staled r now)) = me_memoryId (rr_envelope r)" "rr_content (staled r now) = rr_content r"
  by (simp_all add: staled_def tenantOf_def sourceUris_def dependencies_def statusOf_def)

lemma staled_alt: "\<lparr>rr_envelope = (rr_envelope r)\<lparr>me_validity :=
     (me_validity (rr_envelope r))\<lparr>vy_status := StatusStale, vy_checkedAt := now\<rparr>\<rparr>, rr_content = rr_content r\<rparr> = staled r now"
  by (cases r) (simp add: staled_def)

lemma stalable_staled [simp]: "\<not> stalable t (staled r now)"
  by (simp add: stalable_def)

lemma staledIn_refl: "staledIn t {} recs recs"
  by (simp add: staledIn_def split: option.splits)

lemma staledIn_trans:
  assumes "staledIn t A recs recs1" and "staledIn t B recs1 recs2"
  shows "staledIn t (A \<union> B) recs recs2"
  unfolding staledIn_def
proof
  fix i
  show "case map_of recs i of None \<Rightarrow> map_of recs2 i = None
     | Some r \<Rightarrow> (if i \<in> A \<union> B \<and> stalable t r then \<exists>now. map_of recs2 i = Some (staled r now)
                 else map_of recs2 i = Some r)"
    using assms [unfolded staledIn_def, THEN spec, of i]
    by (cases "map_of recs i") (auto split: if_splits)
qed

lemma staledIn_links:
  assumes "staledIn t A recs recs'"
  shows "sourcesOf recs' u x = sourcesOf recs u x" "dependentsIn recs' u x = dependentsIn recs u x"
proof -
  have "\<exists>r'. map_of recs' i = Some r' \<and> tenantOf r' = tenantOf r \<and> sourceUris r' = sourceUris r \<and> dependencies r' = dependencies r"
    if "map_of recs i = Some r" for i r
    using assms [unfolded staledIn_def, THEN spec, of i] that by (auto split: if_splits)
  moreover have "map_of recs i \<noteq> None" if "map_of recs' i = Some r'" for i r'
    using assms [unfolded staledIn_def, THEN spec, of i] that by (auto split: option.splits)
  ultimately show "sourcesOf recs' u x = sourcesOf recs u x" "dependentsIn recs' u x = dependentsIn recs u x"
    unfolding sourcesOf_def dependentsIn_def by (fastforce)+
qed

lemma copy_fixed_iff: "copyRecord r = r \<longleftrightarrow> (let e = rr_envelope r in
    map copyEvidence (me_evidence e) = me_evidence e \<and> copyValue (me_confidence e) = me_confidence e \<and>
    copyValue (me_conflicts e) = me_conflicts e \<and> copyValue (me_temporal e) = me_temporal e \<and>
    copyValue (me_signatures e) = me_signatures e \<and> copyValue (rr_content r) = rr_content r)"
  by (cases r; cases "rr_envelope r") (auto simp: copyRecord_def copyEnvelope_def)

lemma copyRecord_staled: "copyRecord r = r \<Longrightarrow> copyRecord (staled r now) = staled r now"
  by (simp add: copy_fixed_iff staled_def Let_def)

section \<open>Emitting events\<close>

text \<open>The parts of the state no event touches.\<close>

definition indexCore where
  "indexCore s = (pr_tenantId s, pr_principalTenantId s, pr_sourceMemoryIds s, pr_dependentsByDependency s,
     pr_indexedStoreRevision s)"

definition stateCore where
  "stateCore s = (recordsOf s, st_revision (pr_store s), indexCore s)"

lemma stateCoreD:
  assumes "stateCore s = stateCore u"
  shows "recordsOf s = recordsOf u" "st_revision (pr_store s) = st_revision (pr_store u)" "indexCore s = indexCore u"
  using assms by (simp_all add: stateCore_def)

lemma indexCoreD:
  assumes "indexCore s = indexCore u"
  shows "pr_tenantId s = pr_tenantId u" "pr_principalTenantId s = pr_principalTenantId u"
    "pr_sourceMemoryIds s = pr_sourceMemoryIds u" "pr_dependentsByDependency s = pr_dependentsByDependency u"
    "pr_indexedStoreRevision s = pr_indexedStoreRevision u"
  using assms by (simp_all add: indexCore_def)

lemma index_exact_cong: "recordsOf s = recordsOf u \<Longrightarrow> indexCore s = indexCore u \<Longrightarrow> index_exact s = index_exact u"
  by (simp add: index_exact_def indexCore_def)

text \<open>A property of the state that survives readings of the clock and of \<open>randomUUID\<close>.\<close>

definition idleProof :: "(premise_runtime \<Rightarrow> bool) \<Rightarrow> bool" where
  "idleProof P = (\<forall>s n. P s \<longrightarrow> P (s\<lparr>pr_ticks := n\<rparr>) \<and> P (s\<lparr>pr_uuids := n\<rparr>))"

definition appendProof :: "runtime_env \<Rightarrow> (premise_runtime \<Rightarrow> bool) \<Rightarrow> bool" where
  "appendProof env P = (idleProof P \<and>
     (\<forall>s e st. P s \<longrightarrow> storeAppendEvent (en_dp env) e (pr_store s) = Inr st \<longrightarrow> P (s\<lparr>pr_store := st\<rparr>)))"

lemma nowR_keeps: "idleProof P \<Longrightarrow> keeps P s (nowR env s)"
  by (simp add: keeps_def nowR_def idleProof_def)

lemma uuidR_keeps: "idleProof P \<Longrightarrow> keeps P s (uuidR env s)"
  by (simp add: keeps_def uuidR_def idleProof_def)

lemma append_keeps:
  assumes "appendProof env P"
  shows "keeps P s (storeR (\<lambda>st. case storeAppendEvent (en_dp env) e st of Inl x \<Rightarrow> (Inl x, st) | Inr st1 \<Rightarrow> (Inr u, st1)) s)"
proof (cases "storeAppendEvent (en_dp env) e (pr_store s)")
  case (Inl x)
  then show ?thesis by (simp add: keeps_def storeR_def)
next
  case (Inr st)
  with assms show ?thesis by (simp add: keeps_def storeR_def appendProof_def)
qed

lemma emit_keeps: "appendProof env P \<Longrightarrow> keeps P s (emit env type i payload key persist req s)"
  unfolding emit_def by (intro keeping nowR_keeps uuidR_keeps append_keeps) (simp_all add: appendProof_def)

lemma emit_keeps_idle: "idleProof P \<Longrightarrow> keeps P s (emit env type i payload key False req s)"
  unfolding emit_def if_False by (intro keeping nowR_keeps uuidR_keeps)

lemma withStatus_keeps: "idleProof P \<Longrightarrow> keeps P s (withStatus env e status s)"
  unfolding withStatus_def by (intro keeping nowR_keeps)

lemma appendProof_stateCore: "appendProof env (\<lambda>u. stateCore u = x)"
  by (auto simp: appendProof_def idleProof_def stateCore_def indexCore_def dest: storeAppendEvent_Inr)

lemma idle_stateCore: "idleProof (\<lambda>u. stateCore u = x)"
  using appendProof_stateCore by (simp add: appendProof_def)

lemma emit_stateCore: "emit env type i payload key persist req s = (r, s') \<Longrightarrow> stateCore s' = stateCore s"
  using keepsD [OF emit_keeps [OF appendProof_stateCore]] by blast

lemma emitSource_stateCore: "emitSource env c s = (r, s') \<Longrightarrow> stateCore s' = stateCore s"
proof -
  have "keeps (\<lambda>u. stateCore u = stateCore s) s (emitSource env c s)"
    unfolding emitSource_def by (intro keeping emit_keeps appendProof_stateCore)
  from keepsD [OF this refl] show "emitSource env c s = (r, s') \<Longrightarrow> stateCore s' = stateCore s" .
qed

lemma mapR_emitSource_stateCore: "mapR (emitSource env) cs s = (r, s') \<Longrightarrow> stateCore s' = stateCore s"
proof -
  have "keeps (\<lambda>u. stateCore u = stateCore s) t (emitSource env c t)" for c t
    unfolding emitSource_def by (intro keeping emit_keeps appendProof_stateCore)
  then have "keeps (\<lambda>u. stateCore u = stateCore s) s (mapR (emitSource env) cs s)" by (intro keeping)
  from keepsD [OF this refl] show "mapR (emitSource env) cs s = (r, s') \<Longrightarrow> stateCore s' = stateCore s" .
qed

lemma withStatus_Inr:
  assumes "withStatus env e status s = (Inr e', s')"
  shows "(\<exists>now. e' = e\<lparr>me_validity := (me_validity e)\<lparr>vy_status := status, vy_checkedAt := now\<rparr>\<rparr>) \<and> stateCore s' = stateCore s"
proof -
  let ?e = "e\<lparr>me_validity := (me_validity e)\<lparr>vy_status := status, vy_checkedAt := en_clock env (pr_ticks s)\<rparr>\<rparr>"
  have "parseEnvelope (en_dp env) ?e = Inr e'" "s' = s\<lparr>pr_ticks := pr_ticks s + 1\<rparr>"
    using assms by (simp_all add: withStatus_def bindR_def nowR_def liftR_def)
  then have "e' = ?e" "stateCore s' = stateCore s" by (simp_all add: parseEnvelope_same stateCore_def indexCore_def)
  then show ?thesis by blast
qed

section \<open>Staling\<close>

text \<open>A put leaves the indexes alone and counts one revision.\<close>

lemma persist_Inr:
  assumes "persistRecordAndEvent env r event s = (Inr u, s')"
  shows "recordsOf s' = omap_set (me_memoryId (rr_envelope r)) (copyRecord r) (recordsOf s) \<and> indexCore s' = indexCore s"
proof -
  obtain st st1 where "storePut (en_dp env) r (pr_store s) = Inr st1" "storeAppendEvent (en_dp env) event st1 = Inr st"
    "s' = s\<lparr>pr_store := st\<rparr>"
    using assms by (simp add: persistRecordAndEvent_def storeR_iff storePutAndAppend_def split: sum.splits)
  moreover from storePut_Inr [OF this(1)] have
    "st_records st1 = omap_set (me_memoryId (rr_envelope r)) (copyRecord r) (recordsOf s)" by simp
  moreover from storeAppendEvent_Inr [OF calculation(2)] have "st_records st = st_records st1" by auto
  ultimately show ?thesis by (simp add: indexCore_def)
qed

lemma staleMember_Inr:
  assumes "staleMember env payload key i s = (Inr u, s')" and ok: "records_ok (recordsOf s)"
  shows "staledIn (pr_tenantId s) {i} (recordsOf s) (recordsOf s') \<and> records_ok (recordsOf s') \<and> indexCore s' = indexCore s"
proof (cases "map_of (recordsOf s) i")
  case None
  with assms show ?thesis by (auto simp: staleMember_def storeGet_def staledIn_def split: option.splits)
next
  case (Some r)
  have r: "me_memoryId (rr_envelope r) = i" "copyRecord r = r" using records_okD [OF ok Some] by auto
  show ?thesis
  proof (cases "stalable (pr_tenantId s) r")
    case False
    with assms Some r have "s' = s"
      by (auto simp: staleMember_def storeGet_def stalable_def tenantOf_def statusOf_def Let_def split: if_splits)
    with False Some ok show ?thesis by (auto simp: staledIn_def split: option.splits)
  next
    case True
    then obtain e s1 ev s2 where st: "withStatus env (rr_envelope r) StatusStale s = (Inr e, s1)"
      "emit env MemoryStaled (Some i) payload (key @ '':'' @ i) False payload s1 = (Inr ev, s2)"
      "persistRecordAndEvent env \<lparr>rr_envelope = e, rr_content = rr_content r\<rparr> ev s2 = (Inr u, s')"
      using assms(1) Some r
      by (auto simp: staleMember_def storeGet_def stalable_def tenantOf_def statusOf_def Let_def bindR_Inr_iff split: if_splits)
    obtain now where now: "\<lparr>rr_envelope = e, rr_content = rr_content r\<rparr> = staled r now" and c1: "stateCore s1 = stateCore s"
      using withStatus_Inr [OF st(1)] by (auto simp: staled_alt)
    have c2: "stateCore s2 = stateCore s" using emit_stateCore [OF st(2)] c1 by simp
    have new: "recordsOf s' = omap_set i (staled r now) (recordsOf s)" "indexCore s' = indexCore s"
      using persist_Inr [OF st(3)] stateCoreD [OF c2] r copyRecord_staled [OF r(2)] by (auto simp: now)
    have "records_ok (recordsOf s')"
      using records_ok_put [OF ok, of "staled r now"] copyRecord_staled [OF r(2)] r(1) by (simp add: new)
    moreover have "staledIn (pr_tenantId s) {i} (recordsOf s) (recordsOf s')"
      using True Some by (auto simp: staledIn_def new split: option.splits)
    ultimately show ?thesis using new(2) by simp
  qed
qed

lemma staleMembers_Inr:
  assumes "mapR (staleMember env payload key) A s = (Inr us, s')" and "records_ok (recordsOf s)"
  shows "staledIn (pr_tenantId s) (set A) (recordsOf s) (recordsOf s') \<and> records_ok (recordsOf s') \<and> indexCore s' = indexCore s"
  using assms
proof (induction A arbitrary: s us)
  case Nil
  then show ?case by (auto simp: staledIn_refl)
next
  case (Cons i A)
  then obtain s1 vs where st: "staleMember env payload key i s = (Inr (), s1)"
    "mapR (staleMember env payload key) A s1 = (Inr vs, s')"
    by (auto simp: bindR_Inr_iff)
  note step = staleMember_Inr [OF st(1) Cons.prems(2)]
  then have t: "pr_tenantId s1 = pr_tenantId s" using indexCoreD(1) by blast
  from Cons.IH [OF st(2)] step have "staledIn (pr_tenantId s) (set A) (recordsOf s1) (recordsOf s')"
    "records_ok (recordsOf s')" "indexCore s' = indexCore s" by (simp_all add: t)
  with staledIn_trans [of "pr_tenantId s" "{i}" "recordsOf s" "recordsOf s1" "set A"] step show ?case by simp
qed

definition synced :: "premise_runtime \<Rightarrow> bool" where
  "synced s = (records_ok (recordsOf s) \<and> index_exact s \<and> pr_indexedStoreRevision s = Some (st_revision (pr_store s)))"

lemma synced_index_ok: "synced s \<Longrightarrow> index_ok s"
  by (simp add: synced_def index_ok_def)

lemma synced_sync: "records_ok (recordsOf s) \<Longrightarrow> index_exact s \<Longrightarrow> synced (syncStoreRevision s)"
  by (simp add: synced_def) (simp add: syncStoreRevision_def index_exact_def)

lemma staleAffected_Inr:
  assumes "staleAffected env payload key A s = (Inr B, s')" and "records_ok (recordsOf s)" and "index_exact s"
  shows "B = A \<and> staledIn (pr_tenantId s) (set A) (recordsOf s) (recordsOf s') \<and> synced s' \<and> pr_tenantId s' = pr_tenantId s"
proof -
  obtain us s1 where run: "mapR (staleMember env payload key) A s = (Inr us, s1)" and s': "s' = syncStoreRevision s1" "B = A"
    using assms(1) by (auto simp: staleAffected_def bindR_Inr_iff)
  note st = staleMembers_Inr [OF run assms(2)]
  have "index_exact s1"
    using assms(3) staledIn_links [OF st [THEN conjunct1]] indexCoreD [of s1 s] st
    by (simp add: index_exact_def)
  with st s' synced_sync indexCoreD(1) [of s1 s] show ?thesis by simp
qed

end
