(* ===== verification/Runtime_Identity.thy ===== *)
theory Runtime_Identity
  imports Runtime_Index
begin

text \<open>
  What the canonical texts of the runtime identify: two stored records with one text have the
  same tenant, identifier, sources and dependencies, and two source changes with one text name
  the same source. Both rest on number texts that tell finite numbers apart.
\<close>

definition jsonNumbers :: "js_number set" where
  "jsonNumbers = range Finite"

definition numbersDistinct :: "runtime_env \<Rightarrow> bool" where
  "numbersDistinct env = numberText (stringifyNumber (en_fmt env)) jsonNumbers"

lemma canonicalJson_inject:
  assumes "numberText (stringifyNumber fmt) jsonNumbers" and "jsonValue jsonNumbers v" "jsonValue jsonNumbers w"
    and "canonicalJson fmt v = Inr t" "canonicalJson fmt w = Inr t"
  shows "sortKeys v = sortKeys w"
  by (rule canonical_inject [OF _ assms(1-3) assms(4,5) [unfolded canonicalJson_def]]) simp

lemma jsonCopy_json: "jsonCopy v = Some w \<Longrightarrow> jsonValue jsonNumbers w"
proof (induction v arbitrary: w)
  case (JNum n)
  then show ?case by (cases n) (auto simp: jsonNumbers_def)
next
  case (JArr vs)
  have "jsonValue jsonNumbers (nullish (jsonCopy v) JNull)" if "v \<in> set vs" for v
    using JArr.IH [OF that] by (cases "jsonCopy v") auto
  with JArr.prems show ?case by (auto simp: list_all_iff)
next
  case (JObj plain ps)
  then show ?case by (fastforce simp: list_all_iff split: option.splits)
qed auto

section \<open>Where a canonical text is defined, its parts are\<close>

lemma list_all2_ex: "list_all2 P xs ys \<Longrightarrow> x \<in> set xs \<Longrightarrow> \<exists>y. P x y"
  by (induction rule: list_all2_induct) auto

lemma canonical_fields:
  assumes "canonicalWith num po (JObj p ps) = Inr t" and "(k, v) \<in> set ps"
  shows "\<exists>u. canonicalWith num po v = Inr u"
proof -
  obtain ts where "list_all2 (\<lambda>(k, r) y. andThen r (\<lambda>t. Inr (quote k @ '':'' @ t)) = Inr y)
      (sort_key fst (map (\<lambda>(k, v). (k, canonicalWith num po v)) ps)) ts"
    using assms(1) by (auto simp: andThen_Inr_iff traverse_Inr_iff case_prod_unfold split: if_splits)
  moreover have "(k, canonicalWith num po v) \<in> set (sort_key fst (map (\<lambda>(k, v). (k, canonicalWith num po v)) ps))"
    using assms(2) by force
  ultimately have "\<exists>y. (\<lambda>(k, r) y. andThen r (\<lambda>t. Inr (quote k @ '':'' @ t)) = Inr y) (k, canonicalWith num po v) y"
    by (rule list_all2_ex)
  then show ?thesis by (auto simp: andThen_Inr_iff)
qed

lemma canonical_items:
  assumes "canonicalWith num po (JArr vs) = Inr t" and "v \<in> set vs"
  shows "\<exists>u. canonicalWith num po v = Inr u"
  using assms by (auto simp: andThen_Inr_iff traverse_Inr_iff list_all2_conv_all_nth in_set_conv_nth)

lemma copied_json:
  assumes "canonicalWith num po v = Inr t" and "copyValue v = v"
  shows "jsonValue jsonNumbers v"
proof (cases "jsonCopy v")
  case None
  then have "v = JUndefined" using assms(2) by (simp add: copyValue_def)
  with assms(1) show ?thesis by simp
next
  case (Some w)
  then have "w = v" using assms(2) by (simp add: copyValue_def)
  with jsonCopy_json [OF Some] show ?thesis by simp
qed

lemma evidence_json: "copyEvidence e = e \<Longrightarrow> jsonValue jsonNumbers (evidenceValue e)"
  by (cases e; cases "ev_confidence e"; cases "jsonCopy (the (ev_confidence e))")
    (auto simp: copyEvidence_def evidenceValue_def versionValue_def textField_def split: option.splits dest: jsonCopy_json)

lemma record_json:
  assumes "canonicalJson fmt (recordValue r) = Inr t" and "copyRecord r = r"
  shows "jsonValue jsonNumbers (recordValue r)"
proof -
  let ?c = "canonicalWith (\<lambda>n. Inr (stringifyNumber fmt n)) False" and ?e = "rr_envelope r"
  note fields = canonical_fields [OF assms(1) [unfolded canonicalJson_def recordValue_def]]
  obtain u where env: "?c (envelopeValue ?e) = Inr u" using fields [of "''envelope''" "envelopeValue ?e"] by auto
  note parts = canonical_fields [OF env [unfolded envelopeValue_def]]
  have parts: "\<exists>t. ?c (me_confidence ?e) = Inr t" "\<exists>t. ?c (me_conflicts ?e) = Inr t" "\<exists>t. ?c (me_temporal ?e) = Inr t"
    "\<exists>t. ?c (me_signatures ?e) = Inr t"
    by (rule parts [of "''confidence''"] parts [of "''conflicts''"] parts [of "''temporal''"] parts [of "''signatures''"]; simp)+
  have content: "\<exists>t. ?c (rr_content r) = Inr t" if "rr_content r \<noteq> JUndefined"
    by (rule fields [of "''content''"]) (use that in simp)
  have fixed: "map copyEvidence (me_evidence ?e) = me_evidence ?e" "copyValue (me_confidence ?e) = me_confidence ?e"
    "copyValue (me_conflicts ?e) = me_conflicts ?e" "copyValue (me_temporal ?e) = me_temporal ?e"
    "copyValue (me_signatures ?e) = me_signatures ?e" "copyValue (rr_content r) = rr_content r"
    using assms(2) [unfolded copy_fixed_iff] by (simp_all add: Let_def)
  have "copyEvidence x = x" if "x \<in> set (me_evidence ?e)" for x
    using fixed(1) that by (metis map_eq_conv map_ident)
  then have ev: "list_all (jsonValue jsonNumbers) (map evidenceValue (me_evidence ?e))"
    by (auto simp: list_all_iff intro: evidence_json)
  have "list_all (jsonValue jsonNumbers) (map JStr ds)" for ds by (simp add: list_all_iff)
  moreover note copied_json [OF _ fixed(2)] copied_json [OF _ fixed(3)] copied_json [OF _ fixed(4)] copied_json [OF _ fixed(5)]
    copied_json [OF _ fixed(6)]
  ultimately show ?thesis
    using parts content ev
    by (auto simp: recordValue_def envelopeValue_def validityValue_def textField_def split: option.splits)
qed

section \<open>Records with one text\<close>

lemma field_same:
  assumes "sortKeys (JObj p ps) = sortKeys (JObj q qs)" and "(k, v) \<in> set ps" and "\<forall>w. (k, w) \<in> set qs \<longrightarrow> w = v'"
  shows "sortKeys v' = sortKeys v"
  using sortKeys_field [OF assms(1,2)] assms(3) by blast

lemma sortKeys_texts: "map sortKeys (map JStr xs) = map JStr xs"
  by simp

lemma envelope_same:
  assumes "sortKeys (envelopeValue d) = sortKeys (envelopeValue e)"
  shows "me_tenantId d = me_tenantId e \<and> me_memoryId d = me_memoryId e \<and> me_dependsOn d = me_dependsOn e \<and>
    map ev_sourceUri (me_evidence d) = map ev_sourceUri (me_evidence e) \<and>
    vy_status (me_validity d) = vy_status (me_validity e)"
proof -
  note field = field_same [OF assms [unfolded envelopeValue_def]]
  have t: "sortKeys (JStr (me_tenantId e)) = sortKeys (JStr (me_tenantId d))"
    by (rule field [of "''tenantId''"]) (auto simp: textField_def split: option.splits)
  have i: "sortKeys (JStr (me_memoryId e)) = sortKeys (JStr (me_memoryId d))"
    by (rule field [of "''memoryId''"]) (auto simp: textField_def split: option.splits)
  have dep: "sortKeys (JArr (map JStr (me_dependsOn e))) = sortKeys (JArr (map JStr (me_dependsOn d)))"
    by (rule field [of "''dependsOn''"]) (auto simp: textField_def split: option.splits)
  have ev: "sortKeys (JArr (map evidenceValue (me_evidence e))) = sortKeys (JArr (map evidenceValue (me_evidence d)))"
    by (rule field [of "''evidence''"]) (auto simp: textField_def split: option.splits)
  have "sortKeys (validityValue (me_validity e)) = sortKeys (validityValue (me_validity d))"
    by (rule field [of "''validity''"]) (auto simp: textField_def split: option.splits)
  then have "sortKeys (JStr (statusName (vy_status (me_validity e)))) = sortKeys (JStr (statusName (vy_status (me_validity d))))"
    unfolding validityValue_def by (rule field_same [of _ _ _ _ "''status''", OF sym]) (auto simp: textField_def split: option.splits)
  then have status: "vy_status (me_validity d) = vy_status (me_validity e)"
    by (auto simp: statusName_def split: memory_status.splits)
  have uri: "ev_sourceUri y = ev_sourceUri x" if "sortKeys (evidenceValue x) = sortKeys (evidenceValue y)" for x y
  proof -
    have "sortKeys (JStr (ev_sourceUri y)) = sortKeys (JStr (ev_sourceUri x))"
      by (rule field_same [OF that [unfolded evidenceValue_def], of "''sourceUri''"])
        (auto simp: textField_def split: option.splits)
    then show ?thesis by simp
  qed
  have lists: "map (sortKeys \<circ> evidenceValue) xs = map (sortKeys \<circ> evidenceValue) ys \<Longrightarrow>
      map ev_sourceUri ys = map ev_sourceUri xs" for xs ys
    by (induction xs ys rule: list_induct2') (auto intro!: uri)
  have "map ev_sourceUri (me_evidence d) = map ev_sourceUri (me_evidence e)"
    by (rule lists) (use ev in simp)
  moreover have "me_dependsOn d = me_dependsOn e" using dep inj_map_eq_map [of JStr] by (simp add: inj_def)
  ultimately show ?thesis using t i status by simp
qed

lemma record_same:
  assumes "numberText (stringifyNumber fmt) jsonNumbers" and "copyRecord a = a" "copyRecord b = b"
    and "canonicalJson fmt (recordValue a) = Inr t" "canonicalJson fmt (recordValue b) = Inr t"
  shows "tenantOf a = tenantOf b \<and> idOf a = idOf b \<and> sourceUris a = sourceUris b \<and> dependencies a = dependencies b \<and>
    statusOf a = statusOf b"
proof -
  have "sortKeys (recordValue a) = sortKeys (recordValue b)"
    by (rule canonicalJson_inject [OF assms(1) record_json [OF assms(4,2)] record_json [OF assms(5,3)] assms(4,5)])
  from field_same [OF this [unfolded recordValue_def], of "''envelope''"]
  have "sortKeys (envelopeValue (rr_envelope b)) = sortKeys (envelopeValue (rr_envelope a))"
    by (auto split: if_splits)
  from envelope_same [OF this] show ?thesis
    by (simp add: tenantOf_def idOf_def sourceUris_def dependencies_def statusOf_def) (metis image_set)
qed

section \<open>Source changes with one text\<close>

definition jsonChange :: "source_change \<Rightarrow> bool" where
  "jsonChange c = jsonValue jsonNumbers (sourceChangeValue c)"

lemma change_same:
  assumes "numberText (stringifyNumber fmt) jsonNumbers" and "jsonChange c" "jsonChange d"
    and "canonicalJson fmt (sourceChangeValue c) = Inr t" "canonicalJson fmt (sourceChangeValue d) = Inr t"
  shows "sc_sourceUri c = sc_sourceUri d"
proof -
  have "sortKeys (sourceChangeValue c) = sortKeys (sourceChangeValue d)"
    by (rule canonicalJson_inject [OF assms(1) assms(2,3) [unfolded jsonChange_def] assms(4,5)])
  from field_same [OF this [unfolded sourceChangeValue_def], of "''sourceUri''" "JStr (sc_sourceUri c)" "JStr (sc_sourceUri d)"]
  show ?thesis by (auto simp: textField_def split: option.splits)
qed

lemma keyedChanges_spec:
  assumes "keyedChanges fmt cs m = Inr m'" and "omap_ok m"
    and "\<forall>(k, c) \<in> set m. canonicalJson fmt (sourceChangeValue c) = Inr k"
  shows "omap_ok m' \<and> (\<forall>(k, c) \<in> set m'. canonicalJson fmt (sourceChangeValue c) = Inr k) \<and>
    snd ` set m' \<subseteq> snd ` set m \<union> set cs \<and>
    (\<forall>k. map_of m k \<noteq> None \<longrightarrow> map_of m' k \<noteq> None) \<and>
    (\<forall>c \<in> set cs. \<exists>k. canonicalJson fmt (sourceChangeValue c) = Inr k \<and> map_of m' k \<noteq> None)"
  using assms
proof (induction cs arbitrary: m)
  case (Cons c cs)
  then obtain k where k: "canonicalJson fmt (sourceChangeValue c) = Inr k" "keyedChanges fmt cs (omap_set k c m) = Inr m'"
    by (auto simp: andThen_Inr_iff)
  have "\<forall>(k, c) \<in> set (omap_set k c m). canonicalJson fmt (sourceChangeValue c) = Inr k"
    using Cons.prems k(1) by (auto simp: set_omap_set)
  from Cons.IH [OF k(2) omap_ok_set [OF Cons.prems(2)] this]
  have IH: "omap_ok m' \<and> (\<forall>(k, c) \<in> set m'. canonicalJson fmt (sourceChangeValue c) = Inr k)"
    "snd ` set m' \<subseteq> snd ` set (omap_set k c m) \<union> set cs"
    "\<forall>j. map_of (omap_set k c m) j \<noteq> None \<longrightarrow> map_of m' j \<noteq> None"
    "\<forall>c \<in> set cs. \<exists>k. canonicalJson fmt (sourceChangeValue c) = Inr k \<and> map_of m' k \<noteq> None" by auto
  have "snd ` set (omap_set k c m) \<subseteq> insert c (snd ` set m)" using Cons.prems(2) by (auto simp: set_omap_set)
  then have "snd ` set m' \<subseteq> snd ` set m \<union> set (c # cs)"
    by (intro order_trans [OF IH(2)]) auto
  with IH(1,3,4) k(1) show ?case by auto
qed auto

lemma unique_changes:
  assumes "numberText (stringifyNumber fmt) jsonNumbers" and "\<forall>c \<in> set cs. jsonChange c" and "keyedChanges fmt cs [] = Inr m"
  shows "sc_sourceUri ` set (map snd m) = sc_sourceUri ` set cs"
proof -
  have spec: "omap_ok m" "\<forall>(k, c) \<in> set m. canonicalJson fmt (sourceChangeValue c) = Inr k" "snd ` set m \<subseteq> set cs"
    "\<forall>c \<in> set cs. \<exists>k. canonicalJson fmt (sourceChangeValue c) = Inr k \<and> map_of m k \<noteq> None"
    using keyedChanges_spec [OF assms(3)] by auto
  have "sc_sourceUri c \<in> sc_sourceUri ` snd ` set m" if c: "c \<in> set cs" for c
  proof -
    obtain k d where kd: "canonicalJson fmt (sourceChangeValue c) = Inr k" "map_of m k = Some d" using spec(4) c by auto
    then have mem: "(k, d) \<in> set m" by (simp add: map_of_SomeD)
    with spec(2) have "canonicalJson fmt (sourceChangeValue d) = Inr k" by auto
    moreover have "jsonChange d" using mem spec(3) assms(2) by force
    ultimately have "sc_sourceUri c = sc_sourceUri d" using change_same [OF assms(1) _ _ kd(1)] assms(2) c by blast
    with mem show ?thesis by force
  qed
  with spec(3) show ?thesis by auto
qed

end
