(* ===== verification/Runtime_Safety.thy ===== *)
theory Runtime_Safety
  imports Runtime_Identity Stream_Repair
begin

text \<open>
  What \<open>PremiseRuntime\<close> promises: after a source change is signalled nothing that rests on the
  source stays usable, checks fail closed, validations are compare-and-swap, requests are
  idempotent, tenants do not see or change each other's records, and the history only grows.
  The statements range over the states reachable by any sequence of operations, where the two
  halves of a validation are separate operations.
\<close>

section \<open>Signals\<close>

lemma stateCore_exact: "stateCore s = stateCore u \<Longrightarrow> index_exact s = index_exact u"
  by (rule index_exact_cong) (simp_all add: stateCore_def)

lemma set_orderedIds [simp]: "set (orderedIds s ids) = set ids"
  by (simp add: orderedIds_def)

lemma refresh_state:
  assumes "index_ok s"
  shows "index_exact (refreshIndexesIfStoreChanged s)" "records_ok (recordsOf s)"
  using assms refresh_exact by (simp_all add: index_ok_def)

definition signalEffect :: "premise_runtime \<Rightarrow> string set \<Rightarrow> string list \<Rightarrow> premise_runtime \<Rightarrow> bool" where
  "signalEffect s uris A s' = (set A = affectedIds (recordsOf s) (pr_tenantId s) uris \<and> distinct A \<and>
     staledIn (pr_tenantId s) (set A) (recordsOf s) (recordsOf s') \<and> synced s' \<and> pr_tenantId s' = pr_tenantId s)"

text \<open>After the source events are out, both variants stale what the indexes reach.\<close>

lemma stale_reached:
  assumes "index_exact u" and "stateCore u = stateCore (refreshIndexesIfStoreChanged s)" and ok: "index_ok s"
    and "set direct = (\<Union>uri \<in> uris. members (pr_sourceMemoryIds u) uri)"
    and run: "staleAffected env payload key (affectedBySourceChange u direct) u = (Inr A, s')"
  shows "signalEffect s uris A s'"
proof -
  have same: "recordsOf u = recordsOf s" "pr_tenantId u = pr_tenantId s"
    using stateCoreD(1) [OF assms(2)] indexCoreD(1) [OF stateCoreD(3) [OF assms(2)]] by simp_all
  have "records_ok (recordsOf u)" using refresh_state(2) [OF ok] same by simp
  from staleAffected_Inr [OF run this assms(1)] affected_exact [OF assms(1,4)] dependentClosure_spec [of u direct]
  show ?thesis by (simp add: same affectedBySourceChange_def signalEffect_def)
qed

lemma signalSingle_Inr:
  assumes "signalSingleSourceChanged env c s = (Inr A, s')" and ok: "index_ok s"
  shows "signalEffect s {sc_sourceUri c} A s'"
proof -
  obtain src u payload where em: "emitSource env c (refreshIndexesIfStoreChanged s) = (Inr src, u)"
    and run: "staleAffected env payload (xe_eventId src @ '':stale'')
      (affectedBySourceChange u (orderedIds u (nullish (map_of (pr_sourceMemoryIds u) (sc_sourceUri c)) []))) u = (Inr A, s')"
    using assms(1) by (auto simp: signalSingleSourceChanged_def bindR_Inr_iff Let_def)
  note core = emitSource_stateCore [OF em]
  have "index_exact u" using stateCore_exact [OF core] refresh_state(1) [OF ok] by simp
  from stale_reached [OF this core ok _ run, of "{sc_sourceUri c}"] show ?thesis by (simp add: members_def)
qed

lemma signalBatch_Inr:
  assumes "signalBatch env cs s = (Inr A, s')" and ok: "index_ok s"
  shows "signalEffect s (sc_sourceUri ` set cs) A s'"
proof -
  obtain srcs u payloads v where em: "mapR (emitSource env) cs (refreshIndexesIfStoreChanged s) = (Inr srcs, u)"
    and pay: "mapR (\<lambda>c. liftR (sourceChangePayload c)) cs u = (Inr payloads, v)"
    and run: "staleAffected env (JObj True [(''changes'', JArr payloads)]) (joinIds (map xe_eventId srcs) @ '':stale'')
      (affectedBySourceChange u (orderedIds u (unique (concat (map
         (\<lambda>c. nullish (map_of (pr_sourceMemoryIds u) (sc_sourceUri c)) []) cs))))) v = (Inr A, s')"
    using assms(1) by (auto simp: signalBatch_def bindR_Inr_iff Let_def)
  have "keeps (\<lambda>w. w = u) u (mapR (\<lambda>c. liftR (sourceChangePayload c)) cs u)" by (intro keeping)
  from keepsD [OF this refl pay] have v: "v = u" .
  note core = mapR_emitSource_stateCore [OF em]
  have "index_exact u" using stateCore_exact [OF core] refresh_state(1) [OF ok] by simp
  from stale_reached [OF this core ok _ run [unfolded v], of "sc_sourceUri ` set cs"] show ?thesis by (simp add: members_def)
qed

lemma signal_Inr:
  assumes run: "signalSourcesChanged env cs s = (Inr A, s')" and ok: "index_ok s"
    and num: "numbersDistinct env" and json: "\<forall>c \<in> set cs. jsonChange c"
    and ne: "cs \<noteq> []"
  shows "signalEffect s (sc_sourceUri ` set cs) A s'"
proof -
  obtain m where m: "keyedChanges (en_fmt env) cs [] = Inr m"
    and go: "(if length m = 1 then signalSingleSourceChanged env (hd (map snd m)) else signalBatch env (map snd m)) s = (Inr A, s')"
    using run ne by (auto simp: signalSourcesChanged_def bindR_Inr_iff Let_def split: if_splits)
  have uris: "sc_sourceUri ` set (map snd m) = sc_sourceUri ` set cs"
    by (rule unique_changes [OF num [unfolded numbersDistinct_def] json m])
  show ?thesis
  proof (cases "length m = 1")
    case True
    then obtain c where c: "map snd m = [c]" by (cases m) auto
    then have "sc_sourceUri ` set cs = {sc_sourceUri c}" using uris by simp
    with signalSingle_Inr [OF _ ok, of env c A s'] go True c show ?thesis by simp
  next
    case False
    with signalBatch_Inr [OF _ ok, of env "map snd m" A s'] go show ?thesis by (simp only: uris if_False)
  qed
qed

section \<open>Writes keep the indexes exact\<close>

lemma sourcesOf_put:
  "sourcesOf (omap_set i r recs) t x = (sourcesOf recs t x - {i}) \<union> (if tenantOf r = t \<and> x \<in> sourceUris r then {i} else {})"
  "dependentsIn (omap_set i r recs) t x = (dependentsIn recs t x - {i}) \<union> (if tenantOf r = t \<and> x \<in> dependencies r then {i} else {})"
  by (auto simp: sourcesOf_def dependentsIn_def)

lemma copy_links [simp]:
  "tenantOf (copyRecord r) = tenantOf r" "sourceUris (copyRecord r) = sourceUris r"
  "dependencies (copyRecord r) = dependencies r" "idOf (copyRecord r) = idOf r" "statusOf (copyRecord r) = statusOf r"
  by (auto simp: tenantOf_def sourceUris_def dependencies_def idOf_def statusOf_def image_image)

lemma sourcesOf_same:
  assumes "map_of recs i = Some cur" and "tenantOf r = tenantOf cur" "sourceUris r = sourceUris cur" "dependencies r = dependencies cur"
  shows "sourcesOf (omap_set i r recs) t x = sourcesOf recs t x" "dependentsIn (omap_set i r recs) t x = dependentsIn recs t x"
  using assms by (auto simp: sourcesOf_put sourcesOf_def dependentsIn_def)

text \<open>The write of a new record, and of a replacement.\<close>

lemma index_new:
  assumes "index_exact s" and "indexCore u = indexCore s" and "recordsOf u = omap_set (idOf r) (copyRecord r) (recordsOf s)"
    and "map_of (recordsOf s) (idOf r) = None"
  shows "index_exact (indexRecord r u)"
proof -
  have "idOf r \<notin> sourcesOf (recordsOf s) t x \<and> idOf r \<notin> dependentsIn (recordsOf s) t x" for t x
    using assms(4) by (simp add: sourcesOf_def dependentsIn_def)
  with assms(1,3) indexCoreD [OF assms(2)] show ?thesis
    by (simp add: index_exact_def indexRecord_members sourcesOf_put)
qed

lemma index_replaced:
  assumes "index_exact s" and "indexCore u = indexCore s" and "recordsOf u = omap_set (idOf r) (copyRecord r) (recordsOf s)"
    and "map_of (recordsOf s) (idOf r) = Some cur" and "idOf cur = idOf r"
  shows "index_exact (indexRecord r (deindexRecord cur u))"
proof -
  let ?t = "pr_tenantId s"
  have gone: "sourcesOf (recordsOf s) t x - (if tenantOf cur = t \<and> x \<in> sourceUris cur then {idOf r} else {}) =
      sourcesOf (recordsOf s) t x - {idOf r}"
    "dependentsIn (recordsOf s) t x - (if tenantOf cur = t \<and> x \<in> dependencies cur then {idOf r} else {}) =
      dependentsIn (recordsOf s) t x - {idOf r}" for t x
    using assms(4) by (auto simp: sourcesOf_def dependentsIn_def)
  note core = indexCoreD [OF assms(2)]
  have exact: "members (pr_sourceMemoryIds s) x = sourcesOf (recordsOf s) ?t x"
    "members (pr_dependentsByDependency s) x = dependentsIn (recordsOf s) ?t x" for x
    using assms(1) by (simp_all add: index_exact_def)
  show ?thesis
    unfolding index_exact_def indexRecord_members deindexRecord_members index_idle core exact assms(3,5) sourcesOf_put gone
    by simp
qed

lemma persist_put:
  assumes "persistRecordAndEvent env r event u = (Inr x, u')" and "stateCore u = stateCore s"
  shows "recordsOf u' = omap_set (idOf r) (copyRecord r) (recordsOf s) \<and> indexCore u' = indexCore s"
  using persist_Inr [OF assms(1)] stateCoreD [OF assms(2)] by (simp add: idOf_def)

lemma synced_new:
  assumes "synced s" and "stateCore u = stateCore s" and "persistRecordAndEvent env r event u = (Inr x, u')"
    and "map_of (recordsOf s) (idOf r) = None"
  shows "synced (syncStoreRevision (indexRecord r u'))"
proof (rule synced_sync)
  note put = persist_put [OF assms(3,2)]
  show "index_exact (indexRecord r u')" using index_new [of s u' r] put assms(1,4) by (simp add: synced_def)
  show "records_ok (recordsOf (indexRecord r u'))"
    using put assms(1) records_ok_put [of "recordsOf s" r] by (simp add: synced_def idOf_def)
qed

lemma synced_replaced:
  assumes "synced s" and "stateCore u = stateCore s" and "persistRecordAndEvent env r event u = (Inr x, u')"
    and "map_of (recordsOf s) (idOf r) = Some cur"
  shows "synced (syncStoreRevision (indexRecord r (deindexRecord cur u')))"
proof (rule synced_sync)
  note put = persist_put [OF assms(3,2)]
  have "idOf cur = idOf r" using records_okD [of "recordsOf s", OF _ assms(4)] assms(1) by (simp add: synced_def idOf_def)
  with index_replaced [of s u' r cur] put assms(1,4) show "index_exact (indexRecord r (deindexRecord cur u'))"
    by (simp add: synced_def)
  show "records_ok (recordsOf (indexRecord r (deindexRecord cur u')))"
    using put assms(1) records_ok_put [of "recordsOf s" r] by (simp add: synced_def idOf_def)
qed

lemma stateCore_synced: "stateCore u = stateCore s \<Longrightarrow> synced u = synced s"
proof -
  assume "stateCore u = stateCore s"
  note D = stateCoreD [OF this] stateCore_exact [OF this]
  show ?thesis unfolding synced_def D(1,2,4) indexCoreD(5) [OF D(3)] by (rule refl)
qed

lemma addRecord_Inr:
  assumes "addRecord env r event isReplay key u = (Inr x, s')" and "stateCore u = stateCore s" and "synced s"
  shows "synced s' \<and> (isReplay \<longrightarrow> s' = u) \<and> (\<not> isReplay \<longrightarrow> map_of (recordsOf s) (idOf r) = None \<and>
    recordsOf s' = omap_set (idOf r) (copyRecord r) (recordsOf s))"
proof (cases isReplay)
  case True
  with assms(1) have "s' = u" by (auto simp: addRecord_def Let_def split: if_splits)
  with True assms(3) stateCore_synced [OF assms(2)] show ?thesis by simp
next
  case False
  with assms(1) obtain u' where none: "storeGet (pr_store u) (idOf r) = None" and
    put: "persistRecordAndEvent env r event u = (Inr (), u')" and s': "s' = syncStoreRevision (indexRecord r u')"
    by (auto simp: addRecord_def Let_def idOf_def bindR_Inr_iff split: if_splits)
  have absent: "map_of (recordsOf s) (idOf r) = None"
    using none stateCoreD(1) [OF assms(2)] by (simp add: storeGet_def)
  from synced_new [OF assms(3,2) put absent] persist_put [OF put assms(2)] False s' absent show ?thesis by simp
qed

section \<open>Register, derive, replace\<close>

text \<open>What every registering operation comes down to: replay, or a new record and its event.\<close>

lemma idle_keep [keeping]: "keeps (\<lambda>u. stateCore u = x) s (assertTenant t s)"
  by (rule assertTenant_keeps)

lemma assertTenant_Inr: "assertTenant t s = (Inr u, s') \<Longrightarrow> s' = s \<and> t = pr_tenantId s"
  by (auto simp: assertTenant_def split: if_splits)

lemma checkDependencies_Inr: "checkDependencies ds s = (Inr u, s') \<Longrightarrow> s' = s"
  by (auto simp: checkDependencies_def split: option.splits)

definition registration :: "runtime_env \<Rightarrow> v2_event_type \<Rightarrow> jsvalue \<Rightarrow> string \<Rightarrow> runtime_record \<Rightarrow> premise_runtime
    \<Rightarrow> (exn + unit) \<times> premise_runtime" where
  "registration env type payload key stored s =
     bindR (emit env type (Some (idOf stored)) payload key False (requestOf (rr_envelope stored) (rr_content stored)))
       (\<lambda>event. addRecord env stored event (eventFor s key \<noteq> None) key) s"

lemma register_Inr:
  assumes "register env r eventId s = (Inr u, s')"
  obtains stored where "rr_envelope stored = rr_envelope r" "cloneJson (rr_content r) = Inr (rr_content stored)"
    "tenantOf r = pr_tenantId s" "eventId = None \<longrightarrow> map_of (recordsOf s) (idOf r) = None"
    "registration env MemoryRegistered (JObj True [(''envelope'', envelopeValue (rr_envelope r))])
      (nullish eventId (''register:'' @ idOf r)) stored s = (Inr u, s')"
proof -
  obtain e where e: "parseEnvelope (en_dp env) (rr_envelope r) = Inr e"
    using assms by (auto simp: register_def bindR_Inr_iff)
  then have e': "e = rr_envelope r" by (rule parseEnvelope_same)
  note unfold = register_def bindR_def [of "liftR (parseEnvelope a b)" for a b] liftR_def e e' Let_def
  have t: "tenantOf r = pr_tenantId s"
    by (rule ccontr) (use assms in \<open>simp add: unfold tenantOf_def assertTenant_def bindR_def failR_def\<close>)
  have n: "eventId = None \<longrightarrow> map_of (recordsOf s) (idOf r) = None"
    using assms t
    by (auto simp: unfold tenantOf_def idOf_def assertTenant_def bindR_def retR_def failR_def storeGet_def split: if_splits)
  obtain c where c: "cloneJson (rr_content r) = Inr c"
    using assms t n
    by (cases "cloneJson (rr_content r)")
      (auto simp: unfold tenantOf_def idOf_def assertTenant_def bindR_def retR_def failR_def storeGet_def split: if_splits)
  show ?thesis
  proof (rule that [of "\<lparr>rr_envelope = rr_envelope r, rr_content = c\<rparr>"])
    show "registration env MemoryRegistered (JObj True [(''envelope'', envelopeValue (rr_envelope r))])
      (nullish eventId (''register:'' @ idOf r)) \<lparr>rr_envelope = rr_envelope r, rr_content = c\<rparr> s = (Inr u, s')"
      using assms t n c
      by (cases eventId)
        (simp_all add: unfold tenantOf_def idOf_def assertTenant_def retR_def bindR_def registration_def storeGet_def)
  qed (use t n c in simp_all)
qed

lemma registration_Inr:
  assumes "registration env type payload key stored s = (Inr u, s')" and "synced s"
  shows "synced s' \<and> (eventFor s key \<noteq> None \<longrightarrow> stateCore s' = stateCore s) \<and>
    (eventFor s key = None \<longrightarrow> map_of (recordsOf s) (idOf stored) = None \<and>
       recordsOf s' = omap_set (idOf stored) (copyRecord stored) (recordsOf s))"
proof -
  obtain event s1 where em: "emit env type (Some (idOf stored)) payload key False
      (requestOf (rr_envelope stored) (rr_content stored)) s = (Inr event, s1)"
    and add: "addRecord env stored event (eventFor s key \<noteq> None) key s1 = (Inr u, s')"
    using assms(1) by (auto simp: registration_def bindR_Inr_iff)
  from addRecord_Inr [OF add emit_stateCore [OF em] assms(2)] emit_stateCore [OF em] show ?thesis by auto
qed

lemma find_None: "find P xs = None \<longleftrightarrow> (\<forall>x \<in> set xs. \<not> P x)"
  by (auto simp: find_None_iff)

lemma derive_Inr:
  assumes "derive env r eventId s = (Inr u, s')"
  obtains stored where "rr_envelope stored = rr_envelope r" "cloneJson (rr_content r) = Inr (rr_content stored)"
    "tenantOf r = pr_tenantId s" "eventId = None \<longrightarrow> map_of (recordsOf s) (idOf r) = None"
    "\<forall>d \<in> dependencies r. \<exists>q. map_of (recordsOf s) d = Some q \<and> tenantOf q = pr_tenantId s" "dependencies r \<noteq> {}"
    "registration env MemoryDerived (JObj True [(''dependsOn'', JArr (map JStr (me_dependsOn (rr_envelope r))))])
      (nullish eventId (''derive:'' @ idOf r)) stored s = (Inr u, s')"
proof -
  obtain e where e: "parseEnvelope (en_dp env) (rr_envelope r) = Inr e"
    using assms by (auto simp: derive_def bindR_Inr_iff)
  then have e': "e = rr_envelope r" by (rule parseEnvelope_same)
  note unfold = derive_def bindR_def [of "liftR (parseEnvelope a b)" for a b] liftR_def e e' Let_def tenantOf_def idOf_def
  have t: "tenantOf r = pr_tenantId s"
    by (rule ccontr) (use assms in \<open>simp add: unfold assertTenant_def bindR_def failR_def\<close>)
  have n: "eventId = None \<longrightarrow> map_of (recordsOf s) (idOf r) = None"
    using assms t
    by (auto simp: unfold assertTenant_def bindR_def retR_def failR_def storeGet_def split: if_splits)
  have ne: "me_dependsOn (rr_envelope r) \<noteq> []"
    using assms t n
    by (cases eventId) (auto simp: unfold assertTenant_def bindR_def retR_def failR_def storeGet_def split: if_splits)
  have ds: "checkDependencies (me_dependsOn (rr_envelope r)) s = (Inr (), s)"
    using assms t n ne
    by (cases eventId; cases "find (\<lambda>d. case storeGet (pr_store s) d of None \<Rightarrow> True
          | Some r \<Rightarrow> me_tenantId (rr_envelope r) \<noteq> pr_tenantId s) (me_dependsOn (rr_envelope r))")
      (simp_all add: unfold checkDependencies_def assertTenant_def bindR_def retR_def failR_def storeGet_def)
  obtain c where c: "cloneJson (rr_content r) = Inr c"
    using assms t n ne ds
    by (cases "cloneJson (rr_content r)"; cases eventId)
      (simp_all add: unfold assertTenant_def bindR_def retR_def failR_def storeGet_def)
  have deps: "\<forall>d \<in> dependencies r. \<exists>q. map_of (recordsOf s) d = Some q \<and> tenantOf q = pr_tenantId s"
    using ds by (auto simp: checkDependencies_def find_None storeGet_def dependencies_def tenantOf_def split: option.splits)
  show ?thesis
  proof (rule that [of "\<lparr>rr_envelope = rr_envelope r, rr_content = c\<rparr>"])
    show "registration env MemoryDerived (JObj True [(''dependsOn'', JArr (map JStr (me_dependsOn (rr_envelope r))))])
      (nullish eventId (''derive:'' @ idOf r)) \<lparr>rr_envelope = rr_envelope r, rr_content = c\<rparr> s = (Inr u, s')"
      using assms t n ne ds c
      by (cases eventId)
        (simp_all add: unfold assertTenant_def retR_def bindR_def registration_def storeGet_def)
  qed (use t n c deps ne in \<open>simp_all add: dependencies_def\<close>)
qed

text \<open>A replacement replays, or writes the new record in the place of the one it read.\<close>

lemma replace_Inr:
  assumes "replace env i content nxt eventId s = (Inr u, s')" and "synced s"
  shows "synced s' \<and> (\<exists>cur. map_of (recordsOf s) i = Some cur \<and> tenantOf cur = pr_principalTenantId s) \<and>
    (stateCore s' = stateCore s \<or> me_tenantId nxt = pr_tenantId s \<and> me_memoryId nxt = i \<and>
      (\<exists>c. recordsOf s' = omap_set i (copyRecord \<lparr>rr_envelope = nxt, rr_content = c\<rparr>) (recordsOf s)))"
proof -
  obtain current where cur: "runtimeGet s i (pr_principalTenantId s) = Some current"
    using assms(1) by (auto simp: replace_def bindR_Inr_iff requireRecord_def split: option.splits)
  then have stored: "map_of (recordsOf s) i = Some current" "tenantOf current = pr_principalTenantId s"
    using records_okD [of "recordsOf s" i] assms(2)
    by (auto simp: runtimeGet_def storeGet_def synced_def tenantOf_def split: option.splits if_splits)
  obtain e where e: "parseEnvelope (en_dp env) nxt = Inr e"
    using assms(1) by (auto simp: replace_def bindR_Inr_iff)
  then have e': "e = nxt" by (rule parseEnvelope_same)
  let ?key = "nullish eventId (''replace:'' @ i @ '':'' @ nullish (me_contentDigest nxt) ''none'')"
  have req: "requireRecord i s = (Inr current, s)" using cur by (simp add: requireRecord_def retR_def)
  obtain c event s1 where i: "me_memoryId nxt = i" and t: "me_tenantId nxt = pr_tenantId s"
    and em: "stateCore s1 = stateCore s"
    and go: "(if eventFor s ?key \<noteq> None then retR () else bindR (persistRecordAndEvent env \<lparr>rr_envelope = nxt, rr_content = c\<rparr> event)
        (\<lambda>_. updateR (\<lambda>s1. syncStoreRevision (indexRecord \<lparr>rr_envelope = nxt, rr_content = c\<rparr> (deindexRecord current s1))))) s1 = (Inr u, s')"
  proof -
    have i: "me_memoryId nxt = i" using assms(1) req e e' by (auto simp: replace_def bindR_Inr_iff Let_def split: if_splits)
    obtain c type payload r event s1 where t: "me_tenantId nxt = pr_tenantId s"
      and em: "emit env type (Some i) payload ?key False r s = (Inr event, s1)"
      and go: "(if eventFor s ?key \<noteq> None then retR () else bindR (persistRecordAndEvent env \<lparr>rr_envelope = nxt, rr_content = c\<rparr> event)
        (\<lambda>_. updateR (\<lambda>s1. syncStoreRevision (indexRecord \<lparr>rr_envelope = nxt, rr_content = c\<rparr> (deindexRecord current s1))))) s1 = (Inr u, s')"
      using assms(1) req e e' i
      by (cases "eventFor s ?key = None")
        (simp_all add: replace_def Let_def bindR_Inr_iff, (metis assertTenant_Inr)+)
    show thesis by (rule that [OF i t emit_stateCore [OF em] go])
  qed
  show ?thesis
  proof (cases "eventFor s ?key = None")
    case False
    with go have "s' = s1" by (auto simp: retR_def)
    with em assms(2) stateCore_synced [OF em] stored show ?thesis by simp
  next
    case True
    let ?r = "\<lparr>rr_envelope = nxt, rr_content = c\<rparr>"
    obtain u' where put: "persistRecordAndEvent env ?r event s1 = (Inr (), u')"
      and s': "s' = syncStoreRevision (indexRecord ?r (deindexRecord current u'))"
      using go True by (auto simp: bindR_Inr_iff)
    have id: "idOf ?r = i" using i by (simp add: idOf_def)
    from synced_replaced [OF assms(2) em put] stored(1) id have "synced s'" by (simp add: s')
    moreover have "recordsOf s' = omap_set i (copyRecord ?r) (recordsOf s)"
      using persist_put [OF put em] id by (simp add: s')
    ultimately show ?thesis using stored t i by blast
  qed
qed

section \<open>Validations\<close>

definition validated :: "runtime_record \<Rightarrow> runtime_record \<Rightarrow> memory_status \<Rightarrow> bool" where
  "validated r r' status = (tenantOf r' = tenantOf r \<and> idOf r' = idOf r \<and> sourceUris r' = sourceUris r \<and>
     dependencies r' = dependencies r \<and> statusOf r' = status \<and> rr_content r' = rr_content r)"

lemma refreshEvidence_uri [simp]: "ev_sourceUri (refreshEvidence rp ver ev) = ev_sourceUri ev"
  by (simp add: refreshEvidence_def Let_def)

lemma withValidation_Inr:
  assumes "withValidation env (rr_envelope r) rp status s = (Inr e, s')"
  shows "stateCore s' = stateCore s \<and> validated r \<lparr>rr_envelope = e, rr_content = rr_content r\<rparr> status"
proof -
  let ?e = "rr_envelope r"
  obtain d where d: "me_tenantId d = tenantOf r" "me_memoryId d = idOf r" "ev_sourceUri ` set (me_evidence d) = sourceUris r"
    "set (me_dependsOn d) = dependencies r" "withStatus env d status s = (Inr e, s')"
  proof (cases "rp_version rp")
    case None
    with assms show ?thesis
      by (intro that [of ?e])
        (simp_all add: withValidation_def tenantOf_def idOf_def sourceUris_def dependencies_def split: if_splits)
  next
    case (Some ver)
    with assms show ?thesis
      by (intro that [of "if rp_result rp = UNCHANGED then ?e\<lparr>me_evidence := map (refreshEvidence rp ver) (me_evidence ?e)\<rparr> else ?e"])
        (simp_all add: withValidation_def tenantOf_def idOf_def sourceUris_def dependencies_def image_image split: if_splits)
  qed
  from withStatus_Inr [OF d(5)] d(1-4) show ?thesis
    by (auto simp: validated_def tenantOf_def idOf_def sourceUris_def dependencies_def statusOf_def)
qed

lemma putIfUnchanged_True:
  assumes "storePutIfUnchanged dp fmt expected r event st = (Inr True, st')"
  obtains cur t where "map_of (st_records st) (idOf expected) = Some cur" "canonicalJson fmt (recordValue cur) = Inr t"
    "canonicalJson fmt (recordValue expected) = Inr t" "storePutAndAppend dp r event st = (Inr (), st')"
  using assms by (auto simp: storePutIfUnchanged_def idOf_def split: option.splits sum.splits if_splits prod.splits)

text \<open>A validation that returns has replaced exactly the record it read.\<close>

lemma applyValidation_Inr:
  assumes "applyValidation env r rp eventId s = (Inr out, s')"
  shows "\<exists>cur r' t. map_of (recordsOf s) (idOf r) = Some cur \<and> canonicalJson (en_fmt env) (recordValue cur) = Inr t \<and>
    canonicalJson (en_fmt env) (recordValue r) = Inr t \<and> validated r r' (statusOfResult (rp_result rp)) \<and>
    recordsOf s' = omap_set (idOf r) (copyRecord r') (recordsOf s) \<and>
    out = rp\<lparr>rp_status := statusOfResult (rp_result rp)\<rparr> \<and>
    pr_indexedStoreRevision s' = Some (st_revision (pr_store s')) \<and>
    pr_tenantId s' = pr_tenantId s \<and> pr_sourceMemoryIds s' = pr_sourceMemoryIds s \<and>
    pr_dependentsByDependency s' = pr_dependentsByDependency s"
proof -
  let ?st = "statusOfResult (rp_result rp)"
  obtain e s1 event s2 s3 where v: "withValidation env (rr_envelope r) rp ?st s = (Inr e, s1)"
    and em: "emit env MemoryRevalidated (Some (idOf r)) (validationPayload rp ?st)
      (nullish eventId (''revalidate:'' @ idOf r @ '':'' @ rp_checkedAt rp)) False (validationPayload rp ?st) s1 = (Inr event, s2)"
    and put: "persistRecordIfCurrent env r \<lparr>rr_envelope = e, rr_content = rr_content r\<rparr> event s2 = (Inr (), s3)"
    and out: "out = rp\<lparr>rp_status := ?st\<rparr>" "s' = syncStoreRevision s3"
    using assms by (auto simp: applyValidation_def bindR_Inr_iff Let_def idOf_def split: if_splits)
  let ?r = "\<lparr>rr_envelope = e, rr_content = rr_content r\<rparr>"
  have core: "stateCore s2 = stateCore s" and val: "validated r ?r ?st"
    using withValidation_Inr [OF v] emit_stateCore [OF em] by simp_all
  obtain st where st: "storePutIfUnchanged (en_dp env) (en_fmt env) r ?r event (pr_store s2) = (Inr True, st)"
    "s3 = s2\<lparr>pr_store := st\<rparr>"
    using put by (auto simp: persistRecordIfCurrent_def bindR_Inr_iff storeR_iff split: if_splits)
  obtain cur t where cur: "map_of (recordsOf s2) (idOf r) = Some cur" "canonicalJson (en_fmt env) (recordValue cur) = Inr t"
    "canonicalJson (en_fmt env) (recordValue r) = Inr t" and pa: "storePutAndAppend (en_dp env) ?r event (pr_store s2) = (Inr (), st)"
    using putIfUnchanged_True [OF st(1)] by blast
  have "persistRecordAndEvent env ?r event s2 = (Inr (), s3)"
    using pa st(2) by (simp add: persistRecordAndEvent_def storeR_def)
  from persist_put [OF this core] val have put: "recordsOf s3 = omap_set (idOf r) (copyRecord ?r) (recordsOf s)" "indexCore s3 = indexCore s"
    by (simp_all add: validated_def)
  have "recordsOf s' = recordsOf s3" "pr_indexedStoreRevision s' = Some (st_revision (pr_store s'))" "pr_tenantId s' = pr_tenantId s3"
    "pr_sourceMemoryIds s' = pr_sourceMemoryIds s3" "pr_dependentsByDependency s' = pr_dependentsByDependency s3"
    using out(2) by (simp_all add: syncStoreRevision_def)
  with put indexCoreD [OF put(2)] cur stateCoreD(1) [OF core] val out(1) show ?thesis by metis
qed


end
