(* ===== verification/Runtime_Frame.thy ===== *)
theory Runtime_Frame
  imports Runtime_Safety
begin

text \<open>
  What no operation of the runtime does, also where it throws: a property of the state that the
  primitive steps keep (a reading of the clock, an event appended, a record written with its
  event, an index or stream table changed) is kept by every operation. It is used for the tenants
  of a runtime, which never change, and for its log of events, which only grows.
\<close>

section \<open>Stream operations\<close>

lemma keeps_let_fun [keeping]: "(\<And>x. keeps P s (f x s)) \<Longrightarrow> keeps P s ((let x = v in f x) s)"
  by simp

definition streamProof :: "runtime_env \<Rightarrow> (premise_runtime \<Rightarrow> bool) \<Rightarrow> bool" where
  "streamProof env P = (appendProof env P \<and> (\<forall>s i t. P s \<longrightarrow> P (setStream i t s)))"

lemma streamProof_append: "streamProof env P \<Longrightarrow> appendProof env P"
  by (simp add: streamProof_def)

lemma keeps_setStream: "streamProof env P \<Longrightarrow> keeps P s (r, setStream i t s)"
  by (simp add: streamProof_def keeps_def)

lemma applyEvent_append: "appendProof env P \<Longrightarrow> keeps P s (applyEvent env e s)"
  unfolding applyEvent_def by (intro keeping append_keeps)

lemma streamRepairRequired_keeps: "streamProof env P \<Longrightarrow> keeps P s (streamRepairRequired e reason s)"
  unfolding streamRepairRequired_def by (rule keeps_setStream)

lemma acceptStreamEvent_keeps: "streamProof env P \<Longrightarrow> keeps P s (acceptStreamEvent e f b s)"
  unfolding acceptStreamEvent_def Let_def by (rule keeps_setStream)

lemma digestR_keeps [keeping]: "keeps P s (digestR env v s)"
  unfolding digestR_def by (intro keeping)

lemma storeStreamEvent_keeps: "streamProof env P \<Longrightarrow> keeps P s (storeStreamEvent env e f s)"
  unfolding storeStreamEvent_def
  by (intro keeping applyEvent_append streamRepairRequired_keeps acceptStreamEvent_keeps streamProof_append)

lemma applyStreamEvent_keeps: "streamProof env P \<Longrightarrow> keeps P s (applyStreamEvent env e s)"
  unfolding applyStreamEvent_def
  by (intro keeping storeStreamEvent_keeps streamRepairRequired_keeps)

lemma repairEvents_keeps: "streamProof env P \<Longrightarrow> keeps P s (repairEvents env es xs ys s)"
proof (induction env es xs ys s rule: repairEvents.induct)
  case (2 env e es xs ys s)
  note step = applyStreamEvent_keeps [OF 2(3), of s e]
  obtain r s1 where r: "applyStreamEvent env e s = (r, s1)" by (cases "applyStreamEvent env e s")
  have s1: "P s \<Longrightarrow> P s1" using step r by (simp add: keeps_def)
  show ?case
  proof (cases r)
    case (Inl x)
    with r s1 show ?thesis by (simp add: keeps_def)
  next
    case (Inr oc)
    with r s1 2 show ?thesis by (cases oc) (auto simp: keeps_def)
  qed
qed (simp add: keeps_def)

lemma repair_keeps:
  assumes "streamProof env P"
  shows "keeps P s (repairStreamFromSnapshot env page s)"
proof -
  have run: "keeps P t (let first = se_sequence (hd (pg_events p)); fence = setStream (pg_streamId p) (fencedStream first) in
        case repairEvents env (pg_events p) [] [] (fence t) of
          (Inl err, s1) \<Rightarrow> (Inl err, fence s1)
        | (Inr (applied, duplicates), s1) \<Rightarrow>
            (Inr \<lparr>re_streamId = pg_streamId p, re_fromSequence = first, re_toSequence = se_sequence (last (pg_events p)),
               re_applied = applied, re_duplicates = duplicates\<rparr>, s1))" for p t
    using repairEvents_keeps [OF assms, of "setStream (pg_streamId p) (fencedStream (se_sequence (hd (pg_events p)))) t"
        "pg_events p" "[]" "[]"] assms
    by (auto simp: keeps_def Let_def streamProof_def split: prod.splits sum.splits)
  show ?thesis unfolding repairStreamFromSnapshot_def by (intro keeping run)
qed

lemma applyInOrder_keeps: "streamProof env P \<Longrightarrow> keeps P s (applyInOrder env es xs ys s)"
proof (induction env es xs ys s rule: applyInOrder.induct)
  case (2 env e es xs ys s)
  note step = applyStreamEvent_keeps [OF 2(3), of s e]
  obtain r s1 where r: "applyStreamEvent env e s = (r, s1)" by (cases "applyStreamEvent env e s")
  have s1: "P s \<Longrightarrow> P s1" using step r by (simp add: keeps_def)
  show ?case
  proof (cases r)
    case (Inl x)
    with r s1 show ?thesis by (simp add: keeps_def)
  next
    case (Inr oc)
    with r s1 2 show ?thesis by (cases oc) (auto simp: keeps_def)
  qed
qed (simp add: keeps_def)

lemma keeps_plan:
  "(\<And>i t k d. keeps P s (f i t k d s)) \<Longrightarrow> (\<And>r k. keeps P s (g r k s)) \<Longrightarrow>
   keeps P s ((case p of COALESCED i t k d \<Rightarrow> f i t k d | PRESERVED r k \<Rightarrow> g r k) s)"
  by (cases p) auto

lemma burst_keeps: "streamProof env P \<Longrightarrow> keeps P s (applyStreamBurst env es caps s)"
  unfolding applyStreamBurst_def by (intro keeping keeps_plan repair_keeps applyInOrder_keeps)

lemma snapshot_keeps: "idleProof P \<Longrightarrow> keeps P s (snapshot env s)"
  unfolding snapshot_def by (intro keeping nowR_keeps)

section \<open>Operations on records\<close>

definition recordProof :: "runtime_env \<Rightarrow> (premise_runtime \<Rightarrow> bool) \<Rightarrow> bool" where
  "recordProof env P = (appendProof env P \<and>
     (\<forall>s r e. P s \<longrightarrow> P (s\<lparr>pr_store := snd (storePutAndAppend (en_dp env) r e (pr_store s))\<rparr>)) \<and>
     (\<forall>s r. P s \<longrightarrow> P (indexRecord r s) \<and> P (deindexRecord r s)) \<and>
     (\<forall>s. P s \<longrightarrow> P (syncStoreRevision s) \<and> P (refreshIndexesIfStoreChanged s)))"

lemma recordProof_append: "recordProof env P \<Longrightarrow> appendProof env P"
  by (simp add: recordProof_def)

lemma recordProof_idle: "recordProof env P \<Longrightarrow> idleProof P"
  by (simp add: recordProof_def appendProof_def)

lemma recordProof_put: "recordProof env P \<Longrightarrow> P s \<Longrightarrow> storePutAndAppend (en_dp env) r e (pr_store s) = (x, st) \<Longrightarrow>
    P (s\<lparr>pr_store := st\<rparr>)"
  unfolding recordProof_def by (metis snd_conv)

lemma persist_keeps: "recordProof env P \<Longrightarrow> keeps P s (persistRecordAndEvent env r e s)"
  using recordProof_put [of env P s r e]
  by (auto simp: keeps_def persistRecordAndEvent_def storeR_def split: prod.split)

lemma putIfUnchanged_store:
  "snd (storePutIfUnchanged dp fmt expected r e st) \<in> {st, snd (storePutAndAppend dp r e st)}"
  by (auto simp: storePutIfUnchanged_def split: option.splits sum.splits prod.splits)

lemma persistIfCurrent_keeps: "recordProof env P \<Longrightarrow> keeps P s (persistRecordIfCurrent env expected r e s)"
proof -
  assume P: "recordProof env P"
  have "keeps P s (storeR (storePutIfUnchanged (en_dp env) (en_fmt env) expected r e) s)"
    using putIfUnchanged_store [of "en_dp env" "en_fmt env" expected r e "pr_store s"] P
    by (auto simp: recordProof_def keeps_def storeR_def split: prod.splits)
  then show ?thesis unfolding persistRecordIfCurrent_def by (intro keeping)
qed

lemma updates_keep:
  "recordProof env P \<Longrightarrow> keeps P s (updateR (\<lambda>u. syncStoreRevision (indexRecord r u)) s)"
  "recordProof env P \<Longrightarrow> keeps P s (updateR (\<lambda>u. syncStoreRevision (indexRecord r (deindexRecord q u))) s)"
  "recordProof env P \<Longrightarrow> keeps P s (updateR syncStoreRevision s)"
  "recordProof env P \<Longrightarrow> keeps P s (updateR refreshIndexesIfStoreChanged s)"
  by (simp_all add: recordProof_def keeps_def updateR_def)

lemma requireRecord_keeps [keeping]: "keeps P s (requireRecord i s)"
  unfolding requireRecord_def by (intro keeping)

lemma checkDependencies_keeps [keeping]: "keeps P s (checkDependencies ds s)"
  unfolding checkDependencies_def by (intro keeping)

lemma addRecord_keeps: "recordProof env P \<Longrightarrow> keeps P s (addRecord env r e b key s)"
  unfolding addRecord_def by (intro keeping persist_keeps updates_keep)

lemma register_keeps: "recordProof env P \<Longrightarrow> keeps P s (register env r i s)"
  unfolding register_def by (intro keeping emit_keeps addRecord_keeps recordProof_append)

lemma derive_keeps: "recordProof env P \<Longrightarrow> keeps P s (derive env r i s)"
  unfolding derive_def by (intro keeping emit_keeps addRecord_keeps recordProof_append)

lemma replace_keeps: "recordProof env P \<Longrightarrow> keeps P s (replace env i c e k s)"
  unfolding replace_def Let_def
  by (intro keeping emit_keeps persist_keeps updates_keep recordProof_append)

lemma withValidation_keeps: "idleProof P \<Longrightarrow> keeps P s (withValidation env e rp st s)"
  unfolding withValidation_def by (intro keeping withStatus_keeps)

lemma applyValidation_keeps: "recordProof env P \<Longrightarrow> keeps P s (applyValidation env r rp i s)"
  unfolding applyValidation_def
  by (intro keeping withValidation_keeps emit_keeps persistIfCurrent_keeps updates_keep recordProof_append recordProof_idle)

lemma revalidateBegin_keeps: "keeps P s (revalidateBegin i s)"
  unfolding revalidateBegin_def by (intro keeping)

lemma revalidateFinish_keeps: "recordProof env P \<Longrightarrow> keeps P s (revalidateFinish env r reports i s)"
  unfolding revalidateFinish_def by (intro keeping applyValidation_keeps nowR_keeps recordProof_idle)

lemma revalidateManyBegin_keeps: "idleProof P \<Longrightarrow> keeps P s (revalidateManyBegin env ids s)"
  unfolding revalidateManyBegin_def loadPending_def startPending_def by (intro keeping nowR_keeps)

lemma applyPending_keeps: "recordProof env P \<Longrightarrow> keeps P s (applyPending env reports i p s)"
  unfolding applyPending_def by (cases p) (auto intro!: keeping applyValidation_keeps)

lemma revalidateManyFinish_keeps: "recordProof env P \<Longrightarrow> keeps P s (revalidateManyFinish env ps reports ids i s)"
  unfolding revalidateManyFinish_def by (intro keeping applyPending_keeps)

lemma staleMember_keeps: "recordProof env P \<Longrightarrow> keeps P s (staleMember env payload key i s)"
  unfolding staleMember_def
  by (intro keeping withStatus_keeps emit_keeps persist_keeps recordProof_append recordProof_idle)

lemma staleAffected_keeps: "recordProof env P \<Longrightarrow> keeps P s (staleAffected env payload key ids s)"
  unfolding staleAffected_def by (intro keeping staleMember_keeps updates_keep)

lemma emitSource_keeps: "recordProof env P \<Longrightarrow> keeps P s (emitSource env c s)"
  unfolding emitSource_def by (intro keeping emit_keeps recordProof_append)

lemma signal_keeps: "recordProof env P \<Longrightarrow> keeps P s (signalSourcesChanged env cs s)"
  unfolding signalSourcesChanged_def signalSingleSourceChanged_def signalBatch_def
  by (intro keeping staleAffected_keeps emitSource_keeps updates_keep)

section \<open>The tenants of a runtime, and its log\<close>

definition tenants :: "premise_runtime \<Rightarrow> string \<times> string" where
  "tenants s = (pr_tenantId s, pr_principalTenantId s)"

lemma tenants_kept: "recordProof env (\<lambda>u. tenants u = x)" "streamProof env (\<lambda>u. tenants u = x)"
  by (simp_all add: recordProof_def streamProof_def appendProof_def idleProof_def tenants_def setStream_def)

lemma stateCore_streams: "streamProof env (\<lambda>u. stateCore u = x)"
  using appendProof_stateCore by (simp add: streamProof_def) (simp add: stateCore_def indexCore_def setStream_def)

definition logged :: "(string, v2_event) omap \<Rightarrow> premise_runtime \<Rightarrow> bool" where
  "logged events s = (\<exists>more. st_events (pr_store s) = events @ more)"

lemma logged_append: "storeAppendEvent dp e st = Inr st' \<Longrightarrow> \<exists>more. st_events st' = st_events st @ more"
  using storeAppendEvent_Inr [of dp e st st'] set_omap_set_absent [of "st_events st" "xe_idempotencyKey e" "copyEvent e"]
  by auto

lemma logged_put: "\<exists>more. st_events (snd (storePutAndAppend dp r e st)) = st_events st @ more"
proof (cases "storePut dp r st")
  case (Inl x)
  then show ?thesis by (simp add: storePutAndAppend_def)
next
  case (Inr st1)
  then have same: "st_events st1 = st_events st" using storePut_Inr by fastforce
  show ?thesis
  proof (cases "storeAppendEvent dp e st1")
    case (Inl x)
    with Inr same show ?thesis by (simp add: storePutAndAppend_def)
  next
    case st2: (Inr st2)
    with Inr same logged_append [OF st2] show ?thesis by (simp add: storePutAndAppend_def)
  qed
qed

lemma logged_kept: "recordProof env (logged events)" "streamProof env (logged events)"
proof -
  have append: "appendProof env (logged events)"
    unfolding appendProof_def idleProof_def logged_def
  proof (intro conjI allI impI)
    fix s :: premise_runtime and e st
    assume "\<exists>more. st_events (pr_store s) = events @ more" "storeAppendEvent (en_dp env) e (pr_store s) = Inr st"
    with logged_append [OF this(2)] show "\<exists>more. st_events (pr_store (s\<lparr>pr_store := st\<rparr>)) = events @ more" by auto
  qed simp_all
  then show "streamProof env (logged events)" by (simp add: streamProof_def logged_def setStream_def)
  have "logged events (s\<lparr>pr_store := snd (storePutAndAppend dp r e (pr_store s))\<rparr>)" if "logged events s" for s r e dp
    using that logged_put [of dp r e "pr_store s"] by (auto simp: logged_def)
  moreover have "logged events (indexRecord r s) = logged events s" "logged events (deindexRecord r s) = logged events s"
    "logged events (syncStoreRevision s) = logged events s" "logged events (refreshIndexesIfStoreChanged s) = logged events s" for s r
    by (simp_all add: logged_def)
  ultimately show "recordProof env (logged events)" using append by (simp add: recordProof_def)
qed

end
