(* ===== verification/Runtime_World.thy ===== *)
theory Runtime_World
  imports Runtime_Frame
begin

text \<open>
  A runtime in use: a sequence of operations on one \<open>PremiseRuntime\<close>, with the validations that
  have started and not finished. The two halves of \<open>revalidate\<close> and of \<open>revalidateMany\<close> are separate
  operations, so anything may happen while validators are awaited.
\<close>

section \<open>Operations and runs\<close>

datatype inflight = InOne runtime_record | InMany "pending_validation list" "string list" | Finished

record runtime_world =
  wo_runtime :: premise_runtime
  wo_inflight :: "inflight list"

datatype runtime_op =
    Register runtime_record "string option"
  | Derive runtime_record "string option"
  | ReplaceRecord string jsvalue memory_envelope "string option"
  | StartValidation string
  | FinishValidation nat "validation_report list" "string option"
  | StartMany "string list"
  | FinishMany nat "string \<Rightarrow> validation_report list" "string option"
  | SignalChanges "source_change list"
  | ApplyEvent v2_event
  | ApplyStream stream_event
  | RepairStream stream_page
  | ApplyBurst "stream_event list" "stream_capability list"
  | TakeSnapshot
  | RestoreSnapshot runtime_snapshot

definition inRuntime ::
  "(premise_runtime \<Rightarrow> (exn + 'a) \<times> premise_runtime) \<Rightarrow> ('a \<Rightarrow> inflight list) \<Rightarrow> runtime_world \<Rightarrow> (exn + unit) \<times> runtime_world" where
  "inRuntime m started w =
     (case m (wo_runtime w) of
        (Inl e, s) \<Rightarrow> (Inl e, w\<lparr>wo_runtime := s\<rparr>)
      | (Inr x, s) \<Rightarrow> (Inr (), w\<lparr>wo_runtime := s, wo_inflight := wo_inflight w @ started x\<rparr>))"

definition pendingAt :: "runtime_world \<Rightarrow> nat \<Rightarrow> inflight" where
  "pendingAt w n = (if n < length (wo_inflight w) then wo_inflight w ! n else Finished)"

definition finishAt :: "nat \<Rightarrow> runtime_world \<Rightarrow> runtime_world" where
  "finishAt n w = w\<lparr>wo_inflight := (wo_inflight w)[n := Finished]\<rparr>"

definition noPending :: "runtime_world \<Rightarrow> (exn + unit) \<times> runtime_world" where
  "noPending w = (Inl (Failure ''no such validation''), w)"

fun runOp :: "runtime_env \<Rightarrow> runtime_op \<Rightarrow> runtime_world \<Rightarrow> (exn + unit) \<times> runtime_world" where
  "runOp env (Register r k) w = inRuntime (register env r k) (\<lambda>_. []) w"
| "runOp env (Derive r k) w = inRuntime (derive env r k) (\<lambda>_. []) w"
| "runOp env (ReplaceRecord i c e k) w = inRuntime (replace env i c e k) (\<lambda>_. []) w"
| "runOp env (StartValidation i) w = inRuntime (revalidateBegin i) (\<lambda>r. [InOne r]) w"
| "runOp env (FinishValidation n reports k) w =
     (case pendingAt w n of InOne r \<Rightarrow> inRuntime (revalidateFinish env r reports k) (\<lambda>_. []) (finishAt n w)
      | _ \<Rightarrow> noPending w)"
| "runOp env (StartMany ids) w = inRuntime (revalidateManyBegin env ids) (\<lambda>ps. [InMany ps ids]) w"
| "runOp env (FinishMany n reports k) w =
     (case pendingAt w n of InMany ps ids \<Rightarrow> inRuntime (revalidateManyFinish env ps reports ids k) (\<lambda>_. []) (finishAt n w)
      | _ \<Rightarrow> noPending w)"
| "runOp env (SignalChanges cs) w = inRuntime (signalSourcesChanged env cs) (\<lambda>_. []) w"
| "runOp env (ApplyEvent e) w = inRuntime (applyEvent env e) (\<lambda>_. []) w"
| "runOp env (ApplyStream e) w = inRuntime (applyStreamEvent env e) (\<lambda>_. []) w"
| "runOp env (RepairStream p) w = inRuntime (repairStreamFromSnapshot env p) (\<lambda>_. []) w"
| "runOp env (ApplyBurst es caps) w = inRuntime (applyStreamBurst env es caps) (\<lambda>_. []) w"
| "runOp env TakeSnapshot w = inRuntime (snapshot env) (\<lambda>_. []) w"
| "runOp env (RestoreSnapshot sn) w = inRuntime (restore env sn) (\<lambda>_. []) w"

abbreviation worldRecords :: "runtime_world \<Rightarrow> records" where
  "worldRecords w \<equiv> recordsOf (wo_runtime w)"

text \<open>
  A new runtime on a store, which may already hold records of several tenants. A run is a sequence of operations
  each of which returned, or threw before it wrote a record: an exception that leaves a record
  written but its event refused is left out, since the indexes then miss that record.
\<close>

definition startWorld :: "runtime_store \<Rightarrow> string option \<Rightarrow> string option \<Rightarrow> runtime_world" where
  "startWorld st tenantId principalTenant = \<lparr>wo_runtime = newPremiseRuntime st tenantId principalTenant, wo_inflight = []\<rparr>"

inductive runs :: "runtime_env \<Rightarrow> runtime_world \<Rightarrow> runtime_op list \<Rightarrow> runtime_world \<Rightarrow> bool" for env w where
  none: "runs env w [] w"
| step: "runs env w xs u \<Longrightarrow> runOp env x u = (r, v) \<Longrightarrow> \<not> isl r \<or> stateCore (wo_runtime v) = stateCore (wo_runtime u) \<Longrightarrow>
    runs env w (xs @ [x]) v"

inductive_cases runs_snoc: "runs env w (xs @ [x]) v"

text \<open>What callers pass as JSON is JSON.\<close>

fun jsonOp :: "runtime_op \<Rightarrow> bool" where
  "jsonOp (SignalChanges cs) = (\<forall>c \<in> set cs. jsonChange c)"
| "jsonOp x = True"

fun isRestore :: "runtime_op \<Rightarrow> bool" where
  "isRestore (RestoreSnapshot sn) = True"
| "isRestore x = False"

text \<open>The records an operation may set to any status: those it replaces or validates.\<close>

fun inflightIds :: "inflight \<Rightarrow> string set" where
  "inflightIds (InOne r) = {idOf r}"
| "inflightIds (InMany ps ids) = (\<lambda>p. idOf (fst (snd p))) ` set ps"
| "inflightIds Finished = {}"

fun touched :: "runtime_op \<Rightarrow> runtime_world \<Rightarrow> string set" where
  "touched (ReplaceRecord i c e k) w = {i}"
| "touched (FinishValidation n reports k) w = inflightIds (pendingAt w n)"
| "touched (FinishMany n reports k) w = inflightIds (pendingAt w n)"
| "touched x w = {}"

section \<open>How records evolve\<close>

definition evolves :: "string \<Rightarrow> string \<Rightarrow> string set \<Rightarrow> records \<Rightarrow> records \<Rightarrow> bool" where
  "evolves t p T recs recs' = (\<forall>i. case map_of recs i of
       None \<Rightarrow> (\<forall>r. map_of recs' i = Some r \<longrightarrow> tenantOf r = t)
     | Some r \<Rightarrow> \<exists>r'. map_of recs' i = Some r' \<and>
         (r' = r \<or> stalable t r \<and> (\<exists>now. r' = staled r now) \<or> i \<in> T \<and> tenantOf r = p \<and> tenantOf r' \<in> {t, p}))"

lemma evolves_refl: "evolves t p T recs recs"
  by (simp add: evolves_def split: option.splits)

lemma evolves_new:
  "map_of recs i = None \<Longrightarrow> recs' = omap_set i r recs \<Longrightarrow> tenantOf r = t \<Longrightarrow> evolves t p T recs recs'"
  by (auto simp: evolves_def split: option.splits)

lemma evolves_put:
  "map_of recs i = Some cur \<Longrightarrow> recs' = omap_set i r recs \<Longrightarrow> tenantOf cur = p \<Longrightarrow>
    tenantOf r \<in> {t, p} \<Longrightarrow> i \<in> T \<Longrightarrow> evolves t p T recs recs'"
  by (auto simp: evolves_def split: option.splits)

lemma staledIn_evolves:
  assumes "staledIn t A recs recs'"
  shows "evolves t p T recs recs'"
  unfolding evolves_def
proof
  fix i
  show "case map_of recs i of None \<Rightarrow> (\<forall>r. map_of recs' i = Some r \<longrightarrow> tenantOf r = t)
     | Some r \<Rightarrow> \<exists>r'. map_of recs' i = Some r' \<and>
         (r' = r \<or> stalable t r \<and> (\<exists>now. r' = staled r now) \<or> i \<in> T \<and> tenantOf r = p \<and> tenantOf r' \<in> {t, p})"
    using assms [unfolded staledIn_def, THEN spec, of i] by (cases "map_of recs i") (auto split: if_splits)
qed

text \<open>A batch of validations: some of the records of \<open>T\<close>, of the principal, have another content now.\<close>

definition revalidated :: "string \<Rightarrow> string set \<Rightarrow> records \<Rightarrow> records \<Rightarrow> bool" where
  "revalidated p T recs recs' = (\<forall>i. case map_of recs i of
       None \<Rightarrow> map_of recs' i = None
     | Some r \<Rightarrow> \<exists>r'. map_of recs' i = Some r' \<and> (r' = r \<or> i \<in> T \<and> tenantOf r = p \<and> tenantOf r' = p))"

lemma revalidated_refl: "revalidated p T recs recs"
  by (simp add: revalidated_def split: option.splits)

lemma revalidated_trans:
  assumes "revalidated p T a b" and "revalidated p T b c"
  shows "revalidated p T a c"
  unfolding revalidated_def
proof
  fix i
  show "case map_of a i of None \<Rightarrow> map_of c i = None
     | Some r \<Rightarrow> \<exists>r'. map_of c i = Some r' \<and> (r' = r \<or> i \<in> T \<and> tenantOf r = p \<and> tenantOf r' = p)"
    using assms [unfolded revalidated_def, THEN spec, of i] by (cases "map_of a i") auto
qed

lemma revalidated_evolves:
  assumes "revalidated p T recs recs'"
  shows "evolves t p T recs recs'"
  unfolding evolves_def
proof
  fix i
  show "case map_of recs i of None \<Rightarrow> (\<forall>r. map_of recs' i = Some r \<longrightarrow> tenantOf r = t)
     | Some r \<Rightarrow> \<exists>r'. map_of recs' i = Some r' \<and>
         (r' = r \<or> stalable t r \<and> (\<exists>now. r' = staled r now) \<or> i \<in> T \<and> tenantOf r = p \<and> tenantOf r' \<in> {t, p})"
    using assms [unfolded revalidated_def, THEN spec, of i] by (cases "map_of recs i") auto
qed

section \<open>The invariant\<close>

definition ownCopy :: "string \<Rightarrow> runtime_record \<Rightarrow> bool" where
  "ownCopy p r = (copyRecord r = r \<and> tenantOf r = p)"

fun inflight_ok :: "string \<Rightarrow> inflight \<Rightarrow> bool" where
  "inflight_ok p (InOne r) = ownCopy p r"
| "inflight_ok p (InMany ps ids) = (\<forall>q \<in> set ps. ownCopy p (fst (snd q)))"
| "inflight_ok p Finished = True"

definition world_ok :: "string \<times> string \<Rightarrow> runtime_world \<Rightarrow> bool" where
  "world_ok tp w = (synced (wo_runtime w) \<and> tenants (wo_runtime w) = tp \<and> (\<forall>x \<in> set (wo_inflight w). inflight_ok (snd tp) x))"

lemma world_ok_finish: "world_ok tp w \<Longrightarrow> world_ok tp (finishAt n w)"
  by (auto simp: world_ok_def finishAt_def dest: set_update_subset_insert [THEN subsetD])

lemma finishAt_runtime [simp]: "wo_runtime (finishAt n w) = wo_runtime w"
  by (simp add: finishAt_def)

lemma pending_ok: "world_ok tp w \<Longrightarrow> inflight_ok (snd tp) (pendingAt w n)"
  by (simp add: world_ok_def pendingAt_def)

text \<open>An operation that returned keeps the invariant and lets the records evolve.\<close>

lemma inRuntime_ok:
  assumes w: "world_ok tp w" and run: "inRuntime m started w = (Inr (), w')"
    and tenants: "\<And>u. keeps (\<lambda>u. tenants u = tp) u (m u)"
    and sync: "\<And>x s'. m (wo_runtime w) = (Inr x, s') \<Longrightarrow> synced s' \<and> R (recordsOf s') \<and> (\<forall>y \<in> set (started x). inflight_ok (snd tp) y)"
  shows "world_ok tp w' \<and> R (worldRecords w')"
proof -
  obtain x s' where m: "m (wo_runtime w) = (Inr x, s')" and w': "w' = w\<lparr>wo_runtime := s', wo_inflight := wo_inflight w @ started x\<rparr>"
    using run by (auto simp: inRuntime_def split: prod.splits sum.splits)
  have "tenants s' = tp" using keepsD [OF tenants _ m] w by (simp add: world_ok_def)
  with sync [OF m] w w' show ?thesis by (auto simp: world_ok_def)
qed

lemma synced_same: "synced s \<Longrightarrow> stateCore s' = stateCore s \<Longrightarrow> synced s' \<and> recordsOf s' = recordsOf s"
  using stateCore_synced stateCoreD(1) by blast

section \<open>Each operation\<close>

lemma validation_step:
  assumes run: "applyValidation env r rp k s = (Inr out, s')" and s: "synced s" and r: "ownCopy p r"
    and num: "numbersDistinct env"
  shows "synced s' \<and> revalidated p {idOf r} (recordsOf s) (recordsOf s')"
proof -
  obtain cur r' t where cur: "map_of (recordsOf s) (idOf r) = Some cur" "canonicalJson (en_fmt env) (recordValue cur) = Inr t"
    "canonicalJson (en_fmt env) (recordValue r) = Inr t"
    and val: "validated r r' (statusOfResult (rp_result rp))"
    and put: "recordsOf s' = omap_set (idOf r) (copyRecord r') (recordsOf s)"
    and idx: "pr_indexedStoreRevision s' = Some (st_revision (pr_store s'))"
      "pr_tenantId s' = pr_tenantId s" "pr_sourceMemoryIds s' = pr_sourceMemoryIds s"
      "pr_dependentsByDependency s' = pr_dependentsByDependency s"
    using applyValidation_Inr [OF run] by auto
  have "copyRecord cur = cur" using records_okD [OF _ cur(1)] s by (simp add: synced_def)
  from record_same [OF num [unfolded numbersDistinct_def] this _ cur(2,3)] r
  have same: "tenantOf cur = p" "sourceUris cur = sourceUris r" "dependencies cur = dependencies r" "tenantOf r = p"
    by (simp_all add: ownCopy_def)
  have r': "tenantOf r' = p" "sourceUris r' = sourceUris r" "dependencies r' = dependencies r" "idOf r' = idOf r"
    using val same by (simp_all add: validated_def)
  have links: "sourcesOf (recordsOf s') u x = sourcesOf (recordsOf s) u x" "dependentsIn (recordsOf s') u x = dependentsIn (recordsOf s) u x" for u x
    using sourcesOf_same [OF cur(1), of "copyRecord r'"] by (simp_all add: put r' same)
  have "index_exact s'" using s links idx by (simp add: synced_def index_exact_def)
  moreover have "records_ok (recordsOf s')"
    using s records_ok_put [of "recordsOf s" r'] r'(4) by (simp add: put synced_def idOf_def)
  moreover have "revalidated p {idOf r} (recordsOf s) (recordsOf s')"
    using cur(1) same r' by (auto simp: revalidated_def put split: option.splits)
  ultimately show ?thesis using idx by (simp add: synced_def)
qed

lemma nowR_Inr: "nowR env s = (Inr now, s') \<Longrightarrow> stateCore s' = stateCore s"
  by (auto simp: nowR_def stateCore_def indexCore_def)

lemma finish_step:
  assumes run: "revalidateFinish env r reports k s = (Inr out, s')" and s: "synced s" and r: "ownCopy p r"
    and num: "numbersDistinct env"
  shows "synced s' \<and> revalidated p {idOf r} (recordsOf s) (recordsOf s')"
proof -
  obtain rp s1 where s1: "stateCore s1 = stateCore s" and run: "applyValidation env r rp k s1 = (Inr out, s')"
  proof (cases "me_evidence (rr_envelope r) = []")
    case True
    then obtain now s1 where "nowR env s = (Inr now, s1)"
      "applyValidation env r (noEvidence (me_memoryId (rr_envelope r)) now) k s1 = (Inr out, s')"
      using run by (auto simp: revalidateFinish_def bindR_Inr_iff)
    then show ?thesis by (intro that nowR_Inr)
  next
    case False
    with run show ?thesis by (intro that [OF refl]) (simp add: revalidateFinish_def)
  qed
  from synced_same [OF s s1] validation_step [OF run _ r num] show ?thesis by simp
qed

lemma finishMany_step:
  assumes "mapR (applyPending env reports k) ps s = (Inr outs, s')" and "synced s" and "\<forall>q \<in> set ps. ownCopy p (fst (snd q))"
    and num: "numbersDistinct env"
  shows "synced s' \<and> revalidated p ((\<lambda>q. idOf (fst (snd q))) ` set ps) (recordsOf s) (recordsOf s')"
  using assms(1-3)
proof (induction ps arbitrary: s outs)
  case Nil
  then show ?case by (simp add: revalidated_refl)
next
  case (Cons q ps)
  obtain i r fixed where q: "q = (i, r, fixed)" by (cases q)
  obtain x s1 outs1 where x: "applyPending env reports k q s = (Inr x, s1)"
    "mapR (applyPending env reports k) ps s1 = (Inr outs1, s')"
    using Cons.prems(1) by (auto simp: bindR_Inr_iff)
  then obtain out rp k1 where run: "applyValidation env r rp k1 s = (Inr out, s1)"
    "mapR (applyPending env reports k) ps s1 = (Inr outs1, s')"
    by (auto simp: q applyPending_def bindR_Inr_iff)
  note one = validation_step [OF run(1) Cons.prems(2) _ num, of p]
  have r: "ownCopy p r" using Cons.prems(3) by (simp add: q)
  let ?T = "(\<lambda>q. idOf (fst (snd q))) ` set (q # ps)"
  have grow: "revalidated p T a b \<Longrightarrow> T \<subseteq> U \<Longrightarrow> revalidated p U a b" for T U a b
    unfolding revalidated_def by (fastforce split: option.splits)
  have "revalidated p ?T (recordsOf s) (recordsOf s1)" by (rule grow [OF conjunct2 [OF one [OF r]]]) (simp add: q)
  moreover from Cons.IH [OF run(2) conjunct1 [OF one [OF r]]] Cons.prems(3)
  have rest: "synced s'" "revalidated p ((\<lambda>q. idOf (fst (snd q))) ` set ps) (recordsOf s1) (recordsOf s')" by simp_all
  moreover from rest(2) have "revalidated p ?T (recordsOf s1) (recordsOf s')" by (rule grow) auto
  ultimately show ?case using revalidated_trans by blast
qed

lemma require_own:
  assumes "requireRecord i s = (Inr r, s')"
  shows "s' = s \<and> ownCopy (snd (tenants s)) r"
proof -
  obtain q where "map_of (recordsOf s) i = Some q" "r = copyRecord q" "me_tenantId (rr_envelope r) = pr_principalTenantId s" "s' = s"
    using assms by (auto simp: requireRecord_def runtimeGet_def storeGet_def split: option.splits if_splits)
  then show ?thesis by (simp add: ownCopy_def tenants_def tenantOf_def)
qed

lemma readMany_copies:
  assumes "map_of (readMany st ids) i = Some r"
  shows "copyRecord r = r"
proof -
  have "map_of (fold (\<lambda>r. omap_set (me_memoryId (rr_envelope r)) r) rs m) i = Some r \<Longrightarrow> r \<in> set rs \<or> map_of m i = Some r" for rs m
  proof (induction rs arbitrary: m)
    case (Cons a rs)
    from Cons.IH [of "omap_set (me_memoryId (rr_envelope a)) a m"] Cons.prems show ?case by (auto split: if_splits)
  qed simp
  from this [of "filter (\<lambda>r. me_memoryId (rr_envelope r) \<in> set (unique ids)) (storeGetMany st (unique ids))" "[]"] assms
  have "r \<in> set (storeGetMany st (unique ids))" by (auto simp: readMany_def Let_def split: if_splits)
  then show ?thesis by (auto simp: storeGetMany_def storeGet_def split: option.splits)
qed

lemma startMany_step:
  assumes "revalidateManyBegin env ids s = (Inr ps, s')"
  shows "stateCore s' = stateCore s \<and> (\<forall>q \<in> set ps. ownCopy (snd (tenants s)) (fst (snd q)))"
proof -
  let ?load = "loadPending env (readMany (pr_store s) ids)"
  obtain qs s1 where load: "mapR ?load (unique ids) s = (Inr qs, s1)" and start: "mapR (startPending env) qs s1 = (Inr ps, s')"
    using assms by (auto simp: revalidateManyBegin_def bindR_Inr_iff)
  have one: "u' = u \<and> ownCopy (snd (tenants u)) (snd q)" if "?load i u = (Inr q, u')" for i u q u'
    using that readMany_copies by (auto simp: loadPending_def ownCopy_def tenants_def tenantOf_def split: option.splits if_splits)
  have "mapR ?load is u = (Inr qs, u') \<Longrightarrow> u' = u \<and> (\<forall>q \<in> set qs. ownCopy (snd (tenants u)) (snd q))" for "is" u qs u'
  proof (induction "is" arbitrary: u qs)
    case (Cons i "is")
    then obtain q u1 qs1 where "?load i u = (Inr q, u1)" "mapR ?load is u1 = (Inr qs1, u')" "qs = q # qs1"
      by (auto simp: bindR_Inr_iff)
    with one [of i u q u1] Cons.IH [of u1 qs1] show ?case by simp
  qed simp
  from this [OF load] have s1: "s1 = s" and own: "\<forall>q \<in> set qs. ownCopy (snd (tenants s)) (snd q)" by auto
  have two: "stateCore u' = stateCore u \<and> fst (snd x) = snd q" if "startPending env q u = (Inr x, u')" for q u x u'
    using that nowR_Inr by (auto simp: startPending_def bindR_Inr_iff split: if_splits)
  have "mapR (startPending env) qs u = (Inr ps, u') \<Longrightarrow> stateCore u' = stateCore u \<and> map (\<lambda>x. fst (snd x)) ps = map snd qs" for qs u ps u'
    by (induction qs arbitrary: u ps) (auto simp: bindR_Inr_iff dest!: two)
  from this [OF start] have "stateCore s' = stateCore s" and same: "map (\<lambda>x. fst (snd x)) ps = map snd qs" by (auto simp: s1)
  moreover have "ownCopy (snd (tenants s)) (fst (snd q))" if "q \<in> set ps" for q
  proof -
    have "fst (snd q) \<in> set (map (\<lambda>x. fst (snd x)) ps)" using that by simp
    then have "fst (snd q) \<in> set (map snd qs)" by (simp only: same)
    with own show ?thesis by auto
  qed
  ultimately show ?thesis by blast
qed

lemma restoreRecords_ok:
  "restoreRecords dp rs m = Inr m' \<Longrightarrow> records_ok m \<Longrightarrow> records_ok m'"
  by (induction rs arbitrary: m) (auto simp: andThen_Inr_iff records_ok_put dest!: parseEnvelope_same)

lemma restore_step:
  assumes "restore env sn s = (Inr u, s')"
  shows "synced s'"
proof -
  obtain rs s1 where run: "mapR (trustRecord env) (sn_records sn) s = (Inr rs, s1)"
    using assms by (auto simp: restore_def bindR_Inr_iff)
  obtain st where st: "storeRestore (en_dp env) (sn\<lparr>sn_records := rs\<rparr>) (pr_store s1) = Inr st"
    and s': "s' = rebuildIndexes (s1\<lparr>pr_store := st\<rparr>)"
    using assms run
    by (cases "storeRestore (en_dp env) (sn\<lparr>sn_records := rs\<rparr>) (pr_store s1)")
      (auto simp: restore_def bindR_def storeR_def updateR_def)
  obtain recs where "restoreRecords (en_dp env) rs [] = Inr recs" "st_records st = recs"
    using st by (auto simp: storeRestore_def andThen_Inr_iff split: if_splits)
  then have ok: "records_ok (st_records st)" using restoreRecords_ok by (auto simp: records_ok_def)
  have "index_exact s'" unfolding s' by (rule rebuild_exact) (simp add: ok)
  moreover have "pr_indexedStoreRevision s' = Some (st_revision (pr_store s'))"
    by (simp add: s' rebuildIndexes_def) (simp add: syncStoreRevision_def)
  ultimately show ?thesis using ok by (simp add: synced_def s')
qed

lemma restore_tenants: "keeps (\<lambda>u. tenants u = tp) s (restore env sn s)"
  unfolding restore_def trustRecord_def
  by (intro keeping keeps_storeR) (auto simp: tenants_def keeps_def updateR_def)

lemma signal_step:
  assumes "signalSourcesChanged env cs s = (Inr A, s')" and s: "synced s" and "numbersDistinct env" "\<forall>c \<in> set cs. jsonChange c"
  shows "synced s' \<and> (\<exists>B. staledIn (pr_tenantId s) B (recordsOf s) (recordsOf s'))"
proof (cases "cs = []")
  case True
  with assms(1) s staledIn_refl show ?thesis by (auto simp: signalSourcesChanged_def)
next
  case False
  from signal_Inr [OF assms(1) synced_index_ok [OF s] assms(3,4) False] show ?thesis
    by (auto simp: signalEffect_def)
qed

lemma registration_step:
  assumes "registration env type payload k stored s = (Inr u, s')" and "synced s" and "tenantOf stored = pr_tenantId s"
  shows "synced s' \<and> evolves (pr_tenantId s) p T (recordsOf s) (recordsOf s')"
proof (cases "eventFor s k = None")
  case True
  with registration_Inr [OF assms(1,2)] have "synced s'" "map_of (recordsOf s) (idOf stored) = None"
    "recordsOf s' = omap_set (idOf stored) (copyRecord stored) (recordsOf s)" by simp_all
  with assms(3) show ?thesis by (auto intro!: evolves_new)
next
  case False
  with registration_Inr [OF assms(1,2)] have "stateCore s' = stateCore s" by simp
  from synced_same [OF assms(2) this] show ?thesis by (simp add: evolves_refl)
qed

lemma register_step:
  assumes "register env r k s = (Inr u, s')" and "synced s"
  shows "synced s' \<and> evolves (pr_tenantId s) p T (recordsOf s) (recordsOf s')"
proof (rule register_Inr [OF assms(1)])
  fix stored
  assume e: "rr_envelope stored = rr_envelope r" and t: "tenantOf r = pr_tenantId s"
    and run: "registration env MemoryRegistered (JObj True [(''envelope'', envelopeValue (rr_envelope r))])
      (nullish k (''register:'' @ idOf r)) stored s = (Inr u, s')"
  from registration_step [OF run assms(2)] e t show ?thesis by (simp add: tenantOf_def)
qed

lemma derive_step:
  assumes "derive env r k s = (Inr u, s')" and "synced s"
  shows "synced s' \<and> evolves (pr_tenantId s) p T (recordsOf s) (recordsOf s')"
proof (rule derive_Inr [OF assms(1)])
  fix stored
  assume e: "rr_envelope stored = rr_envelope r" and t: "tenantOf r = pr_tenantId s"
    and run: "registration env MemoryDerived (JObj True [(''dependsOn'', JArr (map JStr (me_dependsOn (rr_envelope r))))])
      (nullish k (''derive:'' @ idOf r)) stored s = (Inr u, s')"
  from registration_step [OF run assms(2)] e t show ?thesis by (simp add: tenantOf_def)
qed

lemma replace_step:
  assumes "replace env i c e k s = (Inr u, s')" and "synced s"
  shows "synced s' \<and> evolves (pr_tenantId s) (pr_principalTenantId s) {i} (recordsOf s) (recordsOf s')"
proof -
  note R = replace_Inr [OF assms]
  obtain cur where cur: "synced s'" "map_of (recordsOf s) i = Some cur" "tenantOf cur = pr_principalTenantId s"
    using R by (elim conjE exE) simp
  have alt: "stateCore s' = stateCore s \<or> (\<exists>r. tenantOf r = pr_tenantId s \<and> recordsOf s' = omap_set i r (recordsOf s))"
    using R
  proof (elim conjE exE disjE)
    fix c
    assume put: "me_tenantId e = pr_tenantId s" "recordsOf s' = omap_set i (copyRecord \<lparr>rr_envelope = e, rr_content = c\<rparr>) (recordsOf s)"
    have "tenantOf (copyRecord \<lparr>rr_envelope = e, rr_content = c\<rparr>) = pr_tenantId s" by (simp add: tenantOf_def put(1))
    with put(2) show ?thesis by blast
  qed simp
  from alt have "evolves (pr_tenantId s) (pr_principalTenantId s) {i} (recordsOf s) (recordsOf s')"
  proof
    assume "stateCore s' = stateCore s"
    then show ?thesis using stateCoreD(1) evolves_refl by metis
  next
    assume "\<exists>r. tenantOf r = pr_tenantId s \<and> recordsOf s' = omap_set i r (recordsOf s)"
    then show ?thesis using evolves_put [OF cur(2) _ cur(3)] by blast
  qed
  with cur(1) show ?thesis by simp
qed

text \<open>Together: the invariant, and what becomes of the records.\<close>

lemma op_step:
  assumes w: "world_ok tp w" and run: "runOp env x w = (Inr (), w')" and json: "jsonOp x" and num: "numbersDistinct env"
  shows "world_ok tp w' \<and> (\<not> isRestore x \<longrightarrow> evolves (fst tp) (snd tp) (touched x w) (worldRecords w) (worldRecords w'))"
proof -
  let ?s = "wo_runtime w" and ?R = "\<lambda>recs. \<not> isRestore x \<longrightarrow> evolves (fst tp) (snd tp) (touched x w) (worldRecords w) recs"
  have s: "synced ?s" and tp: "pr_tenantId ?s = fst tp" "pr_principalTenantId ?s = snd tp" "tenants ?s = tp"
    using w by (auto simp: world_ok_def tenants_def)
  note rec = tenants_kept(1) [of env tp] and str = tenants_kept(2) [of env tp] and streams = stateCore_streams [of env "stateCore ?s"]
  note idle = recordProof_idle [OF rec]
  have core: "synced s' \<and> ?R (recordsOf s')" if "stateCore s' = stateCore ?s" for s'
    using synced_same [OF s that] by (simp add: evolves_refl)
  have silent: "synced s' \<and> ?R (recordsOf s')"
    if "keeps (\<lambda>u. stateCore u = stateCore ?s) ?s res" "res = (y, s')" for res :: "(exn + 'z) \<times> premise_runtime" and y s'
    by (rule core) (rule keepsD [OF that(1) refl that(2)])
  note establish = inRuntime_ok [where R = ?R and tp = tp]
  have fin: "inflight_ok (snd tp) (pendingAt w n)" "world_ok tp (finishAt n w)" for n
    using pending_ok [OF w] world_ok_finish [OF w] .
  show ?thesis
  proof (cases x)
    case (Register r k)
    show ?thesis
      by (rule establish [OF w run [unfolded Register runOp.simps] register_keeps [OF rec]])
        (use register_step [OF _ s] tp in auto)
  next
    case (Derive r k)
    show ?thesis
      by (rule establish [OF w run [unfolded Derive runOp.simps] derive_keeps [OF rec]])
        (use derive_step [OF _ s] tp in auto)
  next
    case (ReplaceRecord i c e k)
    show ?thesis
      by (rule establish [OF w run [unfolded ReplaceRecord runOp.simps] replace_keeps [OF rec]])
        (use replace_step [OF _ s] tp ReplaceRecord in auto)
  next
    case (StartValidation i)
    show ?thesis
      by (rule establish [OF w run [unfolded StartValidation runOp.simps] revalidateBegin_keeps])
        (use core [OF refl] tp in \<open>auto simp: revalidateBegin_def dest!: require_own\<close>)
  next
    case (StartMany ids)
    show ?thesis
      by (rule establish [OF w run [unfolded StartMany runOp.simps] revalidateManyBegin_keeps [OF idle]])
        (use core tp in \<open>auto dest!: startMany_step\<close>)
  next
    case (FinishValidation n reports k)
    then obtain r where r: "pendingAt w n = InOne r"
      and go: "inRuntime (revalidateFinish env r reports k) (\<lambda>_. []) (finishAt n w) = (Inr (), w')"
      using run by (auto simp: noPending_def split: inflight.splits)
    have "ownCopy (snd tp) r" using fin(1) [of n] r by simp
    then show ?thesis
      by (intro establish [OF fin(2) go revalidateFinish_keeps [OF rec]])
        (use finish_step [OF _ s _ num] revalidated_evolves FinishValidation r in auto)
  next
    case (FinishMany n reports k)
    then obtain ps ids where ps: "pendingAt w n = InMany ps ids"
      and go: "inRuntime (revalidateManyFinish env ps reports ids k) (\<lambda>_. []) (finishAt n w) = (Inr (), w')"
      using run by (auto simp: noPending_def split: inflight.splits)
    have "\<forall>q \<in> set ps. ownCopy (snd tp) (fst (snd q))" using fin(1) [of n] ps by simp
    then show ?thesis
      by (intro establish [OF fin(2) go revalidateManyFinish_keeps [OF rec]])
        (use finishMany_step [OF _ s _ num] revalidated_evolves FinishMany ps in \<open>auto simp: revalidateManyFinish_def bindR_Inr_iff\<close>)
  next
    case (SignalChanges cs)
    have "\<forall>c \<in> set cs. jsonChange c" using json by (simp add: SignalChanges)
    then show ?thesis
      by (intro establish [OF w run [unfolded SignalChanges runOp.simps] signal_keeps [OF rec]])
        (use signal_step [OF _ s num] tp in \<open>auto dest!: staledIn_evolves\<close>)
  next
    case (ApplyEvent e)
    show ?thesis
      by (rule establish [OF w run [unfolded ApplyEvent runOp.simps] applyEvent_append [OF recordProof_append [OF rec]]])
        (use silent [OF applyEvent_append [OF streamProof_append [OF streams]]] in auto)
  next
    case (ApplyStream e)
    show ?thesis
      by (rule establish [OF w run [unfolded ApplyStream runOp.simps] applyStreamEvent_keeps [OF str]])
        (use silent [OF applyStreamEvent_keeps [OF streams]] in auto)
  next
    case (RepairStream p)
    show ?thesis
      by (rule establish [OF w run [unfolded RepairStream runOp.simps] repair_keeps [OF str]])
        (use silent [OF repair_keeps [OF streams]] in auto)
  next
    case (ApplyBurst es caps)
    show ?thesis
      by (rule establish [OF w run [unfolded ApplyBurst runOp.simps] burst_keeps [OF str]])
        (use silent [OF burst_keeps [OF streams]] in auto)
  next
    case TakeSnapshot
    show ?thesis
      by (rule establish [OF w run [unfolded TakeSnapshot runOp.simps] snapshot_keeps [OF idle]])
        (use silent [OF snapshot_keeps [OF idle_stateCore]] in auto)
  next
    case (RestoreSnapshot sn)
    then show ?thesis
      using inRuntime_ok [OF w run [unfolded RestoreSnapshot runOp.simps] restore_tenants, of "\<lambda>_. True"] restore_step by auto
  qed
qed

text \<open>An operation that threw before it wrote a record keeps the invariant.\<close>

lemma inRuntime_Inl:
  "inRuntime m f w = (Inl e, w') \<Longrightarrow> wo_inflight w' = wo_inflight w"
  by (auto simp: inRuntime_def split: prod.splits sum.splits)

lemma op_threw:
  assumes "world_ok tp w" and run: "runOp env x w = (Inl e, w')" and core: "stateCore (wo_runtime w') = stateCore (wo_runtime w)"
  shows "world_ok tp w' \<and> worldRecords w' = worldRecords w"
proof -
  have "set (wo_inflight w') \<subseteq> insert Finished (set (wo_inflight w))"
    using run
    by (cases x) (auto simp: noPending_def finishAt_def dest!: inRuntime_Inl
      dest: set_update_subset_insert [THEN subsetD] split: inflight.splits)
  moreover have "tenants (wo_runtime w') = tenants (wo_runtime w)"
    using indexCoreD(1,2) [OF stateCoreD(3) [OF core]] by (simp add: tenants_def)
  ultimately show ?thesis
    using assms(1) stateCore_synced [OF core] stateCoreD(1) [OF core] by (fastforce simp: world_ok_def)
qed

lemma clean_step:
  assumes "world_ok tp w" and "runOp env x w = (r, w')" and "\<not> isl r \<or> stateCore (wo_runtime w') = stateCore (wo_runtime w)"
    and "jsonOp x" "numbersDistinct env"
  shows "world_ok tp w' \<and> (\<not> isRestore x \<longrightarrow> evolves (fst tp) (snd tp) (touched x w) (worldRecords w) (worldRecords w'))"
proof (cases r)
  case (Inl e)
  with op_threw [OF assms(1) assms(2) [unfolded Inl]] assms(3) show ?thesis by (simp add: evolves_refl)
next
  case (Inr u)
  with op_step [OF assms(1) _ assms(4,5)] assms(2) show ?thesis by simp
qed

lemma runs_ok:
  assumes "runs env w xs u" and "world_ok tp w" and "numbersDistinct env" and "\<forall>x \<in> set xs. jsonOp x"
  shows "world_ok tp u"
  using assms
proof (induction rule: runs.induct)
  case (step xs u x r v)
  with clean_step [of tp u env x r v] show ?case by simp
qed

lemma startWorld_ok:
  assumes "records_ok (st_records st)"
  shows "world_ok (tenants (newPremiseRuntime st t p)) (startWorld st t p)"
proof -
  obtain s where s: "newPremiseRuntime st t p = rebuildIndexes s" "pr_store s = st"
    by (simp add: newPremiseRuntime_def Let_def)
  then have "index_exact (rebuildIndexes s)" "records_ok (recordsOf (rebuildIndexes s))"
    using rebuild_exact assms by simp_all
  moreover have "pr_indexedStoreRevision (rebuildIndexes s) = Some (st_revision (pr_store (rebuildIndexes s)))"
    by (simp add: rebuildIndexes_def) (simp add: syncStoreRevision_def)
  ultimately show ?thesis using s by (simp add: world_ok_def startWorld_def synced_def)
qed

lemma newRuntime_tenants:
  "tenants (newPremiseRuntime st t p) = (nullish t (nullish p ''default''), nullish p (nullish t (nullish p ''default'')))"
  by (simp add: newPremiseRuntime_def Let_def tenants_def)

text \<open>Every reachable runtime has exact indexes and well-kept records.\<close>

lemma reached_ok:
  assumes "numbersDistinct env" and "records_ok (st_records st)" and "runs env (startWorld st t p) xs w" and "\<forall>x \<in> set xs. jsonOp x"
  shows "world_ok (tenants (newPremiseRuntime st t p)) w"
  by (rule runs_ok [OF assms(3) startWorld_ok [OF assms(2)] assms(1,4)])

text \<open>Between two moments without a write to \<open>i\<close> a record can only turn stale.\<close>

fun mayRefresh :: "string \<Rightarrow> runtime_op \<Rightarrow> bool" where
  "mayRefresh i (ReplaceRecord j c e k) = (i = j)"
| "mayRefresh i (FinishValidation n reports k) = True"
| "mayRefresh i (FinishMany n reports k) = True"
| "mayRefresh i (RestoreSnapshot sn) = True"
| "mayRefresh i x = False"

lemma not_refreshed: "\<not> mayRefresh i x \<Longrightarrow> i \<notin> touched x w \<and> \<not> isRestore x"
  by (cases x) auto

lemma quiet_runs:
  assumes "runs env w xs u" and "world_ok tp w" and "numbersDistinct env" and "\<forall>x \<in> set xs. jsonOp x \<and> \<not> mayRefresh i x"
    and "map_of (worldRecords w) i = Some r"
  shows "\<exists>r'. map_of (worldRecords u) i = Some r' \<and> (r' = r \<or> statusOf r' = StatusStale)"
  using assms
proof (induction rule: runs.induct)
  case (step xs u x res v)
  then obtain r1 where r1: "map_of (worldRecords u) i = Some r1" "r1 = r \<or> statusOf r1 = StatusStale" by auto
  have ok: "world_ok tp u" using runs_ok [OF step.hyps(1)] step.prems by simp
  have "i \<notin> touched x u" "evolves (fst tp) (snd tp) (touched x u) (worldRecords u) (worldRecords v)"
    using clean_step [OF ok step.hyps(2,3)] step.prems not_refreshed [of i x] by auto
  with r1 show ?case
    unfolding evolves_def by (auto dest!: spec [of _ i] simp: stalable_def)
qed simp

end
