(* ===== verification/Runtime_Samples.thy ===== *)
theory Runtime_Samples
  imports Runtime_World
begin

text \<open>
  A concrete environment, whose number text tells all numbers apart, and a runtime with a record
  and one that depends on it, on which the properties of the runtime are run.
\<close>

section \<open>A number text that tells all numbers apart\<close>

definition signText :: "int \<Rightarrow> string" where
  "signText n = (if n < 0 then ''-'' else ''+'') @ replicate (nat \<bar>n\<bar>) (CHR ''1'') @ ''e''"

definition fractionText :: "rat \<Rightarrow> string" where
  "fractionText q = (case quotient_of q of (a, b) \<Rightarrow> signText a @ signText b)"

lemma replicate_marker: "replicate m c @ d # x = replicate n c @ d # y \<Longrightarrow> c \<noteq> d \<Longrightarrow> m = n \<and> x = y"
proof (induction m arbitrary: n)
  case 0
  then show ?case by (cases n) auto
next
  case (Suc m)
  then show ?case by (cases n) auto
qed

lemma signText_prefix: "signText a @ x = signText b @ y \<Longrightarrow> a = b \<and> x = y"
  by (auto simp: signText_def dest!: replicate_marker split: if_splits)

lemma fractionText_inject: "fractionText p = fractionText q \<Longrightarrow> p = q"
proof -
  assume eq: "fractionText p = fractionText q"
  obtain a b c d where q: "quotient_of p = (a, b)" "quotient_of q = (c, d)" by (metis surj_pair)
  have "a = c \<and> signText b @ [] = signText d @ []"
    using eq signText_prefix [of a "signText b" c "signText d"] by (simp add: fractionText_def q)
  then have "a = c \<and> b = d" using signText_prefix [of b "[]" d "[]"] by blast
  with q show ?thesis by (intro quotient_of_inject) simp
qed

definition plainEnv :: runtime_env where
  "plainEnv = \<lparr>en_dp = sampleDates, en_fmt = fractionText, en_sha = (\<lambda>t. ''0''), en_clock = (\<lambda>n. ''2026-01-01T00:00:00Z''),
     en_uuid = (\<lambda>n. replicate (Suc n) (CHR ''i''))\<rparr>"

lemma plainEnv_numbers: "numbersDistinct plainEnv"
proof -
  have "set (signText n) \<subseteq> set ''0123456789+-.e''" for n by (auto simp: signText_def)
  then have "set (fractionText q) \<subseteq> set ''0123456789+-.e''" for q
    by (simp add: fractionText_def case_prod_unfold)
  moreover have "fractionText q \<noteq> []" for q by (simp add: fractionText_def signText_def case_prod_unfold)
  moreover have "inj_on (stringifyNumber fractionText) jsonNumbers"
    by (rule inj_onI) (auto simp: jsonNumbers_def stringifyNumber_def dest: fractionText_inject)
  ultimately show ?thesis
    by (auto simp: numbersDistinct_def numberText_def plainEnv_def jsonNumbers_def stringifyNumber_def)
qed

section \<open>Records and runs\<close>

definition sampleNow :: string where "sampleNow = ''2026-01-01T00:00:00Z''"

definition sampleVersion :: "string \<Rightarrow> version_reference" where
  "sampleVersion tok = \<lparr>vr_scheme = ''v'', vr_token = tok\<rparr>"

definition sampleEvidence :: "string \<Rightarrow> string \<Rightarrow> evidence_reference" where
  "sampleEvidence uri tok = \<lparr>ev_evidenceId = uri, ev_sourceUri = uri, ev_observedAt = sampleNow,
     ev_version = Some (sampleVersion tok), ev_validator = Some \<lparr>va_id = ''x'', va_operation = ''y''\<rparr>,
     ev_validFrom = None, ev_validUntil = None, ev_confidence = None, ev_kind = None\<rparr>"

definition sampleMemory :: "string \<Rightarrow> string \<Rightarrow> evidence_reference list \<Rightarrow> string list \<Rightarrow> memory_status \<Rightarrow> runtime_record" where
  "sampleMemory t i evs deps status = \<lparr>rr_envelope = \<lparr>me_tenantId = t, me_memoryId = i, me_contentDigest = None,
      me_evidence = evs, me_confidence = JObj True [(''score'', JNull), (''method'', JStr ''m'')],
      me_conflicts = JArr [], me_temporal = JObj True [(''asOf'', JStr sampleNow)],
      me_validity = \<lparr>vy_status = status, vy_checkedAt = sampleNow, vy_policy = ''VERSIONED'', vy_expiresAt = None\<rparr>,
      me_dependsOn = deps, me_signatures = JArr []\<rparr>, rr_content = JStr ''c''\<rparr>"

definition factA :: runtime_record where
  "factA = sampleMemory ''t'' ''a'' [sampleEvidence ''u'' ''1''] [] StatusFresh"

definition factB :: runtime_record where
  "factB = sampleMemory ''t'' ''b'' [] [''a''] StatusFresh"

text \<open>A store that holds the fact, what depends on it, and a fact of another tenant.\<close>

definition factC :: runtime_record where
  "factC = sampleMemory ''x'' ''c'' [sampleEvidence ''u'' ''1''] [] StatusFresh"

definition factStore :: runtime_store where
  "factStore = \<lparr>st_records = [(''a'', factA), (''b'', factB), (''c'', factC)], st_events = [], st_idempotency = [], st_revision = 3\<rparr>"

definition factWorld :: runtime_world where
  "factWorld = startWorld factStore (Some ''t'') None"

lemma factStore_ok: "records_ok (st_records factStore)"
  by code_simp

definition changeU :: "string \<Rightarrow> source_change" where
  "changeU tok = \<lparr>sc_sourceUri = ''u'', sc_version = sampleVersion tok, sc_eventId = None, sc_observation = None\<rparr>"

lemma changeU_json: "jsonChange (changeU tok)"
  by (simp add: jsonChange_def changeU_def sourceChangeValue_def versionValue_def textField_def)

lemma changeU_source [simp]: "sc_sourceUri (changeU tok) = ''u''"
  by (simp add: changeU_def)

definition run1 :: "runtime_op list \<Rightarrow> runtime_world \<Rightarrow> runtime_world" where
  "run1 xs w = fold (\<lambda>x w. snd (runOp plainEnv x w)) xs w"

fun returns :: "runtime_op list \<Rightarrow> runtime_world \<Rightarrow> bool" where
  "returns [] w = True"
| "returns (x # xs) w = (\<not> isl (fst (runOp plainEnv x w)) \<and> returns xs (snd (runOp plainEnv x w)))"

lemma runs_append:
  assumes "runs env w xs u" and "runs env u ys v"
  shows "runs env w (xs @ ys) v"
  using assms(2,1)
proof (induction rule: runs.induct)
  case (step zs u' x r v)
  then have "runs env w (xs @ zs) u'" by simp
  from runs.step [OF this step.hyps(2,3)] show ?case by simp
qed simp

lemma runs_run1: "returns xs w \<Longrightarrow> runs plainEnv w xs (run1 xs w)"
proof (induction xs arbitrary: w)
  case (Cons x xs)
  then have ok: "\<not> isl (fst (runOp plainEnv x w))" by simp
  have one: "runs plainEnv w ([] @ [x]) (snd (runOp plainEnv x w))"
    by (rule runs.step [OF runs.none, of _ _ _ "fst (runOp plainEnv x w)"]) (use ok in simp_all)
  from Cons runs_append [OF one] show ?case by (simp add: run1_def)
qed (simp add: run1_def runs.none)

lemma factWorld_runs: "runs plainEnv (startWorld factStore (Some ''t'') None) [] factWorld"
  by (simp add: factWorld_def runs.none)

lemma factWorld_records: "worldRecords factWorld = [(''a'', factA), (''b'', factB), (''c'', factC)]"
  by code_simp

lemma fact_fields:
  "idOf factA = ''a'' \<and> idOf factB = ''b'' \<and> idOf factC = ''c''"
  "tenantOf factA = ''t'' \<and> tenantOf factB = ''t'' \<and> tenantOf factC = ''x''"
  "statusOf factA = StatusFresh \<and> statusOf factB = StatusFresh \<and> statusOf factC = StatusFresh"
  "pr_tenantId (wo_runtime factWorld) = ''t'' \<and> pr_principalTenantId (wo_runtime factWorld) = ''t''"
  by code_simp+

section \<open>A signal and a validation\<close>

definition signalledRuntime :: premise_runtime where
  "signalledRuntime = snd (signalSourcesChanged plainEnv [changeU ''2''] (wo_runtime factWorld))"

lemma signalled_answer: "fst (signalSourcesChanged plainEnv [changeU ''2''] (wo_runtime factWorld)) = Inr [''a'', ''b'']"
  by code_simp

lemma signalled_eq: "signalSourcesChanged plainEnv [changeU ''2''] (wo_runtime factWorld) = (Inr [''a'', ''b''], signalledRuntime)"
  by (simp add: signalledRuntime_def signalled_answer prod_eq_iff)

definition signalledWorld :: runtime_world where
  "signalledWorld = factWorld\<lparr>wo_runtime := signalledRuntime\<rparr>"

lemma signalledWorld_eq: "runOp plainEnv (SignalChanges [changeU ''2'']) factWorld = (Inr (), signalledWorld)"
  by (simp add: inRuntime_def signalled_eq signalledWorld_def)

definition startedWorld :: runtime_world where
  "startedWorld = factWorld\<lparr>wo_inflight := [InOne factA]\<rparr>"

lemma startedWorld_eq: "runOp plainEnv (StartValidation ''a'') factWorld = (Inr (), startedWorld)"
  by code_simp

lemma startedWorld_runs: "runs plainEnv (startWorld factStore (Some ''t'') None) [StartValidation ''a''] startedWorld"
  using runs_run1 [of "[StartValidation ''a'']" factWorld]
  by (simp add: run1_def startedWorld_eq del: runOp.simps) (simp add: factWorld_def)

lemma startedSignal_eq:
  "runOp plainEnv (SignalChanges [changeU ''2'']) startedWorld = (Inr (), startedWorld\<lparr>wo_runtime := signalledRuntime\<rparr>)"
  by (simp add: inRuntime_def startedWorld_def signalled_eq)

definition unchangedReport :: validation_report where
  "unchangedReport = \<lparr>rp_memoryId = ''a'', rp_result = UNCHANGED, rp_status = StatusFresh, rp_checkedAt = sampleNow,
     rp_sourceUri = Some ''u'', rp_version = Some (sampleVersion ''1''), rp_evidenceId = None, rp_reason = None\<rparr>"

lemma finished_returns: "\<not> isl (fst (runOp plainEnv (FinishValidation 0 [unchangedReport] None) startedWorld))"
  by code_simp

end
