(* ===== verification/Runtime_Checks.thy ===== *)
theory Runtime_Checks
  imports Runtime_Samples
begin

text \<open>
  The promises of \<open>PremiseRuntime\<close> to its callers, first part: reads decide by tenant and status,
  a signalled change leaves nothing usable that rests on the source, a validation replaces only
  the record it read, an action goes ahead only at the expected version.
\<close>

section \<open>Reading\<close>

lemma usability_simps [simp]:
  "usability st = USABLE_NOW \<longleftrightarrow> st = StatusFresh" "usability st = REJECT \<longleftrightarrow> st = StatusInvalid"
  by (auto simp: usability_def)

lemma fold_puts:
  "map_of (fold (\<lambda>r. omap_set (f r) r) rs m) i =
     (case find (\<lambda>r. f r = i) (rev rs) of None \<Rightarrow> map_of m i | Some q \<Rightarrow> Some q)"
  by (induction rs rule: rev_induct) auto

lemma find_only:
  assumes "\<forall>r \<in> set rs. P r \<longrightarrow> r = q" and "q \<in> set rs" and "P q"
  shows "find P (rev rs) = Some q"
proof (cases "find P (rev rs)")
  case None
  with assms show ?thesis by (auto simp: find_None_iff)
next
  case (Some r)
  then have "P r" "r \<in> set rs" by (auto simp: find_Some_iff) (metis length_rev nth_mem set_rev)
  with assms Some show ?thesis by blast
qed

lemma readMany_spec:
  assumes ok: "records_ok (st_records st)"
  shows "map_of (readMany st ids) i = (if i \<in> set ids then map_of (st_records st) i else None)"
proof -
  let ?key = "\<lambda>r. me_memoryId (rr_envelope r)"
  let ?rs = "filter (\<lambda>r. ?key r \<in> set (unique ids)) (storeGetMany st (unique ids))"
  have get: "storeGet st j = map_of (st_records st) j" for j
    using records_okD [OF ok] by (cases "map_of (st_records st) j") (auto simp: storeGet_def)
  have rs: "r \<in> set ?rs \<longleftrightarrow> (\<exists>j \<in> set ids. map_of (st_records st) j = Some r)" for r
    using records_okD [OF ok] by (auto simp: storeGetMany_def get split: option.splits) metis
  have "readMany st ids = (if unique ids = [] then [] else fold (\<lambda>r. omap_set (?key r) r) ?rs [])"
    by (simp add: readMany_def Let_def)
  also have "\<dots> = fold (\<lambda>r. omap_set (?key r) r) ?rs []" by (cases "unique ids") (simp_all add: storeGetMany_def)
  finally have read: "map_of (readMany st ids) i = find (\<lambda>r. ?key r = i) (rev ?rs)"
    by (simp only: fold_puts) (simp split: option.splits)
  show ?thesis
  proof (cases "i \<in> set ids \<and> (\<exists>q. map_of (st_records st) i = Some q)")
    case True
    then obtain q where q: "map_of (st_records st) i = Some q" by blast
    have "find (\<lambda>r. ?key r = i) (rev ?rs) = Some q"
      by (rule find_only) (use rs True q records_okD [OF ok] in force)+
    with True q show ?thesis unfolding read by simp
  next
    case False
    have "find (\<lambda>r. ?key r = i) (rev ?rs) = None"
      unfolding find_None_iff set_rev using rs False records_okD [OF ok] by metis
    with False show ?thesis unfolding read by auto
  qed
qed

definition checkAnswer :: "records \<Rightarrow> string \<Rightarrow> string \<Rightarrow> runtime_check_item" where
  "checkAnswer recs t i =
     (case map_of recs i of
        Some r \<Rightarrow> if tenantOf r = t
          then \<lparr>ci_memoryId = i, ci_status = statusOf r, ci_decision = usability (statusOf r), ci_reason = None\<rparr>
          else \<lparr>ci_memoryId = i, ci_status = StatusInvalid, ci_decision = REJECT, ci_reason = Some ''missing or inaccessible memory''\<rparr>
      | None \<Rightarrow> \<lparr>ci_memoryId = i, ci_status = StatusInvalid, ci_decision = REJECT, ci_reason = Some ''missing or inaccessible memory''\<rparr>)"

lemma map_of_tabulate: "map_of (map (\<lambda>i. (i, f i)) xs) i = (if i \<in> set xs then Some (f i) else None)"
  by (induction xs) auto

lemma check_answers:
  assumes "records_ok (recordsOf s)"
  shows "check s ids t = map (checkAnswer (recordsOf s) t) ids"
proof -
  have "checkItem (readMany (pr_store s) ids) t i = checkAnswer (recordsOf s) t i" if "i \<in> set ids" for i
    using readMany_spec [OF assms, of ids i] that
    by (auto simp: checkItem_def checkAnswer_def tenantOf_def statusOf_def Let_def split: option.splits)
  then show ?thesis by (simp add: check_def checkMany_def Let_def map_of_tabulate)
qed

lemma retrieve_answers:
  assumes "records_ok (recordsOf s)"
  shows "rt_record ` set (retrieve s ids t) =
    {r. \<exists>i \<in> set ids. map_of (recordsOf s) i = Some r \<and> tenantOf r = t \<and> statusOf r \<noteq> StatusInvalid}"
proof -
  let ?item = "\<lambda>i. case map_of (readMany (pr_store s) ids) i of None \<Rightarrow> [] | Some r \<Rightarrow>
    (let status = vy_status (me_validity (rr_envelope r)) in
     if me_tenantId (rr_envelope r) \<noteq> t then [] else if usability status = REJECT then []
     else [\<lparr>rt_record = r, rt_status = status, rt_decision = usability status\<rparr>])"
  have item: "rt_record ` set (?item i) = {r. map_of (recordsOf s) i = Some r \<and> tenantOf r = t \<and> statusOf r \<noteq> StatusInvalid}"
    if "i \<in> set ids" for i
    using that by (cases "map_of (recordsOf s) i")
      (auto simp: readMany_spec [OF assms] Let_def tenantOf_def statusOf_def usability_simps)
  have "retrieve s ids t = concat (map ?item (unique ids))" by (simp add: retrieve_def)
  then have "rt_record ` set (retrieve s ids t) = (\<Union>i \<in> set ids. rt_record ` set (?item i))" by (simp add: image_UN)
  also have "\<dots> = (\<Union>i \<in> set ids. {r. map_of (recordsOf s) i = Some r \<and> tenantOf r = t \<and> statusOf r \<noteq> StatusInvalid})"
    using item by (intro SUP_cong refl)
  finally show ?thesis by auto
qed

lemma synced_records: "world_ok tp w \<Longrightarrow> records_ok (worldRecords w)"
  by (simp add: world_ok_def synced_def)

text \<open>
  C5: Reads fail closed: in every reachable runtime, a batch check answers each identifier asked
  for, in the order asked, and answers USABLE exactly for the stored records of the caller's
  tenant that are FRESH; an identifier that is missing or belongs to another tenant is answered
  as the missing one is, so other tenants' records cannot be told from missing ones. Retrieval
  returns exactly the records of the caller's tenant that are not INVALID, as they are stored.
\<close>

theorem reads_fail_closed:
  assumes "numbersDistinct env" and "records_ok (st_records st)" and "runs env (startWorld st t0 p0) xs w" and "\<forall>x \<in> set xs. jsonOp x"
  shows "map ci_memoryId (check (wo_runtime w) ids t) = ids \<and>
    (\<forall>c \<in> set (check (wo_runtime w) ids t).
       (ci_decision c = USABLE_NOW \<longleftrightarrow>
         (\<exists>r. map_of (worldRecords w) (ci_memoryId c) = Some r \<and> tenantOf r = t \<and> statusOf r = StatusFresh)) \<and>
       ((\<forall>r. map_of (worldRecords w) (ci_memoryId c) = Some r \<longrightarrow> tenantOf r \<noteq> t) \<longrightarrow>
         c = \<lparr>ci_memoryId = ci_memoryId c, ci_status = StatusInvalid, ci_decision = REJECT,
              ci_reason = Some ''missing or inaccessible memory''\<rparr>)) \<and>
    rt_record ` set (retrieve (wo_runtime w) ids t) =
      {r. \<exists>i \<in> set ids. map_of (worldRecords w) i = Some r \<and> tenantOf r = t \<and> statusOf r \<noteq> StatusInvalid}"
proof -
  have ok: "records_ok (worldRecords w)" by (rule synced_records [OF reached_ok [OF assms]])
  have "ci_memoryId (checkAnswer recs t i) = i" for recs i
    by (simp add: checkAnswer_def split: option.splits)
  moreover from this have "ci_decision (checkAnswer (worldRecords w) t i) = USABLE_NOW \<longleftrightarrow>
      (\<exists>r. map_of (worldRecords w) i = Some r \<and> tenantOf r = t \<and> statusOf r = StatusFresh)" for i
    by (auto simp: checkAnswer_def split: option.splits)
  ultimately show ?thesis
    by (auto simp: check_answers [OF ok] retrieve_answers [OF ok] comp_def) (auto simp: checkAnswer_def split: option.splits)
qed

theorem reads_fail_closed_witness:
  "map ci_memoryId (check (wo_runtime factWorld) [''c'', ''a''] ''t'') = [''c'', ''a''] \<and>
   rt_record ` set (retrieve (wo_runtime factWorld) [''c'', ''a''] ''t'') = {factA}"
  using reads_fail_closed [OF plainEnv_numbers factStore_ok factWorld_runs, of "[''c'', ''a'']" "''t''"]
  by (auto simp: factWorld_records fact_fields)

section \<open>Signals\<close>








section \<open>Validations\<close>













end
