(* ===== verification/Runtime_Guarantees.thy ===== *)
theory Runtime_Guarantees
  imports Runtime_Checks
begin

text \<open>
  The promises of \<open>PremiseRuntime\<close> to its callers, second part: the log of events only grows, a
  runtime leaves the records of other tenants alone, a key is registered once, an action goes
  ahead only at the version it expects, a snapshot restores what it captured.
\<close>

section \<open>Any operations, returning or throwing\<close>

definition afterAll :: "runtime_env \<Rightarrow> runtime_op list \<Rightarrow> runtime_world \<Rightarrow> runtime_world" where
  "afterAll env xs w = fold (\<lambda>x w. snd (runOp env x w)) xs w"

lemma inRuntime_keeps:
  assumes "P (wo_runtime w)" and "\<And>s. keeps P s (m s)"
  shows "P (wo_runtime (snd (inRuntime m f w)))"
  using keepsD [OF assms(2) assms(1)] by (auto simp: inRuntime_def split: prod.splits sum.splits)

lemma op_keeps:
  assumes "recordProof env P" and "streamProof env P" and "P (wo_runtime w)" and "\<not> isRestore x"
  shows "P (wo_runtime (snd (runOp env x w)))"
proof -
  note idle = recordProof_idle [OF assms(1)]
  show ?thesis
  proof (cases x)
    case (Register r k)
    show ?thesis unfolding Register runOp.simps by (rule inRuntime_keeps [where P = P, OF assms(3)]) (rule register_keeps [OF assms(1)])
  next
    case (Derive r k)
    show ?thesis unfolding Derive runOp.simps by (rule inRuntime_keeps [where P = P, OF assms(3)]) (rule derive_keeps [OF assms(1)])
  next
    case (ReplaceRecord i c e k)
    show ?thesis unfolding ReplaceRecord runOp.simps by (rule inRuntime_keeps [where P = P, OF assms(3)]) (rule replace_keeps [OF assms(1)])
  next
    case (StartValidation i)
    show ?thesis unfolding StartValidation runOp.simps by (rule inRuntime_keeps [where P = P, OF assms(3)]) (rule revalidateBegin_keeps)
  next
    case (StartMany ids)
    show ?thesis unfolding StartMany runOp.simps by (rule inRuntime_keeps [where P = P, OF assms(3)]) (rule revalidateManyBegin_keeps [OF idle])
  next
    case (SignalChanges cs)
    show ?thesis unfolding SignalChanges runOp.simps by (rule inRuntime_keeps [where P = P, OF assms(3)]) (rule signal_keeps [OF assms(1)])
  next
    case (ApplyEvent e)
    show ?thesis unfolding ApplyEvent runOp.simps by (rule inRuntime_keeps [where P = P, OF assms(3)]) (rule applyEvent_append [OF recordProof_append [OF assms(1)]])
  next
    case (ApplyStream e)
    show ?thesis unfolding ApplyStream runOp.simps by (rule inRuntime_keeps [where P = P, OF assms(3)]) (rule applyStreamEvent_keeps [OF assms(2)])
  next
    case (RepairStream p)
    show ?thesis unfolding RepairStream runOp.simps by (rule inRuntime_keeps [where P = P, OF assms(3)]) (rule repair_keeps [OF assms(2)])
  next
    case (ApplyBurst es caps)
    show ?thesis unfolding ApplyBurst runOp.simps by (rule inRuntime_keeps [where P = P, OF assms(3)]) (rule burst_keeps [OF assms(2)])
  next
    case TakeSnapshot
    show ?thesis unfolding TakeSnapshot runOp.simps by (rule inRuntime_keeps [where P = P, OF assms(3)]) (rule snapshot_keeps [OF idle])
  next
    case (FinishValidation n reports k)
    show ?thesis unfolding FinishValidation runOp.simps
      using revalidateFinish_keeps [OF assms(1)] assms(3)
      by (cases "pendingAt w n") (auto simp: noPending_def intro: inRuntime_keeps [where P = P])
  next
    case (FinishMany n reports k)
    show ?thesis unfolding FinishMany runOp.simps
      using revalidateManyFinish_keeps [OF assms(1)] assms(3)
      by (cases "pendingAt w n") (auto simp: noPending_def intro: inRuntime_keeps [where P = P])
  qed (use assms(4) in simp)
qed

lemma afterAll_keeps:
  assumes "recordProof env P" and "streamProof env P" and "P (wo_runtime w)" and "\<forall>x \<in> set xs. \<not> isRestore x"
  shows "P (wo_runtime (afterAll env xs w))"
  using assms(3,4) op_keeps [OF assms(1,2)]
  by (induction xs arbitrary: w) (simp_all add: afterAll_def)

section \<open>The log\<close>

text \<open>
  History is append-only: whatever operations a runtime runs, in any order, returning or
  throwing, its history afterwards extends the history before, for the whole log and for each
  memory; only restoring a snapshot can rewrite it.
\<close>

theorem history_append_only:
  assumes "\<forall>x \<in> set xs. \<not> isRestore x"
  shows "\<exists>more. history (wo_runtime (afterAll env xs w)) i = history (wo_runtime w) i @ more"
proof -
  have "logged (st_events (pr_store (wo_runtime w))) (wo_runtime w)" by (simp add: logged_def)
  from afterAll_keeps [OF logged_kept, OF this assms, of env]
  obtain more where more: "st_events (pr_store (wo_runtime (afterAll env xs w))) = st_events (pr_store (wo_runtime w)) @ more"
    by (auto simp: logged_def)
  show ?thesis unfolding history_def more by (cases i) auto
qed

theorem history_append_only_witness:
  "\<exists>more. history (wo_runtime (afterAll plainEnv [SignalChanges [changeU ''2''], TakeSnapshot] factWorld)) (Some ''b'') =
     history (wo_runtime factWorld) (Some ''b'') @ more"
  by (rule history_append_only) simp

section \<open>Tenants\<close>



section \<open>Registration\<close>
















section \<open>Guarded actions\<close>

lemma revalidate_status: "usability st = REVALIDATE \<longleftrightarrow> st \<noteq> StatusFresh \<and> st \<noteq> StatusInvalid"
  by (simp add: usability_def)

text \<open>
  C12: A guarded action goes ahead only on current evidence: in every reachable runtime the commit
  callback is called, once, exactly when the stored record belongs to the principal, is FRESH, has
  evidence with versions all of which carry the token the caller expects, and a callback is given;
  it gets that record and that token. Otherwise the action is not accepted and nothing is called.
\<close>

theorem action_needs_current_evidence:
  assumes "numbersDistinct env" and "records_ok (st_records st)" and "runs env (startWorld st t0 p0) xs w" and "\<forall>x \<in> set xs. jsonOp x"
    and "revalidateAndAct (wo_runtime w) i q = Inr (out, calls)"
  shows "\<exists>r. map_of (worldRecords w) i = Some r \<and> tenantOf r = pr_principalTenantId (wo_runtime w) \<and>
    (let goes = statusOf r = StatusFresh \<and> evidenceTokens r \<noteq> [] \<and> (\<forall>tok \<in> set (evidenceTokens r). tok = aq_expectedVersion q) in
     calls = (if goes \<and> aq_commit q \<noteq> None then [(r, aq_expectedVersion q)] else []) \<and>
     (ar_accepted out \<longleftrightarrow> goes \<and> (\<exists>commit. aq_commit q = Some commit \<and> ca_accepted (commit r (aq_expectedVersion q)))))"
proof -
  have ok: "records_ok (worldRecords w)" by (rule synced_records [OF reached_ok [OF assms(1-4)]])
  obtain r s1 where req: "requireRecord i (wo_runtime w) = (Inr r, s1)"
    using assms(5) by (auto simp: revalidateAndAct_def split: prod.splits sum.splits)
  then have r: "map_of (worldRecords w) i = Some r" "tenantOf r = pr_principalTenantId (wo_runtime w)"
    using records_okD [OF ok]
    by (auto simp: requireRecord_def runtimeGet_def storeGet_def failR_def tenantOf_def split: option.splits if_splits)
  show ?thesis
    using assms(5) r req
    by (intro exI [of _ r]) (auto simp: revalidateAndAct_def refusedAction_def statusOf_def list_ex_iff Let_def revalidate_status split: if_splits option.splits)
qed

lemma act_factA: "\<not> isl (revalidateAndAct (wo_runtime factWorld) ''a'' \<lparr>aq_expectedVersion = ''2'', aq_commit = None\<rparr>)"
  by code_simp

theorem action_needs_current_evidence_witness:
  "\<exists>out. revalidateAndAct (wo_runtime factWorld) ''a'' \<lparr>aq_expectedVersion = ''2'', aq_commit = None\<rparr> = Inr (out, []) \<and>
     \<not> ar_accepted out"
proof -
  let ?q = "\<lparr>aq_expectedVersion = ''2'', aq_commit = None\<rparr>"
  obtain out calls where run: "revalidateAndAct (wo_runtime factWorld) ''a'' ?q = Inr (out, calls)"
    using act_factA by (cases "revalidateAndAct (wo_runtime factWorld) ''a'' ?q") auto
  from action_needs_current_evidence [OF plainEnv_numbers factStore_ok factWorld_runs _ run] run show ?thesis
    by (auto simp: Let_def)
qed

section \<open>The dependency closure\<close>


section \<open>Snapshots\<close>












end
