(* ===== verification/Frontier_Graph.thy ===== *)
theory Frontier_Graph
  imports Runtime_Index
begin

text \<open>
  The graph walks of \<open>frontier-engine.ts\<close> that work on a fixed graph: the two checks for cycles, with
  their explicit stacks, and the closure of dependents. A check that returns has found no cycle.
\<close>

section \<open>Graphs as maps of sets\<close>

abbreviation edgesAt :: "(string, string list) omap \<Rightarrow> string \<Rightarrow> string list" where
  "edgesAt g i \<equiv> nullish (map_of g i) []"

definition targets :: "(string, string list) omap \<Rightarrow> string set" where
  "targets g = (\<Union>p \<in> set g. set (snd p))"

lemma finite_targets [simp]: "finite (targets g)"
  by (simp add: targets_def)

lemma edgesAt_targets: "set (edgesAt g i) \<subseteq> targets g"
proof (cases "map_of g i")
  case (Some vs)
  then have "(i, vs) \<in> set g" by (rule map_of_SomeD)
  with Some show ?thesis by (force simp: targets_def)
qed simp

definition graphOf :: "(string, string list) omap \<Rightarrow> (string \<times> string) set" where
  "graphOf g = {(i, j). j \<in> set (edgesAt g i)}"

lemma graphOf_iff [simp]: "(i, j) \<in> graphOf g \<longleftrightarrow> j \<in> set (edgesAt g i)"
  by (simp add: graphOf_def)

definition cycleAt :: "string \<Rightarrow> exn" where
  "cycleAt i = Failure (''Dependency cycle at '' @ i)"

section \<open>The check from one node\<close>

text \<open>
  A frame \<open>(i, True)\<close> is met on the way out of \<open>i\<close>. The top of the stack is the head of the list, so
  the loop that pushes the reversed dependencies puts the first one on top.
\<close>

fun pushDependencies ::
  "string list \<Rightarrow> string list \<Rightarrow> string list \<Rightarrow> (string \<times> bool) list \<Rightarrow> exn + (string \<times> bool) list" where
  "pushDependencies visiting visited [] stack = Inr stack"
| "pushDependencies visiting visited (d # ds) stack =
     (if d \<in> set visiting then Inl (cycleAt d)
      else if d \<notin> set visited then pushDependencies visiting visited ds ((d, False) # stack)
      else pushDependencies visiting visited ds stack)"

lemma pushDependencies_Inr:
  "pushDependencies visiting visited ds stack = Inr stack' \<Longrightarrow>
     set ds \<inter> set visiting = {} \<and>
     (\<exists>new. stack' = map (\<lambda>d. (d, False)) new @ stack \<and> set new = set ds - set visited)"
proof (induction ds arbitrary: stack)
  case (Cons d ds)
  show ?case
  proof (cases "d \<in> set visited")
    case True
    with Cons show ?thesis by (auto split: if_splits)
  next
    case False
    with Cons.prems have "pushDependencies visiting visited ds ((d, False) # stack) = Inr stack'" "d \<notin> set visiting"
      by (auto split: if_splits)
    with Cons.IH [OF this(1)] False obtain new where
      "stack' = map (\<lambda>d. (d, False)) (new @ [d]) @ stack" "set new = set ds - set visited" "set ds \<inter> set visiting = {}" by auto
    with False \<open>d \<notin> set visiting\<close> show ?thesis by (intro conjI exI [of _ "new @ [d]"]) auto
  qed
qed simp

function visitAcyclic ::
  "(string, string list) omap \<Rightarrow> string list \<Rightarrow> string list \<Rightarrow> (string \<times> bool) list \<Rightarrow> exn + unit" where
  "visitAcyclic g visiting visited [] = Inr ()"
| "visitAcyclic g visiting visited ((i, True) # stack) = visitAcyclic g (removeAll i visiting) (i # visited) stack"
| "visitAcyclic g visiting visited ((i, False) # stack) =
     (if i \<in> set visited then visitAcyclic g visiting visited stack
      else if i \<in> set visiting then Inl (cycleAt i)
      else case pushDependencies (i # visiting) visited (rev (edgesAt g i)) ((i, True) # stack) of
          Inl e \<Rightarrow> Inl e
        | Inr stack' \<Rightarrow> visitAcyclic g (i # visiting) visited stack')"
  by pat_completeness auto
termination
proof (relation "measures [\<lambda>(g, visiting, visited, stack). card ((targets g \<union> fst ` set stack) - set visiting - set visited),
    \<lambda>(g, visiting, visited, stack). length stack]", goal_cases)
  case (2 g visiting visited i stack)
  have "card (targets g \<union> fst ` set stack - set (removeAll i visiting) - set (i # visited))
      \<le> card (targets g \<union> fst ` set ((i, True) # stack) - set visiting - set visited)"
    by (rule card_mono) auto
  then show ?case by auto
next
  case (3 g visiting visited i stack)
  have "card (targets g \<union> fst ` set stack - set visiting - set visited)
      \<le> card (targets g \<union> fst ` set ((i, False) # stack) - set visiting - set visited)"
    by (rule card_mono) auto
  then show ?case by auto
next
  case (4 g visiting visited i stack stack')
  obtain new where new: "stack' = map (\<lambda>d. (d, False)) new @ (i, True) # stack" "set new \<subseteq> set (edgesAt g i)"
    using pushDependencies_Inr [OF 4(3)] by auto
  have "card (targets g \<union> fst ` set stack' - set (i # visiting) - set visited)
      < card (targets g \<union> fst ` set ((i, False) # stack) - set visiting - set visited)"
    using 4(1,2) new edgesAt_targets [of g i] by (intro psubset_card_mono) (auto simp: image_iff)
  then show ?case by simp
qed simp

definition assertAcyclic :: "(string, string list) omap \<Rightarrow> string \<Rightarrow> exn + unit" where
  "assertAcyclic g start = visitAcyclic g [] [] [(start, False)]"
text \<open>A set of nodes that is closed under the edges and has no cycle.\<close>

definition settledAt :: "(string, string list) omap \<Rightarrow> string set \<Rightarrow> bool" where
  "settledAt g V = ((\<forall>i \<in> V. set (edgesAt g i) \<subseteq> V) \<and> acyclic (Restr (graphOf g) V))"

lemma settledAt_empty [simp]: "settledAt g {}"
  by (simp add: settledAt_def acyclic_def)

lemma settledAt_insert:
  assumes "settledAt g V" and "i \<notin> V" and "set (edgesAt g i) \<subseteq> V"
  shows "settledAt g (insert i V)"
proof -
  let ?R = "Restr (graphOf g) V"
  have edges: "Restr (graphOf g) (insert i V) = ?R \<union> {(i, j) | j. j \<in> set (edgesAt g i)}"
    using assms by (fastforce simp: settledAt_def)
  have in_V: "(a, b) \<in> ?R\<^sup>+ \<and> a \<noteq> i \<or> a = i \<and> b \<in> V" if "(a, b) \<in> (Restr (graphOf g) (insert i V))\<^sup>+" for a b
    using that
  proof (induction rule: trancl_induct)
    case (base b)
    then have "(a, b) \<in> ?R \<or> a = i \<and> b \<in> set (edgesAt g i)" unfolding edges by blast
    with assms show ?case by blast
  next
    case (step b c)
    have b: "b \<in> V" using step.IH trancl_mono [of "(a, b)" ?R "V \<times> V"] trancl_subset_Sigma [of ?R V] by blast
    then have "b \<noteq> i" using assms(2) by blast
    then have "(b, c) \<in> ?R" using step.hyps(2) unfolding edges by blast
    with step.IH show ?case by (auto intro: trancl_into_trancl)
  qed
  have "acyclic (Restr (graphOf g) (insert i V))"
    using in_V assms(1,2) unfolding settledAt_def acyclic_def by blast
  with assms show ?thesis by (auto simp: settledAt_def)
qed

definition walk_inv :: "(string, string list) omap \<Rightarrow> string list \<Rightarrow> string list \<Rightarrow> (string \<times> bool) list \<Rightarrow> bool" where
  "walk_inv g visiting visited stack =
     (set visiting = {i. (i, True) \<in> set stack} \<and> distinct (map fst (filter snd stack)) \<and> set visiting \<inter> set visited = {} \<and>
      settledAt g (set visited) \<and>
      (\<forall>upper i lower. stack = upper @ (i, True) # lower \<longrightarrow> set (edgesAt g i) \<subseteq> set visited \<union> fst ` set upper))"

lemma walk_invD:
  assumes "walk_inv g visiting visited stack"
  shows "set visiting = {i. (i, True) \<in> set stack}" "distinct (map fst (filter snd stack))" "set visiting \<inter> set visited = {}"
    "settledAt g (set visited)"
    "stack = upper @ (i, True) # lower \<Longrightarrow> set (edgesAt g i) \<subseteq> set visited \<union> fst ` set upper"
proof -
  note parts = assms [unfolded walk_inv_def]
  show "set visiting = {i. (i, True) \<in> set stack}" "distinct (map fst (filter snd stack))" "set visiting \<inter> set visited = {}"
    "settledAt g (set visited)" using parts by - (elim conjE, assumption)+
  show "stack = upper @ (i, True) # lower \<Longrightarrow> set (edgesAt g i) \<subseteq> set visited \<union> fst ` set upper" using parts by (elim conjE) simp
qed

lemma visitAcyclic_sound:
  "visitAcyclic g visiting visited stack = Inr () \<Longrightarrow> walk_inv g visiting visited stack \<Longrightarrow>
     \<exists>V. set visited \<union> fst ` set stack \<subseteq> V \<and> settledAt g V"
proof (induction g visiting visited stack rule: visitAcyclic.induct)
  case (1 g visiting visited)
  then show ?case using walk_invD(4) by fastforce
next
  case (2 g visiting visited i stack)
  note inv = walk_invD [OF 2(3)]
  have visiting: "set visiting = insert i {j. (j, True) \<in> set stack}" using inv(1) by auto
  have i: "i \<notin> set visited" using inv(3) visiting by blast
  have lower: "set (edgesAt g i) \<subseteq> set visited" using inv(5) [of "[]"] by simp
  have "(i, True) \<notin> set stack" using inv(2) by force
  then have rest: "set (removeAll i visiting) = {j. (j, True) \<in> set stack}" using visiting by auto
  have "walk_inv g (removeAll i visiting) (i # visited) stack"
    unfolding walk_inv_def
  proof (intro conjI allI impI)
    show "set (removeAll i visiting) = {j. (j, True) \<in> set stack}" by (rule rest)
    show "settledAt g (set (i # visited))" using settledAt_insert [OF inv(4) i lower] by simp
    show "distinct (map fst (filter snd stack))" using inv(2) by simp
    show "set (removeAll i visiting) \<inter> set (i # visited) = {}" using inv(3) by auto
    fix upper j lower
    assume "stack = upper @ (j, True) # lower"
    then have "(i, True) # stack = ((i, True) # upper) @ (j, True) # lower" by simp
    from inv(5) [OF this] have "set (edgesAt g j) \<subseteq> set visited \<union> fst ` set ((i, True) # upper)" .
    then show "set (edgesAt g j) \<subseteq> set (i # visited) \<union> fst ` set upper" by auto
  qed
  from 2(1) [OF _ this] 2(2) show ?case by simp
next
  case (3 g visiting visited i stack)
  note inv = walk_invD [OF 3(4)]
  show ?case
  proof (cases "i \<in> set visited")
    case True
    have "walk_inv g visiting visited stack"
      unfolding walk_inv_def
    proof (intro conjI allI impI)
      fix upper j lower
      assume "stack = upper @ (j, True) # lower"
      then have "(i, False) # stack = ((i, False) # upper) @ (j, True) # lower" by simp
      from inv(5) [OF this] have "set (edgesAt g j) \<subseteq> set visited \<union> fst ` set ((i, False) # upper)" .
      with True show "set (edgesAt g j) \<subseteq> set visited \<union> fst ` set upper" by auto
    qed (use inv(1-4) in auto)
    from 3(1) [OF True _ this] 3(3) True show ?thesis by auto
  next
    case False
    with 3(3) obtain stack' where new: "i \<notin> set visiting"
      and push: "pushDependencies (i # visiting) visited (rev (edgesAt g i)) ((i, True) # stack) = Inr stack'"
      and go: "visitAcyclic g (i # visiting) visited stack' = Inr ()"
      by (auto split: if_splits sum.splits)
    obtain ds where ds: "stack' = map (\<lambda>d. (d, False)) ds @ (i, True) # stack" "set ds = set (edgesAt g i) - set visited"
      using pushDependencies_Inr [OF push] by auto
    have "walk_inv g (i # visiting) visited stack'"
      unfolding walk_inv_def
    proof (intro conjI allI impI)
      show "set (i # visiting) = {j. (j, True) \<in> set stack'}" "set (i # visiting) \<inter> set visited = {}" "settledAt g (set visited)"
        using inv(1,3,4) False new by (auto simp: ds)
      have "filter snd (map (\<lambda>d. (d, False)) ds) = []" by (simp add: filter_empty_conv)
      then show "distinct (map fst (filter snd stack'))"
        using inv(1,2) new by (auto simp: ds)
      fix upper j lower
      assume split: "stack' = upper @ (j, True) # lower"
      from this [unfolded ds append_eq_append_conv2]
      obtain us where "map (\<lambda>d. (d, False)) ds = upper @ us \<and> us @ (i, True) # stack = (j, True) # lower \<or>
          map (\<lambda>d. (d, False)) ds @ us = upper \<and> (i, True) # stack = us @ (j, True) # lower" by metis
      then show "set (edgesAt g j) \<subseteq> set visited \<union> fst ` set upper"
      proof (elim disjE conjE)
        assume us: "map (\<lambda>d. (d, False)) ds = upper @ us" "us @ (i, True) # stack = (j, True) # lower"
        then have "us = []" by (cases us) (auto simp: map_eq_append_conv)
        with us ds show ?thesis by (auto simp: image_image)
      next
        assume us: "map (\<lambda>d. (d, False)) ds @ us = upper" "(i, True) # stack = us @ (j, True) # lower"
        show ?thesis
        proof (cases us)
          case Nil
          with us ds show ?thesis by (auto simp: image_image)
        next
          case (Cons u us')
          with us have "(i, False) # stack = ((i, False) # us') @ (j, True) # lower" by simp
          from inv(5) [OF this] have "set (edgesAt g j) \<subseteq> set visited \<union> fst ` set ((i, False) # us')" .
          moreover have "upper = map (\<lambda>d. (d, False)) ds @ (i, True) # us'" using us Cons by simp
          then have "fst ` set upper = set ds \<union> insert i (fst ` set us')" by (simp add: image_image image_Un)
          ultimately show ?thesis by auto
        qed
      qed
    qed
    from 3(2) [OF False new push go this]
    obtain V where V: "set visited \<union> fst ` set stack' \<subseteq> V" "settledAt g V" by blast
    have "set stack' = (\<lambda>d. (d, False)) ` set ds \<union> insert (i, True) (set stack)" by (simp add: ds(1))
    then have "fst ` set stack' = fst ` (\<lambda>d. (d, False)) ` set ds \<union> insert i (fst ` set stack)"
      by (simp only: image_Un image_insert fst_conv)
    with V(1) have "set visited \<union> fst ` set ((i, False) # stack) \<subseteq> V" by simp
    with V(2) show ?thesis by blast
  qed
qed

text \<open>If the check from \<open>start\<close> returns, no cycle passes through a node that \<open>start\<close> reaches.\<close>

lemma settledAt_closed:
  assumes "settledAt g V" and "(i, j) \<in> (graphOf g)\<^sup>*" and "i \<in> V"
  shows "j \<in> V"
  using assms(2,3) by (induction rule: rtrancl_induct) (use assms(1) in \<open>auto simp: settledAt_def\<close>)

lemma settledAt_no_cycle:
  assumes "settledAt g V" and "i \<in> V"
  shows "(i, i) \<notin> (graphOf g)\<^sup>+"
proof
  assume "(i, i) \<in> (graphOf g)\<^sup>+"
  moreover have "(i, j) \<in> (Restr (graphOf g) V)\<^sup>+" if "(i, j) \<in> (graphOf g)\<^sup>+" for j
    using that
  proof (induction rule: trancl_induct)
    case (base j)
    then have "j \<in> V" using settledAt_closed [OF assms(1) r_into_rtrancl assms(2)] by blast
    with base assms(2) show ?case by (intro r_into_trancl) blast
  next
    case (step j k)
    have "j \<in> V" "k \<in> V"
      using settledAt_closed [OF assms(1) _ assms(2)] step.hyps by (meson trancl_into_rtrancl trancl_into_trancl)+
    with step show ?case by (meson IntI SigmaI trancl_into_trancl)
  qed
  ultimately show False using assms(1) by (auto simp: settledAt_def acyclic_def)
qed

lemma assertAcyclic_sound:
  assumes "assertAcyclic g start = Inr ()" and "(start, i) \<in> (graphOf g)\<^sup>*"
  shows "(i, i) \<notin> (graphOf g)\<^sup>+"
proof -
  have "walk_inv g [] [] [(start, False)]"
    unfolding walk_inv_def by (auto simp: Cons_eq_append_conv)
  from visitAcyclic_sound [OF assms(1) [unfolded assertAcyclic_def] this]
  obtain V where V: "start \<in> V" "settledAt g V" by auto
  from settledAt_no_cycle [OF V(2) settledAt_closed [OF V(2) assms(2) V(1)]] show ?thesis .
qed

section \<open>The check of a whole graph\<close>

text \<open>
  Colours: 0 not met, 1 on the stack, 2 done. A frame holds a node and the dependencies it has not
  looked at yet; the source keeps the list and an index into it.
\<close>

definition colour :: "(string, nat) omap \<Rightarrow> string \<Rightarrow> nat" where
  "colour m i = nullish (map_of m i) 0"

lemma colour_set [simp]: "colour (omap_set i c m) j = (if j = i then c else colour m j)"
  by (simp add: colour_def)

definition whites :: "(string, string list) omap \<Rightarrow> (string, nat) omap \<Rightarrow> (string \<times> string list) list \<Rightarrow> string set" where
  "whites g m stack = {i \<in> targets g \<union> (\<Union>f \<in> set stack. set (snd f)). colour m i \<noteq> 1 \<and> colour m i \<noteq> 2}"

lemma finite_whites [simp]: "finite (whites g m stack)"
  by (simp add: whites_def)

function walkGraph ::
  "(string, string list) omap \<Rightarrow> (string, nat) omap \<Rightarrow> (string \<times> string list) list \<Rightarrow> exn + (string, nat) omap" where
  "walkGraph g m [] = Inr m"
| "walkGraph g m ((i, []) # stack) = walkGraph g (omap_set i 2 m) stack"
| "walkGraph g m ((i, d # ds) # stack) =
     (if colour m d = 1 then Inl (cycleAt d)
      else if colour m d = 2 then walkGraph g m ((i, ds) # stack)
      else walkGraph g (omap_set d 1 m) ((d, edgesAt g d) # (i, ds) # stack))"
  by pat_completeness auto
termination
proof (relation "measures [\<lambda>(g, m, stack). card (whites g m stack), \<lambda>(g, m, stack). \<Sum>f \<leftarrow> stack. Suc (length (snd f))]", goal_cases)
  case (2 g m i stack)
  have "card (whites g (omap_set i 2 m) stack) \<le> card (whites g m ((i, []) # stack))"
    by (rule card_mono) (auto simp: whites_def)
  then show ?case by auto
next
  case (3 g m i d ds stack)
  have "card (whites g m ((i, ds) # stack)) \<le> card (whites g m ((i, d # ds) # stack))"
    by (rule card_mono) (auto simp: whites_def)
  then show ?case by auto
next
  case (4 g m i d ds stack)
  have "card (whites g (omap_set d 1 m) ((d, edgesAt g d) # (i, ds) # stack)) < card (whites g m ((i, d # ds) # stack))"
    by (rule psubset_card_mono) (use 4 edgesAt_targets [of g d] in \<open>auto simp: whites_def\<close>)
  then show ?case by simp
qed simp

fun walkAll :: "(string, string list) omap \<Rightarrow> (string, nat) omap \<Rightarrow> string list \<Rightarrow> exn + unit" where
  "walkAll g m [] = Inr ()"
| "walkAll g m (i # is) =
     (if colour m i = 2 then walkAll g m is
      else case walkGraph g (omap_set i 1 m) [(i, edgesAt g i)] of Inl e \<Rightarrow> Inl e | Inr m1 \<Rightarrow> walkAll g m1 is)"

definition assertAcyclicGraph :: "(string, string list) omap \<Rightarrow> exn + unit" where
  "assertAcyclicGraph g = walkAll g [] (omap_keys g)"

definition blacks :: "(string, nat) omap \<Rightarrow> string set" where
  "blacks m = {i. colour m i = 2}"

definition colour_inv :: "(string, string list) omap \<Rightarrow> (string, nat) omap \<Rightarrow> (string \<times> string list) list \<Rightarrow> bool" where
  "colour_inv g m stack =
     ({i. colour m i = 1} = fst ` set stack \<and> distinct (map fst stack) \<and> settledAt g (blacks m) \<and>
      (\<forall>upper i ds lower. stack = upper @ (i, ds) # lower \<longrightarrow> set (edgesAt g i) \<subseteq> blacks m \<union> set ds \<union> fst ` set upper))"

lemma colour_invD:
  assumes "colour_inv g m stack"
  shows "{i. colour m i = 1} = fst ` set stack" "distinct (map fst stack)" "settledAt g (blacks m)"
    "stack = upper @ (i, ds) # lower \<Longrightarrow> set (edgesAt g i) \<subseteq> blacks m \<union> set ds \<union> fst ` set upper"
proof -
  note parts = assms [unfolded colour_inv_def]
  show "{i. colour m i = 1} = fst ` set stack" "distinct (map fst stack)" "settledAt g (blacks m)"
    using parts by - (elim conjE, assumption)+
  show "stack = upper @ (i, ds) # lower \<Longrightarrow> set (edgesAt g i) \<subseteq> blacks m \<union> set ds \<union> fst ` set upper"
    using parts by (elim conjE) simp
qed

lemma walkGraph_sound:
  "walkGraph g m stack = Inr m' \<Longrightarrow> colour_inv g m stack \<Longrightarrow>
     colour_inv g m' [] \<and> blacks m \<union> fst ` set stack \<subseteq> blacks m'"
proof (induction g m stack rule: walkGraph.induct)
  case (1 g m)
  then show ?case by simp
next
  case (2 g m i stack)
  note inv = colour_invD [OF 2(3)]
  have black: "blacks (omap_set i 2 m) = insert i (blacks m)" by (auto simp: blacks_def)
  have i: "colour m i = 1" "i \<notin> fst ` set stack" using inv(1,2) by force+
  have edges: "set (edgesAt g i) \<subseteq> blacks m" using inv(4) [of "[]" i "[]"] by simp
  have "i \<notin> blacks m" using i(1) by (simp add: blacks_def)
  from settledAt_insert [OF inv(3) this edges] have settled: "settledAt g (insert i (blacks m))" .
  have greys: "{j. colour (omap_set i 2 m) j = 1} = fst ` set stack"
    using inv(1) i(2) by (auto split: if_splits)
  have "colour_inv g (omap_set i 2 m) stack"
    unfolding colour_inv_def black
  proof (intro conjI allI impI)
    fix upper j ds lower
    assume "stack = upper @ (j, ds) # lower"
    then have "(i, []) # stack = ((i, []) # upper) @ (j, ds) # lower" by simp
    from inv(4) [OF this] show "set (edgesAt g j) \<subseteq> insert i (blacks m) \<union> set ds \<union> fst ` set upper" by auto
  qed (use greys settled inv(2) in simp_all)
  from 2(1) [OF _ this] 2(2) show ?case unfolding black by simp
next
  case (3 g m i d ds stack)
  note inv = colour_invD [OF 3(4)]
  have white: "colour m d \<noteq> 1" using 3(3) by (auto split: if_splits)
  show ?case
  proof (cases "colour m d = 2")
    case True
    have "colour_inv g m ((i, ds) # stack)"
      unfolding colour_inv_def
    proof (intro conjI allI impI)
      fix upper j es lower
      assume split: "(i, ds) # stack = upper @ (j, es) # lower"
      show "set (edgesAt g j) \<subseteq> blacks m \<union> set es \<union> fst ` set upper"
      proof (cases upper)
        case Nil
        with split inv(4) [of "[]" i "d # ds" stack] True show ?thesis by (auto simp: blacks_def)
      next
        case (Cons u us)
        with split have "(i, d # ds) # stack = ((i, d # ds) # us) @ (j, es) # lower" by simp
        from inv(4) [OF this] Cons split show ?thesis by auto
      qed
    qed (use inv(1-3) in auto)
    from 3(1) [OF white True _ this] 3(3) white True show ?thesis by simp
  next
    case False
    have black: "blacks (omap_set d 1 m) = blacks m" using False by (auto simp: blacks_def)
    have fresh: "d \<notin> fst ` set ((i, d # ds) # stack)" using inv(1) white by blast
    have greys: "{j. colour (omap_set d 1 m) j = 1} = fst ` set ((d, edgesAt g d) # (i, ds) # stack)"
      using inv(1) by auto
    have "colour_inv g (omap_set d 1 m) ((d, edgesAt g d) # (i, ds) # stack)"
      unfolding colour_inv_def black
    proof (intro conjI allI impI)
      fix upper j es lower
      assume split: "(d, edgesAt g d) # (i, ds) # stack = upper @ (j, es) # lower"
      show "set (edgesAt g j) \<subseteq> blacks m \<union> set es \<union> fst ` set upper"
      proof (cases upper)
        case Nil
        with split show ?thesis by auto
      next
        case (Cons u us)
        show ?thesis
        proof (cases us)
          case Nil
          with split Cons inv(4) [of "[]" i "d # ds" stack] show ?thesis by auto
        next
          case (Cons v vs)
          with split \<open>upper = u # us\<close> have "(i, d # ds) # stack = ((i, d # ds) # vs) @ (j, es) # lower" by simp
          from inv(4) [OF this] Cons \<open>upper = u # us\<close> split show ?thesis by auto
        qed
      qed
    qed (use greys fresh inv(2,3) in simp_all)
    from 3(2) [OF white False _ this] 3(3) white False show ?thesis unfolding black by auto
  qed
qed

lemma walkAll_sound:
  assumes "walkAll g m is = Inr ()" and "colour_inv g m []"
  shows "\<exists>V. set is \<union> blacks m \<subseteq> V \<and> settledAt g V"
  using assms
proof (induction g m "is" rule: walkAll.induct)
  case (1 g m)
  then show ?case using colour_invD(3) by fastforce
next
  case (2 g m i "is")
  show ?case
  proof (cases "colour m i = 2")
    case True
    with 2 show ?thesis by (auto simp: blacks_def)
  next
    case False
    then obtain m1 where m1: "walkGraph g (omap_set i 1 m) [(i, edgesAt g i)] = Inr m1" and go: "walkAll g m1 is = Inr ()"
      using 2(3) by (auto split: sum.splits)
    note inv = colour_invD [OF 2(4)]
    have black: "blacks (omap_set i 1 m) = blacks m" using False by (auto simp: blacks_def)
    have "{j. colour (omap_set i 1 m) j = 1} = {i}" using inv(1) by auto
    moreover have "set (edgesAt g j) \<subseteq> blacks m \<union> set ds \<union> fst ` set upper"
      if one: "[(i, edgesAt g i)] = upper @ (j, ds) # lower" for upper j ds lower
      using one by (cases upper) auto
    ultimately have "colour_inv g (omap_set i 1 m) [(i, edgesAt g i)]"
      using inv(3) unfolding colour_inv_def black by simp
    from walkGraph_sound [OF m1 this, unfolded black]
    have m1': "colour_inv g m1 []" "blacks m \<union> {i} \<subseteq> blacks m1" by simp_all
    from 2(2) [OF False m1 go m1'(1)] m1'(2) show ?thesis by auto
  qed
qed

lemma assertAcyclicGraph_sound:
  assumes "assertAcyclicGraph g = Inr ()"
  shows "acyclic (graphOf g)"
proof -
  have "{i. colour [] i = 1} = {}" by (simp add: colour_def)
  moreover have "blacks [] = {}" by (simp add: blacks_def colour_def)
  ultimately have "colour_inv g [] []" by (simp add: colour_inv_def)
  from walkAll_sound [OF assms [unfolded assertAcyclicGraph_def] this]
  obtain V where V: "set (omap_keys g) \<subseteq> V" "settledAt g V" by auto
  have "i \<in> V" if path: "(i, j) \<in> (graphOf g)\<^sup>+" for i j
  proof -
    obtain k where "k \<in> set (edgesAt g i)" using tranclD [OF path] by auto
    then have "map_of g i \<noteq> None" by (cases "map_of g i") auto
    then have "i \<in> set (omap_keys g)" by (auto simp: omap_keys_def dest: map_of_SomeD intro: rev_image_eqI)
    with V(1) show ?thesis by blast
  qed
  with settledAt_no_cycle [OF V(2)] show ?thesis by (auto simp: acyclic_def)
qed

section \<open>The closure of dependents\<close>

function descendantLoop :: "(string, string list) omap \<Rightarrow> string list \<Rightarrow> string list \<Rightarrow> string list" where
  "descendantLoop g seen [] = seen"
| "descendantLoop g seen (i # queue) =
     (case pushUnseen seen queue (edgesAt g i) of (seen', queue') \<Rightarrow> descendantLoop g seen' queue')"
  by pat_completeness auto
termination
proof (relation "measure (\<lambda>(g, seen, queue). length queue + card (targets g - set seen))")
  fix g seen i queue seen' queue'
  assume "(seen', queue') = pushUnseen seen queue (edgesAt g i)"
  then obtain new where new: "queue' = queue @ new" "distinct new" "set new = set (edgesAt g i) - set seen"
    "set seen' = set seen \<union> set (edgesAt g i)"
    using pushUnseen_spec [of seen queue "edgesAt g i" seen' queue'] by auto
  have "targets g - set seen = (targets g - set seen') \<union> set new" "(targets g - set seen') \<inter> set new = {}"
    using new edgesAt_targets [of g i] by auto
  then have "card (targets g - set seen) = card (targets g - set seen') + length new"
    using new(2) by (simp add: card_Un_disjoint distinct_card)
  then show "((g, seen', queue'), (g, seen, i # queue)) \<in> measure (\<lambda>(g, seen, queue). length queue + card (targets g - set seen))"
    using new by simp
qed simp

definition descendantClosure :: "(string, string list) omap \<Rightarrow> string \<Rightarrow> string list" where
  "descendantClosure g start = descendantLoop g [start] [start]"

lemma descendantLoop_spec:
  assumes "set queue \<subseteq> set seen" and "\<forall>i \<in> set seen - set queue. set (edgesAt g i) \<subseteq> set seen"
  shows "set (descendantLoop g seen queue) = (graphOf g)\<^sup>* `` set seen"
  using assms
proof (induction g seen queue rule: descendantLoop.induct)
  case (1 g seen)
  have "j \<in> set seen" if "(i, j) \<in> (graphOf g)\<^sup>*" "i \<in> set seen" for i j
    using that by (induction rule: rtrancl_induct) (use 1 in auto)
  then show ?case by auto
next
  case (2 g seen i queue)
  obtain seen' queue' where push: "pushUnseen seen queue (edgesAt g i) = (seen', queue')" by (metis surj_pair)
  then obtain new where new: "queue' = queue @ new" "set new = set (edgesAt g i) - set seen" "set seen' = set seen \<union> set (edgesAt g i)"
    using pushUnseen_spec [OF push] by blast
  have "set (descendantLoop g seen' queue') = (graphOf g)\<^sup>* `` set seen'"
    by (rule 2(1) [OF push [symmetric]]) (use new 2(2,3) in auto)
  moreover have "(graphOf g)\<^sup>* `` set seen' = (graphOf g)\<^sup>* `` set seen"
    using new(3) 2(2) converse_rtrancl_into_rtrancl [OF iffD2 [OF graphOf_iff], of _ g i] by auto
  ultimately show ?case by (simp add: push)
qed

lemma descendantClosure_spec: "set (descendantClosure g start) = (graphOf g)\<^sup>* `` {start}"
  using descendantLoop_spec [of "[start]" "[start]" g] by (simp add: descendantClosure_def)

end
