(* ===== verification/Frontier_Engine.thy ===== *)
theory Frontier_Engine
  imports Frontier_Graph
begin

text \<open>
  \<open>IncrementalFrontierEngine\<close> of \<open>frontier-engine.ts\<close>: dirty roots are propagated once into state kept
  per node, and a query reads that state. Counters are kept only as far as they count against the
  work budget, which decides when the engine stops trusting itself; the statistics built from the
  other counters never take part in a decision and are left out, and so are the numbers of visited
  nodes and edges in the results.
\<close>

section \<open>State\<close>

definition statusPriority :: "memory_status \<Rightarrow> nat" where
  "statusPriority st = (case st of StatusFresh \<Rightarrow> 0 | StatusStale \<Rightarrow> 1 | StatusUnknown \<Rightarrow> 2 | StatusInvalid \<Rightarrow> 3)"

definition MAX_FRONTIER_ROOT_STATE_WORK :: int where "MAX_FRONTIER_ROOT_STATE_WORK = 5000000"

definition MAX_AFFECTED_CLOSURE_CACHE_ENTRIES :: int where "MAX_AFFECTED_CLOSURE_CACHE_ENTRIES = 256"

definition statusMax :: "memory_status \<Rightarrow> memory_status \<Rightarrow> memory_status" where
  "statusMax l r = (if statusPriority l \<ge> statusPriority r then l else r)"

record frontier_node =
  fn_id :: string
  fn_dependsOn :: "string list option"

record frontier_result =
  fr_status :: memory_status
  fr_frontier :: "string list"
  fr_complete :: bool
  fr_cacheHit :: bool
  fr_graphRevision :: nat
  fr_impactGeneration :: nat

record frontier_impact =
  fi_generation :: nat
  fi_affected :: "string list"
  fi_direct :: "string list"
  fi_frontierComplete :: bool

record dirty_state =
  ds_generation :: nat
  ds_graphRevision :: nat
  ds_status :: memory_status
  ds_causalRoots :: "string list"
  ds_frontier :: "string list"

record frontier_engine =
  fe_dependencies :: "(string, string list) omap"
  fe_dependents :: "(string, string list) omap"
  fe_directDirty :: "(string, memory_status) omap"
  fe_activeDirtyRoots :: "(string, (string, memory_status) omap) omap"
  fe_activeFrontiers :: "(string, string list) omap"
  fe_dirtyNodesByRoot :: "(string, string list) omap"
  fe_affectedClosureCache :: "(string, string list) omap"
  fe_dirtyStates :: "(string, dirty_state) omap"
  fe_inactiveDirtyRoots :: "string list"
  fe_inactiveRootEntryCounts :: "(string, int) omap"
  fe_rootEntryCounts :: "(string, int) omap"
  fe_tombstonedRootEntries :: int
  fe_frontierCache :: "(string, nat \<times> frontier_result) omap"
  fe_generation :: nat
  fe_graphRevision :: nat
  fe_trusted :: bool
  fe_trustRecoveryRequired :: bool
  fe_frontierBudgetExceeded :: bool
  fe_frontierWorkUsed :: int

definition emptyEngine :: frontier_engine where
  "emptyEngine = \<lparr>fe_dependencies = [], fe_dependents = [], fe_directDirty = [], fe_activeDirtyRoots = [],
     fe_activeFrontiers = [], fe_dirtyNodesByRoot = [], fe_affectedClosureCache = [], fe_dirtyStates = [],
     fe_inactiveDirtyRoots = [], fe_inactiveRootEntryCounts = [], fe_rootEntryCounts = [], fe_tombstonedRootEntries = 0,
     fe_frontierCache = [], fe_generation = 0, fe_graphRevision = 0, fe_trusted = True, fe_trustRecoveryRequired = False,
     fe_frontierBudgetExceeded = False, fe_frontierWorkUsed = 0\<rparr>"

abbreviation rootsAt :: "frontier_engine \<Rightarrow> string \<Rightarrow> (string, memory_status) omap" where
  "rootsAt s i \<equiv> nullish (map_of (fe_activeDirtyRoots s) i) []"

abbreviation frontierAt :: "frontier_engine \<Rightarrow> string \<Rightarrow> string list" where
  "frontierAt s i \<equiv> nullish (map_of (fe_activeFrontiers s) i) []"

abbreviation inactive :: "frontier_engine \<Rightarrow> string \<Rightarrow> bool" where
  "inactive s rt \<equiv> rt \<in> set (fe_inactiveDirtyRoots s)"

section \<open>The budget\<close>

definition invalidateAllCaches :: "frontier_engine \<Rightarrow> frontier_engine" where
  "invalidateAllCaches s = s\<lparr>fe_frontierCache := []\<rparr>"

definition failClosed :: "frontier_engine \<Rightarrow> frontier_engine" where
  "failClosed s = invalidateAllCaches
     (s\<lparr>fe_frontierBudgetExceeded := True, fe_trusted := False, fe_trustRecoveryRequired := True\<rparr>)"

text \<open>\<open>count\<close> of a key that counts as frontier work.\<close>

definition tick :: "frontier_engine \<Rightarrow> frontier_engine" where
  "tick s =
     (if fe_frontierBudgetExceeded s then s
      else let s1 = s\<lparr>fe_frontierWorkUsed := fe_frontierWorkUsed s + 1\<rparr> in
        if fe_frontierWorkUsed s1 > MAX_FRONTIER_ROOT_STATE_WORK then failClosed s1 else s1)"

definition resetFrontierWorkBudget :: "frontier_engine \<Rightarrow> frontier_engine" where
  "resetFrontierWorkBudget s = s\<lparr>fe_frontierWorkUsed := 0\<rparr>"

definition frontierIsComplete :: "frontier_engine \<Rightarrow> bool" where
  "frontierIsComplete s = (fe_trusted s \<and> \<not> fe_frontierBudgetExceeded s)"

section \<open>Reachability and frontiers\<close>

text \<open>The left value ends the search with an answer.\<close>

fun scanDependents ::
  "string \<Rightarrow> string list \<Rightarrow> string list \<Rightarrow> string list \<Rightarrow> frontier_engine
     \<Rightarrow> (bool + string list \<times> string list) \<times> frontier_engine" where
  "scanDependents target [] seen queue s = (Inr (seen, queue), s)"
| "scanDependents target (d # ds) seen queue s =
     (let s1 = tick s in
      if fe_frontierBudgetExceeded s1 then (Inl False, s1)
      else if d = target then (Inl True, s1)
      else if d \<in> set seen then scanDependents target ds seen queue s1
      else scanDependents target ds (d # seen) (queue @ [d]) s1)"

lemma scanDependents_spec:
  "fst (scanDependents target ds seen queue s) = Inr (seen', queue') \<Longrightarrow>
     \<exists>new. queue' = queue @ new \<and> distinct new \<and> set new = set ds - set seen \<and> set seen' = set seen \<union> set ds \<and> target \<notin> set ds"
proof (induction target ds seen queue s rule: scanDependents.induct)
  case (2 target d ds seen queue s)
  then have ok: "\<not> fe_frontierBudgetExceeded (tick s)" "d \<noteq> target" by (auto simp: Let_def split: if_splits)
  show ?case
  proof (cases "d \<in> set seen")
    case True
    with 2 ok show ?thesis by (auto simp: Let_def)
  next
    case False
    with 2 ok obtain new where "queue' = (queue @ [d]) @ new" "distinct new" "set new = set ds - set (d # seen)"
      "set seen' = set (d # seen) \<union> set ds" "target \<notin> set ds" by (auto simp: Let_def)
    with False ok show ?thesis by (intro exI [of _ "d # new"]) auto
  qed
qed simp

function reachesLoop ::
  "(string, string list) omap \<Rightarrow> string \<Rightarrow> string list \<Rightarrow> string list \<Rightarrow> frontier_engine \<Rightarrow> bool \<times> frontier_engine" where
  "reachesLoop g target seen [] s = (False, s)"
| "reachesLoop g target seen (i # queue) s =
     (let s1 = tick s in
      if fe_frontierBudgetExceeded s1 then (False, s1)
      else case fst (scanDependents target (edgesAt g i) seen queue s1) of
          Inl answer \<Rightarrow> (answer, snd (scanDependents target (edgesAt g i) seen queue s1))
        | Inr (seen', queue') \<Rightarrow>
            reachesLoop g target seen' queue' (snd (scanDependents target (edgesAt g i) seen queue s1)))"
  by pat_completeness auto
termination
proof (relation "measure (\<lambda>(g, target, seen, queue, s). length queue + card (targets g - set seen))", goal_cases)
  case (2 g target seen i queue s s1 answer seen' queue')
  then obtain new where new: "queue' = queue @ new" "distinct new" "set new = set (edgesAt g i) - set seen"
    "set seen' = set seen \<union> set (edgesAt g i)"
    using scanDependents_spec [of target "edgesAt g i" seen queue s1 seen' queue'] by auto
  have "targets g - set seen = (targets g - set seen') \<union> set new" "(targets g - set seen') \<inter> set new = {}"
    using new edgesAt_targets [of g i] by auto
  then have "card (targets g - set seen) = card (targets g - set seen') + length new"
    using new(2) by (simp add: card_Un_disjoint distinct_card)
  with new show ?case by simp
qed simp

definition reaches :: "frontier_engine \<Rightarrow> string \<Rightarrow> string \<Rightarrow> bool \<times> frontier_engine" where
  "reaches s start target = reachesLoop (fe_dependents s) target [] [start] (tick s)"

fun addRootLoop :: "string \<Rightarrow> string list \<Rightarrow> string list \<Rightarrow> frontier_engine \<Rightarrow> string list \<times> frontier_engine" where
  "addRootLoop rt [] frontier s = (if rt \<in> set frontier then frontier else frontier @ [rt], s)"
| "addRootLoop rt (existing # rest) frontier s =
     (let s1 = tick s in
      if fe_frontierBudgetExceeded s1 \<or> existing = rt then (frontier, s1)
      else case reaches s1 existing rt of (known, s2) \<Rightarrow>
        if known then (frontier, s2)
        else case reaches s2 rt existing of (covers, s3) \<Rightarrow>
          (let frontier' = (if covers then removeAll existing frontier else frontier) in
           if fe_frontierBudgetExceeded s3 then (frontier', s3) else addRootLoop rt rest frontier' s3))"

definition addFrontierRoot :: "string list \<Rightarrow> string \<Rightarrow> frontier_engine \<Rightarrow> string list \<times> frontier_engine" where
  "addFrontierRoot frontier rt s = addRootLoop rt frontier frontier s"

fun computeFrontier :: "string list \<Rightarrow> string list \<Rightarrow> frontier_engine \<Rightarrow> string list \<times> frontier_engine" where
  "computeFrontier [] result s = (result, s)"
| "computeFrontier (rt # roots) result s =
     (if inactive s rt then computeFrontier roots result s
      else case addFrontierRoot result rt s of (result', s1) \<Rightarrow>
        if fe_frontierBudgetExceeded s1 then (result', s1) else computeFrontier roots result' s1)"

section \<open>State of one node\<close>

fun ticks :: "nat \<Rightarrow> frontier_engine \<Rightarrow> frontier_engine" where
  "ticks 0 s = s"
| "ticks (Suc n) s = ticks n (tick s)"

definition updateDirtyState :: "string \<Rightarrow> frontier_engine \<Rightarrow> frontier_engine" where
  "updateDirtyState i s =
     (case map_of (fe_activeDirtyRoots s) i of
        None \<Rightarrow> s
      | Some roots \<Rightarrow>
          (let s1 = ticks (length roots) s;
               live = filter (\<lambda>p. \<not> inactive s (fst p)) roots in
           if live = [] then s1\<lparr>fe_dirtyStates := omap_delete i (fe_dirtyStates s1)\<rparr>
           else s1\<lparr>fe_dirtyStates := omap_set i
             \<lparr>ds_generation = fe_generation s1, ds_graphRevision = fe_graphRevision s1,
              ds_status = fold (\<lambda>p st. statusMax st (snd p)) live StatusFresh,
              ds_causalRoots = sort (map fst live), ds_frontier = sort (frontierAt s1 i)\<rparr> (fe_dirtyStates s1)\<rparr>))"

definition activeRootEntryCountsCleanup :: "string \<Rightarrow> frontier_engine \<Rightarrow> frontier_engine" where
  "activeRootEntryCountsCleanup rt s =
     s\<lparr>fe_rootEntryCounts := omap_delete rt (fe_rootEntryCounts s),
       fe_inactiveRootEntryCounts := omap_delete rt (fe_inactiveRootEntryCounts s),
       fe_dirtyNodesByRoot := omap_delete rt (fe_dirtyNodesByRoot s),
       fe_affectedClosureCache := omap_delete rt (fe_affectedClosureCache s),
       fe_inactiveDirtyRoots := removeAll rt (fe_inactiveDirtyRoots s)\<rparr>"

text \<open>Dropping the entry of a resolved root.\<close>

definition dropEntry :: "string \<Rightarrow> string \<Rightarrow> frontier_engine \<Rightarrow> frontier_engine" where
  "dropEntry i rt s =
     (let s1 = tick (s\<lparr>fe_activeDirtyRoots := omap_set i (omap_delete rt (rootsAt s i)) (fe_activeDirtyRoots s)\<rparr>);
          activeCount = max 0 (nullish (map_of (fe_rootEntryCounts s1) rt) 0 - 1);
          inactiveCount = max 0 (nullish (map_of (fe_inactiveRootEntryCounts s1) rt) 0 - 1);
          s2 = s1\<lparr>fe_rootEntryCounts := omap_set rt activeCount (fe_rootEntryCounts s1),
                  fe_inactiveRootEntryCounts := omap_set rt inactiveCount (fe_inactiveRootEntryCounts s1),
                  fe_tombstonedRootEntries := max 0 (fe_tombstonedRootEntries s1 - 1)\<rparr>
      in if activeCount = 0 \<and> inactiveCount = 0 then activeRootEntryCountsCleanup rt s2 else s2)"

fun compactLoop :: "string \<Rightarrow> string list \<Rightarrow> bool \<Rightarrow> frontier_engine \<Rightarrow> bool \<times> frontier_engine" where
  "compactLoop i [] changed s = (changed, s)"
| "compactLoop i (rt # rest) changed s =
     (let s1 = tick s in
      if fe_frontierBudgetExceeded s1 then (changed, s1)
      else if \<not> inactive s1 rt then compactLoop i rest changed s1
      else compactLoop i rest True (dropEntry i rt s1))"

definition refreshFrontier :: "string \<Rightarrow> frontier_engine \<Rightarrow> frontier_engine" where
  "refreshFrontier i s =
     (case computeFrontier (omap_keys (rootsAt s i)) [] s of (frontier, s1) \<Rightarrow>
        updateDirtyState i (s1\<lparr>fe_activeFrontiers := omap_set i frontier (fe_activeFrontiers s1)\<rparr>))"

definition compactResolvedRoots :: "string \<Rightarrow> frontier_engine \<Rightarrow> bool \<times> frontier_engine" where
  "compactResolvedRoots i s =
     (case map_of (fe_activeDirtyRoots s) i of
        None \<Rightarrow> (False, s)
      | Some roots \<Rightarrow>
          if fe_inactiveDirtyRoots s = [] then (False, s)
          else case compactLoop i (omap_keys roots) False s of (changed, s1) \<Rightarrow>
            if \<not> changed \<or> fe_frontierBudgetExceeded s1 then (changed, s1)
            else if rootsAt s1 i = []
              then (True, s1\<lparr>fe_activeDirtyRoots := omap_delete i (fe_activeDirtyRoots s1),
                             fe_activeFrontiers := omap_delete i (fe_activeFrontiers s1),
                             fe_dirtyStates := omap_delete i (fe_dirtyStates s1)\<rparr>)
            else (True, refreshFrontier i s1))"

text \<open>Merging the incoming roots into the entries of a node.\<close>

definition noteEntry :: "string \<Rightarrow> string \<Rightarrow> bool \<Rightarrow> frontier_engine \<Rightarrow> frontier_engine" where
  "noteEntry i rt isNew s =
     (let added = i \<notin> set (edgesAt (fe_dirtyNodesByRoot s) rt);
          s1 = s\<lparr>fe_dirtyNodesByRoot := multiAdd rt i (fe_dirtyNodesByRoot s)\<rparr>;
          s2 = (if added \<and> map_of (fe_affectedClosureCache s1) rt \<noteq> None
                then tick (s1\<lparr>fe_affectedClosureCache := omap_delete rt (fe_affectedClosureCache s1)\<rparr>) else s1)
      in if isNew then s2\<lparr>fe_rootEntryCounts := omap_set rt (nullish (map_of (fe_rootEntryCounts s2) rt) 0 + 1)
             (fe_rootEntryCounts s2)\<rparr> else s2)"

fun mergeLoop ::
  "string \<Rightarrow> (string, memory_status) omap \<Rightarrow> (string, memory_status) omap \<Rightarrow> bool \<Rightarrow> frontier_engine
     \<Rightarrow> (bool \<times> (string, memory_status) omap) \<times> frontier_engine" where
  "mergeLoop i [] roots changed s = ((changed, roots), s)"
| "mergeLoop i ((rt, status) # incoming) roots changed s =
     (if inactive s rt then mergeLoop i incoming roots changed s
      else let s1 = tick s in
        if fe_frontierBudgetExceeded s1 then ((changed, roots), s1)
        else case map_of roots rt of
            None \<Rightarrow> mergeLoop i incoming (omap_set rt status roots) True (noteEntry i rt True s1)
          | Some previous \<Rightarrow>
              if statusPriority previous \<ge> statusPriority status then mergeLoop i incoming roots changed s1
              else mergeLoop i incoming (omap_set rt status roots) True (noteEntry i rt False s1))"

text \<open>The left value is a frontier left unfinished when the budget ran out.\<close>

fun addRoots :: "string list \<Rightarrow> string list \<Rightarrow> frontier_engine \<Rightarrow> (unit + string list) \<times> frontier_engine" where
  "addRoots [] frontier s = (Inr frontier, s)"
| "addRoots (rt # roots) frontier s =
     (if inactive s rt then addRoots roots frontier s
      else case addFrontierRoot frontier rt s of (frontier', s1) \<Rightarrow>
        if fe_frontierBudgetExceeded s1 then (Inl (), s1) else addRoots roots frontier' s1)"

definition mergeDirtyState :: "string \<Rightarrow> (string, memory_status) omap \<Rightarrow> frontier_engine \<Rightarrow> bool \<times> frontier_engine" where
  "mergeDirtyState i incoming s =
     (case (if fe_inactiveDirtyRoots s \<noteq> [] then compactResolvedRoots i s else (False, s)) of (repaired, s1) \<Rightarrow>
      if fe_frontierBudgetExceeded s1 then (False, s1)
      else case mergeLoop i incoming (rootsAt s1 i) False s1 of ((changed, roots), s2) \<Rightarrow>
        if \<not> changed then (False, s2)
        else case (let s3 = tick (s2\<lparr>fe_activeDirtyRoots := omap_set i roots (fe_activeDirtyRoots s2)\<rparr>) in
              if repaired then computeFrontier (omap_keys roots) [] s3 else (frontierAt s3 i, s3)) of (frontier, s4) \<Rightarrow>
          (let s5 = tick s4 in
           if fe_frontierBudgetExceeded s5 then (False, s5)
           else case addRoots (omap_keys incoming) frontier s5 of
               (Inl u, s6) \<Rightarrow> (False, s6)
             | (Inr frontier', s6) \<Rightarrow>
                 (True, updateDirtyState i (tick (s6\<lparr>fe_activeFrontiers := omap_set i frontier' (fe_activeFrontiers s6)\<rparr>)))))"

section \<open>What the maintenance of dirty state leaves alone\<close>

text \<open>
  A property that survives a tick and any change of the maintained dirty state is kept by the
  operations on it, whether or not the budget runs out on the way.
\<close>

definition upkeepProof :: "(frontier_engine \<Rightarrow> bool) \<Rightarrow> bool" where
  "upkeepProof P = (\<forall>s. P s \<longrightarrow> P (tick s) \<and> (\<forall>x. P (s\<lparr>fe_activeDirtyRoots := x\<rparr>)) \<and> (\<forall>x. P (s\<lparr>fe_activeFrontiers := x\<rparr>)) \<and>
     (\<forall>x. P (s\<lparr>fe_dirtyNodesByRoot := x\<rparr>)) \<and> (\<forall>x. P (s\<lparr>fe_affectedClosureCache := x\<rparr>)) \<and> (\<forall>x. P (s\<lparr>fe_dirtyStates := x\<rparr>)) \<and>
     (\<forall>x. P (s\<lparr>fe_inactiveDirtyRoots := x\<rparr>)) \<and> (\<forall>x. P (s\<lparr>fe_inactiveRootEntryCounts := x\<rparr>)) \<and>
     (\<forall>x. P (s\<lparr>fe_rootEntryCounts := x\<rparr>)) \<and> (\<forall>x. P (s\<lparr>fe_tombstonedRootEntries := x\<rparr>)))"

lemma upkeepD:
  assumes "upkeepProof P" and "P s"
  shows "P (tick s)" "P (s\<lparr>fe_activeDirtyRoots := x1\<rparr>)" "P (s\<lparr>fe_activeFrontiers := x2\<rparr>)" "P (s\<lparr>fe_dirtyNodesByRoot := x3\<rparr>)"
    "P (s\<lparr>fe_affectedClosureCache := x4\<rparr>)" "P (s\<lparr>fe_dirtyStates := x5\<rparr>)" "P (s\<lparr>fe_inactiveDirtyRoots := x6\<rparr>)"
    "P (s\<lparr>fe_inactiveRootEntryCounts := x7\<rparr>)" "P (s\<lparr>fe_rootEntryCounts := x8\<rparr>)" "P (s\<lparr>fe_tombstonedRootEntries := x9\<rparr>)"
  using assms by (simp_all add: upkeepProof_def)

lemma ticks_upkeep: "upkeepProof P \<Longrightarrow> P s \<Longrightarrow> P (ticks n s)"
  by (induction n s rule: ticks.induct) (simp_all add: upkeepD)

lemma scanDependents_upkeep: "upkeepProof P \<Longrightarrow> P s \<Longrightarrow> P (snd (scanDependents target ds seen queue s))"
  by (induction target ds seen queue s rule: scanDependents.induct) (simp_all add: Let_def upkeepD)

lemma reachesLoop_upkeep: "upkeepProof P \<Longrightarrow> P s \<Longrightarrow> P (snd (reachesLoop g target seen queue s))"
proof (induction g target seen queue s rule: reachesLoop.induct)
  case (2 g target seen i queue s)
  let ?r = "scanDependents target (edgesAt g i) seen queue (tick s)"
  have s1: "P (tick s)" "P (snd ?r)" using 2(2,3) upkeepD(1) scanDependents_upkeep by blast+
  show ?case
  proof (cases "fe_frontierBudgetExceeded (tick s)")
    case False
    show ?thesis
    proof (cases "fst ?r")
      case (Inr p)
      obtain seen' queue' where p: "p = (seen', queue')" by (cases p)
      from 2(1) [OF refl False Inr p [symmetric] 2(2) s1(2)] show ?thesis
        using False Inr by (simp add: Let_def p)
    qed (use False s1 in \<open>simp add: Let_def\<close>)
  qed (simp add: s1 Let_def)
qed simp

lemma reaches_upkeep: "upkeepProof P \<Longrightarrow> P s \<Longrightarrow> P (snd (reaches s i j))"
  unfolding reaches_def by (rule reachesLoop_upkeep [OF _ upkeepD(1)])

lemma addRootLoop_upkeep: "upkeepProof P \<Longrightarrow> P s \<Longrightarrow> P (snd (addRootLoop rt rest frontier s))"
proof (induction rt rest frontier s rule: addRootLoop.induct)
  case (2 rt existing rest frontier s)
  obtain known s2 where known: "reaches (tick s) existing rt = (known, s2)" by (metis surj_pair)
  obtain covers s3 where covers: "reaches s2 rt existing = (covers, s3)" by (metis surj_pair)
  have P: "P (tick s)" using 2(2,3) upkeepD(1) by blast
  then have "P s2" using reaches_upkeep [OF 2(2), of "tick s" existing rt] known by simp
  moreover from this have "P s3" using reaches_upkeep [OF 2(2), of s2 rt existing] covers by simp
  ultimately show ?case using P 2 known covers by (auto simp: Let_def)
qed simp

lemma addFrontierRoot_upkeep: "upkeepProof P \<Longrightarrow> P s \<Longrightarrow> P (snd (addFrontierRoot frontier rt s))"
  by (simp add: addFrontierRoot_def addRootLoop_upkeep)

lemma computeFrontier_upkeep: "upkeepProof P \<Longrightarrow> P s \<Longrightarrow> P (snd (computeFrontier roots frontier s))"
proof (induction roots frontier s rule: computeFrontier.induct)
  case (2 rt roots frontier s)
  then show ?case using addFrontierRoot_upkeep [OF 2(3), of s frontier rt] by (auto split: prod.split)
qed simp

lemma addRoots_upkeep: "upkeepProof P \<Longrightarrow> P s \<Longrightarrow> P (snd (addRoots roots frontier s))"
proof (induction roots frontier s rule: addRoots.induct)
  case (2 rt roots frontier s)
  then show ?case using addFrontierRoot_upkeep [OF 2(3), of s frontier rt] by (auto split: prod.split)
qed simp

lemma updateDirtyState_upkeep: "upkeepProof P \<Longrightarrow> P s \<Longrightarrow> P (updateDirtyState i s)"
  by (auto simp: updateDirtyState_def Let_def upkeepD ticks_upkeep split: option.split)

lemma dropEntry_upkeep: "upkeepProof P \<Longrightarrow> P s \<Longrightarrow> P (dropEntry i rt s)"
  by (simp add: dropEntry_def activeRootEntryCountsCleanup_def Let_def upkeepD)

lemma compactLoop_upkeep: "upkeepProof P \<Longrightarrow> P s \<Longrightarrow> P (snd (compactLoop i roots changed s))"
  by (induction i roots changed s rule: compactLoop.induct) (simp_all add: Let_def upkeepD dropEntry_upkeep)

lemma refreshFrontier_upkeep: "upkeepProof P \<Longrightarrow> P s \<Longrightarrow> P (refreshFrontier i s)"
  using computeFrontier_upkeep [of P s "omap_keys (rootsAt s i)" "[]"]
  by (auto simp: refreshFrontier_def upkeepD updateDirtyState_upkeep split: prod.split)

lemma compactResolvedRoots_upkeep:
  assumes "upkeepProof P" and "P s"
  shows "P (snd (compactResolvedRoots i s))"
proof (cases "map_of (fe_activeDirtyRoots s) i")
  case (Some roots)
  obtain changed s1 where s1: "compactLoop i (omap_keys roots) False s = (changed, s1)" by (metis surj_pair)
  have "P s1" using compactLoop_upkeep [OF assms, of i "omap_keys roots" False] s1 by simp
  then show ?thesis
    using Some assms(2) refreshFrontier_upkeep [OF assms(1)] by (simp add: compactResolvedRoots_def s1 upkeepD [OF assms(1)])
qed (simp add: compactResolvedRoots_def assms)

lemma noteEntry_upkeep: "upkeepProof P \<Longrightarrow> P s \<Longrightarrow> P (noteEntry i rt isNew s)"
  by (simp add: noteEntry_def Let_def upkeepD)

lemma mergeLoop_upkeep: "upkeepProof P \<Longrightarrow> P s \<Longrightarrow> P (snd (mergeLoop i incoming roots changed s))"
  by (induction i incoming roots changed s rule: mergeLoop.induct)
    (simp_all add: Let_def upkeepD noteEntry_upkeep split: option.split)

lemma mergeDirtyState_upkeep: "upkeepProof P \<Longrightarrow> P s \<Longrightarrow> P (snd (mergeDirtyState i incoming s))"
proof -
  assume P: "upkeepProof P" "P s"
  obtain repaired s1 where s1: "(if fe_inactiveDirtyRoots s \<noteq> [] then compactResolvedRoots i s else (False, s)) = (repaired, s1)"
    by (metis surj_pair)
  have "P s1" using s1 P compactResolvedRoots_upkeep [OF P, of i] by (auto split: if_splits)
  obtain changed roots s2 where s2: "mergeLoop i incoming (rootsAt s1 i) False s1 = ((changed, roots), s2)" by (metis surj_pair)
  have "P s2" using s2 mergeLoop_upkeep [OF P(1) \<open>P s1\<close>, of i incoming "rootsAt s1 i" False] by simp
  let ?s3 = "tick (s2\<lparr>fe_activeDirtyRoots := omap_set i roots (fe_activeDirtyRoots s2)\<rparr>)"
  have s3: "P ?s3" using \<open>P s2\<close> upkeepD [OF P(1)] by blast
  obtain frontier s4 where s4: "(if repaired then computeFrontier (omap_keys roots) [] ?s3 else (frontierAt ?s3 i, ?s3)) = (frontier, s4)"
    by (metis surj_pair)
  have "P s4" using s4 s3 computeFrontier_upkeep [OF P(1) s3, of "omap_keys roots" "[]"] by (auto split: if_splits)
  then have s5: "P (tick s4)" using upkeepD(1) [OF P(1)] by blast
  obtain f s6 where s6: "addRoots (omap_keys incoming) frontier (tick s4) = (f, s6)" by (metis surj_pair)
  have s6': "P s6" using s6 addRoots_upkeep [OF P(1) s5, of "omap_keys incoming" frontier] by simp
  show ?thesis
    using \<open>P s1\<close> \<open>P s2\<close> s5 s6' P(1)
    by (cases f) (simp_all add: mergeDirtyState_def s1 s2 s4 s6 Let_def upkeepD updateDirtyState_upkeep)
qed

text \<open>Work only ever uses up the budget, and a merge that reports a change has used some.\<close>

definition fuel :: "frontier_engine \<Rightarrow> nat" where
  "fuel s = (if fe_frontierBudgetExceeded s then 0 else Suc (nat (MAX_FRONTIER_ROOT_STATE_WORK - fe_frontierWorkUsed s)))"

lemma fuel_tick: "fuel (tick s) \<le> fuel s" "\<not> fe_frontierBudgetExceeded s \<Longrightarrow> fuel (tick s) < fuel s"
  by (auto simp: fuel_def tick_def failClosed_def invalidateAllCaches_def Let_def)

lemma fuel_updates [simp]:
  "fuel (s\<lparr>fe_activeDirtyRoots := x1\<rparr>) = fuel s" "fuel (s\<lparr>fe_activeFrontiers := x2\<rparr>) = fuel s"
  "fuel (s\<lparr>fe_dirtyNodesByRoot := x3\<rparr>) = fuel s" "fuel (s\<lparr>fe_affectedClosureCache := x4\<rparr>) = fuel s"
  "fuel (s\<lparr>fe_dirtyStates := x5\<rparr>) = fuel s" "fuel (s\<lparr>fe_inactiveDirtyRoots := x6\<rparr>) = fuel s"
  "fuel (s\<lparr>fe_inactiveRootEntryCounts := x7\<rparr>) = fuel s" "fuel (s\<lparr>fe_rootEntryCounts := x8\<rparr>) = fuel s"
  "fuel (s\<lparr>fe_tombstonedRootEntries := x9\<rparr>) = fuel s"
  by (simp_all add: fuel_def)

lemma fuel_upkeep: "upkeepProof (\<lambda>s. fuel s \<le> n)"
  using order_trans [OF fuel_tick(1)] by (simp add: upkeepProof_def)

lemma fuel_exceeded: "fuel s = 0 \<longleftrightarrow> fe_frontierBudgetExceeded s"
  by (simp add: fuel_def)

lemma mergeDirtyState_fuel:
  assumes "mergeDirtyState i incoming s = (changed, s')"
  shows "fuel s' \<le> fuel s" "changed \<Longrightarrow> fuel s' < fuel s"
proof -
  show "fuel s' \<le> fuel s" using mergeDirtyState_upkeep [OF fuel_upkeep order_refl, of i incoming s] assms by simp
  assume changed
  obtain repaired s1 where s1: "(if fe_inactiveDirtyRoots s \<noteq> [] then compactResolvedRoots i s else (False, s)) = (repaired, s1)"
    by (metis surj_pair)
  have f1: "fuel s1 \<le> fuel s" using s1 compactResolvedRoots_upkeep [OF fuel_upkeep order_refl, of i s] by (auto split: if_splits)
  obtain ch roots s2 where s2: "mergeLoop i incoming (rootsAt s1 i) False s1 = ((ch, roots), s2)" by (metis surj_pair)
  have f2: "fuel s2 \<le> fuel s1" using s2 mergeLoop_upkeep [OF fuel_upkeep order_refl, of i incoming "rootsAt s1 i" False s1] by simp
  let ?s3 = "tick (s2\<lparr>fe_activeDirtyRoots := omap_set i roots (fe_activeDirtyRoots s2)\<rparr>)"
  obtain frontier s4 where s4: "(if repaired then computeFrontier (omap_keys roots) [] ?s3 else (frontierAt ?s3 i, ?s3)) = (frontier, s4)"
    by (metis surj_pair)
  have "fuel s4 \<le> fuel ?s3" using s4 computeFrontier_upkeep [OF fuel_upkeep order_refl, of "omap_keys roots" "[]" ?s3] by (auto split: if_splits)
  also have "fuel ?s3 \<le> fuel s2" using fuel_tick(1) [of "s2\<lparr>fe_activeDirtyRoots := omap_set i roots (fe_activeDirtyRoots s2)\<rparr>"]
    by simp
  finally have f4: "fuel s4 \<le> fuel s" using f1 f2 by simp
  have alive: "\<not> fe_frontierBudgetExceeded (tick s4)"
    using assms \<open>changed\<close> by (auto simp: mergeDirtyState_def s1 s2 s4 Let_def split: if_splits)
  then have "\<not> fe_frontierBudgetExceeded s4" using fuel_tick(1) [of s4] by (auto simp: fuel_def split: if_splits)
  then have less: "fuel (tick s4) < fuel s" using fuel_tick(2) f4 by (meson order_less_le_trans)
  obtain f s6 where s6: "addRoots (omap_keys incoming) frontier (tick s4) = (f, s6)" by (metis surj_pair)
  have f6: "fuel s6 \<le> fuel (tick s4)" using s6 addRoots_upkeep [OF fuel_upkeep order_refl, of "omap_keys incoming" frontier "tick s4"] by simp
  have "\<exists>f'. s' = updateDirtyState i (tick (s6\<lparr>fe_activeFrontiers := f'\<rparr>))"
    using assms \<open>changed\<close> alive by (cases f) (auto simp: mergeDirtyState_def s1 s2 s4 s6 Let_def split: if_splits)
  moreover have "fuel (updateDirtyState i (tick (s6\<lparr>fe_activeFrontiers := f'\<rparr>))) \<le> fuel s6" for f'
    by (intro updateDirtyState_upkeep [OF fuel_upkeep] upkeepD [OF fuel_upkeep] order_refl)
  ultimately have "fuel s' \<le> fuel s6" by auto
  with f6 less show "fuel s' < fuel s" by simp
qed

section \<open>Propagation\<close>

fun collectAffected :: "string list \<Rightarrow> string list \<Rightarrow> frontier_engine \<Rightarrow> string list \<times> frontier_engine" where
  "collectAffected [] affected s = (affected, s)"
| "collectAffected (rt # rts) affected s =
     (let s1 = tick s in
      case map_of (fe_affectedClosureCache s) rt of
        Some cached \<Rightarrow> collectAffected rts (affected @ rt # cached) s1
      | None \<Rightarrow> (let nodes = edgesAt (fe_dirtyNodesByRoot s) rt in
          collectAffected rts (affected @ rt # nodes) (ticks (length nodes) s1)))"

definition rememberClosure :: "string \<Rightarrow> string list \<Rightarrow> frontier_engine \<Rightarrow> frontier_engine" where
  "rememberClosure rt result s =
     (let m = fe_affectedClosureCache s;
          s1 = (if map_of m rt = None \<and> int (length m) \<ge> MAX_AFFECTED_CLOSURE_CACHE_ENTRIES
                then tick (s\<lparr>fe_affectedClosureCache := tl m\<rparr>) else s)
      in tick (s1\<lparr>fe_affectedClosureCache := omap_set rt result (fe_affectedClosureCache s1)\<rparr>))"

definition affectedFromRoots :: "string list \<Rightarrow> frontier_engine \<Rightarrow> string list \<times> frontier_engine" where
  "affectedFromRoots rts s =
     (let single = (length rts = 1); s1 = (if single then tick s else s) in
      case (if single then map_of (fe_affectedClosureCache s) (hd rts) else None) of
        Some cached \<Rightarrow> (cached, s1)
      | None \<Rightarrow>
          (case collectAffected rts [] s1 of (affected, s2) \<Rightarrow>
             let result = canonicalSort affected in
             (result, if single then rememberClosure (hd rts) result s2 else s2)))"

text \<open>
  The queue holds nodes; the source pairs each with its map of roots, the live one, which is read
  here when the node is taken from the queue.
\<close>

fun seedLoop ::
  "(string, memory_status) omap \<Rightarrow> string list \<Rightarrow> string list \<Rightarrow> frontier_engine
     \<Rightarrow> (string list \<times> string list) \<times> frontier_engine" where
  "seedLoop [] affected queue s = ((affected, queue), s)"
| "seedLoop ((i, st) # seeds) affected queue s =
     (if fe_frontierBudgetExceeded s then ((affected, queue), s)
      else case mergeDirtyState i [(i, st)] s of (changed, s1) \<Rightarrow>
        case affectedFromRoots [i] s1 of (known, s2) \<Rightarrow>
          seedLoop seeds (affected @ i # known) (if changed then queue @ [i] else queue) s2)"

fun dependentsLoop ::
  "string list \<Rightarrow> (string, memory_status) omap \<Rightarrow> string list \<Rightarrow> string list \<Rightarrow> frontier_engine
     \<Rightarrow> (string list \<times> string list) \<times> frontier_engine" where
  "dependentsLoop [] roots affected queue s = ((affected, queue), s)"
| "dependentsLoop (d # ds) roots affected queue s =
     (case mergeDirtyState d roots s of (changed, s1) \<Rightarrow>
        dependentsLoop ds roots (if roots = [] then affected else affected @ [d])
          (if changed then queue @ [d] else queue) s1)"

lemma dependentsLoop_fuel:
  "dependentsLoop ds roots affected queue s = ((affected', queue'), s') \<Longrightarrow>
     \<exists>new. queue' = queue @ new \<and> fuel s' \<le> fuel s \<and> (new \<noteq> [] \<longrightarrow> fuel s' < fuel s)"
proof (induction ds roots affected queue s rule: dependentsLoop.induct)
  case (2 d ds roots affected queue s)
  obtain changed s1 where m: "mergeDirtyState d roots s = (changed, s1)" by (metis surj_pair)
  note f = mergeDirtyState_fuel [OF m]
  have go: "dependentsLoop ds roots (if roots = [] then affected else affected @ [d]) (if changed then queue @ [d] else queue) s1 = ((affected', queue'), s')"
    using 2(2) m by simp
  obtain new where new: "queue' = (if changed then queue @ [d] else queue) @ new" "fuel s' \<le> fuel s1" "new \<noteq> [] \<longrightarrow> fuel s' < fuel s1"
    using 2(1) [OF m [symmetric] go] by blast
  show ?case
  proof (cases changed)
    case True
    with new f(2) [OF True] show ?thesis by (intro exI [of _ "d # new"]) auto
  next
    case False
    with new f(1) show ?thesis by (intro exI [of _ new]) auto
  qed
qed simp

function propagateLoop :: "string list \<Rightarrow> string list \<Rightarrow> frontier_engine \<Rightarrow> string list \<times> frontier_engine" where
  "propagateLoop [] affected s = (affected, s)"
| "propagateLoop (i # queue) affected s =
     (if fe_frontierBudgetExceeded s then (affected, s)
      else case dependentsLoop (sort (edgesAt (fe_dependents s) i)) (rootsAt s i) affected queue s of
        ((affected', queue'), s1) \<Rightarrow> propagateLoop queue' affected' s1)"
  by pat_completeness auto
termination
proof (relation "measures [\<lambda>(queue, affected, s). fuel s, \<lambda>(queue, affected, s). length queue]", goal_cases)
  case (2 i queue affected s x s1 affected' queue')
  then have run: "dependentsLoop (sort (edgesAt (fe_dependents s) i)) (rootsAt s i) affected queue s = ((affected', queue'), s1)"
    by simp
  obtain new where "queue' = queue @ new" "fuel s1 \<le> fuel s" "new \<noteq> [] \<longrightarrow> fuel s1 < fuel s"
    using dependentsLoop_fuel [OF run] by blast
  then show ?case by (cases new) auto
qed simp

definition propagateDirty :: "(string, memory_status) omap \<Rightarrow> frontier_engine \<Rightarrow> string list \<times> frontier_engine" where
  "propagateDirty seeds s =
     (case seedLoop seeds [] [] s of ((affected, queue), s1) \<Rightarrow>
        case propagateLoop queue affected s1 of (affected', s2) \<Rightarrow> (canonicalSort affected', s2))"

definition rebuildDirtyState :: "frontier_engine \<Rightarrow> frontier_engine" where
  "rebuildDirtyState s =
     (let s1 = s\<lparr>fe_activeDirtyRoots := [], fe_activeFrontiers := [], fe_dirtyNodesByRoot := [], fe_affectedClosureCache := [],
                fe_dirtyStates := [], fe_inactiveDirtyRoots := [], fe_inactiveRootEntryCounts := [], fe_rootEntryCounts := [],
                fe_tombstonedRootEntries := 0\<rparr>
      in if fe_directDirty s1 \<noteq> [] then snd (propagateDirty (fe_directDirty s1) s1) else s1)"

fun reactivateLoop :: "string \<Rightarrow> memory_status \<Rightarrow> string list \<Rightarrow> frontier_engine \<Rightarrow> frontier_engine" where
  "reactivateLoop rt st [] s = s"
| "reactivateLoop rt st (i # is) s =
     (if fe_frontierBudgetExceeded s then s
      else let roots = rootsAt s i;
        s1 = (case map_of roots rt of
            None \<Rightarrow> tick (s\<lparr>fe_rootEntryCounts := omap_set rt (nullish (map_of (fe_rootEntryCounts s) rt) 0 + 1) (fe_rootEntryCounts s)\<rparr>)
          | Some previous \<Rightarrow> if previous \<noteq> st then tick s else s);
        roots' = (if map_of roots rt = Some st then roots else omap_set rt st roots)
      in reactivateLoop rt st is (refreshFrontier i (s1\<lparr>fe_activeDirtyRoots := omap_set i roots' (fe_activeDirtyRoots s1)\<rparr>)))"

definition reactivateRoot :: "string \<Rightarrow> memory_status \<Rightarrow> frontier_engine \<Rightarrow> frontier_engine" where
  "reactivateRoot rt st s =
     (if \<not> inactive s rt then s
      else let s1 = s\<lparr>fe_tombstonedRootEntries := max 0 (fe_tombstonedRootEntries s - nullish (map_of (fe_inactiveRootEntryCounts s) rt) 0),
                    fe_inactiveRootEntryCounts := omap_delete rt (fe_inactiveRootEntryCounts s),
                    fe_inactiveDirtyRoots := removeAll rt (fe_inactiveDirtyRoots s)\<rparr>
           in reactivateLoop rt st (edgesAt (fe_dirtyNodesByRoot s1) rt) s1)"

definition invalidateTargets :: "string list \<Rightarrow> frontier_engine \<Rightarrow> frontier_engine" where
  "invalidateTargets tgts s = s\<lparr>fe_frontierCache := filter (\<lambda>p. fst p \<notin> set tgts) (fe_frontierCache s)\<rparr>"

section \<open>Operations\<close>

definition assertId :: "string \<Rightarrow> string \<Rightarrow> exn + unit" where
  "assertId i name = (if i = [] then Inl (NotText name) else Inr ())"

definition unknownNode :: "string \<Rightarrow> exn" where
  "unknownNode i = Failure (''Unknown node: '' @ i)"

text \<open>The dependencies of one node enter the graph, each first as a node of its own.\<close>

fun addDependencyNodes ::
  "string \<Rightarrow> string list \<Rightarrow> (string, string list) omap \<Rightarrow> (exn + unit) \<times> (string, string list) omap" where
  "addDependencyNodes i [] g = (Inr (), g)"
| "addDependencyNodes i (d # ds) g =
     (if d = [] then (Inl (NotText ''dependency id''), g)
      else if d = i then (Inl (cycleAt i), g)
      else addDependencyNodes i ds (if map_of g d = None then omap_set d [] g else g))"

fun addNodes :: "frontier_node list \<Rightarrow> (string, string list) omap \<Rightarrow> exn + (string, string list) omap" where
  "addNodes [] g = Inr g"
| "addNodes (n # ns) g =
     andThen (assertId (fn_id n) ''node id'') (\<lambda>_.
       let ds = unique (nullish (fn_dependsOn n) []) in
       case addDependencyNodes (fn_id n) ds g of
         (Inl e, g1) \<Rightarrow> Inl e
       | (Inr u, g1) \<Rightarrow> addNodes ns (omap_set (fn_id n) ds g1))"

definition reverseGraph :: "(string, string list) omap \<Rightarrow> (string, string list) omap" where
  "reverseGraph g = fold (\<lambda>(i, ds). fold (\<lambda>d. multiAdd d i) ds) g (map (\<lambda>p. (fst p, [])) g)"

definition newFrontierEngine :: "frontier_node list \<Rightarrow> exn + frontier_engine" where
  "newFrontierEngine nodes =
     andThen (addNodes nodes []) (\<lambda>g.
     andThen (assertAcyclicGraph g) (\<lambda>_.
       Inr (rebuildDirtyState (emptyEngine\<lparr>fe_dependencies := g, fe_dependents := reverseGraph g,
         fe_graphRevision := length nodes, fe_generation := length nodes\<rparr>))))"

definition removeReverseEdges :: "string \<Rightarrow> frontier_engine \<Rightarrow> frontier_engine" where
  "removeReverseEdges i s =
     s\<lparr>fe_dependents := fold (\<lambda>d. multiRemove d i) (edgesAt (fe_dependencies s) i) (fe_dependents s)\<rparr>"

definition setDependencies :: "string \<Rightarrow> string list \<Rightarrow> frontier_engine \<Rightarrow> (exn + unit) \<times> frontier_engine" where
  "setDependencies i dependsOn s =
     (let s0 = resetFrontierWorkBudget s in
      case assertId i ''node id'' of
        Inl e \<Rightarrow> (Inl e, s0)
      | Inr u \<Rightarrow>
         (let ds = unique dependsOn in
          case addDependencyNodes i ds (fe_dependencies s0) of
            (Inl e, g) \<Rightarrow> (Inl e, s0\<lparr>fe_dependencies := g\<rparr>)
          | (Inr u, g) \<Rightarrow>
             (let s1 = s0\<lparr>fe_dependencies := g\<rparr>;
                  s2 = (if map_of g i \<noteq> None then removeReverseEdges i s1 else s1);
                  s3 = s2\<lparr>fe_dependencies := omap_set i ds g, fe_dependents := fold (\<lambda>d. multiAdd d i) ds (fe_dependents s2)\<rparr>
              in case assertAcyclic (fe_dependencies s3) i of
                  Inl e \<Rightarrow> (Inl e, s3\<lparr>fe_dependencies := fe_dependencies s0, fe_dependents := fe_dependents s0\<rparr>)
                | Inr u \<Rightarrow> (Inr (), invalidateAllCaches (rebuildDirtyState
                    (s3\<lparr>fe_graphRevision := fe_graphRevision s3 + 1, fe_generation := fe_generation s3 + 1\<rparr>))))))"

definition addNode :: "string \<Rightarrow> string list \<Rightarrow> frontier_engine \<Rightarrow> (exn + unit) \<times> frontier_engine" where
  "addNode i dependsOn s =
     (case assertId i ''node id'' of
        Inl e \<Rightarrow> (Inl e, s)
      | Inr u \<Rightarrow> if map_of (fe_dependencies s) i \<noteq> None then (Inl (Failure (''Node already exists: '' @ i)), s)
                else setDependencies i dependsOn s)"

definition removeNode :: "string \<Rightarrow> frontier_engine \<Rightarrow> (exn + unit) \<times> frontier_engine" where
  "removeNode i s =
     (let s0 = resetFrontierWorkBudget s in
      case assertId i ''node id'' of
        Inl e \<Rightarrow> (Inl e, s0)
      | Inr u \<Rightarrow>
          if map_of (fe_dependencies s0) i = None then (Inr (), s0)
          else if edgesAt (fe_dependents s0) i \<noteq> [] then (Inl (Failure (''Cannot remove node with dependents: '' @ i)), s0)
          else let s1 = removeReverseEdges i s0 in
            (Inr (), invalidateAllCaches (rebuildDirtyState
              (s1\<lparr>fe_dependencies := omap_delete i (fe_dependencies s1), fe_dependents := omap_delete i (fe_dependents s1),
                 fe_directDirty := omap_delete i (fe_directDirty s1),
                 fe_graphRevision := fe_graphRevision s1 + 1, fe_generation := fe_generation s1 + 1\<rparr>))))"

fun checkNodes :: "(string, string list) omap \<Rightarrow> string list \<Rightarrow> exn + unit" where
  "checkNodes g [] = Inr ()"
| "checkNodes g (i # is) =
     (if i = [] then Inl (NotText ''node id'') else if map_of g i = None then Inl (unknownNode i) else checkNodes g is)"

definition impactOf :: "string list \<Rightarrow> string list \<Rightarrow> bool \<Rightarrow> frontier_engine \<Rightarrow> frontier_impact" where
  "impactOf direct affected whole s = \<lparr>fi_generation = fe_generation s, fi_affected = affected, fi_direct = direct,
     fi_frontierComplete = whole\<rparr>"

fun markDirect :: "memory_status \<Rightarrow> string list \<Rightarrow> frontier_engine \<Rightarrow> frontier_engine" where
  "markDirect st [] s = s"
| "markDirect st (i # is) s =
     (let st' = (case map_of (fe_directDirty s) i of None \<Rightarrow> st | Some previous \<Rightarrow> statusMax previous st);
          s1 = s\<lparr>fe_directDirty := omap_set i st' (fe_directDirty s)\<rparr>
      in markDirect st is (if inactive s1 i then reactivateRoot i st' s1 else s1))"

definition markDirty :: "string list \<Rightarrow> memory_status \<Rightarrow> frontier_engine \<Rightarrow> (exn + frontier_impact) \<times> frontier_engine" where
  "markDirty nodeIds st s =
     (let s0 = resetFrontierWorkBudget s; direct = unique nodeIds in
      if st = StatusFresh then (Inl (Failure ''FRESH is not a dirty status''), s0)
      else case checkNodes (fe_dependencies s0) direct of
        Inl e \<Rightarrow> (Inl e, s0)
      | Inr u \<Rightarrow>
         (let isNoop = list_all (\<lambda>i. (case map_of (fe_directDirty s0) i of
                 None \<Rightarrow> False | Some previous \<Rightarrow> \<not> inactive s0 i \<and> statusPriority previous \<ge> statusPriority st)) direct;
              s1 = s0\<lparr>fe_generation := fe_generation s0 + 1\<rparr>
          in if isNoop then
               (case affectedFromRoots direct s1 of (affected, s2) \<Rightarrow>
                  (Inr (impactOf direct affected (frontierIsComplete s2) s2), s2))
             else
               (let s2 = markDirect st direct s1 in
                case propagateDirty (map (\<lambda>i. (i, the (map_of (fe_directDirty s2) i))) direct) s2 of (affected, s3) \<Rightarrow>
                  let s4 = invalidateTargets affected s3 in
                  (Inr (impactOf direct affected (frontierIsComplete s4) s4), s4))))"

fun checkStates ::
  "(string, string list) omap \<Rightarrow> (string \<times> memory_status) list \<Rightarrow> string list \<Rightarrow> (string, memory_status) omap
     \<Rightarrow> exn + string list \<times> (string, memory_status) omap" where
  "checkStates g [] seen dirty = Inr (seen, dirty)"
| "checkStates g ((i, st) # states) seen dirty =
     (if i = [] then Inl (NotText ''node id'')
      else if i \<in> set seen then Inl (Failure (''Duplicate frontier state: '' @ i))
      else if map_of g i = None then Inl (unknownNode i)
      else checkStates g states (i # seen) (if st \<noteq> StatusFresh then omap_set i st dirty else dirty))"

definition restoreStates :: "(string \<times> memory_status) list \<Rightarrow> frontier_engine \<Rightarrow> (exn + unit) \<times> frontier_engine" where
  "restoreStates states s =
     (let s0 = resetFrontierWorkBudget s in
      case checkStates (fe_dependencies s0) states [] [] of
        Inl e \<Rightarrow> (Inl e, s0)
      | Inr (seen, dirty) \<Rightarrow>
         (case find (\<lambda>i. i \<notin> set seen) (omap_keys (fe_dependencies s0)) of
            Some i \<Rightarrow> (Inl (Failure (''Incomplete frontier state snapshot: '' @ i)), s0)
          | None \<Rightarrow> (Inr (), invalidateAllCaches (rebuildDirtyState
              (s0\<lparr>fe_directDirty := dirty, fe_generation := fe_generation s0 + 1, fe_frontierBudgetExceeded := False,
                 fe_trustRecoveryRequired := False, fe_trusted := True\<rparr>)))))"

definition replaceStatus :: "string \<Rightarrow> memory_status \<Rightarrow> frontier_engine \<Rightarrow> (exn + frontier_impact) \<times> frontier_engine" where
  "replaceStatus i st s =
     (let s0 = resetFrontierWorkBudget s in
      case checkNodes (fe_dependencies s0) [i] of
        Inl e \<Rightarrow> (Inl e, s0)
      | Inr u \<Rightarrow>
         (let affected = descendantClosure (fe_dependents s0) i;
              cleared = omap_delete i (fe_directDirty s0);
              s1 = invalidateTargets affected (rebuildDirtyState
                (s0\<lparr>fe_directDirty := (if st \<noteq> StatusFresh then omap_set i st cleared else cleared),
                   fe_generation := fe_generation s0 + 1\<rparr>))
          in (Inr (impactOf [i] (canonicalSort affected) (frontierIsComplete s1) s1), s1)))"

definition markUnknown :: "frontier_engine \<Rightarrow> frontier_engine" where
  "markUnknown s = invalidateAllCaches ((resetFrontierWorkBudget s)
     \<lparr>fe_trusted := False, fe_trustRecoveryRequired := True, fe_generation := fe_generation s + 1\<rparr>)"

definition restoreTrust :: "frontier_engine \<Rightarrow> frontier_engine" where
  "restoreTrust s = invalidateAllCaches
     (s\<lparr>fe_trusted := False, fe_trustRecoveryRequired := True, fe_generation := fe_generation s + 1\<rparr>)"

definition tombstone :: "string \<Rightarrow> frontier_engine \<Rightarrow> frontier_engine" where
  "tombstone i s =
     (let entries = nullish (map_of (fe_rootEntryCounts s) i) 0;
          s1 = s\<lparr>fe_generation := fe_generation s + 1, fe_directDirty := omap_delete i (fe_directDirty s),
                fe_inactiveDirtyRoots := (if inactive s i then fe_inactiveDirtyRoots s else fe_inactiveDirtyRoots s @ [i]),
                fe_inactiveRootEntryCounts := omap_set i entries (fe_inactiveRootEntryCounts s),
                fe_tombstonedRootEntries := fe_tombstonedRootEntries s + entries\<rparr>
      in if fe_tombstonedRootEntries s1 > MAX_FRONTIER_ROOT_STATE_WORK then failClosed s1 else s1)"

definition resolve :: "string \<Rightarrow> frontier_engine \<Rightarrow> (exn + frontier_impact) \<times> frontier_engine" where
  "resolve i s =
     (let s0 = resetFrontierWorkBudget s in
      case checkNodes (fe_dependencies s0) [i] of
        Inl e \<Rightarrow> (Inl e, s0)
      | Inr u \<Rightarrow>
         (let known = canonicalSort (nullish (map_of (fe_dirtyNodesByRoot s0) i) [i]) in
          case map_of (fe_directDirty s0) i of
            None \<Rightarrow> (Inr (impactOf [i] [] (frontierIsComplete s0) s0), s0)
          | Some StatusUnknown \<Rightarrow>
              (let s1 = invalidateTargets known (markUnknown s0) in (Inr (impactOf [i] known False s1), s1))
          | Some st \<Rightarrow>
              (let s1 = invalidateTargets known (tombstone i s0) in
               (Inr (impactOf [i] known (frontierIsComplete s1) s1), s1))))"

definition unknownResult :: "frontier_engine \<Rightarrow> frontier_result" where
  "unknownResult s = \<lparr>fr_status = StatusUnknown, fr_frontier = [], fr_complete = False, fr_cacheHit = False,
     fr_graphRevision = fe_graphRevision s, fr_impactGeneration = fe_generation s\<rparr>"

definition cacheResult :: "string \<Rightarrow> frontier_result \<Rightarrow> frontier_engine \<Rightarrow> (exn + frontier_result) \<times> frontier_engine" where
  "cacheResult i result s =
     (Inr result, s\<lparr>fe_frontierCache := omap_set i (fe_graphRevision s, result) (fe_frontierCache s)\<rparr>)"

definition queryFrontier :: "string \<Rightarrow> frontier_engine \<Rightarrow> (exn + frontier_result) \<times> frontier_engine" where
  "queryFrontier i s =
     (let s0 = resetFrontierWorkBudget s in
      case checkNodes (fe_dependencies s0) [i] of
        Inl e \<Rightarrow> (Inl e, s0)
      | Inr u \<Rightarrow>
         (let cached = map_of (fe_frontierCache s0) i in
          if cached \<noteq> None \<and> fst (the cached) = fe_graphRevision s0
          then (Inr ((snd (the cached))\<lparr>fr_cacheHit := True, fr_impactGeneration := fe_generation s0\<rparr>), s0)
          else if \<not> frontierIsComplete s0 then cacheResult i (unknownResult s0) s0
          else let s1 = snd (compactResolvedRoots i s0) in
            if \<not> frontierIsComplete s1 then cacheResult i (unknownResult s1) s1
            else let roots = rootsAt s1 i;
                s2 = tick (ticks (length roots) (tick s1));
                live = filter (\<lambda>p. \<not> inactive s1 (fst p)) roots
              in cacheResult i \<lparr>fr_status = fold (\<lambda>p st. statusMax st (snd p)) live StatusFresh,
                   fr_frontier = sort (frontierAt s1 i), fr_complete = True, fr_cacheHit = False,
                   fr_graphRevision = fe_graphRevision s2, fr_impactGeneration = fe_generation s2\<rparr> s2))"

text \<open>A small engine at work: a chain of three nodes, a signal at its start, a resolution, a second signal.\<close>

definition chainNodes :: "frontier_node list" where
  "chainNodes = [\<lparr>fn_id = ''c'', fn_dependsOn = Some [''b'']\<rparr>, \<lparr>fn_id = ''b'', fn_dependsOn = Some [''a'']\<rparr>]"

definition chainEngine :: frontier_engine where
  "chainEngine = projr (newFrontierEngine chainNodes)"
end
