(* ===== verification/Frontier_Reach.thy ===== *)
theory Frontier_Reach
  imports Frontier_Engine
begin

text \<open>
  The searches of the frontier engine compute what they are meant to as long as the budget lasts:
  reachability, and the frontier of a set of roots, which are the roots no other root reaches.
\<close>

section \<open>Only work is spent\<close>

abbreviation alive :: "frontier_engine \<Rightarrow> bool" where
  "alive s \<equiv> \<not> fe_frontierBudgetExceeded s"

definition worked :: "frontier_engine \<Rightarrow> frontier_engine \<Rightarrow> bool" where
  "worked s s' = (alive s' \<longrightarrow> alive s \<and> s' = s\<lparr>fe_frontierWorkUsed := fe_frontierWorkUsed s'\<rparr>)"

lemma worked_refl [simp]: "worked s s"
  by (simp add: worked_def)

lemma worked_trans:
  assumes "worked s u" and "worked u v"
  shows "worked s v"
  using assms unfolding worked_def
  by (metis (no_types, lifting) frontier_engine.surjective frontier_engine.update_convs(19))

lemma worked_tick: "worked s (tick s)"
  by (auto simp: worked_def tick_def failClosed_def invalidateAllCaches_def Let_def)

lemma worked_ticks: "worked s (ticks n s)"
  by (induction n s rule: ticks.induct) (auto intro: worked_trans worked_tick)

lemma worked_scan: "worked s (snd (scanDependents target ds seen queue s))"
  by (induction target ds seen queue s rule: scanDependents.induct)
    (auto simp: Let_def intro: worked_trans worked_tick)

lemma worked_reachesLoop: "worked s (snd (reachesLoop g target seen queue s))"
proof (induction g target seen queue s rule: reachesLoop.induct)
  case (2 g target seen i queue s)
  let ?r = "scanDependents target (edgesAt g i) seen queue (tick s)"
  have s1: "worked s (snd ?r)" by (rule worked_trans [OF worked_tick worked_scan])
  show ?case
  proof (cases "alive (tick s)")
    case True
    show ?thesis
    proof (cases "fst ?r")
      case (Inr p)
      obtain seen' queue' where p: "p = (seen', queue')" by (cases p)
      from worked_trans [OF s1 2(1) [OF refl _ Inr p [symmetric]]] show ?thesis
        using True Inr by (simp add: Let_def p)
    qed (use True s1 in \<open>simp add: Let_def\<close>)
  qed (simp add: worked_tick Let_def)
qed simp

lemma worked_reaches: "reaches s i j = (b, s') \<Longrightarrow> worked s s'"
  using worked_trans [OF worked_tick worked_reachesLoop, of s "fe_dependents s" j "[]" "[i]"] by (simp add: reaches_def)

lemma worked_addRootLoop: "worked s (snd (addRootLoop rt rest frontier s))"
proof (induction rt rest frontier s rule: addRootLoop.induct)
  case (2 rt existing rest frontier s)
  obtain known s2 where known: "reaches (tick s) existing rt = (known, s2)" by (metis surj_pair)
  obtain covers s3 where covers: "reaches s2 rt existing = (covers, s3)" by (metis surj_pair)
  have w: "worked s (tick s)" "worked s s2" "worked s s3"
    using worked_tick worked_reaches [OF known] worked_reaches [OF covers] worked_trans by blast+
  then show ?case using 2 known covers worked_trans by (auto simp: Let_def)
qed simp

lemma worked_addFrontierRoot: "addFrontierRoot frontier rt s = (f, s') \<Longrightarrow> worked s s'"
  using worked_addRootLoop [of s rt frontier frontier] by (simp add: addFrontierRoot_def)

lemma worked_computeFrontier: "computeFrontier roots frontier s = (f, s') \<Longrightarrow> worked s s'"
proof (induction roots frontier s rule: computeFrontier.induct)
  case (2 rt roots frontier s)
  then show ?case
    by (auto split: prod.splits if_splits dest: worked_addFrontierRoot intro: worked_trans)
qed simp

lemma worked_addRoots: "addRoots roots frontier s = (f, s') \<Longrightarrow> worked s s'"
proof (induction roots frontier s rule: addRoots.induct)
  case (2 rt roots frontier s)
  then show ?case
    by (auto split: prod.splits if_splits dest: worked_addFrontierRoot intro: worked_trans)
qed simp

lemma workedD:
  assumes "worked s s'" and "alive s'"
  shows "alive s" "s' = s\<lparr>fe_frontierWorkUsed := fe_frontierWorkUsed s'\<rparr>"
    "fe_dependents s' = fe_dependents s" "fe_inactiveDirtyRoots s' = fe_inactiveDirtyRoots s"
proof -
  show "alive s" and eq: "s' = s\<lparr>fe_frontierWorkUsed := fe_frontierWorkUsed s'\<rparr>" using assms by (simp_all add: worked_def)
  show "fe_dependents s' = fe_dependents s" "fe_inactiveDirtyRoots s' = fe_inactiveDirtyRoots s" by (subst eq, simp)+
qed

section \<open>Reachability\<close>

lemma scanDependents_found:
  "fst (scanDependents target ds seen queue s) = Inl answer \<Longrightarrow> alive (snd (scanDependents target ds seen queue s)) \<Longrightarrow>
     answer \<and> target \<in> set ds"
  by (induction target ds seen queue s rule: scanDependents.induct) (auto simp: Let_def split: if_splits)

lemma frontier_of_search:
  assumes closed: "\<forall>x \<in> seen. x \<in> queue \<or> E `` {x} \<subseteq> seen" and target: "target \<notin> seen"
    and path: "(x, target) \<in> E\<^sup>+" and x: "x \<in> seen"
  shows "\<exists>q \<in> queue. (q, target) \<in> E\<^sup>+"
  using path x
proof (induction rule: converse_trancl_induct)
  case (base y)
  with closed target show ?case by blast
next
  case (step y z)
  show ?case
  proof (cases "y \<in> queue")
    case True
    with step.hyps show ?thesis by (meson trancl_into_trancl2)
  next
    case False
    with closed step show ?thesis by blast
  qed
qed

lemma reachesLoop_spec:
  "reachesLoop g target seen queue s = (b, s') \<Longrightarrow> alive s' \<Longrightarrow> target \<notin> set seen \<Longrightarrow>
     \<forall>x \<in> set seen. x \<in> set queue \<or> graphOf g `` {x} \<subseteq> set seen \<Longrightarrow>
     b \<longleftrightarrow> (\<exists>q \<in> set queue. (q, target) \<in> (graphOf g)\<^sup>+)"
proof (induction g target seen queue s rule: reachesLoop.induct)
  case (2 g target seen i queue s)
  let ?r = "scanDependents target (edgesAt g i) seen queue (tick s)" and ?E = "graphOf g"
  have alive: "alive (tick s)" using 2(2,3) by (auto simp: Let_def split: if_splits)
  show ?case
  proof (cases "fst ?r")
    case (Inl answer)
    then have "b = answer" "s' = snd ?r" using 2(2) alive by (auto simp: Let_def)
    with scanDependents_found [OF Inl] 2(3) have "b" "target \<in> set (edgesAt g i)" by auto
    moreover from this(2) have "(i, target) \<in> ?E\<^sup>+" by (intro r_into_trancl) simp
    ultimately show ?thesis by auto
  next
    case (Inr p)
    obtain seen' queue' where p: "p = (seen', queue')" by (cases p)
    obtain new where new: "queue' = queue @ new" "set new = set (edgesAt g i) - set seen" "set seen' = set seen \<union> set (edgesAt g i)"
      "target \<notin> set (edgesAt g i)"
      using scanDependents_spec [OF Inr [unfolded p]] by blast
    have go: "reachesLoop g target seen' queue' (snd ?r) = (b, s')" using 2(2) alive Inr by (simp add: Let_def p)
    have target: "target \<notin> set seen'" using 2(4) new by simp
    have closed: "\<forall>x \<in> set seen'. x \<in> set queue' \<or> ?E `` {x} \<subseteq> set seen'"
    proof
      fix x assume "x \<in> set seen'"
      then consider "x \<in> set seen" | "x \<in> set new" using new by blast
      then show "x \<in> set queue' \<or> ?E `` {x} \<subseteq> set seen'"
      proof cases
        case 1
        show ?thesis
        proof (cases "x = i")
          case True
          then have "?E `` {x} \<subseteq> set (edgesAt g i)" by auto
          with new show ?thesis by blast
        next
          case False
          with 1 2(5) new show ?thesis by auto
        qed
      qed (use new in simp)
    qed
    have IH: "b \<longleftrightarrow> (\<exists>q \<in> set queue'. (q, target) \<in> ?E\<^sup>+)"
      using 2(1) [OF refl _ Inr p [symmetric] go 2(3) target closed] alive by simp
    have "\<exists>q \<in> set queue'. (q, target) \<in> ?E\<^sup>+" if path: "(i, target) \<in> ?E\<^sup>+"
    proof -
      obtain d where d: "(i, d) \<in> ?E" "(d, target) \<in> ?E\<^sup>*" using tranclD [OF path] by blast
      then have "d \<in> set seen'" "d \<noteq> target" using new by auto
      with d have "(d, target) \<in> ?E\<^sup>+" by (simp add: rtrancl_eq_or_trancl)
      from frontier_of_search [OF closed target this \<open>d \<in> set seen'\<close>] show ?thesis .
    qed
    moreover have "(i, target) \<in> ?E\<^sup>+" if "q \<in> set new" "(q, target) \<in> ?E\<^sup>+" for q
      using that new by (intro trancl_into_trancl2 [of i q]) auto
    ultimately show ?thesis using IH new by auto
  qed
qed simp

lemma reaches_spec:
  assumes "reaches s i j = (b, s')" and "alive s'"
  shows "b \<longleftrightarrow> (i, j) \<in> (graphOf (fe_dependents s))\<^sup>+"
  using reachesLoop_spec [OF assms(1) [unfolded reaches_def] assms(2)] by simp

section \<open>Frontiers\<close>

definition topmost :: "('a \<times> 'a) set \<Rightarrow> 'a set \<Rightarrow> 'a set" where
  "topmost E S = {r \<in> S. \<forall>q \<in> S. (q, r) \<notin> E\<^sup>+}"

lemma topmost_empty [simp]: "topmost E {} = {}"
  by (simp add: topmost_def)

lemma topmost_covers:
  assumes "finite S" and "acyclic E" and "r \<in> S"
  shows "\<exists>q \<in> topmost E S. (q, r) \<in> E\<^sup>*"
proof -
  let ?R = "Restr (E\<^sup>+) S"
  have "finite ?R" by (rule finite_subset [of _ "S \<times> S"]) (use assms(1) in auto)
  moreover have "acyclic ?R"
    by (rule acyclic_subset [of "E\<^sup>+"]) (use assms(2) in \<open>auto simp: acyclic_def\<close>)
  ultimately have wf: "wf ?R" by (rule finite_acyclic_wf)
  show ?thesis
    using assms(3)
  proof (induction r rule: wf_induct_rule [OF wf])
    case (1 r)
    show ?case
    proof (cases "r \<in> topmost E S")
      case False
      then obtain q where q: "q \<in> S" "(q, r) \<in> E\<^sup>+" using 1(2) by (auto simp: topmost_def)
      with 1 obtain p where "p \<in> topmost E S" "(p, q) \<in> E\<^sup>*" by blast
      with q(2) show ?thesis by (meson rtrancl_trans trancl_into_rtrancl)
    qed auto
  qed
qed

lemma topmost_insert_covered:
  assumes "finite S" and "acyclic E" and "q \<in> topmost E S" and "(q, r) \<in> E\<^sup>*"
  shows "topmost E (insert r S) = topmost E S"
proof (cases "r \<in> S")
  case False
  then have qr: "(q, r) \<in> E\<^sup>+" using assms(3,4) by (auto simp: topmost_def rtrancl_eq_or_trancl)
  have "(p, x) \<notin> E\<^sup>+" if "x \<in> topmost E S" "p = r" for p x
    using that qr assms(3) by (auto simp: topmost_def dest: trancl_trans [OF qr])
  with qr assms(3) show ?thesis by (auto simp: topmost_def)
qed (simp add: insert_absorb)

lemma topmost_insert_new:
  assumes "finite S" and "acyclic E" and "\<forall>q \<in> topmost E S. (q, r) \<notin> E\<^sup>*"
  shows "topmost E (insert r S) = insert r {q \<in> topmost E S. (r, q) \<notin> E\<^sup>+}"
proof -
  have "(q, r) \<notin> E\<^sup>+" if "q \<in> S" for q
    using topmost_covers [OF assms(1,2) that] assms(3) by (meson rtrancl_trans trancl_into_rtrancl)
  moreover have "(r, r) \<notin> E\<^sup>+" using assms(2) by (simp add: acyclic_def)
  ultimately show ?thesis by (auto simp: topmost_def)
qed

lemma addRootLoop_spec:
  assumes "addRootLoop rt rest frontier s = (f, s')" and "alive s'" and "E = graphOf (fe_dependents s)" and "acyclic E" and "finite S"
    and "set frontier = {q \<in> topmost E S. q \<in> set rest \<or> (rt, q) \<notin> E\<^sup>+}" and "distinct frontier" and "set rest \<subseteq> topmost E S"
    and "\<forall>q \<in> topmost E S. q \<notin> set rest \<longrightarrow> (q, rt) \<notin> E\<^sup>*" and "distinct rest"
  shows "set f = topmost E (insert rt S) \<and> distinct f"
  using assms
proof (induction rt rest frontier s rule: addRootLoop.induct)
  case (1 rt frontier s)
  have "topmost E (insert rt S) = insert rt {q \<in> topmost E S. (rt, q) \<notin> E\<^sup>+}"
    by (rule topmost_insert_new) (use 1 in auto)
  with 1 show ?case by auto
next
  case (2 rt existing rest frontier s)
  have top: "existing \<in> topmost E S" using 2 by simp
  have kept: "frontier = f \<and> set f = topmost E (insert rt S) \<and> distinct f"
    if cov: "(existing, rt) \<in> E\<^sup>*" and f: "f = frontier"
  proof -
    have "(rt, q) \<notin> E\<^sup>+" if "q \<in> topmost E S" for q
    proof
      assume "(rt, q) \<in> E\<^sup>+"
      with cov have "(existing, q) \<in> E\<^sup>+" by (rule rtrancl_trancl_trancl)
      with top that show False by (auto simp: topmost_def)
    qed
    then have "set frontier = topmost E S" using 2(7) by auto
    with f topmost_insert_covered [OF 2(6,5) top cov] 2(8) show ?thesis by simp
  qed
  have alive1: "alive (tick s)" 
  proof (rule ccontr)
    assume "\<not> alive (tick s)"
    with 2(2) have "s' = tick s" by (simp add: Let_def)
    with 2(3) \<open>\<not> alive (tick s)\<close> show False by simp
  qed
  note t = workedD [OF worked_tick alive1]
  obtain known s2 where known: "reaches (tick s) existing rt = (known, s2)" by (metis surj_pair)
  obtain covers s3 where covers: "reaches s2 rt existing = (covers, s3)" by (metis surj_pair)
  show ?case
  proof (cases "existing = rt")
    case True
    with 2(2) alive1 kept show ?thesis by (simp add: Let_def)
  next
    case False
    have s2: "alive s2"
    proof (rule ccontr)
      assume dead: "\<not> alive s2"
      then have "\<not> alive s3" using workedD(1) [OF worked_reaches [OF covers]] by blast
      with 2(2,3) dead alive1 False known covers show False by (auto simp: Let_def split: if_splits)
    qed
    note k = reaches_spec [OF known s2] workedD(3) [OF worked_reaches [OF known] s2]
    show ?thesis
    proof (cases known)
      case True
      then have "(existing, rt) \<in> E\<^sup>*" using k(1) t(3) 2(4) by (simp add: trancl_into_rtrancl)
      with kept 2(2) alive1 False known True show ?thesis by (simp add: Let_def)
    next
      case unknown: False
      let ?f = "if covers then removeAll existing frontier else frontier"
      have s3: "alive s3"
        using 2(2,3) alive1 False known unknown covers by (auto simp: Let_def split: if_splits)
      have go: "addRootLoop rt rest ?f s3 = (f, s')"
        using 2(2) alive1 False known unknown covers s3 by (auto simp: Let_def)
      have same: "fe_dependents s3 = fe_dependents s"
        using workedD(3) [OF worked_reaches [OF covers] s3] k(2) t(3) by simp
      have c: "covers \<longleftrightarrow> (rt, existing) \<in> E\<^sup>+" using reaches_spec [OF covers s3] k(2) t(3) 2(4) by simp
      have nk: "(existing, rt) \<notin> E\<^sup>*" using k(1) t(3) 2(4) unknown False by (auto simp: rtrancl_eq_or_trancl)
      have "set ?f = {q \<in> topmost E S. q \<in> set rest \<or> (rt, q) \<notin> E\<^sup>+}"
        using 2(7,11) c top by (auto split: if_splits)
      moreover have "distinct ?f" using 2(8) by (simp add: distinct_removeAll)
      moreover have "\<forall>q \<in> topmost E S. q \<notin> set rest \<longrightarrow> (q, rt) \<notin> E\<^sup>*" using 2(10) nk by auto
      moreover have "\<not> (fe_frontierBudgetExceeded (tick s) \<or> existing = rt)" using alive1 False by simp
      ultimately show ?thesis
        using 2(1) [OF refl _ known [symmetric] unknown covers [symmetric] refl _ go 2(3)] s3 same 2(4,5,6,9,11) by simp
    qed
  qed
qed

lemma addFrontierRoot_spec:
  assumes "addFrontierRoot frontier rt s = (f, s')" and "alive s'" and "acyclic (graphOf (fe_dependents s))" and "finite S"
    and "set frontier = topmost (graphOf (fe_dependents s)) S" and "distinct frontier"
  shows "set f = topmost (graphOf (fe_dependents s)) (insert rt S) \<and> distinct f"
  using addRootLoop_spec [OF assms(1) [unfolded addFrontierRoot_def] assms(2) refl assms(3,4)] assms(5,6) by auto

lemma computeFrontier_spec:
  assumes "computeFrontier roots frontier s = (f, s')" and "alive s'" and "E = graphOf (fe_dependents s)" and "acyclic E"
    and "finite S" and "set frontier = topmost E S" and "distinct frontier"
  shows "set f = topmost E (S \<union> {rt \<in> set roots. \<not> inactive s rt}) \<and> distinct f"
  using assms
proof (induction roots frontier s arbitrary: S rule: computeFrontier.induct)
  case (2 rt roots frontier s)
  show ?case
  proof (cases "inactive s rt")
    case True
    then have "{r \<in> set (rt # roots). \<not> inactive s r} = {r \<in> set roots. \<not> inactive s r}" by auto
    with 2 True show ?thesis by simp
  next
    case False
    obtain f1 s1 where f1: "addFrontierRoot frontier rt s = (f1, s1)" by (metis surj_pair)
    have s1: "alive s1" using 2(3,4) False f1 by (auto split: if_splits)
    note w = workedD [OF worked_addFrontierRoot [OF f1] s1]
    have f1': "set f1 = topmost E (insert rt S) \<and> distinct f1"
      using addFrontierRoot_spec [OF f1 s1 _ 2(7)] 2(5,6,8,9) by simp
    have go: "computeFrontier roots f1 s1 = (f, s')" using 2(3) False f1 s1 by simp
    have "set f = topmost E (insert rt S \<union> {r \<in> set roots. \<not> inactive s1 r}) \<and> distinct f"
      by (rule 2(2) [OF False f1 [symmetric] _ go 2(4)]) (use s1 w 2(5,6,7) f1' in simp_all)
    moreover have "insert rt S \<union> {r \<in> set roots. \<not> inactive s1 r} = S \<union> {r \<in> set (rt # roots). \<not> inactive s r}"
      using False w by auto
    ultimately show ?thesis by simp
  qed
qed simp

lemma addRoots_spec:
  assumes "addRoots roots frontier s = (Inr f, s')" and "alive s'" and "E = graphOf (fe_dependents s)" and "acyclic E"
    and "finite S" and "set frontier = topmost E S" and "distinct frontier"
  shows "set f = topmost E (S \<union> {rt \<in> set roots. \<not> inactive s rt}) \<and> distinct f"
  using assms
proof (induction roots frontier s arbitrary: S rule: addRoots.induct)
  case (2 rt roots frontier s)
  show ?case
  proof (cases "inactive s rt")
    case True
    then have "{r \<in> set (rt # roots). \<not> inactive s r} = {r \<in> set roots. \<not> inactive s r}" by auto
    with 2 True show ?thesis by simp
  next
    case False
    obtain f1 s1 where f1: "addFrontierRoot frontier rt s = (f1, s1)" by (metis surj_pair)
    have s1: "alive s1" using 2(3,4) False f1 by (auto split: if_splits)
    note w = workedD [OF worked_addFrontierRoot [OF f1] s1]
    have f1': "set f1 = topmost E (insert rt S) \<and> distinct f1"
      using addFrontierRoot_spec [OF f1 s1 _ 2(7)] 2(5,6,8,9) by simp
    have go: "addRoots roots f1 s1 = (Inr f, s')" using 2(3) False f1 s1 by simp
    have "set f = topmost E (insert rt S \<union> {r \<in> set roots. \<not> inactive s1 r}) \<and> distinct f"
      by (rule 2(2) [OF False f1 [symmetric] _ go 2(4)]) (use s1 w 2(5,6,7) f1' in simp_all)
    moreover have "insert rt S \<union> {r \<in> set roots. \<not> inactive s1 r} = S \<union> {r \<in> set (rt # roots). \<not> inactive s r}"
      using False w by auto
    ultimately show ?thesis by simp
  qed
qed simp
end
