(* ===== verification/Frontier_Upkeep.thy ===== *)
theory Frontier_Upkeep
  imports Frontier_Reach
begin

text \<open>
  The upkeep of the dirty state, step by step: what dropping resolved roots from a node, computing its
  frontier anew and merging roots into it change, as long as the budget lasts.
\<close>

section \<open>Views of the state\<close>

abbreviation entry :: "frontier_engine \<Rightarrow> string \<Rightarrow> string \<Rightarrow> memory_status option" where
  "entry s n r \<equiv> map_of (rootsAt s n) r"

abbreviation holders :: "frontier_engine \<Rightarrow> string \<Rightarrow> string set" where
  "holders s r \<equiv> {n. entry s n r \<noteq> None}"

abbreviation rootSet :: "frontier_engine \<Rightarrow> string \<Rightarrow> string set" where
  "rootSet s n \<equiv> {r. entry s n r \<noteq> None}"

abbreviation dirtyNodes :: "frontier_engine \<Rightarrow> string \<Rightarrow> string set" where
  "dirtyNodes s r \<equiv> set (edgesAt (fe_dirtyNodesByRoot s) r)"

abbreviation entryCount :: "frontier_engine \<Rightarrow> string \<Rightarrow> int" where
  "entryCount s r \<equiv> nullish (map_of (fe_rootEntryCounts s) r) 0"

abbreviation edges :: "frontier_engine \<Rightarrow> (string \<times> string) set" where
  "edges s \<equiv> graphOf (fe_dependents s)"

lemma set_omap_keys: "set (omap_keys m) = {r. map_of m r \<noteq> None}"
  by (auto simp: omap_keys_def map_of_eq_None_iff)

lemma finite_rootSet [simp]: "finite {r. \<exists>y. map_of m r = Some y}"
  using finite_dom_map_of [of m] by (simp add: dom_def)

lemma finite_holders [simp]: "finite {n. \<exists>y. entry s n r = Some y}"
proof (rule finite_subset)
  show "{n. \<exists>y. entry s n r = Some y} \<subseteq> dom (map_of (fe_activeDirtyRoots s))"
  proof
    fix n assume "n \<in> {n. \<exists>y. entry s n r = Some y}"
    then show "n \<in> dom (map_of (fe_activeDirtyRoots s))" by (cases "map_of (fe_activeDirtyRoots s) n") auto
  qed
qed (simp add: finite_dom_map_of)

lemma nullish_upd: "nullish ((m(k \<mapsto> v)) j) d = (if j = k then v else nullish (m j) d)"
  by simp

lemma nullish_del: "nullish ((m(k := None)) j) d = (if j = k then d else nullish (m j) d)"
  by simp

section \<open>Steps that only spend work\<close>

definition quiet :: "frontier_engine \<Rightarrow> frontier_engine \<Rightarrow> bool" where
  "quiet s s' = (alive s' \<longrightarrow> alive s \<and>
     s' = s\<lparr>fe_frontierWorkUsed := fe_frontierWorkUsed s', fe_dirtyStates := fe_dirtyStates s'\<rparr>)"

lemma quiet_refl [simp]: "quiet s s"
  by (simp add: quiet_def)

lemma quiet_trans:
  assumes "quiet s u" and "quiet u v"
  shows "quiet s v"
proof -
  have "v = s\<lparr>fe_frontierWorkUsed := fe_frontierWorkUsed v, fe_dirtyStates := fe_dirtyStates v\<rparr>"
    if "u = s\<lparr>fe_frontierWorkUsed := fe_frontierWorkUsed u, fe_dirtyStates := fe_dirtyStates u\<rparr>"
      "v = u\<lparr>fe_frontierWorkUsed := fe_frontierWorkUsed v, fe_dirtyStates := fe_dirtyStates v\<rparr>"
    by (subst that(2), subst that(1)) simp
  with assms show ?thesis by (simp add: quiet_def)
qed

lemma worked_quiet: "worked s s' \<Longrightarrow> quiet s s'"
proof -
  assume w: "worked s s'"
  have "s' = s\<lparr>fe_frontierWorkUsed := fe_frontierWorkUsed s', fe_dirtyStates := fe_dirtyStates s'\<rparr>"
    if "s' = s\<lparr>fe_frontierWorkUsed := fe_frontierWorkUsed s'\<rparr>"
    by (subst that, subst (2) that) simp
  with w show "quiet s s'" by (simp add: quiet_def worked_def)
qed

lemma quiet_updateDirtyState: "quiet s (updateDirtyState i s)"
proof (cases "map_of (fe_activeDirtyRoots s) i")
  case (Some roots)
  have t: "quiet s (ticks (length roots) s)" by (rule worked_quiet [OF worked_ticks])
  moreover have "quiet u (u\<lparr>fe_dirtyStates := d\<rparr>)" for u d by (simp add: quiet_def)
  ultimately show ?thesis using Some quiet_trans [OF t] by (simp add: updateDirtyState_def Let_def)
qed (simp add: updateDirtyState_def)

lemma quietE:
  assumes "quiet s s'" and "alive s'"
  obtains w d where "alive s" "s' = s\<lparr>fe_frontierWorkUsed := w, fe_dirtyStates := d\<rparr>"
  using assms by (auto simp: quiet_def)

lemma tickE:
  assumes "alive (tick s)"
  obtains w where "alive s" "tick s = s\<lparr>fe_frontierWorkUsed := w\<rparr>"
  using worked_tick [of s] assms by (auto simp: worked_def)

section \<open>The frontier of a node\<close>

definition frontierRight :: "frontier_engine \<Rightarrow> string \<Rightarrow> bool" where
  "frontierRight s n = (distinct (frontierAt s n) \<and> set (frontierAt s n) = topmost (edges s) (rootSet s n))"

lemma refreshFrontierE:
  assumes "alive (refreshFrontier i s)" and "acyclic (edges s)"
  obtains f w d where "alive s"
    "refreshFrontier i s = s\<lparr>fe_activeFrontiers := omap_set i f (fe_activeFrontiers s), fe_frontierWorkUsed := w, fe_dirtyStates := d\<rparr>"
    "distinct f" "set f = topmost (edges s) {r. entry s i r \<noteq> None \<and> \<not> inactive s r}"
proof -
  obtain f s1 where run: "computeFrontier (omap_keys (rootsAt s i)) [] s = (f, s1)" by (metis surj_pair)
  let ?s2 = "s1\<lparr>fe_activeFrontiers := omap_set i f (fe_activeFrontiers s1)\<rparr>"
  have eq: "refreshFrontier i s = updateDirtyState i ?s2" by (simp add: refreshFrontier_def run)
  obtain w2 d2 where q: "alive ?s2" "updateDirtyState i ?s2 = ?s2\<lparr>fe_frontierWorkUsed := w2, fe_dirtyStates := d2\<rparr>"
    using quietE [OF quiet_updateDirtyState assms(1) [unfolded eq]] .
  then have s1: "alive s1" by simp
  obtain w1 d1 where s1': "alive s" "s1 = s\<lparr>fe_frontierWorkUsed := w1, fe_dirtyStates := d1\<rparr>"
    using quietE [OF worked_quiet [OF worked_computeFrontier [OF run]] s1] .
  have f: "set f = topmost (edges s) ({} \<union> {rt \<in> set (omap_keys (rootsAt s i)). \<not> inactive s rt}) \<and> distinct f"
    by (rule computeFrontier_spec [OF run s1 refl assms(2)]) simp_all
  have "refreshFrontier i s = s\<lparr>fe_activeFrontiers := omap_set i f (fe_activeFrontiers s), fe_frontierWorkUsed := w2, fe_dirtyStates := d2\<rparr>"
    by (simp add: eq q(2)) (simp add: s1'(2))
  moreover have "set f = topmost (edges s) {r. entry s i r \<noteq> None \<and> \<not> inactive s r}" using f by (simp add: set_omap_keys)
  ultimately show thesis using that [OF s1'(1)] f by blast
qed

section \<open>Dropping resolved roots\<close>

definition countsRight :: "frontier_engine \<Rightarrow> bool" where
  "countsRight s = (\<forall>r. entryCount s r = int (card (holders s r)))"

lemma countsRight_simps [simp]:
  "countsRight (s\<lparr>fe_frontierWorkUsed := w\<rparr>) = countsRight s" "countsRight (s\<lparr>fe_dirtyStates := d\<rparr>) = countsRight s"
  "countsRight (s\<lparr>fe_activeFrontiers := f\<rparr>) = countsRight s"
  by (simp_all add: countsRight_def)

text \<open>\<open>drained s C s'\<close>: the roots \<open>C\<close> are forgotten, and nothing else about the roots changes.\<close>

definition drained :: "frontier_engine \<Rightarrow> string set \<Rightarrow> frontier_engine \<Rightarrow> bool" where
  "drained s C s' =
     (set (fe_inactiveDirtyRoots s') = set (fe_inactiveDirtyRoots s) - C \<and>
      (\<forall>r. dirtyNodes s' r = (if r \<in> C then {} else dirtyNodes s r)) \<and>
      (\<forall>r. map_of (fe_affectedClosureCache s') r = (if r \<in> C then None else map_of (fe_affectedClosureCache s) r)) \<and>
      (omap_ok (fe_affectedClosureCache s) \<longrightarrow> omap_ok (fe_affectedClosureCache s')) \<and>
      fe_dependents s' = fe_dependents s \<and> fe_directDirty s' = fe_directDirty s)"

lemma drainedD:
  assumes "drained s C s'"
  shows "inactive s' r \<longleftrightarrow> inactive s r \<and> r \<notin> C" "dirtyNodes s' r = (if r \<in> C then {} else dirtyNodes s r)"
    "map_of (fe_affectedClosureCache s') r = (if r \<in> C then None else map_of (fe_affectedClosureCache s) r)"
    "omap_ok (fe_affectedClosureCache s) \<Longrightarrow> omap_ok (fe_affectedClosureCache s')"
    "fe_dependents s' = fe_dependents s" "fe_directDirty s' = fe_directDirty s"
  using assms by (simp_all add: drained_def)

lemma drained_work [simp]: "drained (s\<lparr>fe_frontierWorkUsed := w\<rparr>) C s' = drained s C s'"
  by (simp add: drained_def)

lemma drained_refl [simp]: "drained s {} s"
  by (simp add: drained_def)

lemma drained_trans: "drained s C u \<Longrightarrow> drained u D v \<Longrightarrow> drained s (C \<union> D) v"
  by (auto simp: drained_def)

lemma dropEntry_spec:
  assumes alive: "alive (dropEntry i rt s)" and counts: "countsRight s" and entry: "entry s i rt \<noteq> None"
    and ok: "\<forall>n. omap_ok (rootsAt s n)" and s': "s' = dropEntry i rt s"
  shows "\<forall>n r. entry s' n r = (if n = i \<and> r = rt then None else entry s n r)"
    and "countsRight s'" and "\<forall>n. omap_ok (rootsAt s' n)" and "fe_activeFrontiers s' = fe_activeFrontiers s"
    and "\<exists>C \<subseteq> {rt}. drained s C s' \<and> (\<forall>r \<in> C. holders s' r = {})" and "alive s"
proof -
  define s0 where "s0 = s\<lparr>fe_activeDirtyRoots := omap_set i (omap_delete rt (rootsAt s i)) (fe_activeDirtyRoots s)\<rparr>"
  have "alive (tick s0)"
    using alive by (simp add: dropEntry_def s0_def [symmetric] Let_def activeRootEntryCountsCleanup_def split: if_splits)
  then obtain w where w: "alive s0" "tick s0 = s0\<lparr>fe_frontierWorkUsed := w\<rparr>" by (rule tickE)
  show "alive s" using w(1) by (simp add: s0_def)
  define active where "active = max 0 (entryCount s rt - 1)"
  define waiting where "waiting = max 0 (nullish (map_of (fe_inactiveRootEntryCounts s) rt) 0 - 1)"
  define s1 where "s1 = s0\<lparr>fe_frontierWorkUsed := w, fe_rootEntryCounts := omap_set rt active (fe_rootEntryCounts s),
    fe_inactiveRootEntryCounts := omap_set rt waiting (fe_inactiveRootEntryCounts s),
    fe_tombstonedRootEntries := max 0 (fe_tombstonedRootEntries s - 1)\<rparr>"
  have s': "s' = (if active = 0 \<and> waiting = 0 then activeRootEntryCountsCleanup rt s1 else s1)"
    unfolding s' dropEntry_def s0_def [symmetric] w(2) by (simp add: s1_def active_def waiting_def s0_def Let_def)
  have roots: "fe_activeDirtyRoots s' = fe_activeDirtyRoots s0"
    by (simp add: s' s1_def activeRootEntryCountsCleanup_def)
  then show entries: "\<forall>n r. entry s' n r = (if n = i \<and> r = rt then None else entry s n r)"
    by (simp add: s0_def)
  have holders: "holders s' r = (if r = rt then holders s r - {i} else holders s r)" for r
    using entries by auto
  have "i \<in> holders s rt" using entry by simp
  moreover have "finite (holders s rt)" by simp
  ultimately have "0 < card (holders s rt)" "card (holders s rt - {i}) = card (holders s rt) - 1"
    by (simp_all only: card_gt_0_iff card_Diff_singleton) blast
  moreover have "entryCount s rt = int (card (holders s rt))" using counts by (simp only: countsRight_def)
  ultimately have card: "int (card (holders s rt - {i})) = entryCount s rt - 1" "0 < entryCount s rt" by simp_all
  have active: "active = int (card (holders s' rt))" using card holders by (simp add: active_def)
  have "entryCount s' r = int (card (holders s' r))" for r
  proof (cases "r = rt")
    case True
    then show ?thesis using active by (simp add: s' s1_def activeRootEntryCountsCleanup_def)
  next
    case False
    then show ?thesis using counts holders [of r] by (simp add: s' s1_def s0_def activeRootEntryCountsCleanup_def countsRight_def)
  qed
  then show "countsRight s'" by (simp add: countsRight_def)
  show "\<forall>n. omap_ok (rootsAt s' n)" using ok roots by (simp add: s0_def)
  show "fe_activeFrontiers s' = fe_activeFrontiers s"
    by (simp add: s' s1_def s0_def activeRootEntryCountsCleanup_def)
  show "\<exists>C \<subseteq> {rt}. drained s C s' \<and> (\<forall>r \<in> C. holders s' r = {})"
  proof (cases "active = 0 \<and> waiting = 0")
    case True
    have "finite (holders s' rt)" by simp
    with True active have "holders s' rt = {}" by simp
    moreover have "drained s {rt} s'"
      by (auto simp: drained_def s' True s1_def s0_def activeRootEntryCountsCleanup_def)
    ultimately show ?thesis by blast
  next
    case False
    then have "drained s {} s'" by (auto simp: drained_def s' s1_def s0_def)
    then show ?thesis by blast
  qed
qed

lemma compactLoop_spec:
  assumes "compactLoop i ks changed s = (changed', s')" and "alive s'" and "distinct ks" and "\<forall>r \<in> set ks. entry s i r \<noteq> None"
    and "countsRight s" and "\<forall>n. omap_ok (rootsAt s n)"
  shows "(\<forall>n r. entry s' n r = (if n = i \<and> r \<in> set ks \<and> inactive s r then None else entry s n r)) \<and>
    countsRight s' \<and> (\<forall>n. omap_ok (rootsAt s' n)) \<and> fe_activeFrontiers s' = fe_activeFrontiers s \<and>
    (changed' \<longleftrightarrow> changed \<or> (\<exists>r \<in> set ks. inactive s r)) \<and> alive s \<and>
    (\<exists>C \<subseteq> set (fe_inactiveDirtyRoots s). drained s C s' \<and> (\<forall>r \<in> C. holders s' r = {}))"
  using assms
proof (induction i ks changed s rule: compactLoop.induct)
  case (1 i changed s)
  have "drained s {} s" by simp
  with 1 show ?case by auto
next
  case (2 i rt rest changed s)
  have alive: "alive (tick s)" using 2(3,4) by (auto simp: Let_def split: if_splits)
  then obtain w where w: "alive s" "tick s = s\<lparr>fe_frontierWorkUsed := w\<rparr>" by (rule tickE)
  let ?s1 = "s\<lparr>fe_frontierWorkUsed := w\<rparr>"
  show ?case
  proof (cases "inactive s rt")
    case False
    have go: "compactLoop i rest changed ?s1 = (changed', s')" using 2(3) alive False by (simp add: w Let_def)
    have IH: "(\<forall>n r. entry s' n r = (if n = i \<and> r \<in> set rest \<and> inactive ?s1 r then None else entry ?s1 n r)) \<and>
      countsRight s' \<and> (\<forall>n. omap_ok (rootsAt s' n)) \<and> fe_activeFrontiers s' = fe_activeFrontiers ?s1 \<and>
      (changed' \<longleftrightarrow> changed \<or> (\<exists>r \<in> set rest. inactive ?s1 r)) \<and> alive ?s1 \<and>
      (\<exists>C \<subseteq> set (fe_inactiveDirtyRoots ?s1). drained ?s1 C s' \<and> (\<forall>r \<in> C. holders s' r = {}))"
    proof (rule 2(1) [of "?s1"])
      show "?s1 = tick s" by (simp add: w)
      show "\<not> fe_frontierBudgetExceeded ?s1" "\<not> inactive ?s1 rt" using w(1) False by simp_all
      show "compactLoop i rest changed ?s1 = (changed', s')" by (rule go)
      show "alive s'" by (rule 2(4))
      show "distinct rest" "\<forall>r \<in> set rest. entry ?s1 i r \<noteq> None" "countsRight ?s1" "\<forall>n. omap_ok (rootsAt ?s1 n)"
        using 2(5-8) by simp_all
    qed
    then obtain C where C: "C \<subseteq> set (fe_inactiveDirtyRoots ?s1)" "drained ?s1 C s'" "\<forall>r \<in> C. holders s' r = {}" by blast
    show ?thesis
    proof (intro conjI exI [of _ C])
      show "\<forall>n r. entry s' n r = (if n = i \<and> r \<in> set (rt # rest) \<and> inactive s r then None else entry s n r)"
        using IH False by auto
      show "countsRight s'" "\<forall>n. omap_ok (rootsAt s' n)" "alive s" using IH w(1) by blast+
      show "fe_activeFrontiers s' = fe_activeFrontiers s" "changed' \<longleftrightarrow> changed \<or> (\<exists>r \<in> set (rt # rest). inactive s r)"
        using IH False by simp_all
      show "C \<subseteq> set (fe_inactiveDirtyRoots s)" "drained s C s'" using C(1,2) by simp_all
    qed (rule C(3))
  next
    case True
    let ?s2 = "dropEntry i rt ?s1"
    have go: "compactLoop i rest True ?s2 = (changed', s')" using 2(3) alive True by (simp add: w Let_def)
    have alive2: "alive ?s2"
    proof (rule ccontr)
      assume "\<not> alive ?s2"
      moreover have "upkeepProof fe_frontierBudgetExceeded" by (simp add: upkeepProof_def tick_def failClosed_def invalidateAllCaches_def Let_def)
      ultimately have "\<not> alive s'" using compactLoop_upkeep [of fe_frontierBudgetExceeded ?s2 i rest True] go by simp
      with 2(4) show False by simp
    qed
    have entry1: "entry ?s1 i rt \<noteq> None" and ok1: "\<forall>n. omap_ok (rootsAt ?s1 n)" and counts1: "countsRight ?s1"
      using 2(6-8) by (simp_all add: countsRight_def)
    note drop = dropEntry_spec [OF alive2 counts1 entry1 ok1 refl]
    obtain C where C: "C \<subseteq> {rt}" "drained ?s1 C ?s2" "\<forall>r \<in> C. holders ?s2 r = {}" using drop(5) by blast
    have IH: "(\<forall>n r. entry s' n r = (if n = i \<and> r \<in> set rest \<and> inactive ?s2 r then None else entry ?s2 n r)) \<and>
      countsRight s' \<and> (\<forall>n. omap_ok (rootsAt s' n)) \<and> fe_activeFrontiers s' = fe_activeFrontiers ?s2 \<and>
      (changed' \<longleftrightarrow> True \<or> (\<exists>r \<in> set rest. inactive ?s2 r)) \<and> alive ?s2 \<and>
      (\<exists>C \<subseteq> set (fe_inactiveDirtyRoots ?s2). drained ?s2 C s' \<and> (\<forall>r \<in> C. holders s' r = {}))"
    proof (rule 2(2) [of "?s1"])
      show "\<forall>r \<in> set rest. entry ?s2 i r \<noteq> None" using 2(5,6) drop(1) by auto
    qed (use 2(4,5) alive True go w drop(2,3) in simp_all)
    then obtain D where D: "D \<subseteq> set (fe_inactiveDirtyRoots ?s2)" "drained ?s2 D s'" "\<forall>r \<in> D. holders s' r = {}" by blast
    have same: "inactive ?s2 r \<longleftrightarrow> inactive s r" if "r \<noteq> rt" for r
      using drainedD(1) [OF C(2), of r] C(1) that by auto
    have entries: "entry s' n r = (if n = i \<and> r \<in> set (rt # rest) \<and> inactive s r then None else entry s n r)" for n r
      using IH drop(1) same 2(5) True by auto
    have "holders s' r = {}" if "r \<in> C" for r
      using C(1,3) that IH by auto
    moreover have "drained s (C \<union> D) s'"
      using drained_trans [OF C(2) D(2)] by (simp add: drained_def)
    moreover have "C \<union> D \<subseteq> set (fe_inactiveDirtyRoots s)"
      using C(1) True D(1) drainedD(1) [OF C(2)] by auto
    ultimately have CD: "C \<union> D \<subseteq> set (fe_inactiveDirtyRoots s)" "drained s (C \<union> D) s'" "\<forall>r \<in> C \<union> D. holders s' r = {}"
      using D(3) by blast+
    show ?thesis
    proof (intro conjI exI [of _ "C \<union> D"])
      show "\<forall>n r. entry s' n r = (if n = i \<and> r \<in> set (rt # rest) \<and> inactive s r then None else entry s n r)"
        using entries by blast
      show "countsRight s'" "\<forall>n. omap_ok (rootsAt s' n)" "alive s" using IH w(1) by blast+
      show "fe_activeFrontiers s' = fe_activeFrontiers s" "changed' \<longleftrightarrow> changed \<or> (\<exists>r \<in> set (rt # rest). inactive s r)"
        using IH True drop(4) by simp_all
    qed (rule CD)+
  qed
qed

section \<open>The books\<close>

text \<open>
  What holds of the maintained state between the steps of an update: the entries are counted, every
  entry is listed under its root, a remembered closure is the list of its root, and the frontier of a
  node without resolved roots is right. \<open>X\<close> are the nodes whose frontier is still to be computed.
\<close>

definition booked :: "string set \<Rightarrow> frontier_engine \<Rightarrow> bool" where
  "booked X s =
     ((\<forall>n. omap_ok (rootsAt s n)) \<and> countsRight s \<and> (\<forall>n r. entry s n r \<noteq> None \<longrightarrow> n \<in> dirtyNodes s r) \<and>
      omap_ok (fe_affectedClosureCache s) \<and>
      (\<forall>r c. map_of (fe_affectedClosureCache s) r = Some c \<longrightarrow> set c = insert r (dirtyNodes s r) \<and> sorted c \<and> distinct c) \<and>
      (\<forall>n. n \<notin> X \<longrightarrow> (\<forall>r. entry s n r \<noteq> None \<longrightarrow> \<not> inactive s r) \<longrightarrow> frontierRight s n))"

lemma bookedD:
  assumes "booked X s"
  shows "\<forall>n. omap_ok (rootsAt s n)" "countsRight s" "entry s n r \<noteq> None \<Longrightarrow> n \<in> dirtyNodes s r"
    "omap_ok (fe_affectedClosureCache s)"
    "map_of (fe_affectedClosureCache s) r = Some c \<Longrightarrow> set c = insert r (dirtyNodes s r) \<and> sorted c \<and> distinct c"
    "n \<notin> X \<Longrightarrow> (\<And>r. entry s n r \<noteq> None \<Longrightarrow> \<not> inactive s r) \<Longrightarrow> frontierRight s n"
proof -
  note parts = assms [unfolded booked_def]
  show "\<forall>n. omap_ok (rootsAt s n)" "countsRight s" "omap_ok (fe_affectedClosureCache s)"
    using parts by - (elim conjE, assumption)+
  show "entry s n r \<noteq> None \<Longrightarrow> n \<in> dirtyNodes s r" using parts by blast
  show "map_of (fe_affectedClosureCache s) r = Some c \<Longrightarrow> set c = insert r (dirtyNodes s r) \<and> sorted c \<and> distinct c"
    using parts by blast
  show "n \<notin> X \<Longrightarrow> (\<And>r. entry s n r \<noteq> None \<Longrightarrow> \<not> inactive s r) \<Longrightarrow> frontierRight s n"
    using parts by blast
qed

lemma booked_simps [simp]:
  "booked X (s\<lparr>fe_frontierWorkUsed := w\<rparr>) = booked X s" "booked X (s\<lparr>fe_dirtyStates := d\<rparr>) = booked X s"
  "frontierRight (s\<lparr>fe_frontierWorkUsed := w\<rparr>) n = frontierRight s n" "frontierRight (s\<lparr>fe_dirtyStates := d\<rparr>) n = frontierRight s n"
  by (simp_all add: booked_def frontierRight_def)

lemma booked_drained:
  assumes s: "booked {} s" and C: "drained s C s'" "\<forall>r \<in> C. holders s' r = {}"
    and entries: "\<And>n r. entry s' n r = (if n = i \<and> inactive s r then None else entry s n r)"
    and ok: "\<forall>n. omap_ok (rootsAt s' n)" "countsRight s'"
    and frontiers: "\<And>n. n \<noteq> i \<Longrightarrow> frontierAt s' n = frontierAt s n" "frontierRight s' i"
  shows "booked {} s'"
  unfolding booked_def
proof (intro conjI allI impI)
  have gone: "r \<notin> C" if "entry s' n r \<noteq> None" for n r using C(2) that by blast
  show "n \<in> dirtyNodes s' r" if "entry s' n r \<noteq> None" for n r
    using that gone [OF that] bookedD(3) [OF s, of n r] drainedD(2) [OF C(1)] entries [of n r] by (auto split: if_splits)
  show "omap_ok (fe_affectedClosureCache s')" using drainedD(4) [OF C(1) bookedD(4) [OF s]] .
  fix n
  assume active: "\<forall>r. entry s' n r \<noteq> None \<longrightarrow> \<not> inactive s' r"
  show "frontierRight s' n"
  proof (cases "n = i")
    case False
    then have same: "entry s' n r = entry s n r" for r using entries by simp
    have "\<not> inactive s r" if "entry s n r \<noteq> None" for r
      using that same active gone [of n r] drainedD(1) [OF C(1)] by auto
    with bookedD(6) [OF s] have "frontierRight s n" by simp
    then show ?thesis using frontiers(1) [OF False] same drainedD(5) [OF C(1)] by (simp add: frontierRight_def)
  qed (simp add: frontiers)
next
  fix r c
  assume "map_of (fe_affectedClosureCache s') r = Some c"
  then have "r \<notin> C" "map_of (fe_affectedClosureCache s) r = Some c" using drainedD(3) [OF C(1), of r] by (auto split: if_splits)
  with bookedD(5) [OF s this(2)] drainedD(2) [OF C(1), of r]
  show "set c = insert r (dirtyNodes s' r)" "sorted c" "distinct c" by simp_all
qed (simp_all add: ok)

section \<open>Compaction\<close>

lemma exceeded_upkeep: "upkeepProof fe_frontierBudgetExceeded"
  by (simp add: upkeepProof_def tick_def failClosed_def invalidateAllCaches_def Let_def)

lemma compactResolvedRoots_spec:
  assumes run: "compactResolvedRoots i s = (changed, s')" and alive: "alive s'" and s: "booked {} s" and acyclic: "acyclic (edges s)"
  shows "\<And>n r. entry s' n r = (if n = i \<and> inactive s r then None else entry s n r)"
    and "booked {} s'" and "\<exists>C \<subseteq> set (fe_inactiveDirtyRoots s). drained s C s' \<and> (\<forall>r \<in> C. holders s' r = {})" and "alive s"
    and "\<And>r. entry s' i r \<noteq> None \<Longrightarrow> \<not> inactive s' r"
    and "frontierRight s' i"
proof -
  have claims: "(\<forall>n r. entry s' n r = (if n = i \<and> inactive s r then None else entry s n r)) \<and> booked {} s' \<and>
    (\<exists>C \<subseteq> set (fe_inactiveDirtyRoots s). drained s C s' \<and> (\<forall>r \<in> C. holders s' r = {})) \<and> alive s"
  proof (cases "\<exists>roots. map_of (fe_activeDirtyRoots s) i = Some roots \<and> fe_inactiveDirtyRoots s \<noteq> []")
    case False
    then have "s' = s" using run by (cases "map_of (fe_activeDirtyRoots s) i") (auto simp: compactResolvedRoots_def)
    moreover have "inactive s r \<Longrightarrow> entry s i r = None" for r
      using False by (cases "map_of (fe_activeDirtyRoots s) i") auto
    moreover have "drained s {} s" by simp
    ultimately show ?thesis using s alive by auto
  next
    case True
    then obtain roots where roots: "map_of (fe_activeDirtyRoots s) i = Some roots" "fe_inactiveDirtyRoots s \<noteq> []" by blast
    obtain changed1 s1 where loop: "compactLoop i (omap_keys roots) False s = (changed1, s1)" by (metis surj_pair)
    have s1: "alive s1" using run alive roots loop by (auto simp: compactResolvedRoots_def split: if_splits)
    have "distinct (omap_keys roots)" using bookedD(1) [OF s] roots by (auto simp: omap_ok_def omap_keys_def dest: spec [of _ i])
    moreover have keys: "set (omap_keys roots) = rootSet s i" using roots by (simp add: set_omap_keys)
    ultimately have spec: "(\<forall>n r. entry s1 n r = (if n = i \<and> r \<in> set (omap_keys roots) \<and> inactive s r then None else entry s n r)) \<and>
      countsRight s1 \<and> (\<forall>n. omap_ok (rootsAt s1 n)) \<and> fe_activeFrontiers s1 = fe_activeFrontiers s \<and>
      (changed1 \<longleftrightarrow> False \<or> (\<exists>r \<in> set (omap_keys roots). inactive s r)) \<and> alive s \<and>
      (\<exists>C \<subseteq> set (fe_inactiveDirtyRoots s). drained s C s1 \<and> (\<forall>r \<in> C. holders s1 r = {}))"
      by (intro compactLoop_spec [OF loop s1] bookedD(1,2) [OF s]) auto
    then obtain C where C: "C \<subseteq> set (fe_inactiveDirtyRoots s)" "drained s C s1" "\<forall>r \<in> C. holders s1 r = {}" by blast
    have entries1: "entry s1 n r = (if n = i \<and> inactive s r then None else entry s n r)" for n r
      using spec keys by (cases "n = i \<and> inactive s r") auto
    have ok1: "omap_ok (rootsAt s1 n)" for n using spec by blast
    have front1: "fe_activeFrontiers s1 = fe_activeFrontiers s" using spec by blast
    have here: "{r. entry s1 i r \<noteq> None \<and> \<not> inactive s1 r} = rootSet s1 i"
      using entries1 drainedD(1) [OF C(2)] by auto
    have edges1: "edges s1 = edges s" using drainedD(5) [OF C(2)] by simp
    have counts: "countsRight s'" if "\<And>n r. entry s' n r = entry s1 n r" "fe_rootEntryCounts s' = fe_rootEntryCounts s1"
      using spec that by (simp add: countsRight_def)
    have same: ?thesis if "\<And>n r. entry s' n r = entry s1 n r" "fe_rootEntryCounts s' = fe_rootEntryCounts s1" "\<forall>n. omap_ok (rootsAt s' n)"
      "drained s1 {} s'" "\<And>n. n \<noteq> i \<Longrightarrow> frontierAt s' n = frontierAt s1 n" "frontierRight s' i"
    proof (intro conjI allI exI [of _ C])
      show "entry s' n r = (if n = i \<and> inactive s r then None else entry s n r)" for n r using that(1) entries1 by simp
      show d: "drained s C s'" using drained_trans [OF C(2) that(4)] by simp
      show h: "\<forall>r \<in> C. holders s' r = {}" using C(3) that(1) by simp
      show "booked {} s'"
        by (rule booked_drained [OF s d h]) (use that counts entries1 spec in auto)
    qed (use C(1) spec in blast)+
    consider (quiet) "\<not> changed1" | (empty) "changed1" "rootsAt s1 i = []" | (refresh) "changed1" "rootsAt s1 i \<noteq> []" by blast
    then show ?thesis
    proof cases
      case quiet
      then have s': "s' = s1" using run roots loop by (simp add: compactResolvedRoots_def)
      have "\<not> (\<exists>r \<in> set (omap_keys roots). inactive s r)" using quiet spec by blast
      then have "\<not> inactive s r" if "entry s i r \<noteq> None" for r using that unfolding keys by blast
      moreover from this have "entry s1 i r = entry s i r" for r using entries1 [of i r] by (cases "entry s i r") auto
      moreover from calculation have "frontierRight s i" using bookedD(6) [OF s, of i] by blast
      ultimately have "frontierRight s1 i" using front1 edges1 by (simp add: frontierRight_def)
      then show ?thesis by (intro same) (simp_all add: s' ok1)
    next
      case empty
      then have s': "s' = s1\<lparr>fe_activeDirtyRoots := omap_delete i (fe_activeDirtyRoots s1),
          fe_activeFrontiers := omap_delete i (fe_activeFrontiers s1), fe_dirtyStates := omap_delete i (fe_dirtyStates s1)\<rparr>"
        using run roots loop s1 by (simp add: compactResolvedRoots_def)
      show ?thesis
      proof (rule same)
        have "nullish (if n = i then None else map_of (fe_activeDirtyRoots s1) n) [] = rootsAt s1 n" for n
          using empty(2) by simp
        then show "entry s' n r = entry s1 n r" "\<forall>n. omap_ok (rootsAt s' n)" for n r using ok1 by (simp_all add: s')
        show "frontierRight s' i" by (simp add: s' frontierRight_def)
      qed (simp_all add: s' drained_def)
    next
      case refresh
      then have s': "s' = refreshFrontier i s1" using run roots loop s1 by (simp add: compactResolvedRoots_def)
      obtain f w d where r: "refreshFrontier i s1 = s1\<lparr>fe_activeFrontiers := omap_set i f (fe_activeFrontiers s1),
          fe_frontierWorkUsed := w, fe_dirtyStates := d\<rparr>" "distinct f" "set f = topmost (edges s1) {r. entry s1 i r \<noteq> None \<and> \<not> inactive s1 r}"
        by (rule refreshFrontierE [OF alive [unfolded s'] acyclic [folded edges1]]) (rule that)
      show ?thesis
      proof (rule same)
        show "frontierRight s' i" using r(2,3) here by (simp add: s' r(1) frontierRight_def)
      qed (simp_all add: s' r(1) drained_def ok1)
    qed
  qed
  then show entries: "\<And>n r. entry s' n r = (if n = i \<and> inactive s r then None else entry s n r)" by blast
  show b: "booked {} s'" and "alive s" using claims by blast+
  show C: "\<exists>C \<subseteq> set (fe_inactiveDirtyRoots s). drained s C s' \<and> (\<forall>r \<in> C. holders s' r = {})" using claims by blast
  then obtain C where "drained s C s'" by blast
  then show here: "\<And>r. entry s' i r \<noteq> None \<Longrightarrow> \<not> inactive s' r"
    using entries drainedD(1) by (auto split: if_splits)
  show "frontierRight s' i" using bookedD(6) [OF b] here by simp
qed

section \<open>Merging\<close>

definition noted :: "string \<Rightarrow> string set \<Rightarrow> string set \<Rightarrow> frontier_engine \<Rightarrow> frontier_engine \<Rightarrow> bool" where
  "noted i N M s s' =
     ((\<exists>w m c k. s' = s\<lparr>fe_frontierWorkUsed := w, fe_dirtyNodesByRoot := m, fe_affectedClosureCache := c, fe_rootEntryCounts := k\<rparr>) \<and>
      (\<forall>r. dirtyNodes s' r = dirtyNodes s r \<union> (if r \<in> N then {i} else {})) \<and>
      (\<forall>r. entryCount s' r = entryCount s r + (if r \<in> M then 1 else 0)) \<and>
      (omap_ok (fe_affectedClosureCache s) \<longrightarrow> omap_ok (fe_affectedClosureCache s')) \<and>
      (\<forall>r c. map_of (fe_affectedClosureCache s') r = Some c \<longrightarrow>
         map_of (fe_affectedClosureCache s) r = Some c \<and> (r \<in> N \<longrightarrow> i \<in> dirtyNodes s r)))"

lemma notedD:
  assumes "noted i N M s s'"
  shows "\<exists>w m c k. s' = s\<lparr>fe_frontierWorkUsed := w, fe_dirtyNodesByRoot := m, fe_affectedClosureCache := c, fe_rootEntryCounts := k\<rparr>"
    "dirtyNodes s' r = dirtyNodes s r \<union> (if r \<in> N then {i} else {})"
    "entryCount s' r = entryCount s r + (if r \<in> M then 1 else 0)"
    "omap_ok (fe_affectedClosureCache s) \<Longrightarrow> omap_ok (fe_affectedClosureCache s')"
    "map_of (fe_affectedClosureCache s') r = Some c \<Longrightarrow> map_of (fe_affectedClosureCache s) r = Some c \<and> (r \<in> N \<longrightarrow> i \<in> dirtyNodes s r)"
    "inactive s' r = inactive s r" "fe_activeDirtyRoots s' = fe_activeDirtyRoots s" "fe_activeFrontiers s' = fe_activeFrontiers s"
    "fe_dependents s' = fe_dependents s" "alive s' = alive s" "fe_inactiveDirtyRoots s' = fe_inactiveDirtyRoots s"
proof -
  note parts = assms [unfolded noted_def]
  show w: "\<exists>w m c k. s' = s\<lparr>fe_frontierWorkUsed := w, fe_dirtyNodesByRoot := m, fe_affectedClosureCache := c, fe_rootEntryCounts := k\<rparr>"
    using parts by (elim conjE)
  show "inactive s' r = inactive s r" "fe_activeDirtyRoots s' = fe_activeDirtyRoots s" "fe_activeFrontiers s' = fe_activeFrontiers s"
    "fe_dependents s' = fe_dependents s" "alive s' = alive s" "fe_inactiveDirtyRoots s' = fe_inactiveDirtyRoots s"
    using w by auto
qed (use assms in \<open>simp_all add: noted_def\<close>)

lemma noted_work: "noted i {} {} s (s\<lparr>fe_frontierWorkUsed := w\<rparr>)"
proof -
  have "s\<lparr>fe_frontierWorkUsed := w\<rparr> = s\<lparr>fe_frontierWorkUsed := w, fe_dirtyNodesByRoot := fe_dirtyNodesByRoot s,
    fe_affectedClosureCache := fe_affectedClosureCache s, fe_rootEntryCounts := fe_rootEntryCounts s\<rparr>" by simp
  then have "\<exists>w' m c k. s\<lparr>fe_frontierWorkUsed := w\<rparr> = s\<lparr>fe_frontierWorkUsed := w', fe_dirtyNodesByRoot := m,
    fe_affectedClosureCache := c, fe_rootEntryCounts := k\<rparr>" by blast
  then show ?thesis unfolding noted_def by simp
qed

lemma noted_trans:
  assumes "noted i N M s u" and "noted i N' M' u v" and "M \<inter> M' = {}"
  shows "noted i (N \<union> N') (M \<union> M') s v"
  unfolding noted_def
proof (intro conjI allI impI)
  obtain w m c k w' m' c' k' where u: "u = s\<lparr>fe_frontierWorkUsed := w, fe_dirtyNodesByRoot := m, fe_affectedClosureCache := c, fe_rootEntryCounts := k\<rparr>"
    and v: "v = u\<lparr>fe_frontierWorkUsed := w', fe_dirtyNodesByRoot := m', fe_affectedClosureCache := c', fe_rootEntryCounts := k'\<rparr>"
    using notedD(1) [OF assms(1)] notedD(1) [OF assms(2)] by blast
  have "v = s\<lparr>fe_frontierWorkUsed := w', fe_dirtyNodesByRoot := m', fe_affectedClosureCache := c', fe_rootEntryCounts := k'\<rparr>"
    unfolding v u by simp
  then show "\<exists>w m c k. v = s\<lparr>fe_frontierWorkUsed := w, fe_dirtyNodesByRoot := m, fe_affectedClosureCache := c, fe_rootEntryCounts := k\<rparr>"
    by blast
  fix r
  show "dirtyNodes v r = dirtyNodes s r \<union> (if r \<in> N \<union> N' then {i} else {})"
    using notedD(2) [OF assms(1), of r] notedD(2) [OF assms(2), of r] by auto
  show "entryCount v r = entryCount s r + (if r \<in> M \<union> M' then 1 else 0)"
    using notedD(3) [OF assms(1), of r] notedD(3) [OF assms(2), of r] assms(3) by auto
  show "omap_ok (fe_affectedClosureCache v)" if "omap_ok (fe_affectedClosureCache s)"
    using notedD(4) [OF assms(2) notedD(4) [OF assms(1) that]] .
  fix c
  assume c: "map_of (fe_affectedClosureCache v) r = Some c"
  note u = notedD(5) [OF assms(2) c]
  note s = notedD(5) [OF assms(1) conjunct1 [OF u]]
  show "map_of (fe_affectedClosureCache s) r = Some c" using s by blast
  show "i \<in> dirtyNodes s r" if "r \<in> N \<union> N'"
    using that u s notedD(2) [OF assms(1), of r] by (auto split: if_splits)
qed

lemma noteEntry_noted:
  assumes "alive (noteEntry i rt isNew s)"
  shows "noted i {rt} (if isNew then {rt} else {}) s (noteEntry i rt isNew s)"
proof -
  define added where "added \<longleftrightarrow> i \<notin> dirtyNodes s rt"
  define s1 where "s1 = s\<lparr>fe_dirtyNodesByRoot := multiAdd rt i (fe_dirtyNodesByRoot s)\<rparr>"
  define c where "c = (if added then omap_delete rt (fe_affectedClosureCache s) else fe_affectedClosureCache s)"
  define s2 where "s2 = (if added \<and> map_of (fe_affectedClosureCache s1) rt \<noteq> None
      then tick (s1\<lparr>fe_affectedClosureCache := omap_delete rt (fe_affectedClosureCache s1)\<rparr>) else s1)"
  have eq: "noteEntry i rt isNew s = (if isNew then s2\<lparr>fe_rootEntryCounts := omap_set rt (nullish (map_of (fe_rootEntryCounts s2) rt) 0 + 1)
      (fe_rootEntryCounts s2)\<rparr> else s2)"
    by (simp add: noteEntry_def s2_def s1_def added_def Let_def)
  have "alive s2" using assms by (simp add: eq split: if_splits)
  have "\<exists>w. s2 = s1\<lparr>fe_affectedClosureCache := c, fe_frontierWorkUsed := w\<rparr>"
  proof (cases "added \<and> map_of (fe_affectedClosureCache s1) rt \<noteq> None")
    case True
    with \<open>alive s2\<close> have "alive (tick (s1\<lparr>fe_affectedClosureCache := omap_delete rt (fe_affectedClosureCache s1)\<rparr>))" by (simp add: s2_def)
    then obtain w where "tick (s1\<lparr>fe_affectedClosureCache := omap_delete rt (fe_affectedClosureCache s1)\<rparr>) =
      s1\<lparr>fe_affectedClosureCache := omap_delete rt (fe_affectedClosureCache s1), fe_frontierWorkUsed := w\<rparr>" by (rule tickE)
    then have "s2 = s1\<lparr>fe_affectedClosureCache := c, fe_frontierWorkUsed := w\<rparr>" using True by (simp add: s2_def c_def s1_def)
    then show ?thesis by blast
  next
    case False
    then have "c = fe_affectedClosureCache s1" by (auto simp: c_def s1_def omap_delete_absent)
    with False have "s2 = s1\<lparr>fe_affectedClosureCache := c, fe_frontierWorkUsed := fe_frontierWorkUsed s1\<rparr>" by (auto simp: s2_def)
    then show ?thesis by blast
  qed
  then obtain w where w: "s2 = s1\<lparr>fe_affectedClosureCache := c, fe_frontierWorkUsed := w\<rparr>" by blast
  define k where "k = (if isNew then omap_set rt (entryCount s rt + 1) (fe_rootEntryCounts s) else fe_rootEntryCounts s)"
  have final: "noteEntry i rt isNew s = s\<lparr>fe_frontierWorkUsed := w, fe_dirtyNodesByRoot := multiAdd rt i (fe_dirtyNodesByRoot s),
      fe_affectedClosureCache := c, fe_rootEntryCounts := k\<rparr>"
    by (simp add: eq w s1_def k_def)
  then have ex: "\<exists>w m c k. noteEntry i rt isNew s = s\<lparr>fe_frontierWorkUsed := w, fe_dirtyNodesByRoot := m,
      fe_affectedClosureCache := c, fe_rootEntryCounts := k\<rparr>" by blast
  have nodes: "set (edgesAt (multiAdd rt i (fe_dirtyNodesByRoot s)) r) = dirtyNodes s r \<union> (if r \<in> {rt} then {i} else {})" for r
    using members_multiAdd [of rt i "fe_dirtyNodesByRoot s" r] by (simp add: members_def)
  have cache: "map_of c r = Some x \<Longrightarrow> map_of (fe_affectedClosureCache s) r = Some x \<and> (r \<in> {rt} \<longrightarrow> i \<in> dirtyNodes s r)" for r x
    by (auto simp: c_def added_def split: if_splits)
  have ok: "omap_ok (fe_affectedClosureCache s) \<Longrightarrow> omap_ok c" by (simp add: c_def)
  have "noted i {rt} (if isNew then {rt} else {}) s (s\<lparr>fe_frontierWorkUsed := w, fe_dirtyNodesByRoot := multiAdd rt i (fe_dirtyNodesByRoot s),
      fe_affectedClosureCache := c, fe_rootEntryCounts := k\<rparr>)"
    unfolding noted_def
  proof (intro conjI allI impI)
    show "\<exists>w' m c' k'. s\<lparr>fe_frontierWorkUsed := w, fe_dirtyNodesByRoot := multiAdd rt i (fe_dirtyNodesByRoot s),
      fe_affectedClosureCache := c, fe_rootEntryCounts := k\<rparr> = s\<lparr>fe_frontierWorkUsed := w', fe_dirtyNodesByRoot := m,
      fe_affectedClosureCache := c', fe_rootEntryCounts := k'\<rparr>" using ex unfolding final .
  qed (use nodes cache ok in \<open>auto simp: k_def\<close>)
  then show ?thesis by (simp only: final)
qed

text \<open>\<open>raises s i incoming\<close>: the roots whose entry at \<open>i\<close> the incoming map adds or makes worse.\<close>

definition raises :: "(string, memory_status) omap \<Rightarrow> (string, memory_status) omap \<Rightarrow> frontier_engine \<Rightarrow> string set" where
  "raises roots incoming s = {r. \<not> inactive s r \<and> (\<exists>st. map_of incoming r = Some st \<and>
     (\<forall>p. map_of roots r = Some p \<longrightarrow> statusPriority p < statusPriority st))}"

lemma raises_Cons:
  assumes "omap_ok ((rt, st) # incoming)"
  shows "raises roots ((rt, st) # incoming) s = raises (roots :: (string, memory_status) omap) incoming s \<union>
    {r. r = rt \<and> \<not> inactive s rt \<and> (\<forall>p. map_of roots rt = Some p \<longrightarrow> statusPriority p < statusPriority st)}"
    "rt \<notin> raises roots incoming s" "raises (omap_set rt v roots) incoming s = raises roots incoming s"
proof -
  have absent: "map_of incoming rt = None" using assms by (simp add: omap_ok_def map_of_eq_None_iff)
  then show "raises roots ((rt, st) # incoming) s = raises roots incoming s \<union>
    {r. r = rt \<and> \<not> inactive s rt \<and> (\<forall>p. map_of roots rt = Some p \<longrightarrow> statusPriority p < statusPriority st)}"
    by (auto simp: raises_def)
  show "rt \<notin> raises roots incoming s" "raises (omap_set rt v roots) incoming s = raises roots incoming s"
    using absent by (auto simp: raises_def)
qed

lemma raises_cong: "(\<And>r. inactive s' r = inactive s r) \<Longrightarrow> raises roots incoming s' = raises roots incoming s"
  by (simp add: raises_def)

definition merged :: "string \<Rightarrow> (string, memory_status) omap \<Rightarrow> (string, memory_status) omap \<Rightarrow> bool \<Rightarrow> frontier_engine
     \<Rightarrow> bool \<Rightarrow> (string, memory_status) omap \<Rightarrow> frontier_engine \<Rightarrow> bool" where
  "merged i incoming roots changed s changed' roots' s' =
     ((changed' \<longleftrightarrow> changed \<or> raises roots incoming s \<noteq> {}) \<and>
      (\<forall>r. map_of roots' r = (if r \<in> raises roots incoming s then map_of incoming r else map_of roots r)) \<and>
      (omap_ok roots \<longrightarrow> omap_ok roots') \<and>
      noted i (raises roots incoming s) {r \<in> raises roots incoming s. map_of roots r = None} s s' \<and> alive s)"

lemma mergeLoop_spec:
  assumes "mergeLoop i incoming roots changed s = ((changed', roots'), s')" and "alive s'" and "omap_ok incoming"
  shows "merged i incoming roots changed s changed' roots' s'"
  using assms
proof (induction i incoming roots changed s rule: mergeLoop.induct)
  case (1 i roots changed s)
  have "raises roots [] s = {}" by (simp add: raises_def)
  moreover have "noted i {} {} s s" using noted_work [of i s "fe_frontierWorkUsed s"] by simp
  ultimately show ?case using 1 by (simp add: merged_def)
next
  case (2 i rt st incoming roots changed s)
  note cons = raises_Cons [OF 2(7)]
  have ok: "omap_ok incoming" using 2(7) by (simp add: omap_ok_def)
  have absent: "map_of incoming rt = None" using 2(7) by (simp add: omap_ok_def map_of_eq_None_iff)
  show ?case
  proof (cases "inactive s rt")
    case True
    then have "mergeLoop i incoming roots changed s = ((changed', roots'), s')" using 2(5) by simp
    from 2(1) [OF True this 2(6) ok] have IH: "merged i incoming roots changed s changed' roots' s'" .
    have "raises roots ((rt, st) # incoming) s = raises roots incoming s" using cons(1) True by auto
    with IH cons(2) show ?thesis by (auto simp: merged_def)
  next
    case False
    have alive: "alive (tick s)" using 2(5,6) False by (auto simp: Let_def split: if_splits)
    then obtain w where w: "alive s" "tick s = s\<lparr>fe_frontierWorkUsed := w\<rparr>" by (rule tickE)
    let ?s1 = "s\<lparr>fe_frontierWorkUsed := w\<rparr>"
    have s1: "noted i {} {} s ?s1" by (rule noted_work)
    define high where "high \<longleftrightarrow> (\<forall>p. map_of roots rt = Some p \<longrightarrow> statusPriority p < statusPriority st)"
    have cons1: "raises roots ((rt, st) # incoming) s = raises roots incoming s \<union> (if high then {rt} else {})"
      using cons(1) False by (auto simp: high_def)
    show ?thesis
    proof (cases high)
      case low: False
      then obtain p where p: "map_of roots rt = Some p" "statusPriority p \<ge> statusPriority st" by (auto simp: high_def)
      have go: "mergeLoop i incoming roots changed ?s1 = ((changed', roots'), s')"
        using 2(5) False alive p by (simp add: w Let_def)
      have "merged i incoming roots changed ?s1 changed' roots' s'"
        by (rule 2(3) [of ?s1 p]) (use False w p go 2(6) ok in simp_all)
      then have IH: "merged i incoming roots changed ?s1 changed' roots' s'" .
      have "raises roots incoming ?s1 = raises roots incoming s" by (rule raises_cong) simp
      with IH have parts: "changed' \<longleftrightarrow> changed \<or> raises roots incoming s \<noteq> {}"
        "\<forall>r. map_of roots' r = (if r \<in> raises roots incoming s then map_of incoming r else map_of roots r)"
        "omap_ok roots \<longrightarrow> omap_ok roots'" "noted i (raises roots incoming s) {r \<in> raises roots incoming s. map_of roots r = None} ?s1 s'"
        by (simp_all add: merged_def)
      have n: "noted i (raises roots incoming s) {r \<in> raises roots incoming s. map_of roots r = None} s s'"
        using noted_trans [OF s1 parts(4)] by simp
      have eq: "raises roots ((rt, st) # incoming) s = raises roots incoming s" using cons1 low by simp
      have "\<forall>r. map_of roots' r = (if r \<in> raises roots incoming s then map_of ((rt, st) # incoming) r else map_of roots r)"
        using parts(2) cons(2) by auto
      with parts n w(1) show ?thesis unfolding merged_def eq by simp
    next
      case True
      define isNew where "isNew \<longleftrightarrow> map_of roots rt = None"
      let ?s2 = "noteEntry i rt isNew ?s1"
      have go: "mergeLoop i incoming (omap_set rt st roots) True ?s2 = ((changed', roots'), s')"
        using 2(5) False alive True by (cases "map_of roots rt") (auto simp: w Let_def isNew_def high_def not_le)
      have alive2: "alive ?s2"
        using mergeLoop_upkeep [OF exceeded_upkeep, of ?s2 i incoming "omap_set rt st roots" True] go 2(6) by auto
      have IH: "merged i incoming (omap_set rt st roots) True ?s2 changed' roots' s'"
      proof (cases "map_of roots rt")
        case None
        then have isNew: "isNew = True" by (simp add: isNew_def)
        show ?thesis unfolding isNew
          by (rule 2(2) [of ?s1]) (use False w None go [unfolded isNew] 2(6) ok in simp_all)
      next
        case (Some p)
        then have isNew: "isNew = False" and p: "\<not> statusPriority p \<ge> statusPriority st"
          using True by (simp_all add: isNew_def high_def not_le)
        show ?thesis unfolding isNew
          by (rule 2(4) [of ?s1 p]) (use False w Some p go [unfolded isNew] 2(6) ok in simp_all)
      qed
      have s2: "noted i {rt} (if isNew then {rt} else {}) s ?s2"
        using noted_trans [OF s1 noteEntry_noted [OF alive2]] by simp
      have r2: "raises (omap_set rt st roots) incoming ?s2 = raises roots incoming s"
        using raises_cong [of ?s2 s] notedD(6) [OF s2] cons(3) by metis
      have parts: "changed'"
        "\<forall>r. map_of roots' r = (if r \<in> raises roots incoming s then map_of incoming r else map_of (omap_set rt st roots) r)"
        "omap_ok (omap_set rt st roots) \<longrightarrow> omap_ok roots'"
        "noted i (raises roots incoming s) {r \<in> raises roots incoming s. map_of (omap_set rt st roots) r = None} ?s2 s'"
        using IH unfolding merged_def r2 by blast+
      have "{rt} \<union> raises roots incoming s = raises roots ((rt, st) # incoming) s" using cons1 True by simp
      moreover have "(if isNew then {rt} else {}) \<union> {r \<in> raises roots incoming s. map_of (omap_set rt st roots) r = None}
          = {r \<in> raises roots ((rt, st) # incoming) s. map_of roots r = None}"
        using cons1 True cons(2) by (auto simp: isNew_def)
      moreover have "(if isNew then {rt} else {}) \<inter> {r \<in> raises roots incoming s. map_of (omap_set rt st roots) r = None} = {}"
        using cons(2) by auto
      ultimately have n: "noted i (raises roots ((rt, st) # incoming) s) {r \<in> raises roots ((rt, st) # incoming) s. map_of roots r = None} s s'"
        using noted_trans [OF s2 parts(4)] by simp
      have "\<forall>r. map_of roots' r = (if r \<in> raises roots ((rt, st) # incoming) s then map_of ((rt, st) # incoming) r else map_of roots r)"
        using parts(2) cons1 True cons(2) by auto
      moreover have "raises roots ((rt, st) # incoming) s \<noteq> {}" using cons1 True by simp
      ultimately show ?thesis unfolding merged_def using parts(1,3) n w(1) by simp
    qed
  qed
qed

definition mergedAt :: "string \<Rightarrow> (string, memory_status) omap \<Rightarrow> string set \<Rightarrow> frontier_engine \<Rightarrow> frontier_engine \<Rightarrow> bool" where
  "mergedAt i incoming R s s' =
     ((\<forall>n r. entry s' n r = (if n = i \<and> inactive s r then None else if n = i \<and> r \<in> R then map_of incoming r else entry s n r)) \<and>
      (\<exists>C \<subseteq> set (fe_inactiveDirtyRoots s). (\<forall>r. inactive s' r \<longleftrightarrow> inactive s r \<and> r \<notin> C) \<and> (\<forall>r \<in> C. holders s' r = {}) \<and>
         (\<forall>r. dirtyNodes s' r = (if r \<in> C then {} else dirtyNodes s r \<union> (if r \<in> R then {i} else {})))) \<and>
      booked {} s' \<and> alive s \<and> fe_dependents s' = fe_dependents s \<and> fe_directDirty s' = fe_directDirty s)"

lemma mergedAtD:
  assumes "mergedAt i incoming R s s'"
  shows "entry s' n r = (if n = i \<and> inactive s r then None else if n = i \<and> r \<in> R then map_of incoming r else entry s n r)"
    "\<exists>C \<subseteq> set (fe_inactiveDirtyRoots s). (\<forall>r. inactive s' r \<longleftrightarrow> inactive s r \<and> r \<notin> C) \<and> (\<forall>r \<in> C. holders s' r = {}) \<and>
       (\<forall>r. dirtyNodes s' r = (if r \<in> C then {} else dirtyNodes s r \<union> (if r \<in> R then {i} else {})))"
    "booked {} s'" "alive s" "fe_dependents s' = fe_dependents s" "fe_directDirty s' = fe_directDirty s"
  using assms unfolding mergedAt_def by blast+

lemma booked_merge:
  assumes s: "booked {} s" and N: "noted i N {r \<in> N. entry s i r = None} s u"
    and s': "s' = u\<lparr>fe_activeDirtyRoots := omap_set i roots (fe_activeDirtyRoots u),
        fe_activeFrontiers := omap_set i f (fe_activeFrontiers u), fe_frontierWorkUsed := w, fe_dirtyStates := d\<rparr>"
    and roots: "\<And>r. map_of roots r = (if r \<in> N then map_of incoming r else entry s i r)" "omap_ok roots" "\<And>r. r \<in> N \<Longrightarrow> map_of incoming r \<noteq> None"
    and f: "distinct f" "set f = topmost (edges s) {r. map_of roots r \<noteq> None}"
  shows "booked {} s'"
  unfolding booked_def
proof (intro conjI allI impI)
  have entries: "entry s' n r = (if n = i then map_of roots r else entry s n r)" for n r
    using notedD(7) [OF N] by (simp add: s')
  have nodes: "dirtyNodes s' r = dirtyNodes s r \<union> (if r \<in> N then {i} else {})" for r
    using notedD(2) [OF N, of r] by (simp add: s')
  show "omap_ok (rootsAt s' n)" for n
    using bookedD(1) [OF s] roots(2) notedD(7) [OF N] by (simp add: s')
  show "countsRight s'"
    unfolding countsRight_def
  proof
    fix r
    have count: "entryCount s' r = entryCount s r + (if r \<in> N \<and> entry s i r = None then 1 else 0)"
      using notedD(3) [OF N, of r] by (simp add: s')
    have old: "entryCount s r = int (card (holders s r))" using bookedD(2) [OF s] by (simp only: countsRight_def)
    show "entryCount s' r = int (card (holders s' r))"
    proof (cases "r \<in> N \<and> entry s i r = None")
      case True
      then have more: "holders s' r = insert i (holders s r)" and new: "i \<notin> holders s r"
        using entries roots(1,3) by auto
      have "finite (holders s r)" by simp
      from card_insert_disjoint [OF this new] have "card (holders s' r) = Suc (card (holders s r))" unfolding more .
      with True count old show ?thesis by simp
    next
      case False
      then have "holders s' r = holders s r" using entries roots(1,3) by auto
      then have "card (holders s' r) = card (holders s r)" by (rule arg_cong)
      with False count old show ?thesis by simp
    qed
  qed
  show "n \<in> dirtyNodes s' r" if "entry s' n r \<noteq> None" for n r
    using that entries [of n r] roots(1) [of r] nodes [of r] bookedD(3) [OF s, of n r] by (auto split: if_splits)
  show "omap_ok (fe_affectedClosureCache s')" using notedD(4) [OF N bookedD(4) [OF s]] by (simp add: s')
  fix r c
  assume "map_of (fe_affectedClosureCache s') r = Some c"
  then have "map_of (fe_affectedClosureCache u) r = Some c" by (simp add: s')
  from notedD(5) [OF N this] have c: "map_of (fe_affectedClosureCache s) r = Some c" "r \<in> N \<longrightarrow> i \<in> dirtyNodes s r" by blast+
  from bookedD(5) [OF s c(1)] c(2) show "set c = insert r (dirtyNodes s' r)" "sorted c" "distinct c"
    unfolding nodes by auto
next
  fix n
  have entries: "entry s' n r = (if n = i then map_of roots r else entry s n r)" for n r
    using notedD(7) [OF N] by (simp add: s')
  have graph: "edges s' = edges s" using notedD(9) [OF N] by (simp add: s')
  have idle: "inactive s' r = inactive s r" for r using notedD(6) [OF N, of r] by (simp add: s')
  assume active: "\<forall>r. entry s' n r \<noteq> None \<longrightarrow> \<not> inactive s' r"
  show "frontierRight s' n"
  proof (cases "n = i")
    case True
    then show ?thesis using f notedD(9) [OF N] by (simp add: s' frontierRight_def)
  next
    case False
    then have "entry s' n r = entry s n r" for r using entries by simp
    with active idle have "\<And>r. entry s n r \<noteq> None \<Longrightarrow> \<not> inactive s r" by auto
    with bookedD(6) [OF s] have "frontierRight s n" by simp
    then show ?thesis using False notedD(7-9) [OF N] by (simp add: s' frontierRight_def)
  qed
qed

lemma addRoots_Inl_dead: "addRoots roots frontier s = (Inl u, s') \<Longrightarrow> \<not> alive s'"
  by (induction roots frontier s rule: addRoots.induct) (auto split: if_splits prod.splits)

lemma mergeDirtyState_spec:
  assumes run: "mergeDirtyState i incoming s = (changed, s')" and alive: "alive s'" and s: "booked {} s" and acyclic: "acyclic (edges s)"
    and ok: "omap_ok incoming"
    and inc: "\<And>r. map_of incoming r \<noteq> None \<Longrightarrow> inactive s r \<Longrightarrow> \<exists>n. n \<noteq> i \<and> entry s n r \<noteq> None"
  shows "mergedAt i incoming (raises (rootsAt s i) incoming s) s s'" and "changed \<longleftrightarrow> raises (rootsAt s i) incoming s \<noteq> {}"
proof -
  define R where "R = raises (rootsAt s i) incoming s"
  obtain repaired s1 where fix1: "(if fe_inactiveDirtyRoots s \<noteq> [] then compactResolvedRoots i s else (False, s)) = (repaired, s1)"
    by (metis surj_pair)
  have s1: "alive s1" using run alive fix1 by (auto simp: mergeDirtyState_def split: if_splits)
  have compact: "(\<forall>n r. entry s1 n r = (if n = i \<and> inactive s r then None else entry s n r)) \<and> booked {} s1 \<and> alive s \<and>
    (\<exists>C \<subseteq> set (fe_inactiveDirtyRoots s). drained s C s1 \<and> (\<forall>r \<in> C. holders s1 r = {}))"
  proof (cases "fe_inactiveDirtyRoots s = []")
    case True
    then have "s1 = s" using fix1 by simp
    moreover have "drained s {} s" by simp
    ultimately show ?thesis using True s s1 by auto
  next
    case False
    then have "compactResolvedRoots i s = (repaired, s1)" using fix1 by simp
    from compactResolvedRoots_spec [OF this s1 s acyclic] show ?thesis by blast
  qed
  have entries1: "entry s1 n r = (if n = i \<and> inactive s r then None else entry s n r)" for n r using compact by blast
  have b1: "booked {} s1" using compact by blast
  obtain C where C: "C \<subseteq> set (fe_inactiveDirtyRoots s)" "drained s C s1" "\<forall>r \<in> C. holders s1 r = {}" using compact by blast
  note D = drainedD [OF C(2)]
  have active1: "\<not> inactive s1 r" if "entry s1 i r \<noteq> None" for r using that entries1 [of i r] D(1) [of r] by (auto split: if_splits)
  have same: "inactive s1 r \<longleftrightarrow> inactive s r" if "map_of incoming r \<noteq> None" for r
  proof -
    have "r \<notin> C" if r: "inactive s r"
    proof -
      obtain n where "n \<noteq> i" "entry s n r \<noteq> None" using inc \<open>map_of incoming r \<noteq> None\<close> r by blast
      then have "n \<in> holders s1 r" using entries1 [of n r] by simp
      with C(3) show ?thesis by blast
    qed
    with D(1) [of r] show ?thesis by blast
  qed
  have R1: "raises (rootsAt s1 i) incoming s1 = R"
  proof (rule set_eqI)
    fix r
    show "r \<in> raises (rootsAt s1 i) incoming s1 \<longleftrightarrow> r \<in> R"
    proof (cases "map_of incoming r = None")
      case False
      then show ?thesis using same [of r] entries1 [of i r] by (auto simp: R_def raises_def)
    qed (simp add: R_def raises_def)
  qed
  have RI: "map_of incoming r \<noteq> None" "\<not> inactive s r" if "r \<in> R" for r using that by (auto simp: R_def raises_def)
  obtain ch roots s2 where loop: "mergeLoop i incoming (rootsAt s1 i) False s1 = ((ch, roots), s2)" by (metis surj_pair)
  define s3 where "s3 = tick (s2\<lparr>fe_activeDirtyRoots := omap_set i roots (fe_activeDirtyRoots s2)\<rparr>)"
  obtain frontier s4 where comp: "(if repaired then computeFrontier (omap_keys roots) [] s3 else (frontierAt s3 i, s3)) = (frontier, s4)"
    by (metis surj_pair)
  have result: "(changed, s') = (if \<not> ch then (False, s2) else if fe_frontierBudgetExceeded (tick s4) then (False, tick s4)
      else case addRoots (omap_keys incoming) frontier (tick s4) of (Inl u, s6) \<Rightarrow> (False, s6)
        | (Inr frontier', s6) \<Rightarrow> (True, updateDirtyState i (tick (s6\<lparr>fe_activeFrontiers := omap_set i frontier' (fe_activeFrontiers s6)\<rparr>))))"
    unfolding run [symmetric] mergeDirtyState_def using s1 by (simp add: fix1 loop s3_def [symmetric] comp Let_def)
  have s34: "quiet s3 s4"
    using comp worked_quiet [OF worked_computeFrontier] by (auto split: if_splits)
  have "mergedAt i incoming R s s' \<and> (changed \<longleftrightarrow> R \<noteq> {})"
  proof (cases ch)
    case False
    then have s': "s' = s2" "\<not> changed" using result by simp_all
    from mergeLoop_spec [OF loop alive [unfolded s'] ok] False
    have "R = {}" "noted i R {r \<in> R. entry s1 i r = None} s1 s2" unfolding merged_def R1 by auto
    then have N: "R = {}" "noted i {} {} s1 s'" using s' by simp_all
    have "mergedAt i incoming R s s'"
      unfolding mergedAt_def
    proof (intro conjI exI [of _ C] allI)
      have e: "entry s' n r = entry s1 n r" for n r using notedD(7) [OF N(2)] by simp
      show "entry s' n r = (if n = i \<and> inactive s r then None else if n = i \<and> r \<in> R then map_of incoming r else entry s n r)" for n r
        using e entries1 N(1) by simp
      show "inactive s' r \<longleftrightarrow> inactive s r \<and> r \<notin> C" for r using notedD(6) [OF N(2)] D(1) by simp
      show "\<forall>r \<in> C. holders s' r = {}" using C(3) e by simp
      show "dirtyNodes s' r = (if r \<in> C then {} else dirtyNodes s r \<union> (if r \<in> R then {i} else {}))" for r
        using notedD(2) [OF N(2), of r] D(2) [of r] N(1) by simp
      obtain w m c k where rec: "s' = s1\<lparr>fe_frontierWorkUsed := w, fe_dirtyNodesByRoot := m, fe_affectedClosureCache := c, fe_rootEntryCounts := k\<rparr>"
        using notedD(1) [OF N(2)] by blast
      show "fe_dependents s' = fe_dependents s" "fe_directDirty s' = fe_directDirty s" using rec D(5,6) by simp_all
      show "booked {} s'"
        unfolding booked_def
      proof (intro conjI allI impI)
        show "countsRight s'" using notedD(3) [OF N(2)] bookedD(2) [OF b1] e by (simp add: countsRight_def)
        show "omap_ok (fe_affectedClosureCache s')" using notedD(4) [OF N(2) bookedD(4) [OF b1]] .
        show "omap_ok (rootsAt s' n)" for n using bookedD(1) [OF b1] rec by simp
        show "n \<in> dirtyNodes s' r" if "entry s' n r \<noteq> None" for n r
          using that e bookedD(3) [OF b1, of n r] notedD(2) [OF N(2), of r] by simp
        show "frontierRight s' n" if "\<forall>r. entry s' n r \<noteq> None \<longrightarrow> \<not> inactive s' r" for n
          using bookedD(6) [OF b1, of n] that rec by (simp add: frontierRight_def)
        fix r c assume "map_of (fe_affectedClosureCache s') r = Some c"
        from bookedD(5) [OF b1 conjunct1 [OF notedD(5) [OF N(2) this]]] notedD(2) [OF N(2), of r]
        show "set c = insert r (dirtyNodes s' r)" "sorted c" "distinct c" by simp_all
      qed
    qed (use C(1) compact in blast)+
    with s' N(1) show ?thesis by simp
  next
    case True
    have s5: "alive (tick s4)" using result True alive by (auto split: if_splits)
    then obtain frontier' s6 where add: "addRoots (omap_keys incoming) frontier (tick s4) = (Inr frontier', s6)"
      "changed" "s' = updateDirtyState i (tick (s6\<lparr>fe_activeFrontiers := omap_set i frontier' (fe_activeFrontiers s6)\<rparr>))" 
    proof -
      obtain f s6 where f: "addRoots (omap_keys incoming) frontier (tick s4) = (f, s6)" by (metis surj_pair)
      show thesis
      proof (cases f)
        case (Inl u)
        then have "s' = s6" using result True s5 f by simp
        moreover have "\<not> alive s6" by (rule addRoots_Inl_dead [OF f [unfolded Inl]])
        ultimately show thesis using alive by simp
      next
        case (Inr f')
        then show thesis using that [of f' s6] f result True s5 by simp
      qed
    qed
    obtain w d where last: "s' = s6\<lparr>fe_activeFrontiers := omap_set i frontier' (fe_activeFrontiers s6), fe_frontierWorkUsed := w, fe_dirtyStates := d\<rparr>"
      and s6: "alive s6"
    proof -
      let ?s7 = "s6\<lparr>fe_activeFrontiers := omap_set i frontier' (fe_activeFrontiers s6)\<rparr>"
      obtain w' d where "alive (tick ?s7)" "s' = (tick ?s7)\<lparr>fe_frontierWorkUsed := w', fe_dirtyStates := d\<rparr>"
        by (rule quietE [OF quiet_updateDirtyState alive [unfolded add(3)], folded add(3)])
      moreover from this(1) obtain w where "alive ?s7" "tick ?s7 = ?s7\<lparr>fe_frontierWorkUsed := w\<rparr>" by (rule tickE)
      ultimately show thesis using that [of d w'] by simp
    qed
    obtain w4 d4 where s4: "alive s4" "s6 = s4\<lparr>fe_frontierWorkUsed := w4, fe_dirtyStates := d4\<rparr>"
    proof (rule quietE [OF quiet_trans [OF worked_quiet [OF worked_tick] worked_quiet [OF worked_addRoots [OF add(1)]]] s6])
    qed (rule that)
    obtain w3 d3 where s3: "alive s3" "s4 = s3\<lparr>fe_frontierWorkUsed := w3, fe_dirtyStates := d3\<rparr>"
      by (rule quietE [OF s34 s4(1)]) (rule that)
    obtain w2 where s2: "alive (s2\<lparr>fe_activeDirtyRoots := omap_set i roots (fe_activeDirtyRoots s2)\<rparr>)"
      "s3 = s2\<lparr>fe_activeDirtyRoots := omap_set i roots (fe_activeDirtyRoots s2), fe_frontierWorkUsed := w2\<rparr>"
      by (rule tickE [OF s3(1) [unfolded s3_def], folded s3_def]) (rule that)
    from s2(1) have alive2: "alive s2" by simp
    note m = mergeLoop_spec [OF loop alive2 ok, unfolded merged_def R1]
    have N: "R \<noteq> {}" "noted i R {r \<in> R. entry s1 i r = None} s1 s2" "omap_ok roots"
      and roots: "\<And>r. map_of roots r = (if r \<in> R then map_of incoming r else entry s1 i r)"
      using m True bookedD(1) [OF b1] by blast+
    have s': "s' = s2\<lparr>fe_activeDirtyRoots := omap_set i roots (fe_activeDirtyRoots s2),
        fe_activeFrontiers := omap_set i frontier' (fe_activeFrontiers s2), fe_frontierWorkUsed := w, fe_dirtyStates := d\<rparr>"
      unfolding last s4(2) s3(2) s2(2) by simp
    define S where "S = {r. map_of roots r \<noteq> None}"
    have fin: "finite S" "finite (rootSet s1 i)" by (simp_all add: S_def)
    have idle: "inactive s3 r = inactive s1 r" for r using notedD(6) [OF N(2)] by (simp add: s2(2))
    have graph: "edges s3 = edges s" using notedD(9) [OF N(2)] D(5) by (simp add: s2(2))
    have active: "\<not> inactive s1 r" if "r \<in> S" for r
      using that roots [of r] active1 [of r] same [of r] RI [of r] by (auto simp: S_def split: if_splits)
    obtain w5 where s5': "alive s4" "tick s4 = s4\<lparr>fe_frontierWorkUsed := w5\<rparr>" by (rule tickE [OF s5])
    have idle5: "inactive (tick s4) r = inactive s1 r" and graph5: "edges (tick s4) = edges s" for r
      using idle [of r] graph by (simp_all add: s5'(2) s4(2)) (simp_all add: s3(2))
    let ?K = "{r \<in> set (omap_keys incoming). \<not> inactive (tick s4) r}"
    have "r \<in> S" if "r \<in> ?K" for r
    proof (cases "r \<in> R")
      case True
      then show ?thesis using roots [of r] RI [of r] by (simp add: S_def)
    next
      case False
      from that have "map_of incoming r \<noteq> None" "\<not> inactive s1 r" using idle5 by (simp_all add: set_omap_keys)
      with False have "entry s1 i r \<noteq> None" unfolding R1 [symmetric] raises_def by auto
      with False show ?thesis using roots [of r] by (simp add: S_def)
    qed
    moreover have "r \<in> rootSet s1 i \<union> ?K" if "r \<in> S" for r
      using that active [OF that] roots [of r] RI [of r] idle5 by (auto simp: S_def set_omap_keys split: if_splits)
    moreover have "r \<in> S" if "r \<in> rootSet s1 i" for r
      using that roots [of r] RI [of r] by (auto simp: S_def)
    ultimately have sets: "S \<union> ?K = S" "rootSet s1 i \<union> ?K = S" by blast+
    have "set frontier' = topmost (edges s) S \<and> distinct frontier'"
    proof (cases repaired)
      case True
      then have "computeFrontier (omap_keys roots) [] s3 = (frontier, s4)" using comp by simp
      from computeFrontier_spec [OF this s4(1) graph [symmetric] acyclic, of "{}"]
      have "set frontier = topmost (edges s) {r \<in> set (omap_keys roots). \<not> inactive s3 r} \<and> distinct frontier" by simp
      moreover have "{r \<in> set (omap_keys roots). \<not> inactive s3 r} = S"
        using active idle by (auto simp: set_omap_keys S_def)
      ultimately have f: "set frontier = topmost (edges s) S" "distinct frontier" by simp_all
      from addRoots_spec [OF add(1) s6 graph5 [symmetric] acyclic fin(1) f] show ?thesis unfolding sets(1) .
    next
      case False
      then have "frontier = frontierAt s1 i" using comp notedD(8) [OF N(2)] by (simp add: s2(2))
      moreover have "frontierRight s1 i" by (rule bookedD(6) [OF b1]) (use active1 in auto)
      ultimately have f: "set frontier = topmost (edges s) (rootSet s1 i)" "distinct frontier"
        using D(5) by (simp_all add: frontierRight_def)
      from addRoots_spec [OF add(1) s6 graph5 [symmetric] acyclic fin(2) f] show ?thesis unfolding sets(2) .
    qed
    then have f: "distinct frontier'" "set frontier' = topmost (edges s1) {r. map_of roots r \<noteq> None}"
      using D(5) by (simp_all add: S_def)
    have b: "booked {} s'" by (rule booked_merge [OF b1 N(2) s' roots N(3) RI(1) f])
    have entries: "entry s' n r = (if n = i \<and> inactive s r then None else if n = i \<and> r \<in> R then map_of incoming r else entry s n r)" for n r
      using entries1 [of n r] roots [of r] RI(2) [of r] notedD(7) [OF N(2)] by (auto simp: s')
    have "mergedAt i incoming R s s'"
      unfolding mergedAt_def
    proof (intro conjI exI [of _ C] allI)
      show "inactive s' r \<longleftrightarrow> inactive s r \<and> r \<notin> C" for r using notedD(6) [OF N(2), of r] D(1) [of r] by (simp add: s')
      show "\<forall>r \<in> C. holders s' r = {}"
      proof
        fix r assume "r \<in> C"
        then have "r \<notin> R" and gone: "entry s1 n r = None" for n using C(1,3) RI(2) by blast+
        then have "entry s' n r = None" for n using entries [of n r] entries1 [of n r] gone [of n] by (auto split: if_splits)
        then show "holders s' r = {}" by simp
      qed
      show "dirtyNodes s' r = (if r \<in> C then {} else dirtyNodes s r \<union> (if r \<in> R then {i} else {}))" for r
        using notedD(2) [OF N(2), of r] D(2) [of r] C(1) RI(2) [of r] by (auto simp: s')
      obtain w m c k where rec: "s2 = s1\<lparr>fe_frontierWorkUsed := w, fe_dirtyNodesByRoot := m, fe_affectedClosureCache := c, fe_rootEntryCounts := k\<rparr>"
        using notedD(1) [OF N(2)] by blast
      show "fe_dependents s' = fe_dependents s" "fe_directDirty s' = fe_directDirty s" using rec D(5,6) by (simp_all add: s')
    qed (use C(1) compact b entries in blast)+
    with add(2) N(1) show ?thesis by simp
  qed
  then show "mergedAt i incoming (raises (rootsAt s i) incoming s) s s'" and "changed \<longleftrightarrow> raises (rootsAt s i) incoming s \<noteq> {}"
    by (simp_all add: R_def)
qed

end
