(* ===== verification/Frontier_Propagation.thy ===== *)
theory Frontier_Propagation
  imports Frontier_Upkeep
begin

text \<open>
  Propagation of dirty roots: once it has come to an end within the budget, every node holds exactly
  the roots that reach it, with their status, whatever was there before.
\<close>

section \<open>What propagation leaves alone\<close>

lemma collectAffected_upkeep: "upkeepProof P \<Longrightarrow> P s \<Longrightarrow> P (snd (collectAffected rts affected s))"
  by (induction rts affected s rule: collectAffected.induct) (auto simp: Let_def upkeepD ticks_upkeep split: option.split)

lemma rememberClosure_upkeep: "upkeepProof P \<Longrightarrow> P s \<Longrightarrow> P (rememberClosure rt result s)"
  by (simp add: rememberClosure_def Let_def upkeepD)

lemma affectedFromRoots_upkeep:
  assumes "upkeepProof P" and "P s"
  shows "P (snd (affectedFromRoots rts s))"
proof -
  have tick: "P (tick s)" using upkeepD(1) [OF assms] .
  obtain a1 s1 where 1: "collectAffected rts [] (tick s) = (a1, s1)" by (metis surj_pair)
  obtain a2 s2 where 2: "collectAffected rts [] s = (a2, s2)" by (metis surj_pair)
  have "P s1" "P s2"
    using collectAffected_upkeep [OF assms(1) tick, of rts "[]"] collectAffected_upkeep [OF assms, of rts "[]"] 1 2 by simp_all
  then show ?thesis
    using tick 1 2 assms by (auto simp: affectedFromRoots_def Let_def rememberClosure_upkeep split: option.split)
qed

lemma seedLoop_upkeep: "upkeepProof P \<Longrightarrow> P s \<Longrightarrow> P (snd (seedLoop seeds affected queue s))"
proof (induction seeds affected queue s rule: seedLoop.induct)
  case (2 i st seeds affected queue s)
  obtain changed s1 where m: "mergeDirtyState i [(i, st)] s = (changed, s1)" by (metis surj_pair)
  obtain known s2 where k: "affectedFromRoots [i] s1 = (known, s2)" by (metis surj_pair)
  have "P s1" using mergeDirtyState_upkeep [OF 2(2,3), of i "[(i, st)]"] m by simp
  then have "P s2" using affectedFromRoots_upkeep [OF 2(2), of s1 "[i]"] k by simp
  with 2 m k show ?case by simp
qed simp

lemma dependentsLoop_upkeep: "upkeepProof P \<Longrightarrow> P s \<Longrightarrow> P (snd (dependentsLoop ds roots affected queue s))"
proof (induction ds roots affected queue s rule: dependentsLoop.induct)
  case (2 d ds roots affected queue s)
  obtain changed s1 where m: "mergeDirtyState d roots s = (changed, s1)" by (metis surj_pair)
  have "P s1" using mergeDirtyState_upkeep [OF 2(2,3), of d roots] m by simp
  with 2 m show ?case by simp
qed simp

lemma propagateLoop_upkeep: "upkeepProof P \<Longrightarrow> P s \<Longrightarrow> P (snd (propagateLoop queue affected s))"
proof (induction queue affected s rule: propagateLoop.induct)
  case (2 i queue affected s)
  obtain affected' queue' s1 where
    d: "dependentsLoop (sort (edgesAt (fe_dependents s) i)) (rootsAt s i) affected queue s = ((affected', queue'), s1)"
    by (metis surj_pair)
  have "P s1" using dependentsLoop_upkeep [OF 2(2,3), of "sort (edgesAt (fe_dependents s) i)" "rootsAt s i" affected queue] d by simp
  with 2 d show ?case by (simp split del: if_split) simp
qed simp

lemma propagateDirty_upkeep: "upkeepProof P \<Longrightarrow> P s \<Longrightarrow> P (snd (propagateDirty seeds s))"
proof -
  assume P: "upkeepProof P" "P s"
  obtain affected queue s1 where s1: "seedLoop seeds [] [] s = ((affected, queue), s1)" by (metis surj_pair)
  obtain affected' s2 where s2: "propagateLoop queue affected s1 = (affected', s2)" by (metis surj_pair)
  have "P s1" using seedLoop_upkeep [OF P, of seeds "[]" "[]"] s1 by simp
  from propagateLoop_upkeep [OF P(1) this, of queue affected] show ?thesis by (simp add: propagateDirty_def s1 s2)
qed

lemma rebuildDirtyState_upkeep:
  assumes "upkeepProof P" and "P s"
  shows "P (rebuildDirtyState s)"
proof -
  have "P (s\<lparr>fe_activeDirtyRoots := [], fe_activeFrontiers := [], fe_dirtyNodesByRoot := [], fe_affectedClosureCache := [],
    fe_dirtyStates := [], fe_inactiveDirtyRoots := [], fe_inactiveRootEntryCounts := [], fe_rootEntryCounts := [],
    fe_tombstonedRootEntries := 0\<rparr>)"
    by (intro upkeepD [OF assms(1)] assms(2))
  with propagateDirty_upkeep [OF assms(1) this] show ?thesis by (simp add: rebuildDirtyState_def Let_def)
qed

lemma reactivateLoop_upkeep: "upkeepProof P \<Longrightarrow> P s \<Longrightarrow> P (reactivateLoop rt st is s)"
proof (induction rt st "is" s rule: reactivateLoop.induct)
  case (2 rt st i "is" s)
  define s1 where "s1 = (case map_of (rootsAt s i) rt of
      None \<Rightarrow> tick (s\<lparr>fe_rootEntryCounts := omap_set rt (nullish (map_of (fe_rootEntryCounts s) rt) 0 + 1) (fe_rootEntryCounts s)\<rparr>)
    | Some previous \<Rightarrow> if previous \<noteq> st then tick s else s)"
  define roots' where "roots' = (if map_of (rootsAt s i) rt = Some st then rootsAt s i else omap_set rt st (rootsAt s i))"
  have "P s1" using 2(2,3) by (auto simp: s1_def upkeepD split: option.split)
  then have "P (refreshFrontier i (s1\<lparr>fe_activeDirtyRoots := omap_set i roots' (fe_activeDirtyRoots s1)\<rparr>))"
    by (intro refreshFrontier_upkeep [OF 2(2)] upkeepD [OF 2(2)])
  with 2 show ?case by (simp add: Let_def s1_def roots'_def)
qed simp

lemma reactivateRoot_upkeep:
  assumes "upkeepProof P" and "P s"
  shows "P (reactivateRoot rt st s)"
proof -
  have "P (s\<lparr>fe_tombstonedRootEntries := t, fe_inactiveRootEntryCounts := c, fe_inactiveDirtyRoots := r\<rparr>)" for t c r
    by (intro upkeepD [OF assms(1)] assms(2))
  then show ?thesis using reactivateLoop_upkeep [OF assms(1)] assms(2) by (simp add: reactivateRoot_def Let_def)
qed

text \<open>\<open>framed u s\<close>: what upkeep starting in \<open>u\<close> has left alone when it is in \<open>s\<close>.\<close>

definition framed :: "frontier_engine \<Rightarrow> frontier_engine \<Rightarrow> bool" where
  "framed u s =
     (fe_dependencies s = fe_dependencies u \<and> fe_dependents s = fe_dependents u \<and> fe_directDirty s = fe_directDirty u \<and>
      fe_generation s = fe_generation u \<and> fe_graphRevision s = fe_graphRevision u \<and>
      (alive s \<longrightarrow> alive u \<and> fe_trusted s = fe_trusted u \<and> fe_frontierCache s = fe_frontierCache u) \<and>
      ((alive u \<or> \<not> fe_trusted u) \<longrightarrow> (alive s \<or> \<not> fe_trusted s)))"

lemma framed_upkeep: "upkeepProof (framed u)"
  by (auto simp: upkeepProof_def framed_def tick_def failClosed_def invalidateAllCaches_def Let_def)

lemma framed_refl [simp]: "framed s s"
  by (simp add: framed_def)

lemma framedD:
  assumes "framed u s"
  shows "fe_dependencies s = fe_dependencies u" "fe_dependents s = fe_dependents u" "fe_directDirty s = fe_directDirty u"
    "fe_generation s = fe_generation u" "fe_graphRevision s = fe_graphRevision u"
    "alive s \<Longrightarrow> alive u" "alive s \<Longrightarrow> fe_trusted s = fe_trusted u" "alive s \<Longrightarrow> fe_frontierCache s = fe_frontierCache u"
    "alive u \<or> \<not> fe_trusted u \<Longrightarrow> alive s \<or> \<not> fe_trusted s"
  using assms by (simp_all add: framed_def)

lemmas propagateDirty_framed = propagateDirty_upkeep [OF framed_upkeep framed_refl]
  and rebuildDirtyState_framed = rebuildDirtyState_upkeep [OF framed_upkeep framed_refl]
  and reactivateRoot_framed = reactivateRoot_upkeep [OF framed_upkeep framed_refl]
  and affectedFromRoots_framed = affectedFromRoots_upkeep [OF framed_upkeep framed_refl]
  and compactResolvedRoots_framed = compactResolvedRoots_upkeep [OF framed_upkeep framed_refl]

section \<open>The nodes of a root\<close>

lemma worked_collectAffected: "worked s (snd (collectAffected rts affected s))"
proof (induction rts affected s rule: collectAffected.induct)
  case (2 rt rts affected s)
  have "worked s (tick s)" "worked s (ticks n (tick s))" for n
    using worked_trans [OF worked_tick worked_ticks] worked_tick by blast+
  note step = this
  show ?case
  proof (cases "map_of (fe_affectedClosureCache s) rt")
    case None
    from worked_trans [OF step(2) 2(1) [OF refl None refl]] None show ?thesis by (simp add: Let_def)
  next
    case (Some c)
    from worked_trans [OF step(1) 2(2) [OF refl Some]] Some show ?thesis by (simp add: Let_def)
  qed
qed simp

lemma collectAffected_spec:
  assumes "collectAffected rts affected s = (affected', s')" and "booked X s" and "alive s'"
  shows "set affected' = set affected \<union> (\<Union>r \<in> set rts. insert r (dirtyNodes s r))"
  using assms
proof (induction rts affected s rule: collectAffected.induct)
  case (2 rt rts affected s)
  define s1 where "s1 = (case map_of (fe_affectedClosureCache s) rt of Some c \<Rightarrow> tick s | None \<Rightarrow> ticks (length (edgesAt (fe_dirtyNodesByRoot s) rt)) (tick s))"
  define new where "new = (case map_of (fe_affectedClosureCache s) rt of Some c \<Rightarrow> c | None \<Rightarrow> edgesAt (fe_dirtyNodesByRoot s) rt)"
  have go: "collectAffected rts (affected @ rt # new) s1 = (affected', s')"
    using 2(3) by (cases "map_of (fe_affectedClosureCache s) rt") (simp_all add: s1_def new_def Let_def)
  have w: "worked s s1" unfolding s1_def
    using worked_tick [of s] worked_trans [OF worked_tick worked_ticks] by (auto split: option.split)
  have "alive s1" using worked_collectAffected [of s1 rts "affected @ rt # new"] go 2(5) by (simp add: worked_def)
  then obtain v where s1: "s1 = s\<lparr>fe_frontierWorkUsed := v\<rparr>" using w by (auto simp: worked_def)
  have "booked X s1" "\<And>r. dirtyNodes s1 r = dirtyNodes s r" using 2(4) by (simp_all add: s1)
  moreover have "insert rt (set new) = insert rt (dirtyNodes s rt)"
  proof (cases "map_of (fe_affectedClosureCache s) rt")
    case (Some c)
    with bookedD(5) [OF 2(4) Some] show ?thesis by (simp add: new_def)
  qed (simp add: new_def)
  moreover have "set affected' = set (affected @ rt # new) \<union> (\<Union>r \<in> set rts. insert r (dirtyNodes s1 r))"
  proof (cases "map_of (fe_affectedClosureCache s) rt")
    case None
    then have eq: "s1 = ticks (length new) (tick s)" "new = edgesAt (fe_dirtyNodesByRoot s) rt" by (simp_all add: s1_def new_def)
    from 2(1) [OF refl None eq(2)] go 2(5) calculation(1) show ?thesis unfolding eq(1) by blast
  next
    case (Some c)
    then have eq: "s1 = tick s" "new = c" by (simp_all add: s1_def new_def)
    from 2(2) [OF refl Some] go 2(5) calculation(1) show ?thesis unfolding eq by blast
  qed
  ultimately show ?case by auto
qed simp

lemma booked_cache:
  assumes "booked {} s" and "omap_ok c"
    and "\<And>r x. map_of c r = Some x \<Longrightarrow> map_of (fe_affectedClosureCache s) r = Some x \<or> set x = insert r (dirtyNodes s r) \<and> sorted x \<and> distinct x"
  shows "booked {} (s\<lparr>fe_affectedClosureCache := c, fe_frontierWorkUsed := w\<rparr>)"
proof -
  let ?s = "s\<lparr>fe_affectedClosureCache := c, fe_frontierWorkUsed := w\<rparr>"
  note old = bookedD [OF assms(1)]
  have "set x = insert r (dirtyNodes s r) \<and> sorted x \<and> distinct x" if "map_of c r = Some x" for r x
    using assms(3) [OF that] old(5) [of r x] by blast
  note fresh = this
  show ?thesis
    unfolding booked_def
  proof (intro conjI allI impI)
    show "countsRight ?s" using old(2) by (simp add: countsRight_def)
    show "omap_ok (rootsAt ?s n)" for n using old(1) by simp
    show "n \<in> dirtyNodes ?s r" if "entry ?s n r \<noteq> None" for n r using old(3) [of n r] that by simp
    show "frontierRight ?s n" if "\<forall>r. entry ?s n r \<noteq> None \<longrightarrow> \<not> inactive ?s r" for n
      using old(6) [of n] that by (simp add: frontierRight_def)
    show "omap_ok (fe_affectedClosureCache ?s)" using assms(2) by simp
    show "set x = insert r (dirtyNodes ?s r)" "sorted x" "distinct x" if "map_of (fe_affectedClosureCache ?s) r = Some x" for r x
      using fresh [of r x] that by simp_all
  qed
qed

lemma affectedFromRoots_spec:
  assumes run: "affectedFromRoots rts s = (affected, s')" and alive: "alive s'" and s: "booked {} s"
  shows "\<exists>w c. s' = s\<lparr>fe_affectedClosureCache := c, fe_frontierWorkUsed := w\<rparr>" and "booked {} s'" and "alive s"
    and "set affected = (\<Union>r \<in> set rts. insert r (dirtyNodes s r))" and "sorted affected" and "distinct affected"
proof -
  define single where "single \<longleftrightarrow> length rts = 1"
  define s1 where "s1 = (if single then tick s else s)"
  have w1: "worked s s1" by (simp add: s1_def worked_tick)
  have "(\<exists>w c. s' = s\<lparr>fe_affectedClosureCache := c, fe_frontierWorkUsed := w\<rparr>) \<and> booked {} s' \<and> alive s \<and>
    set affected = (\<Union>r \<in> set rts. insert r (dirtyNodes s r)) \<and> sorted affected \<and> distinct affected"
  proof (cases "if single then map_of (fe_affectedClosureCache s) (hd rts) else None")
    case (Some cached)
    then have single: single and cached: "map_of (fe_affectedClosureCache s) (hd rts) = Some cached" by (auto split: if_splits)
    then have rts: "rts = [hd rts]" by (cases rts) (auto simp: single_def)
    have run': "affected = cached" "s' = s1" using run Some by (simp_all add: affectedFromRoots_def single_def s1_def Let_def split: if_splits)
    then obtain v where v: "alive s" "s' = s\<lparr>fe_frontierWorkUsed := v\<rparr>" using w1 alive by (auto simp: worked_def)
    then have "s' = s\<lparr>fe_affectedClosureCache := fe_affectedClosureCache s, fe_frontierWorkUsed := v\<rparr>" by simp
    then have "\<exists>w c. s' = s\<lparr>fe_affectedClosureCache := c, fe_frontierWorkUsed := w\<rparr>" by blast
    moreover have "set cached = (\<Union>r \<in> set rts. insert r (dirtyNodes s r))" "sorted cached" "distinct cached"
      using bookedD(5) [OF s cached] by (simp_all) (subst rts, simp)
    ultimately show ?thesis using v s run' by simp
  next
    case None
    obtain all s2 where all: "collectAffected rts [] s1 = (all, s2)" by (metis surj_pair)
    have run': "affected = canonicalSort all" "s' = (if single then rememberClosure (hd rts) (canonicalSort all) s2 else s2)"
      using run None all by (simp_all add: affectedFromRoots_def single_def s1_def Let_def split: if_splits)
    have s2: "alive s2" using rememberClosure_upkeep [OF exceeded_upkeep, of s2 "hd rts" "canonicalSort all"] alive run'(2) by (auto split: if_splits)
    have "worked s s2" using worked_trans [OF w1 worked_collectAffected [of s1 rts "[]"]] all by simp
    then obtain v where v: "alive s" "s2 = s\<lparr>fe_frontierWorkUsed := v\<rparr>" using s2 by (auto simp: worked_def)
    have b1: "booked {} s1" "\<And>r. dirtyNodes s1 r = dirtyNodes s r"
    proof -
      have "alive s1" using worked_collectAffected [of s1 rts "[]"] all s2 by (simp add: worked_def)
      then obtain v where "s1 = s\<lparr>fe_frontierWorkUsed := v\<rparr>" using w1 by (auto simp: worked_def)
      then show "booked {} s1" "\<And>r. dirtyNodes s1 r = dirtyNodes s r" using s by simp_all
    qed
    have nodes: "set all = (\<Union>r \<in> set rts. insert r (dirtyNodes s r))"
      using collectAffected_spec [OF all b1(1) s2] b1(2) by simp
    have effect: "(\<exists>w c. s' = s\<lparr>fe_affectedClosureCache := c, fe_frontierWorkUsed := w\<rparr>) \<and> booked {} s'"
    proof (cases single)
      case True
      then have rts: "rts = [hd rts]" by (cases rts) (auto simp: single_def)
      let ?m = "fe_affectedClosureCache s2" and ?rt = "hd rts" and ?x = "canonicalSort all"
      define m1 where "m1 = (if map_of ?m ?rt = None \<and> int (length ?m) \<ge> MAX_AFFECTED_CLOSURE_CACHE_ENTRIES then tl ?m else ?m)"
      have s': "s' = rememberClosure ?rt ?x s2" using run'(2) True by simp
      have "\<exists>w. s' = s2\<lparr>fe_affectedClosureCache := omap_set ?rt ?x m1, fe_frontierWorkUsed := w\<rparr>"
      proof (cases "map_of ?m ?rt = None \<and> int (length ?m) \<ge> MAX_AFFECTED_CLOSURE_CACHE_ENTRIES")
        case True
        let ?s3 = "s2\<lparr>fe_affectedClosureCache := tl ?m\<rparr>"
        have eq: "s' = tick ((tick ?s3)\<lparr>fe_affectedClosureCache := omap_set ?rt ?x (fe_affectedClosureCache (tick ?s3))\<rparr>)"
          unfolding s' rememberClosure_def Let_def using True by simp
        obtain w1 where t1: "alive ((tick ?s3)\<lparr>fe_affectedClosureCache := omap_set ?rt ?x (fe_affectedClosureCache (tick ?s3))\<rparr>)"
          "s' = (tick ?s3)\<lparr>fe_affectedClosureCache := omap_set ?rt ?x (fe_affectedClosureCache (tick ?s3)), fe_frontierWorkUsed := w1\<rparr>"
          by (rule tickE [OF alive [unfolded eq], folded eq]) (rule that)
        from t1(1) have "alive (tick ?s3)" by simp
        then obtain w2 where "tick ?s3 = ?s3\<lparr>fe_frontierWorkUsed := w2\<rparr>" by (rule tickE)
        with t1(2) True show ?thesis by (auto simp: m1_def)
      next
        case False
        then have eq: "s' = tick (s2\<lparr>fe_affectedClosureCache := omap_set ?rt ?x ?m\<rparr>)"
          unfolding s' rememberClosure_def Let_def by auto
        obtain w1 where "s' = s2\<lparr>fe_affectedClosureCache := omap_set ?rt ?x ?m, fe_frontierWorkUsed := w1\<rparr>"
          by (rule tickE [OF alive [unfolded eq], folded eq]) (rule that)
        moreover have "m1 = ?m" using False by (auto simp: m1_def)
        ultimately show ?thesis by blast
      qed
      then obtain w where w: "s' = s\<lparr>fe_affectedClosureCache := omap_set ?rt ?x m1, fe_frontierWorkUsed := w\<rparr>" by (auto simp: v(2))
      have ok: "omap_ok ?m" using bookedD(4) [OF s] by (simp add: v(2))
      then have ok1: "omap_ok m1" by (cases ?m) (auto simp: m1_def omap_ok_def)
      have sub: "map_of ?m r = Some y" if "map_of m1 r = Some y" for r y
      proof -
        have "(r, y) \<in> set ?m" using that ok1 by (cases ?m) (auto simp: m1_def omap_get_iff split: if_splits)
        then show ?thesis using ok by (simp add: omap_get_iff)
      qed
      have "set ?x = insert ?rt (dirtyNodes s ?rt)" using nodes by (subst (asm) rts) simp
      then have "booked {} (s\<lparr>fe_affectedClosureCache := omap_set ?rt ?x m1, fe_frontierWorkUsed := w\<rparr>)"
        by (intro booked_cache [OF s]) (use ok1 sub v(2) in \<open>auto split: if_splits\<close>)
      with w show ?thesis by blast
    next
      case False
      then have "s' = s\<lparr>fe_affectedClosureCache := fe_affectedClosureCache s, fe_frontierWorkUsed := v\<rparr>" using run'(2) v(2) by simp
      moreover from this have "booked {} s'" using s by simp
      ultimately show ?thesis by blast
    qed
    show ?thesis using effect nodes v(1) run'(1) by simp
  qed
  then show "\<exists>w c. s' = s\<lparr>fe_affectedClosureCache := c, fe_frontierWorkUsed := w\<rparr>" and "booked {} s'" and "alive s"
    and "set affected = (\<Union>r \<in> set rts. insert r (dirtyNodes s r))" and "sorted affected" and "distinct affected" by blast+
qed

section \<open>Spreading\<close>

lemma statusPriority_inject: "statusPriority a = statusPriority b \<longleftrightarrow> a = b"
  by (cases a; cases b) (simp_all add: statusPriority_def)

abbreviation dirtyAt :: "frontier_engine \<Rightarrow> string \<Rightarrow> memory_status option" where
  "dirtyAt s r \<equiv> map_of (fe_directDirty s) r"

text \<open>
  The invariant of the propagation. An entry comes from a root that reaches the node and is no worse
  than the status of the root; along an edge outside \<open>X\<close> nothing remains to be handed on.
\<close>

definition spreading :: "(string \<times> string) set \<Rightarrow> frontier_engine \<Rightarrow> bool" where
  "spreading X s =
     (booked {} s \<and> acyclic (edges s) \<and>
      (\<forall>n r st. entry s n r = Some st \<longrightarrow> (r, n) \<in> (edges s)\<^sup>* \<and>
         (inactive s r \<or> (\<exists>d. dirtyAt s r = Some d \<and> statusPriority st \<le> statusPriority d))) \<and>
      (\<forall>n m r st. (n, m) \<in> edges s - X \<longrightarrow> entry s n r = Some st \<longrightarrow> \<not> inactive s r \<longrightarrow>
         (\<exists>st'. entry s m r = Some st' \<and> statusPriority st \<le> statusPriority st')) \<and>
      (\<forall>r. dirtyNodes s r = (if inactive s r then (edges s)\<^sup>* `` {r} else holders s r)) \<and>
      (\<forall>r. dirtyAt s r \<noteq> None \<longrightarrow> \<not> inactive s r))"

lemma spreadingD:
  assumes "spreading X s"
  shows "booked {} s" "acyclic (edges s)"
    "entry s n r = Some st \<Longrightarrow> (r, n) \<in> (edges s)\<^sup>*"
    "entry s n r = Some st \<Longrightarrow> \<not> inactive s r \<Longrightarrow> \<exists>d. dirtyAt s r = Some d \<and> statusPriority st \<le> statusPriority d"
    "(n, m) \<in> edges s - X \<Longrightarrow> entry s n r = Some st \<Longrightarrow> \<not> inactive s r \<Longrightarrow>
       \<exists>st'. entry s m r = Some st' \<and> statusPriority st \<le> statusPriority st'"
    "dirtyNodes s r = (if inactive s r then (edges s)\<^sup>* `` {r} else holders s r)"
    "dirtyAt s r \<noteq> None \<Longrightarrow> \<not> inactive s r"
proof -
  note parts = assms [unfolded spreading_def]
  show "booked {} s" "acyclic (edges s)" using parts by - (elim conjE, assumption)+
  show "entry s n r = Some st \<Longrightarrow> (r, n) \<in> (edges s)\<^sup>*"
    "entry s n r = Some st \<Longrightarrow> \<not> inactive s r \<Longrightarrow> \<exists>d. dirtyAt s r = Some d \<and> statusPriority st \<le> statusPriority d"
    using parts by blast+
  show "(n, m) \<in> edges s - X \<Longrightarrow> entry s n r = Some st \<Longrightarrow> \<not> inactive s r \<Longrightarrow>
       \<exists>st'. entry s m r = Some st' \<and> statusPriority st \<le> statusPriority st'"
    using parts by blast
  show "dirtyNodes s r = (if inactive s r then (edges s)\<^sup>* `` {r} else holders s r)" using parts by (elim conjE) (rule spec)
  show "dirtyAt s r \<noteq> None \<Longrightarrow> \<not> inactive s r" using parts by (elim conjE) (drule spec, erule mp)
qed

lemma spreading_mono: "spreading X s \<Longrightarrow> X \<inter> edges s \<subseteq> Y \<Longrightarrow> spreading Y s"
  unfolding spreading_def by blast

lemma spreading_nodes: "spreading X s \<Longrightarrow> dirtyNodes s r \<subseteq> (edges s)\<^sup>* `` {r}"
  using spreadingD(3,6) [of X s] by (cases "inactive s r") auto

text \<open>\<open>grows s s'\<close>: entries of roots that are not resolved only get worse.\<close>

definition grows :: "frontier_engine \<Rightarrow> frontier_engine \<Rightarrow> bool" where
  "grows s s' =
     (fe_dependents s' = fe_dependents s \<and> fe_directDirty s' = fe_directDirty s \<and> (\<forall>r. \<not> inactive s r \<longrightarrow> \<not> inactive s' r) \<and>
      (\<forall>n r st. entry s n r = Some st \<longrightarrow> \<not> inactive s r \<longrightarrow>
         (\<exists>st'. entry s' n r = Some st' \<and> statusPriority st \<le> statusPriority st')))"

lemma grows_refl [simp]: "grows s s"
  by (auto simp: grows_def)

lemma growsD:
  assumes "grows s s'"
  shows "fe_dependents s' = fe_dependents s" "fe_directDirty s' = fe_directDirty s" "\<not> inactive s r \<Longrightarrow> \<not> inactive s' r"
    "entry s n r = Some st \<Longrightarrow> \<not> inactive s r \<Longrightarrow> \<exists>st'. entry s' n r = Some st' \<and> statusPriority st \<le> statusPriority st'"
  using assms unfolding grows_def by blast+

lemma grows_trans:
  assumes "grows s u" and "grows u v"
  shows "grows s v"
  unfolding grows_def
proof (intro conjI allI impI)
  show "fe_dependents v = fe_dependents s" "fe_directDirty v = fe_directDirty s"
    using growsD(1,2) [OF assms(1)] growsD(1,2) [OF assms(2)] by simp_all
  show "\<not> inactive s r \<Longrightarrow> \<not> inactive v r" for r using growsD(3) [OF assms(1)] growsD(3) [OF assms(2)] by blast
  fix n r st
  assume e: "entry s n r = Some st" "\<not> inactive s r"
  then obtain a where a: "entry u n r = Some a" "statusPriority st \<le> statusPriority a" using growsD(4) [OF assms(1)] by blast
  obtain b where "entry v n r = Some b" "statusPriority a \<le> statusPriority b"
    using growsD(4) [OF assms(2) a(1) growsD(3) [OF assms(1) e(2)]] by blast
  with a(2) show "\<exists>st'. entry v n r = Some st' \<and> statusPriority st \<le> statusPriority st'" by (meson order_trans)
qed

text \<open>One merge.\<close>

lemma merge_spreads:
  assumes run: "mergeDirtyState d incoming s = (changed, s')" and alive: "alive s'" and s: "spreading X s" and ok: "omap_ok incoming"
    and sound: "\<forall>r st. map_of incoming r = Some st \<longrightarrow> (r, d) \<in> (edges s)\<^sup>* \<and>
      (inactive s r \<or> (\<exists>e. dirtyAt s r = Some e \<and> statusPriority st \<le> statusPriority e))"
    and inc: "\<forall>r. map_of incoming r \<noteq> None \<longrightarrow> inactive s r \<longrightarrow> (\<exists>n. n \<noteq> d \<and> entry s n r \<noteq> None)"
  shows "spreading (X \<union> (if changed then {d} \<times> UNIV else {})) s'" and "grows s s'" and "alive s"
    and "\<And>r st. map_of incoming r = Some st \<Longrightarrow> \<not> inactive s r \<Longrightarrow> \<exists>st'. entry s' d r = Some st' \<and> statusPriority st \<le> statusPriority st'"
    and "\<And>n r. n \<noteq> d \<Longrightarrow> entry s' n r = entry s n r"
    and "\<And>r. dirtyNodes s' r \<subseteq> dirtyNodes s r \<union> (if map_of incoming r = None then {} else {d})"
    and "\<And>r. map_of incoming r \<noteq> None \<Longrightarrow> inactive s' r = inactive s r"
proof -
  note m = mergeDirtyState_spec [OF run alive spreadingD(1,2) [OF s] ok inc [rule_format]]
  define R where "R = raises (rootsAt s d) incoming s"
  have at: "mergedAt d incoming R s s'" and ch: "changed \<longleftrightarrow> R \<noteq> {}" using m by (simp_all add: R_def)
  note A = mergedAtD [OF at]
  have RI: "map_of incoming r \<noteq> None" "\<not> inactive s r" if "r \<in> R" for r using that by (auto simp: R_def raises_def)
  obtain C where C: "C \<subseteq> set (fe_inactiveDirtyRoots s)" "\<And>r. inactive s' r \<longleftrightarrow> inactive s r \<and> r \<notin> C" "\<And>r. r \<in> C \<Longrightarrow> holders s' r = {}"
    "\<And>r. dirtyNodes s' r = (if r \<in> C then {} else dirtyNodes s r \<union> (if r \<in> R then {d} else {}))" using A(2) by metis
  have live: "inactive s' r = inactive s r" if "entry s' n r \<noteq> None" for n r
  proof -
    have "r \<notin> C" using C(3) [of r] that by blast
    then show ?thesis using C(2) by simp
  qed
  have E: "entry s' n r = (if n = d \<and> r \<in> R then map_of incoming r else entry s n r)" if "\<not> inactive s r" for n r
    using A(1) [of n r] that by simp
  have up: "\<exists>st'. entry s' n r = Some st' \<and> statusPriority st \<le> statusPriority st'"
    if e: "entry s n r = Some st" "\<not> inactive s r" for n r st
  proof (cases "n = d \<and> r \<in> R")
    case True
    then obtain st' where "map_of incoming r = Some st'" "statusPriority st < statusPriority st'"
      using e by (auto simp: R_def raises_def)
    with True E [OF e(2), of n] show ?thesis by (auto intro: less_imp_le)
  next
    case False
    then have "entry s' n r = entry s n r" using E [OF e(2), of n] by auto
    with e(1) show ?thesis by simp
  qed
  show grows: "grows s s'"
    unfolding grows_def using A(5,6) C(2) up by blast
  show "alive s" by (rule A(4))
  show elsewhere: "\<And>n r. n \<noteq> d \<Longrightarrow> entry s' n r = entry s n r" using A(1) by simp
  show "\<exists>st'. entry s' d r = Some st' \<and> statusPriority st \<le> statusPriority st'"
    if i: "map_of incoming r = Some st" "\<not> inactive s r" for r st
  proof (cases "r \<in> R")
    case True
    with E [OF i(2), of d] i(1) show ?thesis by simp
  next
    case False
    then obtain p where "entry s d r = Some p" "statusPriority st \<le> statusPriority p"
      using i by (auto simp: R_def raises_def not_less)
    with False E [OF i(2), of d] show ?thesis by simp
  qed
  show "dirtyNodes s' r \<subseteq> dirtyNodes s r \<union> (if map_of incoming r = None then {} else {d})" for r
    using C(4) [of r] RI(1) [of r] by auto
  show "inactive s' r = inactive s r" if i: "map_of incoming r \<noteq> None" for r
  proof (cases "inactive s r")
    case True
    then obtain n where "n \<noteq> d" "entry s n r \<noteq> None" using inc i by blast
    then have "entry s' n r \<noteq> None" using elsewhere by simp
    then show ?thesis by (rule live)
  qed (use C(2) in simp)
  show "spreading (X \<union> (if changed then {d} \<times> UNIV else {})) s'"
    unfolding spreading_def A(5,6)
  proof (intro conjI allI impI)
    show "booked {} s'" "acyclic (edges s)" using A(3) spreadingD(2) [OF s] by simp_all
    fix n r st
    assume e: "entry s' n r = Some st"
    then have act: "inactive s' r = inactive s r" using live [of n r] by simp
    have "(r, n) \<in> (edges s)\<^sup>* \<and> (inactive s r \<or> (\<exists>e. dirtyAt s r = Some e \<and> statusPriority st \<le> statusPriority e))"
    proof (cases "n = d \<and> r \<in> R \<and> \<not> inactive s r")
      case True
      then have "map_of incoming r = Some st" using e A(1) [of n r] by simp
      with sound True show ?thesis by blast
    next
      case False
      then have "entry s n r = Some st" using e A(1) [of n r] RI(2) [of r] by (auto split: if_splits)
      then show ?thesis using spreadingD(3,4) [OF s, of n r st] by blast
    qed
    then show "(r, n) \<in> (edges s)\<^sup>*" "inactive s' r \<or> (\<exists>d. dirtyAt s r = Some d \<and> statusPriority st \<le> statusPriority d)"
      using act by simp_all
  next
    fix n m r st
    assume edge: "(n, m) \<in> edges s - (X \<union> (if changed then {d} \<times> UNIV else {}))" and e: "entry s' n r = Some st" and "\<not> inactive s' r"
    then have r: "\<not> inactive s r" using live [of n r] by simp
    have "\<not> (n = d \<and> r \<in> R)" using edge ch by (cases changed) auto
    then have "entry s n r = Some st" using e E [OF r, of n] by auto
    then obtain a where a: "entry s m r = Some a" "statusPriority st \<le> statusPriority a"
      using spreadingD(5) [OF s, of n m r st] edge r by blast
    from up [OF a(1) r] a(2) show "\<exists>st'. entry s' m r = Some st' \<and> statusPriority st \<le> statusPriority st'" by (meson order_trans)
  next
    fix r
    show "dirtyNodes s' r = (if inactive s' r then (edges s)\<^sup>* `` {r} else holders s' r)"
    proof (cases "inactive s r")
      case True
      then have "r \<notin> R" using RI(2) by blast
      with True C(2-4) [of r] spreadingD(6) [OF s, of r] show ?thesis by simp
    next
      case False
      then have "r \<notin> C" "\<not> inactive s' r" using C(1,2) by blast+
      moreover have "holders s' r = holders s r \<union> (if r \<in> R then {d} else {})"
        using E [OF False] RI(1) [of r] by auto
      ultimately show ?thesis using C(4) [of r] spreadingD(6) [OF s, of r] False by simp
    qed
    show "\<not> inactive s' r" if "dirtyAt s r \<noteq> None" using spreadingD(7) [OF s that] C(2) by blast
  qed
qed

section \<open>The loops\<close>

lemma rtrancl_Image_sub: "X \<subseteq> E\<^sup>* `` Y \<Longrightarrow> E\<^sup>* `` X \<subseteq> E\<^sup>* `` Y"
  by (blast intro: rtrancl_trans)

lemma union_chain: "A \<subseteq> B \<union> D \<Longrightarrow> B \<subseteq> C \<union> E \<Longrightarrow> F = E \<union> D \<Longrightarrow> A \<subseteq> C \<union> F"
  by blast

lemma dependentsLoop_spec:
  assumes "dependentsLoop ds roots affected queue s = ((affected', queue'), s')" and "alive s'"
    and "spreading (set queue \<times> UNIV \<union> {i} \<times> set ds) s" and "set ds \<subseteq> edges s `` {i}"
    and "omap_ok roots" and "\<And>r. map_of roots r = entry s i r"
  shows "spreading (set queue' \<times> UNIV) s' \<and> grows s s' \<and> alive s \<and> set queue \<subseteq> set queue' \<and> set queue' \<subseteq> set queue \<union> set ds \<and>
    set affected \<subseteq> set affected' \<and> set affected' \<subseteq> set affected \<union> set ds \<and>
    (\<forall>r. dirtyNodes s' r \<subseteq> dirtyNodes s r \<union> set affected')"
  using assms
proof (induction ds roots affected queue s rule: dependentsLoop.induct)
  case (1 roots affected queue s)
  then show ?case by simp
next
  case (2 d ds roots affected queue s)
  obtain changed s1 where m: "mergeDirtyState d roots s = (changed, s1)" by (metis surj_pair)
  let ?queue = "if changed then queue @ [d] else queue" and ?affected = "if roots = [] then affected else affected @ [d]"
  have go: "dependentsLoop ds roots ?affected ?queue s1 = ((affected', queue'), s')" using 2(2) m by simp
  have s1: "alive s1"
    using dependentsLoop_upkeep [OF exceeded_upkeep, of s1 ds roots ?affected ?queue] go 2(3) by auto
  note s = spreadingD [OF 2(4)]
  have edge: "(i, d) \<in> edges s" using 2(5) by auto
  then have "d \<noteq> i" using s(2) r_into_trancl [OF edge] unfolding acyclic_def by blast
  have sound: "\<forall>r st. map_of roots r = Some st \<longrightarrow> (r, d) \<in> (edges s)\<^sup>* \<and>
    (inactive s r \<or> (\<exists>e. dirtyAt s r = Some e \<and> statusPriority st \<le> statusPriority e))"
    using 2(7) s(3,4) edge by (metis rtrancl.rtrancl_into_rtrancl)
  have inc: "\<forall>r. map_of roots r \<noteq> None \<longrightarrow> inactive s r \<longrightarrow> (\<exists>n. n \<noteq> d \<and> entry s n r \<noteq> None)"
    using 2(7) \<open>d \<noteq> i\<close> by metis
  note M = merge_spreads [OF m s1 2(4,6) sound inc]
  have graph: "fe_dependents s1 = fe_dependents s" using growsD(1) [OF M(2)] .
  have same: "map_of roots r = entry s1 i r" for r using M(5) [of i r] \<open>d \<noteq> i\<close> 2(7) [of r] by simp
  have after: "spreading (set ?queue \<times> UNIV \<union> {i} \<times> set ds) s1"
  proof -
    let ?X = "set queue \<times> UNIV \<union> {i} \<times> set (d # ds) \<union> (if changed then {d} \<times> UNIV else {})"
    have here: "spreading ?X s1" by (rule M(1))
    have handed: "\<exists>st'. entry s1 d r = Some st' \<and> statusPriority st \<le> statusPriority st'"
      if e: "entry s1 i r = Some st" "\<not> inactive s1 r" for r st
    proof -
      have "map_of roots r = Some st" using e(1) same by simp
      moreover from this have "\<not> inactive s r" using e(2) M(7) [of r] by simp
      ultimately show ?thesis by (rule M(4))
    qed
    have pairs: "?X \<subseteq> insert (i, d) (set ?queue \<times> UNIV \<union> {i} \<times> set ds)" by auto
    show ?thesis
      unfolding spreading_def
    proof (intro conjI allI impI)
      fix n m r st
      assume nm: "(n, m) \<in> edges s1 - (set ?queue \<times> UNIV \<union> {i} \<times> set ds)" and e: "entry s1 n r = Some st" "\<not> inactive s1 r"
      show "\<exists>st'. entry s1 m r = Some st' \<and> statusPriority st \<le> statusPriority st'"
      proof (cases "(n, m) = (i, d)")
        case True
        with handed e show ?thesis by simp
      next
        case False
        with nm pairs have "(n, m) \<in> edges s1 - ?X" by blast
        from spreadingD(5) [OF here this e] show ?thesis .
      qed
    qed (use spreadingD [OF here] in blast)+
  qed
  have IH: "spreading (set queue' \<times> UNIV) s' \<and> grows s1 s' \<and> alive s1 \<and> set ?queue \<subseteq> set queue' \<and> set queue' \<subseteq> set ?queue \<union> set ds \<and>
    set ?affected \<subseteq> set affected' \<and> set affected' \<subseteq> set ?affected \<union> set ds \<and> (\<forall>r. dirtyNodes s' r \<subseteq> dirtyNodes s1 r \<union> set affected')"
    by (rule 2(1) [OF m [symmetric] go 2(3) after _ 2(6) same]) (use 2(5) graph in simp)
  have "dirtyNodes s' r \<subseteq> dirtyNodes s r \<union> set affected'" for r
  proof -
    have sub: "dirtyNodes s' r \<subseteq> dirtyNodes s1 r \<union> set affected'" "set ?affected \<subseteq> set affected'" using IH by blast+
    show ?thesis
    proof (cases "roots = []")
      case True
      then show ?thesis using sub(1) M(6) [of r] by auto
    next
      case False
      then have "d \<in> set affected'" using sub(2) by simp
      moreover have "dirtyNodes s1 r \<subseteq> dirtyNodes s r \<union> {d}" using M(6) [of r] by (cases "map_of roots r") auto
      ultimately show ?thesis using sub(1) by blast
    qed
  qed
  moreover have "grows s s'" using grows_trans [OF M(2)] IH by blast
  ultimately show ?case using IH M(3) by (auto split: if_splits)
qed

lemma propagateLoop_spec:
  assumes "propagateLoop queue affected s = (affected', s')" and "alive s'" and "spreading (set queue \<times> UNIV) s"
  shows "spreading {} s' \<and> grows s s' \<and> alive s \<and> set affected \<subseteq> set affected' \<and>
    set affected' \<subseteq> set affected \<union> (edges s)\<^sup>* `` set queue \<and> (\<forall>r. dirtyNodes s' r \<subseteq> dirtyNodes s r \<union> set affected')"
  using assms
proof (induction queue affected s rule: propagateLoop.induct)
  case (1 affected s)
  then show ?case by auto
next
  case (2 i queue affected s)
  have alive: "alive s" using 2(2,3) by (auto split: if_splits)
  let ?ds = "sort (edgesAt (fe_dependents s) i)"
  obtain affected1 queue1 s1 where d: "dependentsLoop ?ds (rootsAt s i) affected queue s = ((affected1, queue1), s1)"
    by (metis surj_pair)
  have go: "propagateLoop queue1 affected1 s1 = (affected', s')" using 2(2) alive d by simp
  have s1: "alive s1" using propagateLoop_upkeep [OF exceeded_upkeep, of s1 queue1 affected1] go 2(3) by auto
  have "spreading (set queue \<times> UNIV \<union> {i} \<times> set ?ds) s"
    by (rule spreading_mono [OF 2(4)]) auto
  then have step: "spreading (set queue1 \<times> UNIV) s1 \<and> grows s s1 \<and> alive s \<and> set queue \<subseteq> set queue1 \<and> set queue1 \<subseteq> set queue \<union> set ?ds \<and>
    set affected \<subseteq> set affected1 \<and> set affected1 \<subseteq> set affected \<union> set ?ds \<and>
    (\<forall>r. dirtyNodes s1 r \<subseteq> dirtyNodes s r \<union> set affected1)"
    by (intro dependentsLoop_spec [OF d s1]) (use bookedD(1) [OF spreadingD(1) [OF 2(4)]] in auto)
  have IH: "spreading {} s' \<and> grows s1 s' \<and> alive s1 \<and> set affected1 \<subseteq> set affected' \<and>
    set affected' \<subseteq> set affected1 \<union> (edges s1)\<^sup>* `` set queue1 \<and> (\<forall>r. dirtyNodes s' r \<subseteq> dirtyNodes s1 r \<union> set affected')"
    by (rule 2(1) [OF _ d [symmetric] refl go 2(3)]) (use alive step in blast)+
  have graph: "edges s1 = edges s" using step growsD(1) [of s s1] by simp
  have "set ?ds \<subseteq> (edges s)\<^sup>* `` {i}" by (auto intro: r_into_rtrancl)
  moreover have "(edges s)\<^sup>* `` {i} \<subseteq> (edges s)\<^sup>* `` set (i # queue)" "set queue \<subseteq> (edges s)\<^sup>* `` set (i # queue)"
    by (intro Image_mono) auto
  moreover have "set queue1 \<subseteq> set queue \<union> set ?ds" using step by (elim conjE)
  ultimately have "set queue1 \<subseteq> (edges s)\<^sup>* `` set (i # queue)" and all_ds: "set ?ds \<subseteq> (edges s)\<^sup>* `` set (i # queue)"
    by (meson Un_least order_trans)+
  from rtrancl_Image_sub [OF this(1)] have down: "(edges s)\<^sup>* `` set queue1 \<subseteq> (edges s)\<^sup>* `` set (i # queue)" .
  have "set affected' \<subseteq> set affected1 \<union> (edges s1)\<^sup>* `` set queue1" using IH by (elim conjE)
  then have "set affected' \<subseteq> set affected1 \<union> (edges s)\<^sup>* `` set queue1" by (simp only: graph)
  moreover have "set affected1 \<subseteq> set affected \<union> (edges s)\<^sup>* `` set (i # queue)"
  proof -
    have "set affected1 \<subseteq> set affected \<union> set ?ds" using step by (elim conjE)
    with all_ds show ?thesis by (meson Un_mono order_refl order_trans)
  qed
  ultimately have "set affected' \<subseteq> set affected \<union> (edges s)\<^sup>* `` set (i # queue)"
    using down by (meson Un_least Un_upper2 order_trans)
  moreover have "dirtyNodes s' r \<subseteq> dirtyNodes s r \<union> set affected'" for r
    using step IH by blast
  moreover have "grows s s'" using step IH grows_trans by blast
  ultimately show ?case using step IH by blast
qed

lemma spreading_closureCache:
  assumes "spreading X s" and "s' = s\<lparr>fe_affectedClosureCache := c, fe_frontierWorkUsed := w\<rparr>" and "booked {} s'"
  shows "spreading X s'" and "grows s s'" and "dirtyNodes s' r = dirtyNodes s r"
proof -
  show "grows s s'" "dirtyNodes s' r = dirtyNodes s r" by (auto simp: assms(2) grows_def)
  have same: "rootsAt s' n = rootsAt s n" "inactive s' r = inactive s r" "dirtyAt s' r = dirtyAt s r" "edges s' = edges s"
    "dirtyNodes s' r = dirtyNodes s r" for n r
    by (simp_all add: assms(2))
  show "spreading X s'"
    using assms(1,3) unfolding spreading_def same by (elim conjE) (intro conjI, assumption+)
qed

lemma seedLoop_spec:
  assumes "seedLoop seeds affected queue s = ((affected', queue'), s')" and "alive s'" and "spreading (set queue \<times> UNIV) s"
    and "\<forall>(i, st) \<in> set seeds. dirtyAt s i = Some st"
  shows "spreading (set queue' \<times> UNIV) s' \<and> grows s s' \<and> alive s \<and> set queue' \<subseteq> set queue \<union> fst ` set seeds \<and>
    set affected \<subseteq> set affected' \<and> fst ` set seeds \<subseteq> set affected' \<and>
    set affected' \<subseteq> set affected \<union> (edges s)\<^sup>* `` (fst ` set seeds) \<and>
    (\<forall>r. dirtyNodes s' r \<subseteq> dirtyNodes s r \<union> set affected') \<and> (\<forall>r \<in> fst ` set seeds. dirtyNodes s' r \<subseteq> set affected') \<and>
    (\<forall>(i, st) \<in> set seeds. entry s' i i = Some st)"
  using assms
proof (induction seeds affected queue s rule: seedLoop.induct)
  case (1 affected queue s)
  then show ?case by simp
next
  case (2 i st seeds affected queue s)
  have alive: "alive s" using 2(2,3) by (auto split: if_splits)
  obtain changed s1 where m: "mergeDirtyState i [(i, st)] s = (changed, s1)" by (metis surj_pair)
  obtain known s2 where k: "affectedFromRoots [i] s1 = (known, s2)" by (metis surj_pair)
  let ?queue = "if changed then queue @ [i] else queue" and ?affected = "affected @ i # known"
  have go: "seedLoop seeds ?affected ?queue s2 = ((affected', queue'), s')" using 2(2) alive m k by simp
  have s2: "alive s2" using seedLoop_upkeep [OF exceeded_upkeep, of s2 seeds ?affected ?queue] go 2(3) by auto
  have s1: "alive s1" using affectedFromRoots_upkeep [OF exceeded_upkeep, of s1 "[i]"] k s2 by auto
  note s = spreadingD [OF 2(4)]
  have dirty: "dirtyAt s i = Some st" and active: "\<not> inactive s i" using 2(5) s(7) by auto
  have sound: "\<forall>r st'. map_of [(i, st)] r = Some st' \<longrightarrow> (r, i) \<in> (edges s)\<^sup>* \<and>
      (inactive s r \<or> (\<exists>e. dirtyAt s r = Some e \<and> statusPriority st' \<le> statusPriority e))"
    using dirty by auto
  have inc: "\<forall>r. map_of [(i, st)] r \<noteq> None \<longrightarrow> inactive s r \<longrightarrow> (\<exists>n. n \<noteq> i \<and> entry s n r \<noteq> None)" using active by auto
  have ok: "omap_ok [(i, st)]" by (simp add: omap_ok_def)
  note M = merge_spreads [OF m s1 2(4) ok sound inc]
  note F = affectedFromRoots_spec [OF k s2 spreadingD(1) [OF M(1)]]
  obtain w c where rec: "s2 = s1\<lparr>fe_affectedClosureCache := c, fe_frontierWorkUsed := w\<rparr>" using F(1) by blast
  note K = spreading_closureCache [OF M(1) rec F(2)]
  have spread: "spreading (set ?queue \<times> UNIV) s2" by (rule spreading_mono [OF K(1)]) auto
  have grow: "grows s s2" by (rule grows_trans [OF M(2) K(2)])
  note same = growsD(1,2) [OF grow]
  have known: "set known = insert i (dirtyNodes s2 i)" using F(4) K(3) by simp
  have IH: "spreading (set queue' \<times> UNIV) s' \<and> grows s2 s' \<and> alive s2 \<and> set queue' \<subseteq> set ?queue \<union> fst ` set seeds \<and>
    set ?affected \<subseteq> set affected' \<and> fst ` set seeds \<subseteq> set affected' \<and>
    set affected' \<subseteq> set ?affected \<union> (edges s2)\<^sup>* `` (fst ` set seeds) \<and>
    (\<forall>r. dirtyNodes s' r \<subseteq> dirtyNodes s2 r \<union> set affected') \<and> (\<forall>r \<in> fst ` set seeds. dirtyNodes s' r \<subseteq> set affected') \<and>
    (\<forall>(i, st) \<in> set seeds. entry s' i i = Some st)"
    by (rule 2(1) [OF _ m [symmetric] k [symmetric] go 2(3) spread]) (use alive 2(5) same in auto)
  have "dirtyNodes s2 i \<subseteq> (edges s)\<^sup>* `` {i}" using spreading_nodes [OF spread, of i] same(1) by simp
  then have new: "set ?affected \<subseteq> set affected \<union> (edges s)\<^sup>* `` {i}" using known by auto
  have union: "(edges s)\<^sup>* `` (fst ` set ((i, st) # seeds)) = (edges s)\<^sup>* `` {i} \<union> (edges s)\<^sup>* `` (fst ` set seeds)"
    by (simp add: Image_Un [symmetric])
  have "set affected' \<subseteq> set ?affected \<union> (edges s2)\<^sup>* `` (fst ` set seeds)" using IH by (elim conjE)
  then have "set affected' \<subseteq> set ?affected \<union> (edges s)\<^sup>* `` (fst ` set seeds)" by (simp only: same(1))
  from union_chain [OF this new union] have upper: "set affected' \<subseteq> set affected \<union> (edges s)\<^sup>* `` (fst ` set ((i, st) # seeds))" .
  have mine: "entry s' i i = Some st"
  proof -
    obtain a where a: "entry s1 i i = Some a" "statusPriority st \<le> statusPriority a" using M(4) [of i st] active by auto
    then have a2: "entry s2 i i = Some a" by (simp add: rec)
    have act2: "\<not> inactive s2 i" using growsD(3) [OF grow active] .
    have "grows s2 s'" "spreading (set queue' \<times> UNIV) s'" using IH by blast+
    from growsD(4) [OF this(1) a2 act2] obtain b where b: "entry s' i i = Some b" "statusPriority a \<le> statusPriority b" by blast
    have "\<not> inactive s' i" using growsD(3) [OF \<open>grows s2 s'\<close> act2] .
    from spreadingD(4) [OF \<open>spreading _ s'\<close> b(1) this] obtain d where "dirtyAt s' i = Some d" "statusPriority b \<le> statusPriority d" by blast
    moreover have "dirtyAt s' i = Some st" using dirty same(2) growsD(2) [OF \<open>grows s2 s'\<close>] by simp
    ultimately show ?thesis using a(2) b statusPriority_inject [of b st] by simp
  qed
  have nodes: "dirtyNodes s' r \<subseteq> dirtyNodes s r \<union> set affected'" for r
  proof -
    have "dirtyNodes s2 r \<subseteq> dirtyNodes s r \<union> {i}" using M(6) [of r] K(3) [of r] by (auto split: if_splits)
    moreover have "dirtyNodes s' r \<subseteq> dirtyNodes s2 r \<union> set affected'" "set ?affected \<subseteq> set affected'" using IH by blast+
    ultimately show ?thesis by (simp only: set_append list.set) blast
  qed
  have "dirtyNodes s' i \<subseteq> set affected'"
  proof -
    have "dirtyNodes s' i \<subseteq> dirtyNodes s2 i \<union> set affected'" "set ?affected \<subseteq> set affected'" using IH by blast+
    with known show ?thesis by (simp only: set_append list.set) blast
  qed
  then have "\<forall>r \<in> fst ` set ((i, st) # seeds). dirtyNodes s' r \<subseteq> set affected'" using IH by auto
  moreover have "grows s s'" using grow IH grows_trans by blast
  moreover have "set queue' \<subseteq> set queue \<union> fst ` set ((i, st) # seeds)" using IH by (auto split: if_splits)
  ultimately show ?case using IH upper mine nodes alive by simp
qed

section \<open>Settled states\<close>

text \<open>
  Between operations: a node holds the status \<open>D\<close> gives to each root that reaches it, and nothing else
  but entries of resolved roots. \<open>D\<close> is the map of direct statuses the entries were made from.
\<close>

definition settled :: "(string \<Rightarrow> memory_status option) \<Rightarrow> frontier_engine \<Rightarrow> bool" where
  "settled D s =
     (booked {} s \<and> acyclic (edges s) \<and>
      (\<forall>n r st. entry s n r = Some st \<longrightarrow> (r, n) \<in> (edges s)\<^sup>* \<and> (inactive s r \<or> D r = Some st)) \<and>
      (\<forall>n r st. D r = Some st \<longrightarrow> (r, n) \<in> (edges s)\<^sup>* \<longrightarrow> entry s n r = Some st) \<and>
      (\<forall>r. dirtyNodes s r = (if inactive s r then (edges s)\<^sup>* `` {r} else holders s r)) \<and>
      (\<forall>r. D r \<noteq> None \<longrightarrow> \<not> inactive s r))"

lemma settledD:
  assumes "settled D s"
  shows "booked {} s" "acyclic (edges s)" "entry s n r = Some st \<Longrightarrow> (r, n) \<in> (edges s)\<^sup>*"
    "entry s n r = Some st \<Longrightarrow> \<not> inactive s r \<Longrightarrow> D r = Some st"
    "D r = Some st \<Longrightarrow> (r, n) \<in> (edges s)\<^sup>* \<Longrightarrow> entry s n r = Some st"
    "dirtyNodes s r = (if inactive s r then (edges s)\<^sup>* `` {r} else holders s r)"
    "D r \<noteq> None \<Longrightarrow> \<not> inactive s r"
proof -
  note parts = assms [unfolded settled_def]
  show "booked {} s" "acyclic (edges s)" using parts by - (elim conjE, assumption)+
  show "entry s n r = Some st \<Longrightarrow> (r, n) \<in> (edges s)\<^sup>*" "entry s n r = Some st \<Longrightarrow> \<not> inactive s r \<Longrightarrow> D r = Some st"
    "D r = Some st \<Longrightarrow> (r, n) \<in> (edges s)\<^sup>* \<Longrightarrow> entry s n r = Some st"
    using parts by blast+
  show "dirtyNodes s r = (if inactive s r then (edges s)\<^sup>* `` {r} else holders s r)" using parts by (elim conjE) (rule spec)
  show "D r \<noteq> None \<Longrightarrow> \<not> inactive s r" using parts by (elim conjE) (drule spec, erule mp)
qed

lemma settled_nodes: "settled D s \<Longrightarrow> D r \<noteq> None \<Longrightarrow> dirtyNodes s r = (edges s)\<^sup>* `` {r}"
proof -
  assume s: "settled D s" "D r \<noteq> None"
  then obtain st where st: "D r = Some st" by blast
  have "holders s r = (edges s)\<^sup>* `` {r}"
    using settledD(3) [OF s(1), of _ r] settledD(5) [OF s(1) st] by auto
  with settledD(6) [OF s(1), of r] settledD(7) [OF s] show ?thesis by simp
qed

lemma settled_spreading:
  assumes "settled D s" and "\<And>r st. D r = Some st \<Longrightarrow> \<exists>d. dirtyAt s r = Some d \<and> statusPriority st \<le> statusPriority d"
    and "\<And>r. dirtyAt s r \<noteq> None \<Longrightarrow> \<not> inactive s r"
  shows "spreading {} s"
  unfolding spreading_def
proof (intro conjI allI impI)
  show "booked {} s" "acyclic (edges s)" using settledD(1,2) [OF assms(1)] by blast+
  fix n r st
  assume e: "entry s n r = Some st"
  then show "(r, n) \<in> (edges s)\<^sup>*" by (rule settledD(3) [OF assms(1)])
  show "inactive s r \<or> (\<exists>d. dirtyAt s r = Some d \<and> statusPriority st \<le> statusPriority d)"
    using settledD(4) [OF assms(1) e] assms(2) by blast
next
  fix n m r st
  assume nm: "(n, m) \<in> edges s - {}" and e: "entry s n r = Some st" "\<not> inactive s r"
  have "D r = Some st" by (rule settledD(4) [OF assms(1) e])
  moreover have "(r, m) \<in> (edges s)\<^sup>*" using settledD(3) [OF assms(1) e(1)] nm by (meson DiffD1 rtrancl.rtrancl_into_rtrancl)
  ultimately have "entry s m r = Some st" by (rule settledD(5) [OF assms(1)])
  then show "\<exists>st'. entry s m r = Some st' \<and> statusPriority st \<le> statusPriority st'" by simp
qed (use settledD(6) [OF assms(1)] assms(3) in blast)+

lemma spreading_settled:
  assumes s: "spreading {} s" and roots: "\<And>r d. dirtyAt s r = Some d \<Longrightarrow> entry s r r = Some d"
  shows "settled (dirtyAt s) s"
  unfolding settled_def
proof (intro conjI allI impI)
  have reached: "entry s n r = Some d" if r: "dirtyAt s r = Some d" and path: "(r, n) \<in> (edges s)\<^sup>*" for n r d
  proof -
    have act: "\<not> inactive s r" using spreadingD(7) [OF s] r by simp
    have "\<exists>st. entry s n r = Some st \<and> statusPriority d \<le> statusPriority st"
      using path
    proof (induction rule: rtrancl_induct)
      case base
      then show ?case using roots [OF r] by simp
    next
      case (step y z)
      then obtain st where "entry s y r = Some st" "statusPriority d \<le> statusPriority st" by blast
      with spreadingD(5) [OF s, of y z r st] step.hyps(2) act show ?case by (meson DiffI empty_iff order_trans)
    qed
    then obtain st where st: "entry s n r = Some st" "statusPriority d \<le> statusPriority st" by blast
    with spreadingD(4) [OF s st(1) act] r show ?thesis using statusPriority_inject [of st d] by auto
  qed
  show "entry s n r = Some st" if "dirtyAt s r = Some st" "(r, n) \<in> (edges s)\<^sup>*" for n r st
    using reached that .
  fix n r st
  assume e: "entry s n r = Some st"
  show path: "(r, n) \<in> (edges s)\<^sup>*" by (rule spreadingD(3) [OF s e])
  show "inactive s r \<or> dirtyAt s r = Some st"
    using spreadingD(4) [OF s e] reached [OF _ path] e by auto
qed (use spreadingD [OF s] in blast)+

lemma propagateDirty_spec:
  assumes run: "propagateDirty seeds s = (affected, s')" and alive: "alive s'" and s: "spreading {} s"
    and seeds: "\<forall>(i, st) \<in> set seeds. dirtyAt s i = Some st"
    and rest: "\<And>r d. dirtyAt s r = Some d \<Longrightarrow> r \<notin> fst ` set seeds \<Longrightarrow> entry s r r = Some d"
  shows "settled (dirtyAt s) s'" and "alive s" and "affected = canonicalSort affected"
    and "set affected = (edges s)\<^sup>* `` (fst ` set seeds)" and "fe_dependents s' = fe_dependents s" and "fe_directDirty s' = fe_directDirty s"
proof -
  obtain affected1 queue s1 where loop1: "seedLoop seeds [] [] s = ((affected1, queue), s1)" by (metis surj_pair)
  obtain affected2 s2 where loop2: "propagateLoop queue affected1 s1 = (affected2, s2)" by (metis surj_pair)
  have out: "affected = canonicalSort affected2" "s' = s2" using run by (simp_all add: propagateDirty_def loop1 loop2)
  have s1: "alive s1" using propagateLoop_upkeep [OF exceeded_upkeep, of s1 queue affected1] loop2 alive out by auto
  have "spreading (set [] \<times> UNIV) s" using s by simp
  note S = seedLoop_spec [OF loop1 s1 this seeds]
  have sp1: "spreading (set queue \<times> UNIV) s1" and g1: "grows s s1" using S by blast+
  note P = propagateLoop_spec [OF loop2 alive [unfolded out(2)] sp1]
  have sp2: "spreading {} s'" and g2: "grows s1 s'" using P out(2) by blast+
  have g: "grows s s'" by (rule grows_trans [OF g1 g2])
  show graph: "fe_dependents s' = fe_dependents s" and dirty: "fe_directDirty s' = fe_directDirty s" using growsD(1,2) [OF g] .
  show "alive s" using S by blast
  show "affected = canonicalSort affected" unfolding out(1) by (simp add: canonicalSort_cong)
  have mine: "entry s' r r = Some d" if r: "dirtyAt s r = Some d" for r d
  proof -
    have act: "\<not> inactive s r" using spreadingD(7) [OF s] r by simp
    have "\<exists>a. entry s' r r = Some a \<and> statusPriority d \<le> statusPriority a"
    proof (cases "r \<in> fst ` set seeds")
      case True
      then obtain st where "(r, st) \<in> set seeds" by force
      moreover from this have "st = d" using seeds r by auto
      ultimately have "entry s1 r r = Some d" using S by blast
      then show ?thesis using growsD(4) [OF g2 _ growsD(3) [OF g1 act]] by blast
    next
      case False
      from growsD(4) [OF g rest [OF r False] act] show ?thesis .
    qed
    then obtain a where a: "entry s' r r = Some a" "statusPriority d \<le> statusPriority a" by blast
    have "statusPriority a \<le> statusPriority d"
      using spreadingD(4) [OF sp2 a(1) growsD(3) [OF g act]] r dirty by simp
    with a show ?thesis using statusPriority_inject [of a d] by simp
  qed
  have "settled (dirtyAt s') s'" by (rule spreading_settled [OF sp2]) (use mine dirty in simp)
  then show settled: "settled (dirtyAt s) s'" using dirty by simp
  show "set affected = (edges s)\<^sup>* `` (fst ` set seeds)"
  proof
    have "set affected1 \<subseteq> set [] \<union> (edges s)\<^sup>* `` (fst ` set seeds)" using S by (elim conjE)
    moreover have "set queue \<subseteq> (edges s)\<^sup>* `` (fst ` set seeds)"
    proof -
      have "set queue \<subseteq> set [] \<union> fst ` set seeds" using S by (elim conjE)
      then show ?thesis by auto
    qed
    from rtrancl_Image_sub [OF this] have "(edges s)\<^sup>* `` set queue \<subseteq> (edges s)\<^sup>* `` (fst ` set seeds)" .
    moreover have "set affected2 \<subseteq> set affected1 \<union> (edges s1)\<^sup>* `` set queue" using P by (elim conjE)
    then have "set affected2 \<subseteq> set affected1 \<union> (edges s)\<^sup>* `` set queue" by (simp only: growsD(1) [OF g1])
    ultimately show "set affected \<subseteq> (edges s)\<^sup>* `` (fst ` set seeds)" 
      unfolding out(1) canonicalSort_props by (simp only: list.set(1) Un_empty_left) (meson Un_least order_trans)
    show "(edges s)\<^sup>* `` (fst ` set seeds) \<subseteq> set affected"
    proof
      fix n assume "n \<in> (edges s)\<^sup>* `` (fst ` set seeds)"
      then obtain r where r: "r \<in> fst ` set seeds" "(r, n) \<in> (edges s)\<^sup>*" by blast
      then have "dirtyAt s r \<noteq> None" using seeds by auto
      from settled_nodes [OF settled this] r(2) graph have "n \<in> dirtyNodes s' r" by simp
      moreover have "dirtyNodes s' r \<subseteq> dirtyNodes s1 r \<union> set affected2" using P out(2) by blast
      moreover have "dirtyNodes s1 r \<subseteq> set affected1" using S r(1) by blast
      moreover have "set affected1 \<subseteq> set affected2" using P by blast
      ultimately show "n \<in> set affected" unfolding out(1) by (simp only: canonicalSort_props) blast
    qed
  qed
qed

end
