(* ===== verification/Frontier_Operations.thy ===== *)
theory Frontier_Operations
  imports Frontier_Propagation
begin

text \<open>
  What the operations of the frontier engine make of a settled state: rebuilding, compaction,
  tombstones, reactivation and new direct statuses leave it settled for the direct statuses they set.
\<close>

section \<open>Rebuilding\<close>

lemma settled_empty:
  assumes "acyclic (edges s)" and "fe_activeDirtyRoots s = []" and "fe_activeFrontiers s = []" and "fe_dirtyNodesByRoot s = []"
    and "fe_affectedClosureCache s = []" and "fe_inactiveDirtyRoots s = []" and "fe_rootEntryCounts s = []"
  shows "settled (\<lambda>r. None) s"
  using assms by (simp add: settled_def booked_def countsRight_def frontierRight_def)

lemma rebuildDirtyState_spec:
  assumes alive: "alive (rebuildDirtyState s)" and acyclic: "acyclic (edges s)" and ok: "omap_ok (fe_directDirty s)"
  shows "settled (dirtyAt s) (rebuildDirtyState s)"
proof -
  define u where "u = s\<lparr>fe_activeDirtyRoots := [], fe_activeFrontiers := [], fe_dirtyNodesByRoot := [], fe_affectedClosureCache := [],
      fe_dirtyStates := [], fe_inactiveDirtyRoots := [], fe_inactiveRootEntryCounts := [], fe_rootEntryCounts := [],
      fe_tombstonedRootEntries := 0\<rparr>"
  have same: "fe_directDirty u = fe_directDirty s" "fe_dependents u = fe_dependents s" by (simp_all add: u_def)
  have empty: "settled (\<lambda>r. None) u" by (rule settled_empty) (simp_all add: u_def acyclic)
  have eq: "rebuildDirtyState s = (if fe_directDirty u \<noteq> [] then snd (propagateDirty (fe_directDirty u) u) else u)"
    by (simp add: rebuildDirtyState_def u_def)
  show ?thesis
  proof (cases "fe_directDirty u = []")
    case True
    then have "rebuildDirtyState s = u" "dirtyAt s = (\<lambda>r. None)" using eq same(1) by simp_all
    then show ?thesis using empty by simp
  next
    case False
    obtain affected s' where run: "propagateDirty (fe_directDirty u) u = (affected, s')" by (metis surj_pair)
    have s': "rebuildDirtyState s = s'" using eq False run by simp
    have sp: "spreading {} u" by (rule settled_spreading [OF empty]) (simp_all add: u_def)
    have seeds: "\<forall>(i, st) \<in> set (fe_directDirty u). dirtyAt u i = Some st" using ok same(1) by (auto simp: omap_ok_def)
    have "settled (dirtyAt u) s'"
    proof (rule propagateDirty_spec [OF run alive [unfolded s'] sp seeds])
      fix r d assume "dirtyAt u r = Some d" "r \<notin> fst ` set (fe_directDirty u)"
      then show "entry u r r = Some d" by (metis map_of_eq_None_iff option.distinct(1))
    qed
    then show ?thesis using s' same(1) by simp
  qed
qed

section \<open>Compaction and tombstones\<close>

lemma compactResolvedRoots_settled:
  assumes run: "compactResolvedRoots i s = (changed, s')" and alive: "alive s'" and s: "settled D s"
  shows "settled D s'" and "\<And>r. entry s' i r \<noteq> None \<longleftrightarrow> (\<exists>st. D r = Some st \<and> (r, i) \<in> (edges s)\<^sup>*)"
    and "\<And>r st. entry s' i r = Some st \<Longrightarrow> D r = Some st \<and> \<not> inactive s' r" and "frontierRight s' i" and "edges s' = edges s" and "alive s"
proof -
  note C = compactResolvedRoots_spec [OF run alive settledD(1,2) [OF s]]
  obtain K where K: "K \<subseteq> set (fe_inactiveDirtyRoots s)" "drained s K s'" "\<And>r. r \<in> K \<Longrightarrow> holders s' r = {}" using C(3) by blast
  note D = drainedD [OF K(2)]
  show graph: "edges s' = edges s" using D(5) by simp
  show "alive s" "frontierRight s' i" by (rule C(4), rule C(6))
  have live: "inactive s' r = inactive s r" if "entry s' n r \<noteq> None" for n r
    using D(1) [of r] K(3) [of r] that by blast
  show settled: "settled D s'"
    unfolding settled_def graph
  proof (intro conjI allI impI)
    show "booked {} s'" "acyclic (edges s)" using C(2) settledD(2) [OF s] by blast+
    fix n r st
    assume e: "entry s' n r = Some st"
    then have old: "entry s n r = Some st" using C(1) [of n r] by (auto split: if_splits)
    show "(r, n) \<in> (edges s)\<^sup>*" by (rule settledD(3) [OF s old])
    show "inactive s' r \<or> D r = Some st" using settledD(4) [OF s old] live [of n r] e by auto
  next
    fix n r st
    assume d: "D r = Some st" and path: "(r, n) \<in> (edges s)\<^sup>*"
    have "\<not> inactive s r" using settledD(7) [OF s, of r] d by simp
    with settledD(5) [OF s d path] C(1) [of n r] show "entry s' n r = Some st" by simp
  next
    fix r
    show "dirtyNodes s' r = (if inactive s' r then (edges s)\<^sup>* `` {r} else holders s' r)"
    proof (cases "inactive s r")
      case True
      then show ?thesis using D(1,2) [of r] K(3) [of r] settledD(6) [OF s, of r] by auto
    next
      case False
      then have "r \<notin> K" using K(1) by blast
      moreover have "holders s' r = holders s r" using C(1) [of _ r] False by simp
      ultimately show ?thesis using D(1,2) [of r] settledD(6) [OF s, of r] False by simp
    qed
    show "\<not> inactive s' r" if "D r \<noteq> None" using settledD(7) [OF s that] D(1) by blast
  qed
  show here: "D r = Some st \<and> \<not> inactive s' r" if "entry s' i r = Some st" for r st
    using C(5) [of r] settledD(4) [OF settled that] that by simp
  show "entry s' i r \<noteq> None \<longleftrightarrow> (\<exists>st. D r = Some st \<and> (r, i) \<in> (edges s)\<^sup>*)" for r
  proof
    assume "entry s' i r \<noteq> None"
    then obtain st where "entry s' i r = Some st" by blast
    with here [of r st] settledD(3) [OF settled this] graph show "\<exists>st. D r = Some st \<and> (r, i) \<in> (edges s)\<^sup>*" by simp
  next
    assume "\<exists>st. D r = Some st \<and> (r, i) \<in> (edges s)\<^sup>*"
    then obtain st where "D r = Some st" "(r, i) \<in> (edges s')\<^sup>*" using graph by auto
    from settledD(5) [OF settled this] show "entry s' i r \<noteq> None" by simp
  qed
qed

lemma tombstone_settled:
  assumes alive: "alive (tombstone i s)" and s: "settled D s" and i: "D i \<noteq> None"
  shows "settled (D(i := None)) (tombstone i s)"
proof -
  define entries where "entries = nullish (map_of (fe_rootEntryCounts s) i) 0"
  define u where "u = s\<lparr>fe_generation := fe_generation s + 1, fe_directDirty := omap_delete i (fe_directDirty s),
      fe_inactiveDirtyRoots := (if inactive s i then fe_inactiveDirtyRoots s else fe_inactiveDirtyRoots s @ [i]),
      fe_inactiveRootEntryCounts := omap_set i entries (fe_inactiveRootEntryCounts s),
      fe_tombstonedRootEntries := fe_tombstonedRootEntries s + entries\<rparr>"
  have eq: "tombstone i s = u"
    using alive by (auto simp: tombstone_def u_def entries_def Let_def failClosed_def invalidateAllCaches_def)
  have inactive: "inactive u r \<longleftrightarrow> inactive s r \<or> r = i" for r by (auto simp: u_def)
  have same: "rootsAt u n = rootsAt s n" "edges u = edges s" "edgesAt (fe_dirtyNodesByRoot u) r = edgesAt (fe_dirtyNodesByRoot s) r"
    "frontierAt u n = frontierAt s n" "fe_affectedClosureCache u = fe_affectedClosureCache s" "entryCount u r = entryCount s r" for n r
    by (simp_all add: u_def)
  note old = bookedD [OF settledD(1) [OF s]]
  have "booked {} u"
    unfolding booked_def same
  proof (intro conjI allI impI)
    show "countsRight u" using old(2) unfolding countsRight_def same .
    show "frontierRight u n" if "\<forall>r. entry s n r \<noteq> None \<longrightarrow> \<not> inactive u r" for n
    proof -
      have "frontierRight s n" using old(6) [of n] that inactive by blast
      then show ?thesis unfolding frontierRight_def same .
    qed
  qed (use old in blast)+
  have "settled (D(i := None)) u"
    unfolding settled_def same
  proof (intro conjI allI impI)
    show "booked {} u" by fact
    show "acyclic (edges s)" by (rule settledD(2) [OF s])
    show "inactive u r \<or> (D(i := None)) r = Some st" if "entry s n r = Some st" for n r st
      using settledD(4) [OF s that] inactive [of r] by auto
    show "entry s n r = Some st" if "(D(i := None)) r = Some st" "(r, n) \<in> (edges s)\<^sup>*" for n r st
      using settledD(5) [OF s _ that(2)] that(1) by (simp split: if_splits)
    show "dirtyNodes s r = (if inactive u r then (edges s)\<^sup>* `` {r} else holders s r)" for r
      using settledD(6) [OF s, of r] settled_nodes [OF s i] inactive [of r] by (cases "r = i") simp_all
    show "\<not> inactive u r" if "(D(i := None)) r \<noteq> None" for r
      using settledD(7) [OF s, of r] that inactive [of r] by (simp split: if_splits)
  qed (rule settledD(3) [OF s])
  with eq show ?thesis by simp
qed

section \<open>Reactivation\<close>

text \<open>One node of the loop: it gets the entry of the root, and its frontier is computed anew.\<close>

lemma reactivate_step:
  assumes s: "booked (insert i X) s" and acyclic: "acyclic (edges s)" and member: "i \<in> dirtyNodes s rt"
    and v: "v = s\<lparr>fe_frontierWorkUsed := w, fe_rootEntryCounts := k, fe_activeDirtyRoots := omap_set i roots (fe_activeDirtyRoots s)\<rparr>"
    and counts: "\<And>r. nullish (map_of k r) 0 = entryCount s r + (if r = rt \<and> entry s i rt = None then 1 else 0)"
    and roots: "\<And>r. map_of roots r = (if r = rt then Some st else entry s i r)" "omap_ok roots"
    and z: "z = refreshFrontier i v" and alive: "alive z"
  shows "booked X z" and "\<And>n r. entry z n r = (if n = i \<and> r = rt then Some st else entry s n r)"
    and "\<exists>f w d. z = v\<lparr>fe_activeFrontiers := f, fe_frontierWorkUsed := w, fe_dirtyStates := d\<rparr>" and "alive s"
proof -
  have "acyclic (edges v)" using acyclic by (simp add: v)
  then obtain f w' d where u: "z = v\<lparr>fe_activeFrontiers := omap_set i f (fe_activeFrontiers v), fe_frontierWorkUsed := w', fe_dirtyStates := d\<rparr>"
    and f: "distinct f" "set f = topmost (edges v) {r. entry v i r \<noteq> None \<and> \<not> inactive v r}" and av: "alive v"
    by (rule refreshFrontierE [OF alive [unfolded z], folded z]) (rule that)
  show "\<exists>f w d. z = v\<lparr>fe_activeFrontiers := f, fe_frontierWorkUsed := w, fe_dirtyStates := d\<rparr>" using u by blast
  show "alive s" using av by (simp add: v)
  show entries: "entry z n r = (if n = i \<and> r = rt then Some st else entry s n r)" for n r
    by (simp add: u v roots)
  have same: "edges z = edges s" "dirtyNodes z r = dirtyNodes s r" "fe_affectedClosureCache z = fe_affectedClosureCache s"
    "fe_inactiveDirtyRoots z = fe_inactiveDirtyRoots s" for r
    by (simp_all add: u v)
  note old = bookedD [OF s]
  show "booked X z"
    unfolding booked_def same
  proof (intro conjI allI impI)
    show "omap_ok (rootsAt z n)" for n using old(1) roots(2) by (simp add: u v)
    show "countsRight z"
      unfolding countsRight_def
    proof
      fix r
      have count: "entryCount z r = entryCount s r + (if r = rt \<and> entry s i rt = None then 1 else 0)" using counts by (simp add: u v)
      have was: "entryCount s r = int (card (holders s r))" using old(2) by (simp only: countsRight_def)
      show "entryCount z r = int (card (holders z r))"
      proof (cases "r = rt \<and> entry s i rt = None")
        case True
        then have more: "holders z r = insert i (holders s r)" and new: "i \<notin> holders s r" using entries by auto
        have "finite (holders s r)" by simp
        from card_insert_disjoint [OF this new] have "card (holders z r) = Suc (card (holders s r))" unfolding more .
        with True count was show ?thesis by simp
      next
        case False
        then have "holders z r = holders s r" using entries by auto
        then have "card (holders z r) = card (holders s r)" by (rule arg_cong)
        with count was show ?thesis unfolding if_not_P [OF False] by simp
      qed
    qed
    show "n \<in> dirtyNodes s r" if "entry z n r \<noteq> None" for n r
      using that entries [of n r] member old(3) [of n r] by (auto split: if_splits)
    show "omap_ok (fe_affectedClosureCache s)" by (rule old(4))
    show "set c = insert r (dirtyNodes s r)" "sorted c" "distinct c" if "map_of (fe_affectedClosureCache s) r = Some c" for r c
      using old(5) [OF that] by blast+
    fix n
    assume n: "n \<notin> X" and active: "\<forall>r. entry z n r \<noteq> None \<longrightarrow> \<not> inactive s r"
    show "frontierRight z n"
    proof (cases "n = i")
      case True
      have "{r. entry v i r \<noteq> None \<and> \<not> inactive v r} = rootSet z n"
        using active True entries by (auto simp: v roots)
      with f True show ?thesis by (simp add: frontierRight_def u v)
    next
      case False
      then have "entry z n r = entry s n r" for r using entries by simp
      with active have "frontierRight s n" using old(6) [of n] n False by auto
      with False show ?thesis by (simp add: frontierRight_def u v)
    qed
  qed
qed

lemma reactivateLoop_spec:
  assumes "alive (reactivateLoop rt st is s)" and "booked (set is) s" and "acyclic (edges s)" and "set is \<subseteq> dirtyNodes s rt"
  shows "booked {} (reactivateLoop rt st is s) \<and>
    (\<forall>n r. entry (reactivateLoop rt st is s) n r = (if r = rt \<and> n \<in> set is then Some st else entry s n r)) \<and>
    fe_inactiveDirtyRoots (reactivateLoop rt st is s) = fe_inactiveDirtyRoots s \<and>
    fe_dirtyNodesByRoot (reactivateLoop rt st is s) = fe_dirtyNodesByRoot s \<and> fe_dependents (reactivateLoop rt st is s) = fe_dependents s"
  using assms
proof (induction rt st "is" s rule: reactivateLoop.induct)
  case (1 rt st s)
  then show ?case by simp
next
  case (2 rt st i "is" s)
  have alive: "alive s" using 2(2) by (simp split: if_splits)
  define new where "new \<longleftrightarrow> entry s i rt = None"
  define s1 where "s1 = (case entry s i rt of
      None \<Rightarrow> tick (s\<lparr>fe_rootEntryCounts := omap_set rt (nullish (map_of (fe_rootEntryCounts s) rt) 0 + 1) (fe_rootEntryCounts s)\<rparr>)
    | Some previous \<Rightarrow> if previous \<noteq> st then tick s else s)"
  define roots' where "roots' = (if entry s i rt = Some st then rootsAt s i else omap_set rt st (rootsAt s i))"
  define v where "v = s1\<lparr>fe_activeDirtyRoots := omap_set i roots' (fe_activeDirtyRoots s1)\<rparr>"
  let ?u = "refreshFrontier i v"
  have eq: "reactivateLoop rt st (i # is) s = reactivateLoop rt st is ?u"
    using alive by (simp add: Let_def s1_def roots'_def v_def)
  have au: "alive ?u"
    using 2(2) reactivateLoop_upkeep [OF exceeded_upkeep, of ?u rt st "is"] unfolding eq by blast
  obtain f w d where "alive v" by (rule refreshFrontierE [OF au]) (use 2(4) in \<open>auto simp: v_def s1_def tick_def failClosed_def invalidateAllCaches_def Let_def split: option.splits\<close>)
  then have as1: "alive s1" by (simp add: v_def)
  have "\<exists>w k. s1 = s\<lparr>fe_frontierWorkUsed := w, fe_rootEntryCounts := k\<rparr> \<and>
    (\<forall>r. nullish (map_of k r) 0 = entryCount s r + (if r = rt \<and> entry s i rt = None then 1 else 0))"
  proof (cases "entry s i rt")
    case None
    let ?k = "omap_set rt (nullish (map_of (fe_rootEntryCounts s) rt) 0 + 1) (fe_rootEntryCounts s)"
    have "alive (tick (s\<lparr>fe_rootEntryCounts := ?k\<rparr>))" using as1 None by (simp add: s1_def)
    then obtain w where "tick (s\<lparr>fe_rootEntryCounts := ?k\<rparr>) = s\<lparr>fe_rootEntryCounts := ?k, fe_frontierWorkUsed := w\<rparr>" by (rule tickE)
    with None have "s1 = s\<lparr>fe_frontierWorkUsed := w, fe_rootEntryCounts := ?k\<rparr>" by (simp add: s1_def)
    with None show ?thesis by (intro exI [of _ w] exI [of _ ?k]) simp
  next
    case (Some p)
    then have "worked s s1" by (simp add: s1_def worked_tick)
    then obtain x where "s1 = s\<lparr>fe_frontierWorkUsed := x\<rparr>" using as1 unfolding worked_def by blast
    with Some show ?thesis by (intro exI [of _ x] exI [of _ "fe_rootEntryCounts s"]) simp
  qed
  then obtain w k where s1: "s1 = s\<lparr>fe_frontierWorkUsed := w, fe_rootEntryCounts := k\<rparr>"
    and k: "\<And>r. nullish (map_of k r) 0 = entryCount s r + (if r = rt \<and> entry s i rt = None then 1 else 0)" by blast
  have v: "v = s\<lparr>fe_frontierWorkUsed := w, fe_rootEntryCounts := k, fe_activeDirtyRoots := omap_set i roots' (fe_activeDirtyRoots s)\<rparr>"
    by (simp add: v_def s1)
  have roots: "map_of roots' r = (if r = rt then Some st else entry s i r)" for r by (simp add: roots'_def)
  have ok: "omap_ok roots'" using bookedD(1) [OF 2(3)] by (simp add: roots'_def)
  have b: "booked (insert i (set is)) s" using 2(3) by simp
  have i: "i \<in> dirtyNodes s rt" using 2(5) by simp
  note R = reactivate_step [OF b 2(4) i v k roots ok refl au]
  obtain f' w' d' where u: "?u = v\<lparr>fe_activeFrontiers := f', fe_frontierWorkUsed := w', fe_dirtyStates := d'\<rparr>" using R(3) by blast
  have same: "fe_inactiveDirtyRoots ?u = fe_inactiveDirtyRoots s" "fe_dirtyNodesByRoot ?u = fe_dirtyNodesByRoot s" "fe_dependents ?u = fe_dependents s"
    unfolding u by (simp_all add: v)
  have IH: "booked {} (reactivateLoop rt st is ?u) \<and>
    (\<forall>n r. entry (reactivateLoop rt st is ?u) n r = (if r = rt \<and> n \<in> set is then Some st else entry ?u n r)) \<and>
    fe_inactiveDirtyRoots (reactivateLoop rt st is ?u) = fe_inactiveDirtyRoots ?u \<and>
    fe_dirtyNodesByRoot (reactivateLoop rt st is ?u) = fe_dirtyNodesByRoot ?u \<and> fe_dependents (reactivateLoop rt st is ?u) = fe_dependents ?u"
    unfolding v_def
    by (rule 2(1) [OF _ refl s1_def roots'_def]) (use alive 2(2,4,5) eq R(1) same in \<open>simp_all add: v_def\<close>)
  have "entry (reactivateLoop rt st is ?u) n r = (if r = rt \<and> n \<in> set (i # is) then Some st else entry s n r)" for n r
    using IH R(2) [of n r] by auto
  then have entries: "\<forall>n r. entry (reactivateLoop rt st is ?u) n r = (if r = rt \<and> n \<in> set (i # is) then Some st else entry s n r)" by blast
  from IH have "booked {} (reactivateLoop rt st is ?u)"
    "fe_inactiveDirtyRoots (reactivateLoop rt st is ?u) = fe_inactiveDirtyRoots ?u"
    "fe_dirtyNodesByRoot (reactivateLoop rt st is ?u) = fe_dirtyNodesByRoot ?u"
    "fe_dependents (reactivateLoop rt st is ?u) = fe_dependents ?u" by - (elim conjE, assumption)+
  then show ?case unfolding eq same by (intro conjI entries)
qed

lemma reactivateRoot_spec:
  assumes alive: "alive (reactivateRoot rt st s)" and s: "settled D s" and rt: "inactive s rt"
  shows "settled (D(rt := Some st)) (reactivateRoot rt st s)" and "inactive (reactivateRoot rt st s) r \<longleftrightarrow> inactive s r \<and> r \<noteq> rt"
proof -
  define u where "u = s\<lparr>fe_tombstonedRootEntries := max 0 (fe_tombstonedRootEntries s - nullish (map_of (fe_inactiveRootEntryCounts s) rt) 0),
      fe_inactiveRootEntryCounts := omap_delete rt (fe_inactiveRootEntryCounts s), fe_inactiveDirtyRoots := removeAll rt (fe_inactiveDirtyRoots s)\<rparr>"
  define v where "v = reactivateLoop rt st (edgesAt (fe_dirtyNodesByRoot u) rt) u"
  have eq: "reactivateRoot rt st s = v" using rt by (simp add: reactivateRoot_def Let_def u_def v_def)
  have same: "rootsAt u n = rootsAt s n" "edges u = edges s" "edgesAt (fe_dirtyNodesByRoot u) r = edgesAt (fe_dirtyNodesByRoot s) r"
    "frontierAt u n = frontierAt s n" "fe_affectedClosureCache u = fe_affectedClosureCache s" "entryCount u r = entryCount s r"
    "inactive u r \<longleftrightarrow> inactive s r \<and> r \<noteq> rt" for n r
    by (auto simp: u_def)
  note old = bookedD [OF settledD(1) [OF s]]
  have nodes: "dirtyNodes s rt = (edges s)\<^sup>* `` {rt}" using settledD(6) [OF s, of rt] rt by simp
  have "booked (dirtyNodes u rt) u"
    unfolding booked_def same
  proof (intro conjI allI impI)
    show "countsRight u" using old(2) unfolding countsRight_def same .
    show "frontierRight u n" if n: "n \<notin> dirtyNodes s rt" "\<forall>r. entry s n r \<noteq> None \<longrightarrow> \<not> (inactive s r \<and> r \<noteq> rt)" for n
    proof -
      have "entry s n rt = None" using old(3) [of n rt] n(1) by blast
      then have "\<not> inactive s r" if "entry s n r \<noteq> None" for r using n(2) that by (cases "r = rt") auto
      then have "frontierRight s n" using old(6) [of n] by blast
      then show ?thesis unfolding frontierRight_def same .
    qed
  qed (use old in blast)+
  note L = reactivateLoop_spec [OF alive [unfolded eq v_def] this _ order_refl, folded v_def]
  have acyclic: "acyclic (edges u)" using settledD(2) [OF s] same(2) by simp
  have entries: "entry v n r = (if r = rt \<and> n \<in> dirtyNodes s rt then Some st else entry s n r)" for n r
    using L [OF acyclic] unfolding same by blast
  have after: "booked {} v" "fe_inactiveDirtyRoots v = fe_inactiveDirtyRoots u" "fe_dirtyNodesByRoot v = fe_dirtyNodesByRoot u"
    "fe_dependents v = fe_dependents u" using L [OF acyclic] by - (elim conjE, assumption)+
  have graph: "edges v = edges s" using after(4) same(2) by simp
  have inactive: "inactive v r \<longleftrightarrow> inactive s r \<and> r \<noteq> rt" for r using after(2) same(7) by simp
  then show "inactive (reactivateRoot rt st s) r \<longleftrightarrow> inactive s r \<and> r \<noteq> rt" using eq by simp
  have "settled (D(rt := Some st)) v"
    unfolding settled_def graph
  proof (intro conjI allI impI)
    show "booked {} v" "acyclic (edges s)" using after(1) settledD(2) [OF s] by blast+
    fix n r st'
    assume e: "entry v n r = Some st'"
    have "(r, n) \<in> (edges s)\<^sup>* \<and> (inactive v r \<or> (D(rt := Some st)) r = Some st')"
    proof (cases "r = rt")
      case True
      have n: "n \<in> dirtyNodes s rt"
      proof (rule ccontr)
        assume out: "n \<notin> dirtyNodes s rt"
        with entries [of n r] e True have "entry s n rt \<noteq> None" by simp
        with old(3) [of n rt] out show False by blast
      qed
      with entries [of n r] e True nodes show ?thesis by auto
    next
      case False
      then have "entry s n r = Some st'" using entries [of n r] e by simp
      with False settledD(3,4) [OF s this] inactive [of r] show ?thesis by auto
    qed
    then show "(r, n) \<in> (edges s)\<^sup>*" "inactive v r \<or> (D(rt := Some st)) r = Some st'" by blast+
  next
    fix n r st'
    assume d: "(D(rt := Some st)) r = Some st'" and path: "(r, n) \<in> (edges s)\<^sup>*"
    show "entry v n r = Some st'"
    proof (cases "r = rt")
      case True
      then show ?thesis using d path entries [of n r] nodes by simp
    next
      case False
      then show ?thesis using settledD(5) [OF s _ path] d entries [of n r] by simp
    qed
  next
    fix r
    have "dirtyNodes v r = dirtyNodes s r" using after(3) same(3) by simp
    moreover have "holders v r = (if r = rt then (edges s)\<^sup>* `` {rt} else holders s r)"
    proof (cases "r = rt")
      case True
      have "entry s n rt = None" if "n \<notin> dirtyNodes s rt" for n using old(3) [of n rt] that by blast
      then show ?thesis using entries [of _ rt] True nodes by auto
    next
      case False
      then show ?thesis using entries [of _ r] by simp
    qed
    ultimately show "dirtyNodes v r = (if inactive v r then (edges s)\<^sup>* `` {r} else holders v r)"
      using settledD(6) [OF s, of r] inactive [of r] nodes by (cases "r = rt") simp_all
    show "\<not> inactive v r" if "(D(rt := Some st)) r \<noteq> None"
      using that settledD(7) [OF s, of r] inactive [of r] by (cases "r = rt") simp_all
  qed
  then show "settled (D(rt := Some st)) (reactivateRoot rt st s)" using eq by simp
qed

section \<open>New direct statuses\<close>

lemma settled_simps [simp]:
  "settled D (s\<lparr>fe_directDirty := x1\<rparr>) = settled D s" "settled D (s\<lparr>fe_frontierWorkUsed := x2\<rparr>) = settled D s"
  "settled D (s\<lparr>fe_generation := x3\<rparr>) = settled D s" "settled D (s\<lparr>fe_frontierCache := x4\<rparr>) = settled D s"
  "settled D (s\<lparr>fe_trusted := x5\<rparr>) = settled D s" "settled D (s\<lparr>fe_trustRecoveryRequired := x6\<rparr>) = settled D s"
  "settled D (s\<lparr>fe_dependencies := x7\<rparr>) = settled D s" "settled D (s\<lparr>fe_dirtyStates := x8\<rparr>) = settled D s"
  "settled D (s\<lparr>fe_graphRevision := x9\<rparr>) = settled D s"
  by (simp_all add: settled_def booked_def countsRight_def frontierRight_def)

lemma statusMax_upper: "statusPriority a \<le> statusPriority (statusMax a b)" "statusPriority b \<le> statusPriority (statusMax a b)"
  by (simp_all add: statusMax_def)

definition raisedTo :: "memory_status \<Rightarrow> memory_status option \<Rightarrow> memory_status" where
  "raisedTo st previous = (case previous of None \<Rightarrow> st | Some p \<Rightarrow> statusMax p st)"

lemma raisedTo_upper: "statusPriority st \<le> statusPriority (raisedTo st p)" "p = Some q \<Longrightarrow> statusPriority q \<le> statusPriority (raisedTo st p)"
  using statusMax_upper by (auto simp: raisedTo_def split: option.split)

text \<open>\<open>lagging K D s\<close>: settled for statuses \<open>D\<close> that are behind the direct statuses at the nodes \<open>K\<close>.\<close>

definition lagging :: "string set \<Rightarrow> (string \<Rightarrow> memory_status option) \<Rightarrow> frontier_engine \<Rightarrow> bool" where
  "lagging K D s =
     (settled D s \<and> (\<forall>r. r \<notin> K \<longrightarrow> D r = dirtyAt s r) \<and>
      (\<forall>r p. D r = Some p \<longrightarrow> (\<exists>d. dirtyAt s r = Some d \<and> statusPriority p \<le> statusPriority d)) \<and>
      (\<forall>r. dirtyAt s r \<noteq> None \<longrightarrow> \<not> inactive s r))"

lemma markDirect_upkeep:
  assumes "\<not> alive s" shows "\<not> alive (markDirect st is s)"
  using assms
proof (induction st "is" s rule: markDirect.induct)
  case (2 st i "is" s)
  define st' where "st' = (case dirtyAt s i of None \<Rightarrow> st | Some previous \<Rightarrow> statusMax previous st)"
  define s1 where "s1 = s\<lparr>fe_directDirty := omap_set i st' (fe_directDirty s)\<rparr>"
  define v where "v = (if inactive s1 i then reactivateRoot i st' s1 else s1)"
  have "markDirect st (i # is) s = markDirect st is v" by (simp add: Let_def st'_def s1_def v_def)
  moreover have "\<not> alive v"
    using reactivateRoot_upkeep [OF exceeded_upkeep, of s1 i st'] 2(2) by (simp add: v_def s1_def)
  ultimately show ?case using 2(1) [OF st'_def s1_def, folded v_def] by simp
qed simp

lemma markDirect_framed:
  "fe_dependencies (markDirect st is s) = fe_dependencies s \<and> fe_dependents (markDirect st is s) = fe_dependents s \<and>
     (alive s \<or> \<not> fe_trusted s \<longrightarrow> alive (markDirect st is s) \<or> \<not> fe_trusted (markDirect st is s)) \<and>
     (omap_ok (fe_directDirty s) \<longrightarrow> omap_ok (fe_directDirty (markDirect st is s)))"
proof (induction st "is" s rule: markDirect.induct)
  case (2 st i "is" s)
  define st' where "st' = (case dirtyAt s i of None \<Rightarrow> st | Some previous \<Rightarrow> statusMax previous st)"
  define s1 where "s1 = s\<lparr>fe_directDirty := omap_set i st' (fe_directDirty s)\<rparr>"
  define v where "v = (if inactive s1 i then reactivateRoot i st' s1 else s1)"
  have eq: "markDirect st (i # is) s = markDirect st is v" by (simp add: Let_def st'_def s1_def v_def)
  have "framed s1 v" using reactivateRoot_framed [of s1 i st'] by (simp add: v_def)
  from framedD(1,2,3,9) [OF this] 2 [OF st'_def s1_def, folded v_def] show ?case unfolding eq by (simp add: s1_def)
qed simp

lemma markDirect_spec:
  assumes "alive (markDirect st is s)" and "lagging K D s" and "set is \<subseteq> K" and "distinct is"
  shows "(\<exists>D'. lagging K D' (markDirect st is s)) \<and> framed (s\<lparr>fe_directDirty := fe_directDirty (markDirect st is s)\<rparr>) (markDirect st is s) \<and>
    (\<forall>r. dirtyAt (markDirect st is s) r = (if r \<in> set is then Some (raisedTo st (dirtyAt s r)) else dirtyAt s r)) \<and>
    (omap_ok (fe_directDirty s) \<longrightarrow> omap_ok (fe_directDirty (markDirect st is s)))"
  using assms
proof (induction st "is" s arbitrary: D rule: markDirect.induct)
  case (1 st s)
  then show ?case by auto
next
  case (2 st i "is" s)
  define st' where "st' = (case dirtyAt s i of None \<Rightarrow> st | Some previous \<Rightarrow> statusMax previous st)"
  define s1 where "s1 = s\<lparr>fe_directDirty := omap_set i st' (fe_directDirty s)\<rparr>"
  define v where "v = (if inactive s1 i then reactivateRoot i st' s1 else s1)"
  have eq: "markDirect st (i # is) s = markDirect st is v" by (simp add: Let_def st'_def s1_def v_def)
  have raised: "st' = raisedTo st (dirtyAt s i)" by (simp add: st'_def raisedTo_def)
  have av: "alive v" using 2(2) markDirect_upkeep [of v st "is"] unfolding eq by blast
  have lag: "settled D s" "\<And>r. r \<notin> K \<Longrightarrow> D r = dirtyAt s r" "\<And>r. dirtyAt s r \<noteq> None \<Longrightarrow> \<not> inactive s r"
    "\<And>r p. D r = Some p \<Longrightarrow> \<exists>d. dirtyAt s r = Some d \<and> statusPriority p \<le> statusPriority d"
    using 2(3) unfolding lagging_def by blast+
  have i: "i \<in> K" "i \<notin> set is" "set is \<subseteq> K" "distinct is" using 2(4,5) by auto
  have fr: "framed s1 v" using reactivateRoot_framed [of s1 i st'] by (simp add: v_def)
  note F = framedD [OF fr]
  have dirty: "dirtyAt v r = (if r = i then Some st' else dirtyAt s r)" for r using F(3) by (simp add: s1_def)
  have "settled D s1" using lag(1) by (simp add: s1_def)
  have mono: "\<exists>d. dirtyAt v r = Some d \<and> statusPriority p \<le> statusPriority d" if "D r = Some p" for r p
  proof -
    obtain d where d: "dirtyAt s r = Some d" "statusPriority p \<le> statusPriority d" using lag(4) \<open>D r = Some p\<close> by blast
    show ?thesis
    proof (cases "r = i")
      case True
      with d raisedTo_upper(2) [of "dirtyAt s i" d st] show ?thesis using dirty raised by auto
    qed (use d dirty in auto)
  qed
  have "\<exists>D'. lagging K D' v"
  proof (cases "inactive s1 i")
    case False
    then have "v = s1" by (simp add: v_def)
    then have "lagging K D v"
      unfolding lagging_def using \<open>settled D s1\<close> lag(2,3) dirty mono i(1) False by (auto simp: s1_def)
    then show ?thesis by blast
  next
    case True
    then have v: "v = reactivateRoot i st' s1" by (simp add: v_def)
    note R = reactivateRoot_spec [OF av [unfolded v] \<open>settled D s1\<close> True, folded v]
    have "lagging K (D(i := Some st')) v"
      unfolding lagging_def
    proof (intro conjI allI impI)
      show "settled (D(i := Some st')) v" by (rule R(1))
      show "(D(i := Some st')) r = dirtyAt v r" if "r \<notin> K" for r using that lag(2) dirty i(1) by auto
      show "\<exists>d. dirtyAt v r = Some d \<and> statusPriority p \<le> statusPriority d" if "(D(i := Some st')) r = Some p" for r p
        using that mono [of r p] dirty [of r] by (auto split: if_splits)
      show "\<not> inactive v r" if "dirtyAt v r \<noteq> None" for r
        using that R(2) [of r] lag(3) [of r] dirty [of r] by (auto simp: s1_def split: if_splits)
    qed
    then show ?thesis by blast
  qed
  then obtain D1 where D1: "lagging K D1 v" by blast
  have IH: "(\<exists>D'. lagging K D' (markDirect st is v)) \<and> framed (v\<lparr>fe_directDirty := fe_directDirty (markDirect st is v)\<rparr>) (markDirect st is v) \<and>
    (\<forall>r. dirtyAt (markDirect st is v) r = (if r \<in> set is then Some (raisedTo st (dirtyAt v r)) else dirtyAt v r)) \<and>
    (omap_ok (fe_directDirty v) \<longrightarrow> omap_ok (fe_directDirty (markDirect st is v)))"
    by (rule 2(1) [OF st'_def s1_def, folded v_def, OF _ D1 i(3,4)]) (use 2(2) eq in simp)
  let ?z = "markDirect st is v"
  have "framed (v\<lparr>fe_directDirty := fe_directDirty ?z\<rparr>) ?z" using IH by blast
  then have "framed (s\<lparr>fe_directDirty := fe_directDirty ?z\<rparr>) ?z"
    using fr unfolding framed_def by (auto simp: s1_def)
  moreover have "dirtyAt ?z r = (if r \<in> set (i # is) then Some (raisedTo st (dirtyAt s r)) else dirtyAt s r)" for r
    using IH dirty [of r] raised i(2) by auto
  moreover have "omap_ok (fe_directDirty s) \<longrightarrow> omap_ok (fe_directDirty ?z)"
    using IH F(3) by (simp add: s1_def)
  ultimately show ?case using IH unfolding eq by blast
qed

end
