(* ===== verification/Frontier_Answers.thy ===== *)
theory Frontier_Answers
  imports Frontier_Operations
begin

text \<open>
  The frontier engine answers what a computation from the graph and the direct statuses alone would:
  the reference answers, the invariant of the engine over all its operations, and what follows from it.
\<close>

section \<open>Reference answers\<close>

definition causesOf :: "frontier_engine \<Rightarrow> string \<Rightarrow> (string, memory_status) omap" where
  "causesOf s i = filter (\<lambda>p. i \<in> set (descendantClosure (fe_dependents s) (fst p))) (fe_directDirty s)"

definition worstStatus :: "frontier_engine \<Rightarrow> string \<Rightarrow> memory_status" where
  "worstStatus s i = fold (\<lambda>p st. statusMax st (snd p)) (causesOf s i) StatusFresh"

definition topCauses :: "frontier_engine \<Rightarrow> string \<Rightarrow> string list" where
  "topCauses s i = canonicalSort (filter (\<lambda>r. list_all (\<lambda>q. q = r \<or> r \<notin> set (descendantClosure (fe_dependents s) q)) (map fst (causesOf s i)))
     (map fst (causesOf s i)))"

lemma set_causesOf: "omap_ok (fe_directDirty s) \<Longrightarrow> set (causesOf s i) = {(r, st). dirtyAt s r = Some st \<and> (r, i) \<in> (edges s)\<^sup>*}"
  by (auto simp: causesOf_def descendantClosure_spec omap_get_iff)

lemma fold_statusMax: "statusPriority (fold (\<lambda>p st. statusMax st (snd p)) ps st) = Max (insert (statusPriority st) (statusPriority ` snd ` set ps))"
proof (induction ps arbitrary: st)
  case (Cons p ps)
  have "statusPriority (fold (\<lambda>p st. statusMax st (snd p)) (p # ps) st) = Max (insert (statusPriority (statusMax st (snd p))) (statusPriority ` snd ` set ps))"
    using Cons by simp
  also have "statusPriority (statusMax st (snd p)) = max (statusPriority st) (statusPriority (snd p))" by (simp add: statusMax_def max_def)
  also have "Max (insert (max (statusPriority st) (statusPriority (snd p))) (statusPriority ` snd ` set ps)) =
      Max (insert (statusPriority st) (insert (statusPriority (snd p)) (statusPriority ` snd ` set ps)))"
    by (cases "set ps = {}") (simp_all add: Max_insert max.assoc)
  finally show ?case by simp
qed simp

lemma fold_statusMax_cong:
  assumes "snd ` set ps = snd ` set qs"
  shows "fold (\<lambda>p st. statusMax st (snd p)) ps st = fold (\<lambda>p st. statusMax st (snd p)) qs st"
  using fold_statusMax [of ps st] fold_statusMax [of qs st] assms
  by (metis statusPriority_inject)

lemma worstStatus_upper:
  assumes "omap_ok (fe_directDirty s)" and "dirtyAt s r = Some st" and "(r, i) \<in> (edges s)\<^sup>*"
  shows "statusPriority st \<le> statusPriority (worstStatus s i)"
proof -
  have "(r, st) \<in> set (causesOf s i)" using set_causesOf [OF assms(1)] assms(2,3) by simp
  then have "statusPriority st \<in> insert (statusPriority StatusFresh) (statusPriority ` snd ` set (causesOf s i))" by force
  then show ?thesis unfolding worstStatus_def fold_statusMax by (intro Max_ge) simp_all
qed

lemma set_topCauses:
  assumes "omap_ok (fe_directDirty s)" and "acyclic (edges s)"
  shows "set (topCauses s i) = topmost (edges s) {r. dirtyAt s r \<noteq> None \<and> (r, i) \<in> (edges s)\<^sup>*}"
proof -
  have S: "fst ` set (causesOf s i) = {r. dirtyAt s r \<noteq> None \<and> (r, i) \<in> (edges s)\<^sup>*}"
    using set_causesOf [OF assms(1), of i] by force
  have "q = r \<or> (q, r) \<notin> (edges s)\<^sup>* \<longleftrightarrow> (q, r) \<notin> (edges s)\<^sup>+" for q r
    using assms(2) by (auto simp: rtrancl_eq_or_trancl acyclic_def)
  note top = this
  have "set (topCauses s i) = {r \<in> fst ` set (causesOf s i). \<forall>q \<in> fst ` set (causesOf s i). q = r \<or> (q, r) \<notin> (edges s)\<^sup>*}"
    by (simp add: topCauses_def list_all_iff descendantClosure_spec)
  then show ?thesis unfolding S top topmost_def .
qed

lemma topCauses_sorted: "sorted (topCauses s i)" "distinct (topCauses s i)"
  by (simp_all add: topCauses_def)

text \<open>The answers for a node depend on the statuses of the nodes that reach it, and on nothing else.\<close>

lemma answers_cong:
  assumes "fe_dependents s' = fe_dependents s" and "omap_ok (fe_directDirty s)" and "omap_ok (fe_directDirty s')" and "acyclic (edges s)"
    and "\<And>r. (r, i) \<in> (edges s)\<^sup>* \<Longrightarrow> dirtyAt s' r = dirtyAt s r"
  shows "worstStatus s' i = worstStatus s i" and "topCauses s' i = topCauses s i"
proof -
  have "set (causesOf s' i) = set (causesOf s i)"
    using set_causesOf [OF assms(2), of i] set_causesOf [OF assms(3), of i] assms(1,5) by auto
  then show "worstStatus s' i = worstStatus s i" unfolding worstStatus_def by (intro fold_statusMax_cong) simp
  have "{r. dirtyAt s' r \<noteq> None \<and> (r, i) \<in> (edges s)\<^sup>*} = {r. dirtyAt s r \<noteq> None \<and> (r, i) \<in> (edges s)\<^sup>*}"
    using assms(5) by auto
  then show "topCauses s' i = topCauses s i"
    using set_topCauses [OF assms(2,4)] set_topCauses [OF assms(3)] assms(1,4)
    by (intro sorted_distinct_set_eq topCauses_sorted) simp
qed

section \<open>The graph\<close>

definition graphRight :: "frontier_engine \<Rightarrow> bool" where
  "graphRight s =
     (acyclic (graphOf (fe_dependencies s)) \<and> graphOf (fe_dependents s) = (graphOf (fe_dependencies s))\<inverse> \<and>
      omap_ok (fe_dependencies s) \<and> [] \<notin> set (omap_keys (fe_dependencies s)))"

lemma graphRight_acyclic: "graphRight s \<Longrightarrow> acyclic (edges s)"
  by (simp add: graphRight_def)

lemma edgesAt_fold_multiAdd: "set (edgesAt (fold (\<lambda>d. multiAdd d i) ds m) j) = set (edgesAt m j) \<union> (if j \<in> set ds then {i} else {})"
  using members_fold_multiAdd_id [of i ds m j] by (simp add: members_def)

lemma edgesAt_fold_multiRemove: "set (edgesAt (fold (\<lambda>d. multiRemove d i) ds m) j) = set (edgesAt m j) - (if j \<in> set ds then {i} else {})"
  using members_fold_multiRemove_id [of i ds m j] by (simp add: members_def)

lemma addDependencyNodes_spec:
  assumes "addDependencyNodes i ds g = (r, g')"
  shows "graphOf g' = graphOf g" and "map_of g' i = map_of g i" and "omap_ok g \<Longrightarrow> omap_ok g'"
    and "[] \<notin> set (omap_keys g) \<Longrightarrow> [] \<notin> set (omap_keys g')" and "r = Inr u \<Longrightarrow> i \<notin> set ds \<and> [] \<notin> set ds"
proof -
  have "graphOf g' = graphOf g \<and> map_of g' i = map_of g i \<and> (omap_ok g \<longrightarrow> omap_ok g') \<and>
    ([] \<notin> set (omap_keys g) \<longrightarrow> [] \<notin> set (omap_keys g')) \<and> (r = Inr u \<longrightarrow> i \<notin> set ds \<and> [] \<notin> set ds)"
    using assms
  proof (induction i ds g rule: addDependencyNodes.induct)
    case (2 i d ds g)
    have "graphOf (if map_of g d = None then omap_set d [] g else g) = graphOf g"
      by (auto simp: graphOf_def split: if_splits)
    with 2 show ?case by (auto simp: set_omap_keys split: if_splits)
  qed simp
  then show "graphOf g' = graphOf g" "map_of g' i = map_of g i" "omap_ok g \<Longrightarrow> omap_ok g'"
    "[] \<notin> set (omap_keys g) \<Longrightarrow> [] \<notin> set (omap_keys g')" "r = Inr u \<Longrightarrow> i \<notin> set ds \<and> [] \<notin> set ds" by blast+
qed

lemma addNodes_spec:
  "addNodes ns g = Inr g' \<Longrightarrow> omap_ok g \<Longrightarrow> [] \<notin> set (omap_keys g) \<Longrightarrow> omap_ok g' \<and> [] \<notin> set (omap_keys g')"
proof (induction ns g rule: addNodes.induct)
  case (2 n ns g)
  let ?ds = "unique (nullish (fn_dependsOn n) [])"
  obtain r g1 where add: "addDependencyNodes (fn_id n) ?ds g = (r, g1)" by (metis surj_pair)
  with 2(2) obtain u where u: "assertId (fn_id n) ''node id'' = Inr ()" "r = Inr u" and go: "addNodes ns (omap_set (fn_id n) ?ds g1) = Inr g'"
    by (auto simp: andThen_Inr_iff split: sum.splits)
  have "fn_id n \<noteq> []" using u(1) by (auto simp: assertId_def split: if_splits)
  with addDependencyNodes_spec(3,4) [OF add] 2(3,4) have "omap_ok (omap_set (fn_id n) ?ds g1)" "[] \<notin> set (omap_keys (omap_set (fn_id n) ?ds g1))"
    by (simp_all add: set_omap_keys)
  with 2(1) [OF refl add [symmetric] u(2) go] show ?case by simp
qed simp

lemma edgesAt_empty: "edgesAt (map (\<lambda>p. (fst p, [])) g) j = []"
  by (induction g) auto

lemma reverseGraph_spec:
  assumes "omap_ok g"
  shows "graphOf (reverseGraph g) = (graphOf g)\<inverse>"
proof -
  have "set (edgesAt (fold (\<lambda>(i, ds). fold (\<lambda>d. multiAdd d i) ds) h m) j) = set (edgesAt m j) \<union> {i. \<exists>ds. (i, ds) \<in> set h \<and> j \<in> set ds}" for h m j
    by (induction h arbitrary: m) (auto simp: edgesAt_fold_multiAdd split: if_splits)
  then have "set (edgesAt (reverseGraph g) j) = {i. \<exists>ds. (i, ds) \<in> set g \<and> j \<in> set ds}" for j
    by (simp add: reverseGraph_def edgesAt_empty)
  moreover have "(\<exists>ds. (i, ds) \<in> set g \<and> j \<in> set ds) \<longleftrightarrow> j \<in> set (edgesAt g i)" for i j
  proof (cases "map_of g i")
    case None
    then have "(i, ds) \<notin> set g" for ds using omap_get_iff [OF assms, of i ds] by simp
    with None show ?thesis by simp
  next
    case (Some es)
    then have "(i, ds) \<in> set g \<longleftrightarrow> ds = es" for ds using omap_get_iff [OF assms, of i ds] by auto
    with Some show ?thesis by simp
  qed
  ultimately have "j \<in> set (edgesAt (reverseGraph g) i) \<longleftrightarrow> i \<in> set (edgesAt g j)" for i j by simp
  then show ?thesis by (simp add: graphOf_def converse_unfold)
qed

lemma acyclic_changed:
  assumes "acyclic E" and "E' \<subseteq> E \<union> {i} \<times> UNIV" and "(i, i) \<notin> E'\<^sup>+"
  shows "acyclic E'"
proof -
  have "(a, b) \<in> E\<^sup>+ \<or> (a, i) \<in> E'\<^sup>* \<and> (i, b) \<in> E'\<^sup>+" if "(a, b) \<in> E'\<^sup>+" for a b
    using that
  proof (induction rule: trancl_induct)
    case (base y)
    then show ?case using assms(2) by blast
  next
    case (step y z)
    show ?case
    proof (cases "y = i")
      case True
      then show ?thesis using step.hyps by (meson r_into_trancl trancl_into_rtrancl)
    next
      case False
      then have "(y, z) \<in> E" using step.hyps(2) assms(2) by blast
      with step show ?thesis by (meson trancl_into_trancl)
    qed
  qed
  then show ?thesis
    unfolding acyclic_def by (metis assms(1,3) acyclic_def rtrancl_trancl_trancl trancl_rtrancl_trancl)
qed

section \<open>The invariant of the engine\<close>

definition rightAnswer :: "frontier_engine \<Rightarrow> string \<Rightarrow> frontier_result \<Rightarrow> bool" where
  "rightAnswer s i r =
     (if fe_trusted s then fr_complete r \<and> fr_status r = worstStatus s i \<and> fr_frontier r = topCauses s i
      else \<not> fr_complete r \<and> fr_status r = StatusUnknown \<and> fr_frontier r = [])"

definition cacheRight :: "frontier_engine \<Rightarrow> bool" where
  "cacheRight s = (\<forall>i revision r. map_of (fe_frontierCache s) i = Some (revision, r) \<longrightarrow> rightAnswer s i r)"

definition engineRight :: "frontier_engine \<Rightarrow> bool" where
  "engineRight s =
     (graphRight s \<and> omap_ok (fe_directDirty s) \<and> (alive s \<or> \<not> fe_trusted s) \<and>
      (alive s \<longrightarrow> settled (dirtyAt s) s \<and> cacheRight s))"

lemma engineRightD:
  assumes "engineRight s"
  shows "graphRight s" "omap_ok (fe_directDirty s)" "alive s \<or> \<not> fe_trusted s" "alive s \<Longrightarrow> settled (dirtyAt s) s" "alive s \<Longrightarrow> cacheRight s"
    "acyclic (edges s)"
  using assms graphRight_acyclic by (simp_all add: engineRight_def)

lemma cacheRight_empty: "fe_frontierCache s = [] \<Longrightarrow> cacheRight s"
  by (simp add: cacheRight_def)

lemma map_of_filter_keys: "map_of (filter (\<lambda>p. fst p \<notin> A) m) i = (if i \<in> A then None else map_of m i)"
  by (induction m) auto

lemma cacheRight_keep:
  assumes s: "cacheRight s" and cache: "fe_frontierCache v = filter (\<lambda>p. fst p \<notin> A) (fe_frontierCache s)"
    and trusted: "fe_trusted v = fe_trusted s" and graph: "fe_dependents v = fe_dependents s"
    and ok: "omap_ok (fe_directDirty s)" "omap_ok (fe_directDirty v)" and acyclic: "acyclic (edges s)"
    and dropped: "\<And>r. dirtyAt v r \<noteq> dirtyAt s r \<Longrightarrow> (edges s)\<^sup>* `` {r} \<subseteq> A"
  shows "cacheRight v"
  unfolding cacheRight_def
proof (intro allI impI)
  fix i revision r
  assume "map_of (fe_frontierCache v) i = Some (revision, r)"
  then have i: "i \<notin> A" "map_of (fe_frontierCache s) i = Some (revision, r)" using cache by (simp_all add: map_of_filter_keys split: if_splits)
  have "rightAnswer s i r" using s i(2) unfolding cacheRight_def by blast
  moreover have "worstStatus v i = worstStatus s i" "topCauses v i = topCauses s i"
    by (rule answers_cong [OF graph ok acyclic], use dropped i(1) in blast)+
  ultimately show "rightAnswer v i r" by (simp add: rightAnswer_def trusted)
qed

text \<open>Updates that touch nothing the invariant looks at, or only let the cache go.\<close>

lemma answers_simps [simp]:
  "worstStatus (s\<lparr>fe_frontierWorkUsed := x1\<rparr>) i = worstStatus s i" "topCauses (s\<lparr>fe_frontierWorkUsed := x1\<rparr>) i = topCauses s i"
  "worstStatus (s\<lparr>fe_dependencies := x2\<rparr>) i = worstStatus s i" "topCauses (s\<lparr>fe_dependencies := x2\<rparr>) i = topCauses s i"
  "worstStatus (s\<lparr>fe_frontierCache := x3\<rparr>) i = worstStatus s i" "topCauses (s\<lparr>fe_frontierCache := x3\<rparr>) i = topCauses s i"
  "worstStatus (s\<lparr>fe_generation := x4\<rparr>) i = worstStatus s i" "topCauses (s\<lparr>fe_generation := x4\<rparr>) i = topCauses s i"
  by (simp_all add: worstStatus_def topCauses_def causesOf_def)

lemma engineRight_work [simp]: "engineRight (s\<lparr>fe_frontierWorkUsed := w\<rparr>) = engineRight s"
  by (simp add: engineRight_def graphRight_def cacheRight_def rightAnswer_def)

lemma engineRight_reset [simp]: "engineRight (resetFrontierWorkBudget s) = engineRight s"
  by (simp add: resetFrontierWorkBudget_def)

lemma engineRight_dependencies:
  "engineRight s \<Longrightarrow> graphOf g = graphOf (fe_dependencies s) \<Longrightarrow> omap_ok g \<Longrightarrow> [] \<notin> set (omap_keys g) \<Longrightarrow>
     engineRight (s\<lparr>fe_dependencies := g\<rparr>)"
  by (simp add: engineRight_def graphRight_def cacheRight_def rightAnswer_def)

lemma engineRight_rebuild:
  assumes "graphRight u" and "omap_ok (fe_directDirty u)" and "alive u \<or> \<not> fe_trusted u"
  shows "engineRight (invalidateAllCaches (rebuildDirtyState u))"
proof -
  let ?v = "rebuildDirtyState u"
  note F = framedD [OF rebuildDirtyState_framed [of u]]
  have "settled (dirtyAt ?v) ?v" if "alive ?v"
    using rebuildDirtyState_spec [OF that graphRight_acyclic [OF assms(1)] assms(2)] F(3) by simp
  then show ?thesis
    using assms F(1-3,9) by (simp add: engineRight_def invalidateAllCaches_def graphRight_def cacheRight_empty)
qed

text \<open>After an error nothing has changed.\<close>

lemma checkNodes_Inr: "checkNodes g is = Inr u \<longleftrightarrow> (\<forall>i \<in> set is. i \<noteq> [] \<and> map_of g i \<noteq> None)"
  by (induction "is") (auto split: if_splits)

lemma engineRight_distrust:
  assumes "engineRight s"
  shows "engineRight (s\<lparr>fe_trusted := False, fe_trustRecoveryRequired := True, fe_generation := g, fe_frontierCache := []\<rparr>)"
  using assms by (simp add: engineRight_def graphRight_def cacheRight_empty)

lemma engineRight_markUnknown: "engineRight s \<Longrightarrow> engineRight (markUnknown s)"
  using engineRight_distrust [of "resetFrontierWorkBudget s"] by (simp add: markUnknown_def invalidateAllCaches_def resetFrontierWorkBudget_def)

lemma engineRight_restoreTrust: "engineRight s \<Longrightarrow> engineRight (restoreTrust s)"
  using engineRight_distrust by (simp add: restoreTrust_def invalidateAllCaches_def)

section \<open>Changes of the graph\<close>

lemma engineRight_setDependencies:
  assumes s: "engineRight s" and run: "setDependencies i dependsOn s = (r, s')"
  shows "engineRight s'"
proof -
  define s0 where "s0 = resetFrontierWorkBudget s"
  have s0: "engineRight s0" using s by (simp add: s0_def)
  note G = engineRightD(1) [OF s0, unfolded graphRight_def]
  show ?thesis
  proof (cases "i = []")
    case True
    then show ?thesis using run s0 by (simp add: setDependencies_def s0_def assertId_def)
  next
    case False
    define ds where "ds = unique dependsOn"
    obtain q g where add: "addDependencyNodes i ds (fe_dependencies s0) = (q, g)" by (metis surj_pair)
    note A = addDependencyNodes_spec [OF add]
    have g: "omap_ok g" "[] \<notin> set (omap_keys g)" using A(3,4) G by blast+
    show ?thesis
    proof (cases q)
      case (Inl e)
      then have "s' = s0\<lparr>fe_dependencies := g\<rparr>" using run False add by (simp add: setDependencies_def s0_def ds_def assertId_def Let_def)
      with engineRight_dependencies [OF s0 A(1) g] show ?thesis by simp
    next
      case (Inr u)
      define s1 where "s1 = s0\<lparr>fe_dependencies := g\<rparr>"
      define s2 where "s2 = (if map_of g i \<noteq> None then removeReverseEdges i s1 else s1)"
      define s3 where "s3 = s2\<lparr>fe_dependencies := omap_set i ds g, fe_dependents := fold (\<lambda>d. multiAdd d i) ds (fe_dependents s2)\<rparr>"
      have s2: "s2 = s1\<lparr>fe_dependents := fe_dependents s2\<rparr>" by (simp add: s2_def removeReverseEdges_def)
      have run': "(r, s') = (case assertAcyclic (fe_dependencies s3) i of
          Inl e \<Rightarrow> (Inl e, s3\<lparr>fe_dependencies := fe_dependencies s0, fe_dependents := fe_dependents s0\<rparr>)
        | Inr u \<Rightarrow> (Inr (), invalidateAllCaches (rebuildDirtyState (s3\<lparr>fe_graphRevision := fe_graphRevision s3 + 1, fe_generation := fe_generation s3 + 1\<rparr>))))"
        unfolding run [symmetric] setDependencies_def s0_def [symmetric] ds_def [symmetric] Let_def assertId_def
        by (simp only: False if_False sum.case add Inr prod.case s1_def [symmetric] s2_def [symmetric] s3_def [symmetric])
      show ?thesis
      proof (cases "assertAcyclic (fe_dependencies s3) i")
        case (Inl e)
        then have "s' = s3\<lparr>fe_dependencies := fe_dependencies s0, fe_dependents := fe_dependents s0\<rparr>" using run' by simp
        also have "\<dots> = s0" unfolding s3_def by (subst s2) (simp add: s1_def)
        finally show ?thesis using s0 by simp
      next
        case (Inr v)
        let ?u = "s3\<lparr>fe_graphRevision := fe_graphRevision s3 + 1, fe_generation := fe_generation s3 + 1\<rparr>"
        have s': "s' = invalidateAllCaches (rebuildDirtyState ?u)" using run' Inr by simp
        have deps: "graphOf (fe_dependencies s3) = {(a, b) \<in> graphOf (fe_dependencies s0). a \<noteq> i} \<union> {i} \<times> set ds"
        proof -
          have "b \<in> set (edgesAt g a) \<longleftrightarrow> b \<in> set (edgesAt (fe_dependencies s0) a)" for a b
            using A(1) graphOf_iff by metis
          then show ?thesis by (auto simp: s3_def graphOf_def split: if_splits)
        qed
        have rev2: "set (edgesAt (fe_dependents s2) d) = {j. (j, d) \<in> graphOf (fe_dependencies s0) \<and> j \<noteq> i}" for d
        proof -
          have old: "set (edgesAt (fe_dependents s0) d) = {j. (j, d) \<in> graphOf (fe_dependencies s0)}"
            using G by (auto simp: graphOf_def set_eq_iff)
          have same: "d \<in> set (edgesAt g i) \<longleftrightarrow> (i, d) \<in> graphOf (fe_dependencies s0)"
            unfolding A(1) [symmetric] by simp
          show ?thesis
          proof (cases "map_of g i")
            case None
            then have "(i, d) \<notin> graphOf (fe_dependencies s0)" using same by simp
            with None old show ?thesis by (auto simp: s2_def s1_def)
          next
            case (Some es)
            then have "fe_dependents s2 = fold (\<lambda>d. multiRemove d i) (edgesAt g i) (fe_dependents s0)"
              by (simp add: s2_def s1_def removeReverseEdges_def)
            then have "set (edgesAt (fe_dependents s2) d) = set (edgesAt (fe_dependents s0) d) - (if d \<in> set (edgesAt g i) then {i} else {})"
              by (simp only: edgesAt_fold_multiRemove)
            with old same show ?thesis by auto
          qed
        qed
        have rev3: "graphOf (fe_dependents s3) = (graphOf (fe_dependencies s3))\<inverse>"
          unfolding deps by (auto simp: s3_def graphOf_def edgesAt_fold_multiAdd rev2 split: if_splits)
        have "(i, i) \<notin> (graphOf (fe_dependencies s3))\<^sup>+"
          using assertAcyclic_sound [of "fe_dependencies s3" i i] Inr by simp
        then have "acyclic (graphOf (fe_dependencies s3))"
        proof (rule acyclic_changed [rotated 2])
          show "acyclic (graphOf (fe_dependencies s0))" using G by blast
          show "graphOf (fe_dependencies s3) \<subseteq> graphOf (fe_dependencies s0) \<union> {i} \<times> UNIV" unfolding deps by blast
        qed
        moreover have "omap_ok (fe_dependencies s3)" "[] \<notin> set (omap_keys (fe_dependencies s3))"
          using g False by (simp_all add: s3_def set_omap_keys)
        ultimately have "graphRight ?u" using rev3 by (simp add: graphRight_def)
        moreover have "fe_directDirty ?u = fe_directDirty s0" "alive ?u = alive s0" "fe_trusted ?u = fe_trusted s0"
          by (simp_all add: s3_def s2_def removeReverseEdges_def s1_def)
        ultimately show ?thesis
          unfolding s' using engineRightD(2,3) [OF s0] by (intro engineRight_rebuild) simp_all
      qed
    qed
  qed
qed

lemma engineRight_addNode: "engineRight s \<Longrightarrow> engineRight (snd (addNode i dependsOn s))"
  using engineRight_setDependencies [of s i dependsOn] by (auto simp: addNode_def assertId_def split: prod.splits) (metis surj_pair snd_conv)

lemma engineRight_removeNode:
  assumes s: "engineRight s" and run: "removeNode i s = (r, s')"
  shows "engineRight s'"
proof -
  define s0 where "s0 = resetFrontierWorkBudget s"
  have s0: "engineRight s0" using s by (simp add: s0_def)
  note G = engineRightD(1) [OF s0, unfolded graphRight_def]
  show ?thesis
  proof (cases "i = [] \<or> map_of (fe_dependencies s0) i = None \<or> edgesAt (fe_dependents s0) i \<noteq> []")
    case True
    then have "s' = s0" using run by (auto simp: removeNode_def s0_def [symmetric] assertId_def Let_def split: if_splits)
    then show ?thesis using s0 by simp
  next
    case False
    define u where "u = s0\<lparr>fe_dependencies := omap_delete i (fe_dependencies s0),
      fe_dependents := omap_delete i (fold (\<lambda>d. multiRemove d i) (edgesAt (fe_dependencies s0) i) (fe_dependents s0)), fe_directDirty := omap_delete i (fe_directDirty s0),
      fe_graphRevision := fe_graphRevision s0 + 1, fe_generation := fe_generation s0 + 1\<rparr>"
    have s': "s' = invalidateAllCaches (rebuildDirtyState u)"
    proof -
      obtain ds where "map_of (fe_dependencies s0) i = Some ds" "edgesAt (fe_dependents s0) i = []" "i \<noteq> []" using False by auto
      then show ?thesis using run by (simp add: removeNode_def s0_def [symmetric] assertId_def u_def Let_def removeReverseEdges_def)
    qed
    have old: "set (edgesAt (fe_dependents s0) d) = {j. (j, d) \<in> graphOf (fe_dependencies s0)}" for d
      using G by (auto simp: graphOf_def set_eq_iff)
    have deps: "graphOf (fe_dependencies u) = {(a, b) \<in> graphOf (fe_dependencies s0). a \<noteq> i}"
      by (auto simp: u_def graphOf_def split: if_splits)
    have none: "(j, i) \<notin> graphOf (fe_dependencies s0)" for j using old [of i] False by auto
    have "graphOf (fe_dependents u) = (graphOf (fe_dependencies u))\<inverse>"
      unfolding deps using none by (auto simp: u_def graphOf_def edgesAt_fold_multiRemove old split: if_splits)
    moreover have "acyclic (graphOf (fe_dependencies u))" by (rule acyclic_subset [of "graphOf (fe_dependencies s0)"], use G in blast) (unfold deps, blast)
    ultimately have "graphRight u" using G by (simp add: graphRight_def u_def set_omap_keys)
    with engineRightD(2,3) [OF s0] show ?thesis unfolding s' by (intro engineRight_rebuild) (simp_all add: u_def)
  qed
qed

lemma newFrontierEngine_right:
  assumes "newFrontierEngine nodes = Inr s"
  shows "engineRight s"
proof -
  obtain g where g: "addNodes nodes [] = Inr g" "assertAcyclicGraph g = Inr ()"
    and s: "s = rebuildDirtyState (emptyEngine\<lparr>fe_dependencies := g, fe_dependents := reverseGraph g, fe_graphRevision := length nodes, fe_generation := length nodes\<rparr>)"
    using assms by (auto simp: newFrontierEngine_def andThen_Inr_iff)
  have ok: "omap_ok g" "[] \<notin> set (omap_keys g)" using addNodes_spec [OF g(1)] by (simp_all add: omap_keys_def)
  have "acyclic (graphOf g)" by (rule assertAcyclicGraph_sound [OF g(2)])
  moreover have "graphOf (reverseGraph g) = (graphOf g)\<inverse>" by (rule reverseGraph_spec [OF ok(1)])
  ultimately have "graphRight s" using ok by (simp add: s rebuildDirtyState_def emptyEngine_def graphRight_def)
  moreover have "settled (\<lambda>r. None) s"
    by (rule settled_empty) (use graphRight_acyclic [OF \<open>graphRight s\<close>] in \<open>simp_all add: s rebuildDirtyState_def emptyEngine_def\<close>)
  ultimately show ?thesis
    by (simp add: engineRight_def s rebuildDirtyState_def emptyEngine_def cacheRight_empty)
qed

section \<open>Changes of statuses\<close>

lemma affected_list: "affected = canonicalSort affected \<Longrightarrow> set affected = (graphOf g)\<^sup>* `` set ids \<Longrightarrow>
    affected = canonicalSort (concat (map (descendantClosure g) ids))"
  by (subst canonicalSort_cong [THEN iffD2, of _ affected]) (auto simp: descendantClosure_spec)

lemma invalidateTargets_simps [simp]:
  "alive (invalidateTargets A s) = alive s" "frontierIsComplete (invalidateTargets A s) = frontierIsComplete s"
  "fe_dependents (invalidateTargets A s) = fe_dependents s" "fe_dependencies (invalidateTargets A s) = fe_dependencies s" "fe_directDirty (invalidateTargets A s) = fe_directDirty s"
  "fe_trusted (invalidateTargets A s) = fe_trusted s" "settled D (invalidateTargets A s) = settled D s"
  "graphRight (invalidateTargets A s) = graphRight s"
  "fe_frontierCache (invalidateTargets A s) = filter (\<lambda>p. fst p \<notin> set A) (fe_frontierCache s)"
  by (simp_all add: invalidateTargets_def frontierIsComplete_def graphRight_def)

lemma graphRight_framed: "framed u v \<Longrightarrow> graphRight v = graphRight u"
  using framedD(1,2) [of u v] by (simp add: graphRight_def)

lemma markDirty_right:
  assumes s: "engineRight s" and run: "markDirty ids st s = (r, s')"
  shows "engineRight s'"
    and "\<And>imp. r = Inr imp \<Longrightarrow> alive s' \<Longrightarrow> fi_affected imp = canonicalSort (concat (map (descendantClosure (fe_dependents s)) ids)) \<and>
      fi_frontierComplete imp = fe_trusted s' \<and> (\<forall>i \<in> set ids. \<exists>d. dirtyAt s' i = Some d \<and> statusPriority st \<le> statusPriority d) \<and>
      fe_dependents s' = fe_dependents s"
    and "\<And>imp. r = Inr imp \<Longrightarrow> fi_frontierComplete imp \<Longrightarrow> alive s'"
proof -
  define s0 where "s0 = resetFrontierWorkBudget s"
  define direct where "direct = unique ids"
  have s0: "engineRight s0" using s by (simp add: s0_def)
  have graph0: "fe_dependents s0 = fe_dependents s" by (simp add: s0_def resetFrontierWorkBudget_def)
  note E = engineRightD [OF s0]
  have "engineRight s' \<and> (\<forall>imp. r = Inr imp \<longrightarrow> (alive s' \<longrightarrow> fi_affected imp = canonicalSort (concat (map (descendantClosure (fe_dependents s)) ids)) \<and>
      fi_frontierComplete imp = fe_trusted s' \<and> (\<forall>i \<in> set ids. \<exists>d. dirtyAt s' i = Some d \<and> statusPriority st \<le> statusPriority d) \<and>
      fe_dependents s' = fe_dependents s) \<and> (fi_frontierComplete imp \<longrightarrow> alive s'))"
  proof (cases "st = StatusFresh \<or> (\<exists>e. checkNodes (fe_dependencies s0) direct = Inl e)")
    case True
    then have "s' = s0" "\<exists>e. r = Inl e" using run by (auto simp: markDirty_def s0_def [symmetric] direct_def [symmetric] Let_def split: if_splits)
    with s0 show ?thesis by auto
  next
    case False
    then obtain u where check: "st \<noteq> StatusFresh" "checkNodes (fe_dependencies s0) direct = Inr u" by (cases "checkNodes (fe_dependencies s0) direct") auto
    define s1 where "s1 = s0\<lparr>fe_generation := fe_generation s0 + 1\<rparr>"
    define isNoop where "isNoop = list_all (\<lambda>i. (case dirtyAt s0 i of None \<Rightarrow> False
      | Some previous \<Rightarrow> \<not> inactive s0 i \<and> statusPriority previous \<ge> statusPriority st)) direct"
    show ?thesis
    proof (cases isNoop)
      case True
      obtain affected s2 where aff: "affectedFromRoots direct s1 = (affected, s2)" by (metis surj_pair)
      have res: "s' = s2" "r = Inr (impactOf direct affected (frontierIsComplete s2) s2)"
        using run check True aff by (auto simp: markDirty_def s0_def [symmetric] direct_def [symmetric] Let_def isNoop_def s1_def)
      have fr: "framed s1 s2" using affectedFromRoots_framed [of s1 direct] aff by simp
      note F = framedD [OF fr]
      have right: "engineRight s1" using s0 by (simp add: s1_def engineRight_def graphRight_def cacheRight_def rightAnswer_def)
      note R = engineRightD [OF right]
      have live: "settled (dirtyAt s2) s2 \<and> cacheRight s2 \<and> set affected = (edges s)\<^sup>* `` set direct \<and> affected = canonicalSort affected"
        if a: "alive s2"
      proof -
        have se: "settled (dirtyAt s1) s1" using R(4) F(6) [OF a] by blast
        note A = affectedFromRoots_spec [OF aff a settledD(1) [OF se]]
        obtain w c where rec: "s2 = s1\<lparr>fe_affectedClosureCache := c, fe_frontierWorkUsed := w\<rparr>" using A(1) by blast
        have same: "rootsAt s2 n = rootsAt s1 n" "inactive s2 q = inactive s1 q" "edges s2 = edges s1" "dirtyNodes s2 q = dirtyNodes s1 q" for n q
          by (simp_all add: rec)
        have "settled (dirtyAt s1) s2" unfolding settled_def same using se A(2) unfolding settled_def by blast
        then have "settled (dirtyAt s2) s2" using F(3) by simp
        moreover have "cacheRight s2"
          by (rule cacheRight_keep [OF R(5) [OF F(6) [OF a]], of _ "{}"]) (use F a R(2,6) in simp_all)
        moreover have "set affected = (edges s)\<^sup>* `` set direct"
        proof -
          have "insert i (dirtyNodes s1 i) = (edges s1)\<^sup>* `` {i}" if "i \<in> set direct" for i
          proof -
            have "dirtyAt s1 i \<noteq> None" using True that by (auto simp: isNoop_def list_all_iff s1_def split: option.splits)
            from settled_nodes [OF se this] show ?thesis by auto
          qed
          then have "set affected = (\<Union>i \<in> set direct. (edges s1)\<^sup>* `` {i})" using A(4) by simp
          then show ?thesis using graph0 by (auto simp: s1_def)
        qed
        moreover have "affected = canonicalSort affected" using A(5,6) by (intro sorted_distinct_set_eq) simp_all
        ultimately show ?thesis by blast
      qed
      have "engineRight s2"
        unfolding engineRight_def using R(1-3) F(3,9) graphRight_framed [OF fr] live by simp
      moreover have "fi_frontierComplete (impactOf direct affected (frontierIsComplete s2) s2) \<longrightarrow> alive s2" by (simp add: impactOf_def frontierIsComplete_def)
      moreover have "fi_affected (impactOf direct affected (frontierIsComplete s2) s2) = canonicalSort (concat (map (descendantClosure (fe_dependents s)) ids)) \<and>
          fi_frontierComplete (impactOf direct affected (frontierIsComplete s2) s2) = fe_trusted s2 \<and>
          (\<forall>i \<in> set ids. \<exists>d. dirtyAt s2 i = Some d \<and> statusPriority st \<le> statusPriority d) \<and> fe_dependents s2 = fe_dependents s" if a: "alive s2"
      proof (intro conjI ballI)
        show "fi_affected (impactOf direct affected (frontierIsComplete s2) s2) = canonicalSort (concat (map (descendantClosure (fe_dependents s)) ids))"
          using affected_list [of affected "fe_dependents s" ids] live [OF a] by (simp add: impactOf_def direct_def)
        show "fi_frontierComplete (impactOf direct affected (frontierIsComplete s2) s2) = fe_trusted s2" using a by (simp add: impactOf_def frontierIsComplete_def)
        show "\<exists>d. dirtyAt s2 i = Some d \<and> statusPriority st \<le> statusPriority d" if "i \<in> set ids" for i
          using True that F(3) by (auto simp: isNoop_def list_all_iff direct_def s1_def split: option.splits)
        show "fe_dependents s2 = fe_dependents s" using F(2) graph0 by (simp add: s1_def)
      qed
      ultimately show ?thesis using res by blast
    next
      case False
      define s2 where "s2 = markDirect st direct s1"
      define seeds where "seeds = map (\<lambda>i. (i, the (dirtyAt s2 i))) direct"
      obtain affected s3 where spread: "propagateDirty seeds s2 = (affected, s3)" by (metis surj_pair)
      have res: "s' = invalidateTargets affected s3" "r = Inr (impactOf direct affected (frontierIsComplete (invalidateTargets affected s3)) (invalidateTargets affected s3))"
        using run check False spread by (auto simp: markDirty_def s0_def [symmetric] direct_def [symmetric] Let_def isNoop_def s1_def s2_def seeds_def)
      have fr3: "framed s2 s3" using propagateDirty_framed [of s2 seeds] spread by simp
      note F3 = framedD [OF fr3]
      have same1: "fe_directDirty s1 = fe_directDirty s0" "fe_dependents s1 = fe_dependents s0" by (simp_all add: s1_def)
      have live: "settled (dirtyAt s') s' \<and> cacheRight s' \<and> set affected = (edges s)\<^sup>* `` set ids \<and> affected = canonicalSort affected \<and>
          (\<forall>i \<in> set ids. \<exists>d. dirtyAt s' i = Some d \<and> statusPriority st \<le> statusPriority d)"
        if a: "alive s'"
      proof -
        have a3: "alive s3" and a2: "alive s2" using a res(1) F3(6) by simp_all
        have "alive s1" using markDirect_upkeep a2 s2_def by blast
        then have a0: "alive s0" by (simp add: s1_def)
        have se: "settled (dirtyAt s0) s1" using E(4) [OF a0] by (simp add: s1_def)
        have "lagging (set direct) (dirtyAt s0) s1"
          unfolding lagging_def using se settledD(7) [OF se] by (auto simp: same1)
        note M = markDirect_spec [OF a2 [unfolded s2_def] this order_refl, folded s2_def]
        have M: "(\<exists>D'. lagging (set direct) D' s2) \<and> framed (s1\<lparr>fe_directDirty := fe_directDirty s2\<rparr>) s2 \<and>
          (\<forall>r. dirtyAt s2 r = (if r \<in> set direct then Some (raisedTo st (dirtyAt s1 r)) else dirtyAt s1 r)) \<and>
          (omap_ok (fe_directDirty s1) \<longrightarrow> omap_ok (fe_directDirty s2))"
          by (rule M) (simp add: direct_def)
        then obtain D where D: "lagging (set direct) D s2" by blast
        have dirty2: "dirtyAt s2 r = (if r \<in> set direct then Some (raisedTo st (dirtyAt s0 r)) else dirtyAt s0 r)" for r
          using M same1 by simp
        have ok2: "omap_ok (fe_directDirty s2)" using M E(2) same1(1) by simp
        have fr2: "framed (s1\<lparr>fe_directDirty := fe_directDirty s2\<rparr>) s2" using M by blast
        note F2 = framedD [OF fr2]
        have graph: "fe_dependents s2 = fe_dependents s" using F2(2) graph0 by (simp add: s1_def)
        have lag: "settled D s2" "\<And>r. r \<notin> set direct \<Longrightarrow> D r = dirtyAt s2 r" "\<And>r. dirtyAt s2 r \<noteq> None \<Longrightarrow> \<not> inactive s2 r"
          "\<And>r p. D r = Some p \<Longrightarrow> \<exists>d. dirtyAt s2 r = Some d \<and> statusPriority p \<le> statusPriority d"
          using D unfolding lagging_def by blast+
        have sp: "spreading {} s2" by (rule settled_spreading [OF lag(1) lag(4) lag(3)])
        have seeds: "\<forall>(i, d) \<in> set seeds. dirtyAt s2 i = Some d" using dirty2 by (auto simp: seeds_def)
        have keys: "fst ` set seeds = set ids" by (simp add: seeds_def image_image direct_def)
        note P = propagateDirty_spec [OF spread a3 sp seeds]
        have P: "settled (dirtyAt s2) s3" "affected = canonicalSort affected" "set affected = (edges s2)\<^sup>* `` set ids"
          "fe_dependents s3 = fe_dependents s2" "fe_directDirty s3 = fe_directDirty s2"
        proof -
          have rest: "entry s2 q q = Some d" if "dirtyAt s2 q = Some d" "q \<notin> fst ` set seeds" for q d
            using settledD(5) [OF lag(1), of q d q] lag(2) [of q] that keys by (simp add: direct_def)
          show "settled (dirtyAt s2) s3" "affected = canonicalSort affected" "set affected = (edges s2)\<^sup>* `` set ids"
            "fe_dependents s3 = fe_dependents s2" "fe_directDirty s3 = fe_directDirty s2"
            using P(1,3,4,5,6) [OF rest] keys by simp_all
        qed
        have "cacheRight s'"
        proof (rule cacheRight_keep [OF E(5) [OF a0], of _ "set affected"])
          show "fe_frontierCache s' = filter (\<lambda>p. fst p \<notin> set affected) (fe_frontierCache s0)"
            using F3(8) [OF a3] F2(8) [OF a2] by (simp add: res(1) s1_def)
          show "fe_trusted s' = fe_trusted s0" using F3(7) [OF a3] F2(7) [OF a2] by (simp add: res(1) s1_def)
          show "fe_dependents s' = fe_dependents s0" using P(4) graph graph0 by (simp add: res(1))
          show "omap_ok (fe_directDirty s')" using P(5) ok2 by (simp add: res(1))
          show "(edges s0)\<^sup>* `` {q} \<subseteq> set affected" if "dirtyAt s' q \<noteq> dirtyAt s0 q" for q
          proof -
            have "q \<in> set ids" using that dirty2 [of q] P(5) by (auto simp: res(1) direct_def split: if_splits)
            then show ?thesis using P(3) graph graph0 by auto
          qed
        qed (use E in simp_all)
        moreover have "settled (dirtyAt s') s'" using P(1,5) by (simp add: res(1))
        moreover have "\<exists>d. dirtyAt s' i = Some d \<and> statusPriority st \<le> statusPriority d" if "i \<in> set ids" for i
          using dirty2 [of i] that P(5) raisedTo_upper(1) by (auto simp: res(1) direct_def)
        ultimately show ?thesis using P(2,3) graph by simp
      qed
      have frs: "fe_dependencies s2 = fe_dependencies s1 \<and> fe_dependents s2 = fe_dependents s1 \<and> (alive s1 \<or> \<not> fe_trusted s1 \<longrightarrow> alive s2 \<or> \<not> fe_trusted s2) \<and>
          (omap_ok (fe_directDirty s1) \<longrightarrow> omap_ok (fe_directDirty s2))"
        unfolding s2_def by (rule markDirect_framed)
      have "engineRight s'"
        unfolding engineRight_def
      proof (intro conjI impI)
        show "graphRight s'" using E(1) frs F3(1,2) by (simp add: res(1) graphRight_def s1_def)
        show "omap_ok (fe_directDirty s')" using E(2) frs F3(3) by (simp add: res(1) same1)
        show "alive s' \<or> \<not> fe_trusted s'" using E(3) frs F3(9) by (simp add: res(1) s1_def)
      qed (use live in blast)+
      moreover have "fi_frontierComplete (impactOf direct affected (frontierIsComplete s') s') \<longrightarrow> alive s'" by (simp add: impactOf_def frontierIsComplete_def)
      moreover have "fi_affected (impactOf direct affected (frontierIsComplete s') s') = canonicalSort (concat (map (descendantClosure (fe_dependents s)) ids)) \<and>
          fi_frontierComplete (impactOf direct affected (frontierIsComplete s') s') = fe_trusted s' \<and> fe_dependents s' = fe_dependents s" if a: "alive s'"
        using affected_list [of affected "fe_dependents s" ids] live [OF a] a frs F3(2) graph0
        by (simp add: impactOf_def frontierIsComplete_def res(1) s1_def)
      ultimately show ?thesis using res(2) [folded res(1)] live by blast
    qed
  qed
  then show "engineRight s'"
    and "\<And>imp. r = Inr imp \<Longrightarrow> alive s' \<Longrightarrow> fi_affected imp = canonicalSort (concat (map (descendantClosure (fe_dependents s)) ids)) \<and>
      fi_frontierComplete imp = fe_trusted s' \<and> (\<forall>i \<in> set ids. \<exists>d. dirtyAt s' i = Some d \<and> statusPriority st \<le> statusPriority d) \<and>
      fe_dependents s' = fe_dependents s"
    and "\<And>imp. r = Inr imp \<Longrightarrow> fi_frontierComplete imp \<Longrightarrow> alive s'" by blast+
qed

lemma checkStates_ok: "checkStates g states seen dirty = Inr (seen', dirty') \<Longrightarrow> omap_ok dirty \<Longrightarrow> omap_ok dirty'"
  by (induction g states seen dirty rule: checkStates.induct) (auto split: if_splits)

lemma restoreStates_right:
  assumes s: "engineRight s" and run: "restoreStates states s = (r, s')"
  shows "engineRight s'"
proof -
  define s0 where "s0 = resetFrontierWorkBudget s"
  have s0: "engineRight s0" using s by (simp add: s0_def)
  show ?thesis
  proof (cases "\<exists>seen dirty. checkStates (fe_dependencies s0) states [] [] = Inr (seen, dirty) \<and> find (\<lambda>i. i \<notin> set seen) (omap_keys (fe_dependencies s0)) = None")
    case False
    then have "s' = s0" using run by (auto simp: restoreStates_def s0_def [symmetric] Let_def split: sum.splits option.splits prod.splits)
    then show ?thesis using s0 by simp
  next
    case True
    then obtain seen dirty where c: "checkStates (fe_dependencies s0) states [] [] = Inr (seen, dirty)"
      "find (\<lambda>i. i \<notin> set seen) (omap_keys (fe_dependencies s0)) = None" by blast
    then have s': "s' = invalidateAllCaches (rebuildDirtyState (s0\<lparr>fe_directDirty := dirty, fe_generation := fe_generation s0 + 1,
        fe_frontierBudgetExceeded := False, fe_trustRecoveryRequired := False, fe_trusted := True\<rparr>))"
      using run by (simp add: restoreStates_def s0_def [symmetric] Let_def)
    show ?thesis
      unfolding s' by (rule engineRight_rebuild) (use engineRightD(1) [OF s0] checkStates_ok [OF c(1)] in \<open>simp_all add: graphRight_def\<close>)
  qed
qed

lemma replaceStatus_right:
  assumes s: "engineRight s" and run: "replaceStatus i st s = (r, s')"
  shows "engineRight s'"
proof -
  define s0 where "s0 = resetFrontierWorkBudget s"
  have s0: "engineRight s0" using s by (simp add: s0_def)
  note E = engineRightD [OF s0]
  show ?thesis
  proof (cases "checkNodes (fe_dependencies s0) [i]")
    case (Inl e)
    then have "s' = s0" using run by (simp add: replaceStatus_def s0_def [symmetric] Let_def)
    then show ?thesis using s0 by simp
  next
    case (Inr u)
    define affected where "affected = descendantClosure (fe_dependents s0) i"
    define dirty where "dirty = (if st \<noteq> StatusFresh then omap_set i st (omap_delete i (fe_directDirty s0)) else omap_delete i (fe_directDirty s0))"
    define u where "u = s0\<lparr>fe_directDirty := dirty, fe_generation := fe_generation s0 + 1\<rparr>"
    have s': "s' = invalidateTargets affected (rebuildDirtyState u)"
      using run Inr by (auto simp: replaceStatus_def s0_def [symmetric] Let_def affected_def u_def dirty_def)
    note F = framedD [OF rebuildDirtyState_framed [of u]]
    have ok: "omap_ok dirty" using E(2) by (simp add: dirty_def)
    have acyclic: "acyclic (edges u)" using E(6) by (simp add: u_def)
    show ?thesis
      unfolding engineRight_def s'
    proof (intro conjI impI)
      show "graphRight (invalidateTargets affected (rebuildDirtyState u))" using E(1) F(1,2) by (simp add: graphRight_def u_def)
      show "omap_ok (fe_directDirty (invalidateTargets affected (rebuildDirtyState u)))" using ok F(3) by (simp add: u_def)
      show "alive (invalidateTargets affected (rebuildDirtyState u)) \<or> \<not> fe_trusted (invalidateTargets affected (rebuildDirtyState u))"
        using E(3) F(9) by (simp add: u_def)
      assume "alive (invalidateTargets affected (rebuildDirtyState u))"
      then have a: "alive (rebuildDirtyState u)" by simp
      then have a0: "alive s0" using F(6) by (simp add: u_def)
      have "settled (dirtyAt u) (rebuildDirtyState u)" by (rule rebuildDirtyState_spec [OF a acyclic]) (use ok in \<open>simp add: u_def\<close>)
      then show "settled (dirtyAt (invalidateTargets affected (rebuildDirtyState u))) (invalidateTargets affected (rebuildDirtyState u))"
        using F(3) by simp
      show "cacheRight (invalidateTargets affected (rebuildDirtyState u))"
      proof (rule cacheRight_keep [OF E(5) [OF a0], of _ "set affected"])
        show "(edges s0)\<^sup>* `` {q} \<subseteq> set affected" if "dirtyAt (invalidateTargets affected (rebuildDirtyState u)) q \<noteq> dirtyAt s0 q" for q
          using that F(3) by (auto simp: u_def dirty_def affected_def descendantClosure_spec split: if_splits)
      qed (use a E(2,6) F(2,3,7,8) ok in \<open>simp_all add: u_def\<close>)
    qed
  qed
qed

lemma resolve_right:
  assumes s: "engineRight s" and run: "resolve i s = (r, s')"
  shows "engineRight s'"
proof -
  define s0 where "s0 = resetFrontierWorkBudget s"
  have s0: "engineRight s0" using s by (simp add: s0_def)
  note E = engineRightD [OF s0]
  show ?thesis
  proof (cases "checkNodes (fe_dependencies s0) [i]")
    case (Inl e)
    then have "s' = s0" using run by (simp add: resolve_def s0_def [symmetric] Let_def)
    then show ?thesis using s0 by simp
  next
    case (Inr u)
    define known where "known = canonicalSort (nullish (map_of (fe_dirtyNodesByRoot s0) i) [i])"
    consider (none) "s' = s0" | (unknown) "s' = invalidateTargets known (markUnknown s0)"
      | (some) st where "dirtyAt s0 i = Some st" "s' = invalidateTargets known (tombstone i s0)"
      using run Inr by (cases "dirtyAt s0 i") (auto simp: resolve_def s0_def [symmetric] known_def [symmetric] Let_def split: memory_status.splits)
    then show ?thesis
    proof cases
      case none
      with s0 show ?thesis by simp
    next
      case unknown
      have "fe_frontierCache (markUnknown s0) = []" by (simp add: markUnknown_def invalidateAllCaches_def)
      then have "s' = markUnknown s0" by (simp add: unknown invalidateTargets_def)
      then show ?thesis using engineRight_markUnknown [OF s0] by simp
    next
      case (some st)
      define u where "u = tombstone i s0"
      have u: "fe_dependencies u = fe_dependencies s0" "fe_dependents u = fe_dependents s0" "fe_directDirty u = omap_delete i (fe_directDirty s0)"
        "alive s0 \<or> \<not> fe_trusted s0 \<Longrightarrow> alive u \<or> \<not> fe_trusted u"
        "alive u \<Longrightarrow> alive s0 \<and> fe_trusted u = fe_trusted s0 \<and> fe_frontierCache u = fe_frontierCache s0"
        by (auto simp: u_def tombstone_def Let_def failClosed_def invalidateAllCaches_def)
      show ?thesis
        unfolding engineRight_def some(2) u_def [symmetric]
      proof (intro conjI impI)
        show "graphRight (invalidateTargets known u)" using E(1) u(1,2) by (simp add: graphRight_def)
        show "omap_ok (fe_directDirty (invalidateTargets known u))" using E(2) u(3) by simp
        show "alive (invalidateTargets known u) \<or> \<not> fe_trusted (invalidateTargets known u)" using E(3) u(4) by simp
        assume "alive (invalidateTargets known u)"
        then have a: "alive u" by simp
        then have a0: "alive s0" using u(5) by blast
        have "settled ((dirtyAt s0)(i := None)) u"
          unfolding u_def by (rule tombstone_settled [OF a [unfolded u_def] E(4) [OF a0]]) (simp add: some)
        then show "settled (dirtyAt (invalidateTargets known u)) (invalidateTargets known u)" using u(3) by (simp add: fun_upd_def)
        have "dirtyNodes s0 i = (edges s0)\<^sup>* `` {i}" by (rule settled_nodes [OF E(4) [OF a0]]) (simp add: some)
        then have known: "(edges s0)\<^sup>* `` {i} \<subseteq> set known" by (cases "map_of (fe_dirtyNodesByRoot s0) i") (auto simp: known_def)
        show "cacheRight (invalidateTargets known u)"
        proof (rule cacheRight_keep [OF E(5) [OF a0], of _ "set known"])
          show "(edges s0)\<^sup>* `` {q} \<subseteq> set known" if "dirtyAt (invalidateTargets known u) q \<noteq> dirtyAt s0 q" for q
            using that u(3) known by (cases "q = i") simp_all
        qed (use a E(2,6) u in simp_all)
      qed
    qed
  qed
qed

section \<open>Queries\<close>

lemma cacheRight_insert:
  assumes "cacheRight u" and "rightAnswer u i r"
  shows "cacheRight (u\<lparr>fe_frontierCache := omap_set i (revision, r) (fe_frontierCache u)\<rparr>)"
  using assms by (simp add: cacheRight_def rightAnswer_def)

lemma engineRight_cacheResult:
  assumes "engineRight u" and "alive u \<Longrightarrow> rightAnswer u i r"
  shows "engineRight (snd (cacheResult i r u))"
  using assms(1) cacheRight_insert [of u i r "fe_graphRevision u"] assms(2)
  by (auto simp: cacheResult_def engineRight_def graphRight_def)

lemma ticks_framed: "framed s (ticks n s)"
  by (rule ticks_upkeep [OF framed_upkeep framed_refl])

lemma worked_engineRight:
  assumes "engineRight s" and "worked s u" and "framed s u"
  shows "engineRight u"
proof -
  note F = framedD [OF assms(3)]
  show ?thesis
  proof (cases "alive u")
    case True
    then show ?thesis using assms(1,2) unfolding worked_def by (metis engineRight_work)
  next
    case False
    with assms(1) F show ?thesis by (simp add: engineRight_def graphRight_def)
  qed
qed

lemma queryFrontier_right:
  assumes s: "engineRight s" and run: "queryFrontier i s = (r, s')"
  shows "engineRight s'"
    and "\<And>res. r = Inr res \<Longrightarrow> alive s \<Longrightarrow> (if fr_complete res then fe_trusted s \<and> fr_status res = worstStatus s i \<and> fr_frontier res = topCauses s i
      else fr_status res = StatusUnknown \<and> fr_frontier res = []) \<and> (frontierIsComplete s' \<longrightarrow> fr_complete res)"
proof -
  define s0 where "s0 = resetFrontierWorkBudget s"
  have s0: "engineRight s0" using s by (simp add: s0_def)
  have same: "fe_trusted s0 = fe_trusted s" "alive s0 = alive s" "worstStatus s0 i = worstStatus s i" "topCauses s0 i = topCauses s i"
    by (simp_all add: s0_def resetFrontierWorkBudget_def)
  note E = engineRightD [OF s0]
  let ?claim = "\<lambda>res. (if fr_complete res then fe_trusted s0 \<and> fr_status res = worstStatus s0 i \<and> fr_frontier res = topCauses s0 i
      else fr_status res = StatusUnknown \<and> fr_frontier res = []) \<and> (frontierIsComplete s' \<longrightarrow> fr_complete res)"
  have unknown: "rightAnswer u j (unknownResult v)" if "\<not> fe_trusted u" for u j v using that by (simp add: rightAnswer_def unknownResult_def)
  have "engineRight s' \<and> (\<forall>res. r = Inr res \<longrightarrow> alive s0 \<longrightarrow> ?claim res)"
  proof (cases "checkNodes (fe_dependencies s0) [i]")
    case (Inl e)
    then have "s' = s0" "r = Inl e" using run by (simp_all add: queryFrontier_def s0_def [symmetric] Let_def)
    then show ?thesis using s0 by simp
  next
    case (Inr u)
    define cached where "cached = map_of (fe_frontierCache s0) i"
    have run1: "(r, s') = (if cached \<noteq> None \<and> fst (the cached) = fe_graphRevision s0
        then (Inr ((snd (the cached))\<lparr>fr_cacheHit := True, fr_impactGeneration := fe_generation s0\<rparr>), s0)
        else if \<not> frontierIsComplete s0 then cacheResult i (unknownResult s0) s0
        else let s1 = snd (compactResolvedRoots i s0) in
          if \<not> frontierIsComplete s1 then cacheResult i (unknownResult s1) s1
          else let roots = rootsAt s1 i;
              s2 = tick (ticks (length roots) (tick s1));
              live = filter (\<lambda>p. \<not> inactive s1 (fst p)) roots
            in cacheResult i \<lparr>fr_status = fold (\<lambda>p st. statusMax st (snd p)) live StatusFresh,
                 fr_frontier = sort (frontierAt s1 i), fr_complete = True, fr_cacheHit = False,
                 fr_graphRevision = fe_graphRevision s2, fr_impactGeneration = fe_generation s2\<rparr> s2)"
      unfolding run [symmetric] queryFrontier_def s0_def [symmetric] Let_def by (simp only: Inr sum.case cached_def)
    show ?thesis
    proof (cases "cached \<noteq> None \<and> fst (the cached) = fe_graphRevision s0")
      case True
      then obtain revision res where c: "cached = Some (revision, res)" by auto
      have out: "s' = s0" "r = Inr (res\<lparr>fr_cacheHit := True, fr_impactGeneration := fe_generation s0\<rparr>)" using run1 True c by simp_all
      have "rightAnswer s0 i res" if "alive s0" using E(5) [OF that] c unfolding cacheRight_def cached_def by blast
      with out s0 show ?thesis by (auto simp: rightAnswer_def frontierIsComplete_def split: if_splits)
    next
      case miss: False
      note run2 = run1 [unfolded if_not_P [OF miss]]
      show ?thesis
      proof (cases "frontierIsComplete s0")
        case False
        have out: "r = Inr (unknownResult s0)" "s' = snd (cacheResult i (unknownResult s0) s0)"
          using run2 False by (simp_all add: cacheResult_def)
        have "engineRight s'" unfolding out(2)
          by (rule engineRight_cacheResult [OF s0]) (use False unknown in \<open>simp add: frontierIsComplete_def\<close>)
        moreover have "\<not> frontierIsComplete s'" using False by (simp add: out(2) cacheResult_def frontierIsComplete_def)
        ultimately show ?thesis using out(1) by (simp add: unknownResult_def)
      next
        case True
        then have alive0: "alive s0" and trust0: "fe_trusted s0" by (simp_all add: frontierIsComplete_def)
        obtain changed s1 where comp: "compactResolvedRoots i s0 = (changed, s1)" by (metis surj_pair)
        have fr1: "framed s0 s1" using compactResolvedRoots_framed [of s0 i] comp by simp
        note F1 = framedD [OF fr1]
        show ?thesis
        proof (cases "alive s1")
          case False
          then have "\<not> frontierIsComplete s1" by (simp add: frontierIsComplete_def)
          then have out: "r = Inr (unknownResult s1)" "s' = snd (cacheResult i (unknownResult s1) s1)"
            using run2 True comp by (simp_all add: cacheResult_def Let_def)
          have "engineRight s1" using False E(1-3) F1 graphRight_framed [OF fr1] by (simp add: engineRight_def)
          then have "engineRight s'" unfolding out(2) by (rule engineRight_cacheResult) (use False in simp)
          moreover have "\<not> frontierIsComplete s'" using False by (simp add: out(2) cacheResult_def frontierIsComplete_def)
          ultimately show ?thesis using out(1) by (simp add: unknownResult_def)
        next
          case alive1: True
          have complete1: "frontierIsComplete s1" using alive1 F1(7) trust0 by (simp add: frontierIsComplete_def)
          define s2 where "s2 = tick (ticks (length (rootsAt s1 i)) (tick s1))"
          define live where "live = filter (\<lambda>p. \<not> inactive s1 (fst p)) (rootsAt s1 i)"
          define res where "res = \<lparr>fr_status = fold (\<lambda>p st. statusMax st (snd p)) live StatusFresh, fr_frontier = sort (frontierAt s1 i),
            fr_complete = True, fr_cacheHit = False, fr_graphRevision = fe_graphRevision s2, fr_impactGeneration = fe_generation s2\<rparr>"
          have out: "r = Inr res" "s' = snd (cacheResult i res s2)"
            using run2 True comp complete1 by (simp_all add: cacheResult_def Let_def s2_def live_def res_def)
          note C = compactResolvedRoots_settled [OF comp alive1 E(4) [OF alive0]]
          have roots: "omap_ok (rootsAt s1 i)" using bookedD(1) [OF settledD(1) [OF C(1)]] by blast
          have live: "set live = {(q, st). dirtyAt s0 q = Some st \<and> (q, i) \<in> (edges s0)\<^sup>*}"
          proof -
            have "(q, st) \<in> set live \<longleftrightarrow> dirtyAt s0 q = Some st \<and> (q, i) \<in> (edges s0)\<^sup>*" for q st
            proof -
              have "(q, st) \<in> set live \<longleftrightarrow> entry s1 i q = Some st \<and> \<not> inactive s1 q" using roots by (simp add: live_def omap_get_iff)
              also have "\<dots> \<longleftrightarrow> entry s1 i q = Some st" using C(3) [of q st] by blast
              also have "\<dots> \<longleftrightarrow> dirtyAt s0 q = Some st \<and> (q, i) \<in> (edges s0)\<^sup>*"
                using C(2) [of q] C(3) [of q] by (metis not_None_eq option.inject)
              finally show ?thesis .
            qed
            then show ?thesis by auto
          qed
          have status: "fr_status res = worstStatus s0 i"
            unfolding worstStatus_def res_def using set_causesOf [OF E(2), of i] live by (simp, intro fold_statusMax_cong) simp
          have "rootSet s1 i = {q. dirtyAt s0 q \<noteq> None \<and> (q, i) \<in> (edges s0)\<^sup>*}" using C(2) by auto
          then have "set (frontierAt s1 i) = set (topCauses s0 i)" "distinct (frontierAt s1 i)"
            using C(4,5) set_topCauses [OF E(2,6), of i] by (simp_all add: frontierRight_def)
          then have frontier: "fr_frontier res = topCauses s0 i"
            unfolding res_def by (simp, intro sorted_distinct_set_eq) (simp_all add: topCauses_sorted)
          have right1: "engineRight s1"
          proof -
            have "cacheRight s1" by (rule cacheRight_keep [OF E(5) [OF alive0], of _ "{}"]) (use F1 alive1 E(2,6) in simp_all)
            with C(1) F1(3) E(2) alive1 graphRight_framed [OF fr1] E(1) show ?thesis by (simp add: engineRight_def)
          qed
          have w: "worked s1 s2" unfolding s2_def by (meson worked_trans worked_tick worked_ticks)
          have fr2: "framed s1 s2"
            unfolding s2_def by (intro upkeepD(1) [OF framed_upkeep] ticks_upkeep [OF framed_upkeep] framed_refl)
          note F2 = framedD [OF fr2]
          have right2: "engineRight s2" by (rule worked_engineRight [OF right1 w fr2])
          have "rightAnswer s2 i res" if a: "alive s2"
          proof -
            have "worstStatus s2 i = worstStatus s0 i" "topCauses s2 i = topCauses s0 i"
              by (rule answers_cong; use F1(2,3) F2(2,3) E(2,6) in simp)+
            then show ?thesis using status frontier F2(7) [OF a] F1(7) [OF alive1] trust0 by (simp add: rightAnswer_def res_def)
          qed
          then have "engineRight s'" unfolding out(2) by (rule engineRight_cacheResult [OF right2])
          then show ?thesis using out(1) status frontier trust0 by (simp add: res_def)
        qed
      qed
    qed
  qed
  then show "engineRight s'"
    and "\<And>res. r = Inr res \<Longrightarrow> alive s \<Longrightarrow> (if fr_complete res then fe_trusted s \<and> fr_status res = worstStatus s i \<and> fr_frontier res = topCauses s i
      else fr_status res = StatusUnknown \<and> fr_frontier res = []) \<and> (frontierIsComplete s' \<longrightarrow> fr_complete res)"
    using same by (blast, auto)
qed

end
