(* ===== verification/Guarded_Tool.thy ===== *)
theory Guarded_Tool
  imports Runtime_Store
begin

text \<open>
  \<open>packages/runtime-core/src/guarded-tools.ts\<close>: a tool whose side effect runs only with a proof
  that a revalidation returned, and once per tenant and idempotency key. The three callbacks are
  code of the caller: what they answer is an argument of the step at which the answer arrives.
  Objects have numbers, which the two weak maps are keyed by; the object a caller passes back may
  have had its properties changed. The idempotency store is an argument, its interface a locale;
  the store of the source is the instance.
\<close>

section \<open>Messages\<close>

text \<open>What a callback answers outside the listed words is \<open>None\<close>.\<close>

datatype tool_state = ToolFresh | ToolStale | ToolInvalid | ToolUnknown | ToolMissing
datatype revalidation_outcome = OutcomeFresh | OutcomeChanged | OutcomeMissing | OutcomeUnknown | OutcomeVersionMismatch
datatype action_outcome = ActApplied | ActVersionMismatch | ActRejected | ActUnknown
datatype blocked_outcome = BlockedChanged | BlockedMissing | BlockedUnknown | BlockedVersionMismatch | BlockedRejected

record tool_check =
  tc_tenantId :: string
  tc_resource :: string
  tc_state :: "tool_state option"
  tc_version :: "version_reference option"
  tc_reason :: "string option"

record tool_check_result =
  tk_object :: nat
  tk_tenantId :: string
  tk_resource :: string
  tk_state :: tool_state
  tk_version :: "version_reference option"
  tk_reason :: "string option"

record tool_request =
  tq_tenantId :: string
  tq_resource :: string
  tq_expectedVersion :: version_reference

record tool_revalidation =
  tv_tenantId :: string
  tv_resource :: string
  tv_outcome :: "revalidation_outcome option"
  tv_observedVersion :: "version_reference option"
  tv_reason :: "string option"

record tool_ready =
  ty_object :: nat
  ty_tenantId :: string
  ty_resource :: string
  ty_version :: "version_reference option"

record tool_blocked =
  tb_tenantId :: string
  tb_resource :: string
  tb_outcome :: blocked_outcome
  tb_reason :: string
  tb_observedVersion :: "version_reference option"

datatype tool_revalidation_result = ToolReady tool_ready | ToolBlocked tool_blocked

record tool_call =
  tl_tenantId :: string
  tl_resource :: string
  tl_expectedVersion :: version_reference
  tl_idempotencyKey :: string
  tl_action :: jsvalue

record 'r tool_response =
  ta_tenantId :: string
  ta_resource :: string
  ta_outcome :: "action_outcome option"
  ta_observedVersion :: "version_reference option"
  ta_result :: "'r option"
  ta_reason :: "string option"

record 'r tool_result =
  tr_accepted :: bool
  tr_outcome :: action_outcome
  tr_tenantId :: string
  tr_resource :: string
  tr_expectedVersion :: "version_reference option"
  tr_observedVersion :: "version_reference option"
  tr_result :: "'r option"
  tr_reason :: "string option"

section \<open>Guards\<close>

definition validVersion :: "version_reference \<Rightarrow> bool" where
  "validVersion v = (nonBlank (vr_scheme v) \<and> nonBlank (vr_token v))"

text \<open>\<open>resourceFrom(...) ?? { tenantId: "", resource: "" }\<close>.\<close>

definition resourceFrom :: "string \<Rightarrow> string \<Rightarrow> (string \<times> string) option" where
  "resourceFrom tenantId resource = (if nonBlank tenantId \<and> nonBlank resource then Some (tenantId, resource) else None)"

definition assertResource :: "string \<Rightarrow> string \<Rightarrow> exn + unit" where
  "assertResource tenantId resource =
     (if resourceFrom tenantId resource = None then Inl (NotText ''tenantId and resource'') else Inr ())"

text \<open>Values are trees here, so the test for cycles never throws.\<close>

fun actionText :: "(rat \<Rightarrow> string) \<Rightarrow> jsvalue \<Rightarrow> exn + string" where
  "actionText fmt JUndefined = Inr ''undefined''"
| "actionText fmt JNull = Inr ''null''"
| "actionText fmt (JBool b) = Inr (if b then ''true'' else ''false'')"
| "actionText fmt (JNum n) = Inr (stringifyNumber fmt n)"
| "actionText fmt (JStr s) = Inr (quote s)"
| "actionText fmt (JArr vs) =
     andThen (traverse id (map (actionText fmt) vs)) (\<lambda>ts. Inr (''['' @ joinComma ts @ '']''))"
| "actionText fmt (JObj plain ps) =
     andThen
       (traverse (\<lambda>(k, r). andThen r (\<lambda>t. Inr (quote k @ '':'' @ t)))
          (sort_key fst (map (\<lambda>(k, v). (k, actionText fmt v)) ps)))
       (\<lambda>ts. Inr (''{'' @ joinComma ts @ ''}''))"
| "actionText fmt JOpaque = Inl NotSerializable"

section \<open>The idempotency store\<close>

datatype 'r idempotency_claim = ClaimNew | ClaimPending | ClaimCompleted "'r tool_result" | ClaimConflict | ClaimFull
datatype idempotency_state = IdemPending | IdemCompleted

record 'r idempotency_entry =
  ie_fingerprint :: string
  ie_state :: idempotency_state
  ie_result :: "'r tool_result option"

record 'r idempotency_store =
  is_entries :: "(string, 'r idempotency_entry) omap"
  is_maxEntries :: int

definition newIdempotencyStore :: "jsnum option \<Rightarrow> exn + 'r idempotency_store" where
  "newIdempotencyStore maxEntries =
     (let m = nullish maxEntries (Integral 1024) in
      if \<not> isSafeInteger m \<or> int_of m < 1 then Inl (NotInRange ''maxEntries'')
      else Inr \<lparr>is_entries = [], is_maxEntries = int_of m\<rparr>)"

definition claimKey :: "string \<Rightarrow> string \<Rightarrow> 'r idempotency_store \<Rightarrow> (exn + 'r idempotency_claim) \<times> 'r idempotency_store" where
  "claimKey key fingerprint s =
     (if \<not> nonBlank key \<or> \<not> nonBlank fingerprint then (Inl (NotText ''idempotency key and fingerprint''), s)
      else case map_of (is_entries s) key of
        Some existing \<Rightarrow>
          (if ie_fingerprint existing \<noteq> fingerprint then (Inr ClaimConflict, s)
           else if ie_state existing = IdemPending then (Inr ClaimPending, s)
           else (Inr (ClaimCompleted (the (ie_result existing))), s))
      | None \<Rightarrow>
          if int (length (is_entries s)) \<ge> is_maxEntries s then (Inr ClaimFull, s)
          else (Inr ClaimNew, s\<lparr>is_entries := omap_set key
            \<lparr>ie_fingerprint = fingerprint, ie_state = IdemPending, ie_result = None\<rparr> (is_entries s)\<rparr>))"

definition completeKey :: "string \<Rightarrow> string \<Rightarrow> 'r tool_result \<Rightarrow> 'r idempotency_store \<Rightarrow> (exn + unit) \<times> 'r idempotency_store" where
  "completeKey key fingerprint result s =
     (case map_of (is_entries s) key of
        None \<Rightarrow> (Inl (Failure ''idempotency completion does not match a pending claim''), s)
      | Some existing \<Rightarrow>
          if ie_fingerprint existing \<noteq> fingerprint \<or> ie_state existing \<noteq> IdemPending
          then (Inl (Failure ''idempotency completion does not match a pending claim''), s)
          else (Inr (), s\<lparr>is_entries := omap_set key
            (existing\<lparr>ie_state := IdemCompleted, ie_result := Some result\<rparr>) (is_entries s)\<rparr>))"

section \<open>The tool\<close>

text \<open>
  One task for every promise of \<open>act\<close>; the promise is its position. \<open>gt_calls\<close> records the calls
  of the \<open>act\<close> callback, the only one that may have a side effect.
\<close>

datatype task_phase = TaskQueued | TaskRunning | TaskFinished | TaskCleaned

record 'r tool_task =
  tt_key :: string
  tt_fingerprint :: string
  tt_call :: tool_call
  tt_phase :: task_phase
  tt_aborted :: bool
  tt_result :: "'r tool_result option"

record checked_entry =
  ck_tenantId :: string
  ck_resource :: string
  ck_state :: tool_state
  ck_version :: "version_reference option"

record proof_resource =
  pf_tenantId :: string
  pf_resource :: string
  pf_version :: version_reference

record ('r, 'st) guarded_tool =
  gt_checks :: "(nat, checked_entry) omap"
  gt_ready :: "(nat, proof_resource) omap"
  gt_objects :: nat
  gt_store :: 'st
  gt_inFlight :: "(string, string \<times> nat) omap"
  gt_tasks :: "'r tool_task list"
  gt_calls :: "tool_call list"

definition newGuardedTool :: "'st \<Rightarrow> ('r, 'st) guarded_tool" where
  "newGuardedTool store = \<lparr>gt_checks = [], gt_ready = [], gt_objects = 0, gt_store = store, gt_inFlight = [], gt_tasks = [], gt_calls = []\<rparr>"

text \<open>The reply of a callback: thrown or rejected, no object, or a message.\<close>

datatype 'm callback_reply = CallbackThrew | CallbackNoObject | CallbackReply 'm

section \<open>\<open>check\<close>\<close>

definition checkReason :: "string \<Rightarrow> string \<Rightarrow> tool_check callback_reply \<Rightarrow> string option" where
  "checkReason tenantId resource reply =
     (case reply of
        CallbackThrew \<Rightarrow> Some ''CHECK_UNKNOWN''
      | CallbackNoObject \<Rightarrow> Some ''CHECK_RESOURCE_MISMATCH''
      | CallbackReply r \<Rightarrow>
          if tc_tenantId r \<noteq> tenantId \<or> tc_resource r \<noteq> resource then Some ''CHECK_RESOURCE_MISMATCH''
          else if tc_state r = None then Some ''CHECK_STATE_INVALID''
          else if tc_state r \<in> {Some ToolFresh, Some ToolStale} \<and> \<not> (case tc_version r of None \<Rightarrow> False | Some v \<Rightarrow> validVersion v)
            then Some ''CHECK_VERSION_REQUIRED''
          else case tc_version r of
              None \<Rightarrow> None
            | Some v \<Rightarrow> if validVersion v then None else Some ''CHECK_VERSION_INVALID'')"

definition toolCheck :: "string \<Rightarrow> string \<Rightarrow> tool_check callback_reply \<Rightarrow> ('r, 'st) guarded_tool
    \<Rightarrow> (exn + tool_check_result) \<times> ('r, 'st) guarded_tool" where
  "toolCheck tenantId resource reply s =
     (case assertResource tenantId resource of
        Inl e \<Rightarrow> (Inl e, s)
      | Inr u \<Rightarrow>
         (let obj = gt_objects s; s1 = s\<lparr>gt_objects := obj + 1\<rparr> in
          case (checkReason tenantId resource reply, reply) of
            (None, CallbackReply r) \<Rightarrow>
              (Inr \<lparr>tk_object = obj, tk_tenantId = tenantId, tk_resource = resource, tk_state = the (tc_state r),
                 tk_version = tc_version r, tk_reason = tc_reason r\<rparr>,
               s1\<lparr>gt_checks := omap_set obj \<lparr>ck_tenantId = tenantId, ck_resource = resource,
                 ck_state = the (tc_state r), ck_version = tc_version r\<rparr> (gt_checks s1)\<rparr>)
          | (reason, x) \<Rightarrow>
              (Inr \<lparr>tk_object = obj, tk_tenantId = tenantId, tk_resource = resource, tk_state = ToolUnknown,
                 tk_version = None, tk_reason = reason\<rparr>, s1)))"

section \<open>\<open>revalidate\<close>\<close>

fun outcomeText :: "revalidation_outcome \<Rightarrow> string" where
  "outcomeText OutcomeFresh = ''FRESH''"
| "outcomeText OutcomeChanged = ''CHANGED''"
| "outcomeText OutcomeMissing = ''MISSING''"
| "outcomeText OutcomeUnknown = ''UNKNOWN''"
| "outcomeText OutcomeVersionMismatch = ''VERSION_MISMATCH''"

fun blockedOf :: "revalidation_outcome \<Rightarrow> blocked_outcome" where
  "blockedOf OutcomeChanged = BlockedChanged"
| "blockedOf OutcomeMissing = BlockedMissing"
| "blockedOf OutcomeVersionMismatch = BlockedVersionMismatch"
| "blockedOf _ = BlockedUnknown"

text \<open>Why the checked object does not lead to a call of the callback; else the request.\<close>

definition revalidationRequest :: "tool_check_result \<Rightarrow> ('r, 'st) guarded_tool \<Rightarrow> (blocked_outcome \<times> string) + tool_request" where
  "revalidationRequest input s =
     (case map_of (gt_checks s) (tk_object input) of
        None \<Rightarrow> Inl (BlockedUnknown, ''INVALID_CHECK'')
      | Some stored \<Rightarrow>
          (let (tenantId, resource) = nullish (resourceFrom (tk_tenantId input) (tk_resource input)) ([], []) in
           if ck_tenantId stored \<noteq> tenantId \<or> ck_resource stored \<noteq> resource then Inl (BlockedUnknown, ''INVALID_CHECK'')
           else if ck_state stored = ToolMissing then Inl (BlockedMissing, ''MISSING_RESOURCE'')
           else if ck_state stored = ToolUnknown then Inl (BlockedUnknown, ''UNKNOWN_CHECK'')
           else if ck_state stored = ToolInvalid then Inl (BlockedRejected, ''INVALID_CHECK_STATE'')
           else case ck_version stored of
               None \<Rightarrow> Inl (BlockedUnknown, ''VERSION_REQUIRED'')
             | Some v \<Rightarrow>
                 if validVersion v then Inr \<lparr>tq_tenantId = tenantId, tq_resource = resource, tq_expectedVersion = v\<rparr>
                 else Inl (BlockedUnknown, ''VERSION_REQUIRED'')))"

definition revalidationAnswer :: "tool_request \<Rightarrow> tool_revalidation callback_reply
    \<Rightarrow> (blocked_outcome \<times> string \<times> version_reference option) + version_reference" where
  "revalidationAnswer q reply =
     (case reply of
        CallbackThrew \<Rightarrow> Inl (BlockedUnknown, ''REVALIDATE_UNKNOWN'', None)
      | CallbackNoObject \<Rightarrow> Inl (BlockedUnknown, ''REVALIDATE_RESOURCE_MISMATCH'', None)
      | CallbackReply r \<Rightarrow>
          if tv_tenantId r \<noteq> tq_tenantId q \<or> tv_resource r \<noteq> tq_resource q
            then Inl (BlockedUnknown, ''REVALIDATE_RESOURCE_MISMATCH'', None)
          else case tv_outcome r of
            None \<Rightarrow> Inl (BlockedUnknown, ''REVALIDATE_OUTCOME_INVALID'', None)
          | Some outcome \<Rightarrow>
              if \<not> (case tv_observedVersion r of None \<Rightarrow> True | Some v \<Rightarrow> validVersion v)
                then Inl (BlockedUnknown, ''REVALIDATE_VERSION_INVALID'', None)
              else if outcome \<noteq> OutcomeFresh
                then Inl (blockedOf outcome, nullish (tv_reason r) (outcomeText outcome), tv_observedVersion r)
              else case tv_observedVersion r of
                  None \<Rightarrow> Inl (BlockedUnknown, ''FRESH_VERSION_REQUIRED'', None)
                | Some v \<Rightarrow> Inr v)"

definition toolRevalidate :: "tool_check_result \<Rightarrow> tool_revalidation callback_reply \<Rightarrow> ('r, 'st) guarded_tool
    \<Rightarrow> tool_revalidation_result \<times> ('r, 'st) guarded_tool" where
  "toolRevalidate input reply s =
     (let (tenantId, resource) = nullish (resourceFrom (tk_tenantId input) (tk_resource input)) ([], []) in
      case revalidationRequest input s of
        Inl (outcome, reason) \<Rightarrow>
          (ToolBlocked \<lparr>tb_tenantId = tenantId, tb_resource = resource, tb_outcome = outcome, tb_reason = reason,
             tb_observedVersion = None\<rparr>, s)
      | Inr q \<Rightarrow>
         (case revalidationAnswer q reply of
            Inl (outcome, reason, observed) \<Rightarrow>
              (ToolBlocked \<lparr>tb_tenantId = tenantId, tb_resource = resource, tb_outcome = outcome, tb_reason = reason,
                 tb_observedVersion = observed\<rparr>, s)
          | Inr v \<Rightarrow>
              (let obj = gt_objects s in
               (ToolReady \<lparr>ty_object = obj, ty_tenantId = tenantId, ty_resource = resource, ty_version = Some v\<rparr>,
                s\<lparr>gt_objects := obj + 1, gt_ready := omap_set obj
                  \<lparr>pf_tenantId = tenantId, pf_resource = resource, pf_version = v\<rparr> (gt_ready s)\<rparr>))))"

section \<open>\<open>act\<close>\<close>

datatype 'r act_reply = ActSettled "'r tool_result" | ActPromise nat

definition refusedAct :: "action_outcome \<Rightarrow> string \<Rightarrow> string \<Rightarrow> version_reference option \<Rightarrow> string \<Rightarrow> 'r tool_result" where
  "refusedAct outcome tenantId resource expected reason =
     \<lparr>tr_accepted = False, tr_outcome = outcome, tr_tenantId = tenantId, tr_resource = resource,
      tr_expectedVersion = expected, tr_observedVersion = None, tr_result = None, tr_reason = Some reason\<rparr>"

definition actFingerprint :: "string \<Rightarrow> version_reference \<Rightarrow> string \<Rightarrow> string" where
  "actFingerprint resource v digest =
     resource @ [CHR 0x00] @ vr_scheme v @ [CHR 0x00] @ vr_token v @ [CHR 0x00] @ digest"

definition actKey :: "string \<Rightarrow> string \<Rightarrow> string" where
  "actKey tenantId idempotencyKey = tenantId @ [CHR 0x00] @ idempotencyKey"

text \<open>The guards before any state is read: the call to make, its key and its fingerprint.\<close>

definition actRequest :: "(rat \<Rightarrow> string) \<Rightarrow> tool_ready \<Rightarrow> jsvalue \<Rightarrow> string \<Rightarrow> ('r, 'st) guarded_tool
    \<Rightarrow> 'r tool_result + tool_call \<times> string \<times> string" where
  "actRequest fmt input action idempotencyKey s =
     (let (tenantId, resource) = nullish (resourceFrom (ty_tenantId input) (ty_resource input)) ([], []) in
      case map_of (gt_ready s) (ty_object input) of
        None \<Rightarrow> Inl (refusedAct ActRejected tenantId resource None ''INVALID_REVALIDATION'')
      | Some stored \<Rightarrow>
          if pf_tenantId stored \<noteq> tenantId \<or> pf_resource stored \<noteq> resource \<or>
             \<not> (case ty_version input of None \<Rightarrow> False | Some v \<Rightarrow> validVersion v)
          then Inl (refusedAct ActRejected tenantId resource None ''INVALID_REVALIDATION'')
          else if \<not> nonBlank idempotencyKey
          then Inl (refusedAct ActRejected tenantId resource (Some (pf_version stored)) ''IDEMPOTENCY_KEY_REQUIRED'')
          else case actionText fmt action of
              Inl e \<Rightarrow> Inl (refusedAct ActRejected tenantId resource (Some (pf_version stored)) ''INVALID_ACTION'')
            | Inr digest \<Rightarrow>
                Inr (\<lparr>tl_tenantId = tenantId, tl_resource = resource, tl_expectedVersion = pf_version stored,
                       tl_idempotencyKey = idempotencyKey, tl_action = action\<rparr>,
                     actKey tenantId idempotencyKey, actFingerprint resource (pf_version stored) digest))"

definition toolAct :: "(string \<Rightarrow> string \<Rightarrow> 'st \<Rightarrow> (exn + 'r idempotency_claim) \<times> 'st) \<Rightarrow> (rat \<Rightarrow> string) \<Rightarrow> tool_ready \<Rightarrow> jsvalue
    \<Rightarrow> string \<Rightarrow> ('r, 'st) guarded_tool \<Rightarrow> (exn + 'r act_reply) \<times> ('r, 'st) guarded_tool" where
  "toolAct claim fmt input action idempotencyKey s =
     (case actRequest fmt input action idempotencyKey s of
        Inl result \<Rightarrow> (Inr (ActSettled result), s)
      | Inr (call, key, fingerprint) \<Rightarrow>
         (let turnDown = (\<lambda>outcome reason. Inr (ActSettled
               (refusedAct outcome (tl_tenantId call) (tl_resource call) (Some (tl_expectedVersion call)) reason))) in
          case map_of (gt_inFlight s) key of
            Some (pendingFingerprint, p) \<Rightarrow>
              (if pendingFingerprint = fingerprint then Inr (ActPromise p) else turnDown ActRejected ''IDEMPOTENCY_CONFLICT'', s)
          | None \<Rightarrow>
             (case claim key fingerprint (gt_store s) of (claimed, store) \<Rightarrow>
               (let s1 = s\<lparr>gt_store := store\<rparr> in
                case claimed of
                  Inl e \<Rightarrow> (Inl e, s1)
                | Inr (ClaimCompleted result) \<Rightarrow> (Inr (ActSettled result), s1)
                | Inr ClaimConflict \<Rightarrow> (turnDown ActRejected ''IDEMPOTENCY_CONFLICT'', s1)
                | Inr ClaimPending \<Rightarrow> (turnDown ActUnknown ''IDEMPOTENCY_IN_PROGRESS'', s1)
                | Inr ClaimFull \<Rightarrow> (turnDown ActRejected ''IDEMPOTENCY_RETENTION_FULL'', s1)
                | Inr ClaimNew \<Rightarrow>
                   (let p = length (gt_tasks s1) in
                    (Inr (ActPromise p),
                     s1\<lparr>gt_tasks := gt_tasks s1 @ [\<lparr>tt_key = key, tt_fingerprint = fingerprint, tt_call = call,
                          tt_phase = TaskQueued, tt_aborted = False, tt_result = None\<rparr>],
                        gt_inFlight := omap_set key (fingerprint, p) (gt_inFlight s1)\<rparr>))))))"

section \<open>The task of a promise\<close>

text \<open>The microtask of \<open>performAction\<close> that calls the callback.\<close>

definition runTask :: "nat \<Rightarrow> ('r, 'st) guarded_tool \<Rightarrow> ('r, 'st) guarded_tool" where
  "runTask p s =
     (if p < length (gt_tasks s) \<and> tt_phase (gt_tasks s ! p) = TaskQueued
      then s\<lparr>gt_tasks := (gt_tasks s)[p := (gt_tasks s ! p)\<lparr>tt_phase := TaskRunning\<rparr>],
             gt_calls := gt_calls s @ [tt_call (gt_tasks s ! p)]\<rparr>
      else s)"

text \<open>What settles the race: the callback, or the timer, which aborts the signal first.\<close>

datatype 'r act_settlement = ActReplied "'r tool_response callback_reply" | ActTimedOut

definition actionResult :: "tool_call \<Rightarrow> 'r act_settlement \<Rightarrow> 'r tool_result" where
  "actionResult call settlement =
     (let unknown = refusedAct ActUnknown (tl_tenantId call) (tl_resource call) (Some (tl_expectedVersion call)) in
      case settlement of
        ActTimedOut \<Rightarrow> unknown ''SIDE_EFFECT_TIMEOUT''
      | ActReplied CallbackThrew \<Rightarrow> unknown ''SIDE_EFFECT_UNKNOWN''
      | ActReplied CallbackNoObject \<Rightarrow> unknown ''ACT_RESOURCE_MISMATCH''
      | ActReplied (CallbackReply r) \<Rightarrow>
          if ta_tenantId r \<noteq> tl_tenantId call \<or> ta_resource r \<noteq> tl_resource call then unknown ''ACT_RESOURCE_MISMATCH''
          else case ta_outcome r of
            None \<Rightarrow> unknown ''ACT_OUTCOME_INVALID''
          | Some outcome \<Rightarrow>
              if \<not> (case ta_observedVersion r of None \<Rightarrow> True | Some v \<Rightarrow> validVersion v) then unknown ''ACT_VERSION_INVALID''
              else \<lparr>tr_accepted = (outcome = ActApplied), tr_outcome = outcome, tr_tenantId = tl_tenantId call,
                    tr_resource = tl_resource call, tr_expectedVersion = Some (tl_expectedVersion call),
                    tr_observedVersion = ta_observedVersion r, tr_result = ta_result r, tr_reason = ta_reason r\<rparr>)"

definition settleTask :: "(string \<Rightarrow> string \<Rightarrow> 'r tool_result \<Rightarrow> 'st \<Rightarrow> (exn + unit) \<times> 'st) \<Rightarrow> nat \<Rightarrow> 'r act_settlement
    \<Rightarrow> ('r, 'st) guarded_tool \<Rightarrow> ('r, 'st) guarded_tool" where
  "settleTask complete' p settlement s =
     (if p < length (gt_tasks s) \<and> tt_phase (gt_tasks s ! p) = TaskRunning
      then let t = gt_tasks s ! p; call = tt_call t; response = actionResult call settlement in
        (case complete' (tt_key t) (tt_fingerprint t) response (gt_store s) of (completed, store) \<Rightarrow>
           (let result = (case completed of
                Inr u \<Rightarrow> response
              | Inl e \<Rightarrow> refusedAct ActUnknown (tl_tenantId call) (tl_resource call) (Some (tl_expectedVersion call))
                  ''IDEMPOTENCY_STORE_UNAVAILABLE'')
            in s\<lparr>gt_store := store, gt_tasks := (gt_tasks s)[p := t\<lparr>tt_phase := TaskFinished,
                 tt_aborted := (settlement = ActTimedOut), tt_result := Some result\<rparr>]\<rparr>))
      else s)"

text \<open>The \<open>finally\<close> handler of the promise.\<close>

definition cleanTask :: "nat \<Rightarrow> ('r, 'st) guarded_tool \<Rightarrow> ('r, 'st) guarded_tool" where
  "cleanTask p s =
     (if p < length (gt_tasks s) \<and> tt_phase (gt_tasks s ! p) = TaskFinished
      then let t = gt_tasks s ! p; s1 = s\<lparr>gt_tasks := (gt_tasks s)[p := t\<lparr>tt_phase := TaskCleaned\<rparr>]\<rparr> in
        (case map_of (gt_inFlight s1) (tt_key t) of
           Some (fingerprint, q) \<Rightarrow> if q = p then s1\<lparr>gt_inFlight := omap_delete (tt_key t) (gt_inFlight s1)\<rparr> else s1
         | None \<Rightarrow> s1)
      else s)"

section \<open>Runs\<close>

datatype 'r tool_step =
    StepCheck string string "tool_check callback_reply"
  | StepRevalidate tool_check_result "tool_revalidation callback_reply"
  | StepAct tool_ready jsvalue string
  | StepRun nat
  | StepSettle nat "'r act_settlement"
  | StepClean nat

fun toolStep :: "(string \<Rightarrow> string \<Rightarrow> 'st \<Rightarrow> (exn + 'r idempotency_claim) \<times> 'st) \<Rightarrow>
    (string \<Rightarrow> string \<Rightarrow> 'r tool_result \<Rightarrow> 'st \<Rightarrow> (exn + unit) \<times> 'st) \<Rightarrow> (rat \<Rightarrow> string) \<Rightarrow> 'r tool_step
    \<Rightarrow> ('r, 'st) guarded_tool \<Rightarrow> ('r, 'st) guarded_tool" where
  "toolStep claim complete' fmt (StepCheck tenantId resource reply) s = snd (toolCheck tenantId resource reply s)"
| "toolStep claim complete' fmt (StepRevalidate input reply) s = snd (toolRevalidate input reply s)"
| "toolStep claim complete' fmt (StepAct input action idempotencyKey) s = snd (toolAct claim fmt input action idempotencyKey s)"
| "toolStep claim complete' fmt (StepRun p) s = runTask p s"
| "toolStep claim complete' fmt (StepSettle p settlement) s = settleTask complete' p settlement s"
| "toolStep claim complete' fmt (StepClean p) s = cleanTask p s"

lemma list_split_at: "p < length ts \<Longrightarrow> \<exists>us vs. ts = us @ ts ! p # vs \<and> (\<forall>t. ts[p := t] = us @ t # vs)"
  using id_take_nth_drop upd_conv_take_nth_drop by metis

lemma actRequest_key:
  "actRequest fmt input action key s = Inr (call, k, f) \<Longrightarrow> k = actKey (tl_tenantId call) (tl_idempotencyKey call)"
  by (auto simp: actRequest_def Let_def split: prod.splits option.splits if_splits sum.splits)

text \<open>The state after an \<open>act\<close>: nothing but the store changed, or one task is new.\<close>

lemma toolAct_cases:
  assumes "toolAct claim fmt input action key s = (x, s')"
  obtains (same) "s' = s"
    | (refused) k f c store where "claim k f (gt_store s) = (c, store)" "c \<noteq> Inr ClaimNew" "s' = s\<lparr>gt_store := store\<rparr>"
    | (started) call k f store where "actRequest fmt input action key s = Inr (call, k, f)" "map_of (gt_inFlight s) k = None"
        "claim k f (gt_store s) = (Inr ClaimNew, store)" "x = Inr (ActPromise (length (gt_tasks s)))"
        "s' = s\<lparr>gt_store := store,
           gt_tasks := gt_tasks s @ [\<lparr>tt_key = k, tt_fingerprint = f, tt_call = call, tt_phase = TaskQueued, tt_aborted = False, tt_result = None\<rparr>],
           gt_inFlight := omap_set k (f, length (gt_tasks s)) (gt_inFlight s)\<rparr>"
proof (cases "actRequest fmt input action key s")
  case (Inl r)
  then have "s' = s" using assms by (simp add: toolAct_def)
  then show ?thesis by (rule same)
next
  case (Inr q)
  obtain call k f where q: "q = (call, k, f)" by (cases q) auto
  show ?thesis
  proof (cases "map_of (gt_inFlight s) k")
    case (Some fp)
    then have "s' = s" using assms Inr q by (cases fp) (simp add: toolAct_def Let_def)
    then show ?thesis by (rule same)
  next
    case None
    obtain c store where c: "claim k f (gt_store s) = (c, store)" by (metis surj_pair)
    note run = assms [unfolded toolAct_def Inr q sum.case prod.case Let_def None option.case c]
    show ?thesis
    proof (cases "c = Inr ClaimNew")
      case True
      then show ?thesis using run started [OF Inr [unfolded q] None c [unfolded True]] by simp
    next
      case False
      then have "s' = s\<lparr>gt_store := store\<rparr>" using run by (auto split: sum.splits idempotency_claim.splits)
      with refused [OF c False] show ?thesis .
    qed
  qed
qed

section \<open>What the store promises\<close>

text \<open>
  \<open>GuardedToolIdempotencyStore\<close>: \<open>entryOf\<close> is the fingerprint of a key and its result once there
  is one. A claim that is new reserves the key, a completion of a reserved key is kept, nothing is
  ever forgotten.
\<close>

definition replayClaim :: "'r tool_result option \<Rightarrow> 'r idempotency_claim" where
  "replayClaim result = (case result of None \<Rightarrow> ClaimPending | Some r \<Rightarrow> ClaimCompleted r)"

locale idempotency_memory =
  fixes claim :: "string \<Rightarrow> string \<Rightarrow> 'st \<Rightarrow> (exn + 'r idempotency_claim) \<times> 'st"
    and complete' :: "string \<Rightarrow> string \<Rightarrow> 'r tool_result \<Rightarrow> 'st \<Rightarrow> (exn + unit) \<times> 'st"
    and entryOf :: "'st \<Rightarrow> string \<Rightarrow> (string \<times> 'r tool_result option) option"
    and ok :: "'st \<Rightarrow> bool"
  assumes claim_spec: "ok s \<Longrightarrow> claim k f s = (x, s') \<Longrightarrow> ok s' \<and>
      (if x = Inr ClaimNew then entryOf s k = None \<and> entryOf s' = (entryOf s)(k \<mapsto> (f, None)) else entryOf s' = entryOf s)"
    and claim_entry: "ok s \<Longrightarrow> entryOf s k = Some (f, v) \<Longrightarrow> nonBlank g \<Longrightarrow>
      fst (claim k g s) = Inr (if g = f then replayClaim v else ClaimConflict)"
    and complete_spec: "ok s \<Longrightarrow> entryOf s k = Some (f, None) \<Longrightarrow>
      \<exists>s'. complete' k f r s = (Inr (), s') \<and> ok s' \<and> entryOf s' = (entryOf s)(k \<mapsto> (f, Some r))"
begin

text \<open>
  The tasks have different keys, the store holds for each what its promise settled with, every call
  was made by one of them, and what is in flight are promises of their own key.
\<close>

definition taskRight :: "'st \<Rightarrow> 'r tool_task \<Rightarrow> bool" where
  "taskRight store t =
     (actKey (tl_tenantId (tt_call t)) (tl_idempotencyKey (tt_call t)) = tt_key t \<and>
      entryOf store (tt_key t) = Some (tt_fingerprint t, tt_result t) \<and>
      (tt_result t = None \<longleftrightarrow> tt_phase t \<in> {TaskQueued, TaskRunning}))"

definition callsRight :: "'r tool_task list \<Rightarrow> tool_call list \<Rightarrow> bool" where
  "callsRight ts calls = (distinct calls \<and> set calls = set (map tt_call (filter (\<lambda>t. tt_phase t \<noteq> TaskQueued) ts)))"

definition flightsRight :: "'r tool_task list \<Rightarrow> (string, string \<times> nat) omap \<Rightarrow> bool" where
  "flightsRight ts flights = (\<forall>k f p. map_of flights k = Some (f, p) \<longrightarrow>
     p < length ts \<and> tt_key (ts ! p) = k \<and> tt_fingerprint (ts ! p) = f)"

definition toolRight :: "('r, 'st) guarded_tool \<Rightarrow> bool" where
  "toolRight s = (ok (gt_store s) \<and> distinct (map tt_key (gt_tasks s)) \<and> (\<forall>t \<in> set (gt_tasks s). taskRight (gt_store s) t) \<and>
     callsRight (gt_tasks s) (gt_calls s) \<and> flightsRight (gt_tasks s) (gt_inFlight s))"

lemma toolRight_new: "ok store \<Longrightarrow> toolRight (newGuardedTool store)"
  by (simp add: toolRight_def newGuardedTool_def callsRight_def flightsRight_def)

lemma toolRight_cong:
  "gt_store s' = gt_store s \<Longrightarrow> gt_tasks s' = gt_tasks s \<Longrightarrow> gt_calls s' = gt_calls s \<Longrightarrow> gt_inFlight s' = gt_inFlight s \<Longrightarrow>
   toolRight s \<Longrightarrow> toolRight s'"
  by (simp add: toolRight_def)

lemma toolRight_check: "toolRight s \<Longrightarrow> toolRight (snd (toolCheck tenantId resource reply s))"
  by (erule toolRight_cong [rotated -1])
    (auto simp: toolCheck_def Let_def split: sum.splits option.splits callback_reply.splits)

lemma toolRight_revalidate: "toolRight s \<Longrightarrow> toolRight (snd (toolRevalidate input reply s))"
  by (erule toolRight_cong [rotated -1]) (auto simp: toolRevalidate_def Let_def split: sum.splits prod.splits)

lemma toolRight_act:
  assumes "toolRight s"
  shows "toolRight (snd (toolAct claim fmt input action key s))"
proof -
  obtain x s' where run: "toolAct claim fmt input action key s = (x, s')" by (metis surj_pair)
  have ok: "ok (gt_store s)" using assms by (simp add: toolRight_def)
  from run show ?thesis
  proof (cases rule: toolAct_cases)
    case same
    with assms run show ?thesis by simp
  next
    case (refused k f c store)
    from claim_spec [OF ok refused(1)] refused(2) have "ok store" "entryOf store = entryOf (gt_store s)" by auto
    with assms run refused(3) show ?thesis by (simp add: toolRight_def taskRight_def)
  next
    case (started call k f store)
    from claim_spec [OF ok started(3)] have new: "ok store" "entryOf (gt_store s) k = None"
      "entryOf store = (entryOf (gt_store s))(k \<mapsto> (f, None))" by auto
    have fresh: "tt_key t \<noteq> k" if "t \<in> set (gt_tasks s)" for t
      using that assms new(2) by (auto simp: toolRight_def taskRight_def)
    define t where "t = \<lparr>tt_key = k, tt_fingerprint = f, tt_call = call, tt_phase = TaskQueued, tt_aborted = False,
      tt_result = None :: 'r tool_result option\<rparr>"
    have R: "distinct (map tt_key (gt_tasks s))" "\<And>u. u \<in> set (gt_tasks s) \<Longrightarrow> taskRight (gt_store s) u"
      "callsRight (gt_tasks s) (gt_calls s)" "flightsRight (gt_tasks s) (gt_inFlight s)"
      using assms by (simp_all add: toolRight_def)
    have "taskRight store u" if "u \<in> set (gt_tasks s @ [t])" for u
      using that fresh R(2) new(3) actRequest_key [OF started(1)] by (auto simp: taskRight_def t_def)
    moreover have "k \<notin> tt_key ` set (gt_tasks s)" using fresh by auto
    then have "distinct (map tt_key (gt_tasks s @ [t]))" using R(1) by (simp add: t_def)
    moreover have "callsRight (gt_tasks s @ [t]) (gt_calls s)"
      using R(3) by (simp add: callsRight_def t_def)
    moreover have "flightsRight (gt_tasks s @ [t]) (omap_set k (f, length (gt_tasks s)) (gt_inFlight s))"
      using R(4) unfolding flightsRight_def by (auto simp: nth_append t_def less_SucI)
    ultimately have "toolRight s'" using new(1) unfolding started(5) t_def [symmetric] by (simp add: toolRight_def)
    then show ?thesis using run by simp
  qed
qed

lemma callsRight_update:
  assumes "callsRight ts calls" and "p < length ts" and "tt_call t = tt_call (ts ! p)"
    and "tt_phase t \<noteq> TaskQueued" and "tt_phase (ts ! p) \<noteq> TaskQueued"
  shows "callsRight (ts[p := t]) calls"
proof -
  obtain us vs where split: "ts = us @ ts ! p # vs" "ts[p := t] = us @ t # vs" using list_split_at [OF assms(2)] by metis
  have "set (map tt_call (filter (\<lambda>t. tt_phase t \<noteq> TaskQueued) (us @ ts ! p # vs))) =
      set (map tt_call (filter (\<lambda>t. tt_phase t \<noteq> TaskQueued) (us @ t # vs)))"
    using assms(3-5) by simp
  with assms(1) show ?thesis unfolding callsRight_def split(1) [symmetric] split(2) by simp
qed

lemma keys_update: "p < length ts \<Longrightarrow> tt_key t = tt_key (ts ! p) \<Longrightarrow> map tt_key (ts[p := t]) = map tt_key ts"
  by (metis list_update_id map_update nth_map)

lemma flightsRight_update:
  assumes "flightsRight ts flights" and "p < length ts" and "tt_key t = tt_key (ts ! p)" and "tt_fingerprint t = tt_fingerprint (ts ! p)"
  shows "flightsRight (ts[p := t]) flights"
  using assms unfolding flightsRight_def by (metis length_list_update nth_list_update nth_list_update_neq)

lemma other_tasks:
  assumes "distinct (map tt_key ts)" and "p < length ts" and "u \<in> set ts" and "u \<noteq> ts ! p"
  shows "tt_key u \<noteq> tt_key (ts ! p)"
  using assms by (metis distinct_map inj_onD nth_mem)

lemma other_keys:
  assumes "distinct (map tt_key ts)" and "p < length ts" and "q < length ts" and "p \<noteq> q"
  shows "tt_key (ts ! q) \<noteq> tt_key (ts ! p)"
  using assms by (metis length_map nth_eq_iff_index_eq nth_map)

lemma toolRight_run:
  assumes "toolRight s"
  shows "toolRight (runTask p s)"
proof (cases "p < length (gt_tasks s) \<and> tt_phase (gt_tasks s ! p) = TaskQueued")
  case True
  define ts t where "ts = gt_tasks s" and "t = ts ! p"
  have p: "p < length ts" "t \<in> set ts" "tt_phase t = TaskQueued" using True by (auto simp: ts_def t_def)
  have R: "distinct (map tt_key ts)" "\<And>u. u \<in> set ts \<Longrightarrow> taskRight (gt_store s) u" "callsRight ts (gt_calls s)" "flightsRight ts (gt_inFlight s)"
    using assms by (simp_all add: toolRight_def ts_def)
  have only: "tt_call u \<noteq> tt_call t" if "u \<in> set ts" "u \<noteq> t" for u
    using other_tasks [OF R(1) p(1) that [unfolded t_def]] R(2) [OF that(1)] R(2) [OF p(2)]
    by (auto simp: taskRight_def t_def)
  let ?t = "t\<lparr>tt_phase := TaskRunning\<rparr>"
  obtain us vs where at_p: "ts = us @ t # vs" "ts[p := ?t] = us @ ?t # vs" using list_split_at [OF p(1)] t_def by metis
  have split: "set ts = insert t (set us \<union> set vs)" and upd: "set (ts[p := ?t]) = insert ?t (set us \<union> set vs)"
    using arg_cong [OF at_p(1), of set] unfolding at_p(2) by simp_all
  have new: "tt_call t \<notin> set (gt_calls s)"
    using R(3) only p(3) unfolding callsRight_def by fastforce
  have "callsRight (ts[p := ?t]) (gt_calls s @ [tt_call t])"
    using R(3) new p(3) arg_cong [OF at_p(1), of "filter (\<lambda>t. tt_phase t \<noteq> TaskQueued)"] unfolding callsRight_def at_p(2) by simp
  moreover have "taskRight (gt_store s) u" if "u \<in> set (ts[p := ?t])" for u
    using that R(2) R(2) [OF p(2)] p(3) unfolding upd split by (auto simp: taskRight_def)
  moreover have "flightsRight (ts[p := ?t]) (gt_inFlight s)" using flightsRight_update [OF R(4) p(1)] by (simp add: t_def)
  moreover have "map tt_key (ts[p := ?t]) = map tt_key ts" using keys_update [OF p(1)] by (simp add: t_def)
  ultimately have "toolRight (s\<lparr>gt_tasks := ts[p := ?t], gt_calls := gt_calls s @ [tt_call t]\<rparr>)"
    using assms R(1) by (simp add: toolRight_def)
  then show ?thesis using True by (simp add: runTask_def ts_def t_def)
qed (use assms in \<open>auto simp: runTask_def\<close>)

lemma toolRight_settle:
  assumes "toolRight s"
  shows "toolRight (settleTask complete' p settlement s)"
proof (cases "p < length (gt_tasks s) \<and> tt_phase (gt_tasks s ! p) = TaskRunning")
  case True
  define ts t where "ts = gt_tasks s" and "t = ts ! p"
  define response where "response = actionResult (tt_call t) settlement"
  have p: "p < length ts" "t \<in> set ts" "tt_phase t = TaskRunning" using True by (auto simp: ts_def t_def)
  have R: "ok (gt_store s)" "distinct (map tt_key ts)" "\<And>u. u \<in> set ts \<Longrightarrow> taskRight (gt_store s) u" "callsRight ts (gt_calls s)"
    "flightsRight ts (gt_inFlight s)"
    using assms by (simp_all add: toolRight_def ts_def)
  have "entryOf (gt_store s) (tt_key t) = Some (tt_fingerprint t, None)" using R(3) [OF p(2)] p(3) by (simp add: taskRight_def)
  from complete_spec [OF R(1) this, of response] obtain store where
    store: "complete' (tt_key t) (tt_fingerprint t) response (gt_store s) = (Inr (), store)" "ok store"
      "entryOf store = (entryOf (gt_store s))(tt_key t \<mapsto> (tt_fingerprint t, Some response))" by blast
  let ?t = "t\<lparr>tt_phase := TaskFinished, tt_aborted := settlement = ActTimedOut, tt_result := Some response\<rparr>"
  have "taskRight store u" if u: "u \<in> set (ts[p := ?t])" for u
  proof -
    obtain q where q: "q < length ts" "u = ts[p := ?t] ! q" using u by (auto simp: in_set_conv_nth)
    show ?thesis
    proof (cases "q = p")
      case True
      then show ?thesis using q R(3) [OF p(2)] store(3) by (simp add: taskRight_def)
    next
      case False
      then have "u = ts ! q" using q by simp
      moreover have "tt_key (ts ! q) \<noteq> tt_key t" unfolding t_def using other_keys [OF R(2) p(1) q(1)] False by simp
      ultimately show ?thesis using R(3) [of u] q(1) store(3) by (simp add: taskRight_def)
    qed
  qed
  moreover have "callsRight (ts[p := ?t]) (gt_calls s)" using callsRight_update [OF R(4) p(1)] p(3) by (simp add: t_def)
  moreover have "flightsRight (ts[p := ?t]) (gt_inFlight s)" using flightsRight_update [OF R(5) p(1)] by (simp add: t_def)
  moreover have "map tt_key (ts[p := ?t]) = map tt_key ts" using keys_update [OF p(1)] by (simp add: t_def)
  ultimately have "toolRight (s\<lparr>gt_store := store, gt_tasks := ts[p := ?t]\<rparr>)" using R(2) store(2) by (simp add: toolRight_def)
  then show ?thesis using True store(1) by (simp add: settleTask_def Let_def ts_def t_def response_def)
qed (use assms in \<open>auto simp: settleTask_def\<close>)

lemma toolRight_clean:
  assumes "toolRight s"
  shows "toolRight (cleanTask p s)"
proof (cases "p < length (gt_tasks s) \<and> tt_phase (gt_tasks s ! p) = TaskFinished")
  case True
  define ts t where "ts = gt_tasks s" and "t = ts ! p"
  have p: "p < length ts" "t \<in> set ts" "tt_phase t = TaskFinished" using True by (auto simp: ts_def t_def)
  have R: "ok (gt_store s)" "distinct (map tt_key ts)" "\<And>u. u \<in> set ts \<Longrightarrow> taskRight (gt_store s) u" "callsRight ts (gt_calls s)"
    "flightsRight ts (gt_inFlight s)"
    using assms by (simp_all add: toolRight_def ts_def)
  let ?t = "t\<lparr>tt_phase := TaskCleaned\<rparr>"
  have "taskRight (gt_store s) u" if "u \<in> set (ts[p := ?t])" for u
    using set_update_subset_insert [of ts p ?t] that R(3) R(3) [OF p(2)] p(3) by (auto simp: taskRight_def)
  moreover have "callsRight (ts[p := ?t]) (gt_calls s)" using callsRight_update [OF R(4) p(1)] p(3) by (simp add: t_def)
  moreover have flights: "flightsRight (ts[p := ?t]) (gt_inFlight s)" using flightsRight_update [OF R(5) p(1)] by (simp add: t_def)
  moreover have "flightsRight (ts[p := ?t]) (omap_delete k (gt_inFlight s))" for k using flights by (simp add: flightsRight_def)
  moreover have "map tt_key (ts[p := ?t]) = map tt_key ts" using keys_update [OF p(1)] by (simp add: t_def)
  ultimately have "toolRight (s\<lparr>gt_tasks := ts[p := ?t]\<rparr>)"
    "toolRight (s\<lparr>gt_tasks := ts[p := ?t], gt_inFlight := omap_delete k (gt_inFlight s)\<rparr>)" for k
    using R by (simp_all add: toolRight_def)
  then show ?thesis using True by (auto simp: cleanTask_def Let_def ts_def t_def split: option.splits)
qed (use assms in \<open>auto simp: cleanTask_def\<close>)

lemma toolRight_steps: "toolRight s \<Longrightarrow> toolRight (fold (toolStep claim complete' fmt) es s)"
proof (induction es arbitrary: s)
  case (Cons e es)
  have "toolRight (toolStep claim complete' fmt e s)"
    using Cons.prems toolRight_check toolRight_revalidate toolRight_act toolRight_run toolRight_settle toolRight_clean
    by (cases e) simp_all
  with Cons.IH show ?case by simp
qed simp

text \<open>One call of the callback for a tenant and a key, whatever the order of events.\<close>

lemma calls_unique:
  assumes "toolRight s"
  shows "distinct (map (\<lambda>c. (tl_tenantId c, tl_idempotencyKey c)) (gt_calls s))"
proof -
  have R: "distinct (map tt_key (gt_tasks s))" "\<And>t. t \<in> set (gt_tasks s) \<Longrightarrow> taskRight (gt_store s) t" "callsRight (gt_tasks s) (gt_calls s)"
    using assms by (simp_all add: toolRight_def)
  have "c = d" if "c \<in> set (gt_calls s)" "d \<in> set (gt_calls s)"
    "tl_tenantId c = tl_tenantId d" "tl_idempotencyKey c = tl_idempotencyKey d" for c d
  proof -
    from that(1,2) R(3) obtain t u where t: "t \<in> set (gt_tasks s)" "c = tt_call t" and u: "u \<in> set (gt_tasks s)" "d = tt_call u"
      by (auto simp: callsRight_def)
    with that(3,4) R(2) [OF t(1)] R(2) [OF u(1)] have "tt_key t = tt_key u" by (simp add: taskRight_def)
    with t u R(1) show ?thesis by (metis distinct_map inj_onD)
  qed
  then show ?thesis using R(3) by (auto simp: callsRight_def distinct_map inj_on_def)
qed

text \<open>A settled key replays: its promise, what the promise settled with, or a conflict.\<close>

lemma settled_replays:
  assumes "toolRight s" and "p < length (gt_tasks s)" and "tt_result (gt_tasks s ! p) = Some r"
    and "actRequest fmt input action key s = Inr (call, tt_key (gt_tasks s ! p), f)" and "nonBlank f"
    and "toolAct claim fmt input action key s = (x, s')"
  shows "gt_tasks s' = gt_tasks s \<and>
    (if f = tt_fingerprint (gt_tasks s ! p) then x = Inr (ActPromise p) \<or> x = Inr (ActSettled r)
     else x = Inr (ActSettled (refusedAct ActRejected (tl_tenantId call) (tl_resource call) (Some (tl_expectedVersion call)) ''IDEMPOTENCY_CONFLICT'')))"
proof -
  define t where "t = gt_tasks s ! p"
  have R: "ok (gt_store s)" "distinct (map tt_key (gt_tasks s))" "taskRight (gt_store s) t" "flightsRight (gt_tasks s) (gt_inFlight s)"
    using assms(1,2) by (simp_all add: toolRight_def t_def)
  note run = assms(6) [unfolded toolAct_def assms(4) [folded t_def] sum.case prod.case Let_def]
  show ?thesis
  proof (cases "map_of (gt_inFlight s) (tt_key t)")
    case (Some gq)
    obtain g q where gq: "gq = (g, q)" by (cases gq)
    have "q < length (gt_tasks s)" "tt_key (gt_tasks s ! q) = tt_key t" "tt_fingerprint (gt_tasks s ! q) = g"
      using R(4) Some gq by (auto simp: flightsRight_def)
    then have "q = p" "g = tt_fingerprint t" using other_keys [OF R(2) assms(2)] t_def by metis+
    with run Some gq show ?thesis by (auto simp: t_def)
  next
    case None
    have "entryOf (gt_store s) (tt_key t) = Some (tt_fingerprint t, Some r)" using R(3) assms(3) by (simp add: taskRight_def t_def)
    from claim_entry [OF R(1) this assms(5)] obtain store where
      "claim (tt_key t) f (gt_store s) = (Inr (if f = tt_fingerprint t then ClaimCompleted r else ClaimConflict), store)"
      by (metis option.simps(5) prod.collapse replayClaim_def)
    with run None show ?thesis by (auto simp: t_def)
  qed
qed

end

section \<open>The bounded store keeps the promise\<close>

definition entryView :: "'r idempotency_store \<Rightarrow> string \<Rightarrow> (string \<times> 'r tool_result option) option" where
  "entryView s k = map_option (\<lambda>e. (ie_fingerprint e, ie_result e)) (map_of (is_entries s) k)"

definition storeRight :: "'r idempotency_store \<Rightarrow> bool" where
  "storeRight s = (int (length (is_entries s)) \<le> is_maxEntries s \<and> (\<forall>k e. map_of (is_entries s) k = Some e \<longrightarrow>
     nonBlank k \<and> (ie_state e = IdemPending \<longleftrightarrow> ie_result e = None)))"

interpretation bounded_memory: idempotency_memory claimKey completeKey entryView storeRight
proof unfold_locales
  fix s s' :: "'r idempotency_store" and k f x
  assume "storeRight s" and "claimKey k f s = (x, s')"
  then show "storeRight s' \<and> (if x = Inr ClaimNew then entryView s k = None \<and> entryView s' = (entryView s)(k \<mapsto> (f, None))
      else entryView s' = entryView s)"
    by (auto simp: claimKey_def storeRight_def entryView_def fun_eq_iff length_omap_set split: if_splits option.splits)
next
  fix s :: "'r idempotency_store" and k f v g
  assume "storeRight s" and "entryView s k = Some (f, v)" and "nonBlank g"
  then show "fst (claimKey k g s) = Inr (if g = f then replayClaim v else ClaimConflict)"
    by (auto simp: claimKey_def storeRight_def entryView_def replayClaim_def split: option.splits)
next
  fix s :: "'r idempotency_store" and k f r
  assume "storeRight s" and "entryView s k = Some (f, None)"
  then show "\<exists>s'. completeKey k f r s = (Inr (), s') \<and> storeRight s' \<and> entryView s' = (entryView s)(k \<mapsto> (f, Some r))"
    by (auto simp: completeKey_def storeRight_def entryView_def fun_eq_iff length_omap_set split: option.splits)
qed

lemma newIdempotencyStore_right: "newIdempotencyStore m = Inr store \<Longrightarrow> storeRight store"
  by (auto simp: newIdempotencyStore_def Let_def storeRight_def split: if_splits)

definition boundedRun :: "(rat \<Rightarrow> string) \<Rightarrow> 'r tool_step list \<Rightarrow> 'r idempotency_store \<Rightarrow> ('r, 'r idempotency_store) guarded_tool" where
  "boundedRun fmt steps store = fold (toolStep claimKey completeKey fmt) steps (newGuardedTool store)"

lemma boundedRun_right: "newIdempotencyStore m = Inr store \<Longrightarrow> bounded_memory.toolRight (boundedRun fmt steps store)"
  unfolding boundedRun_def
  by (rule bounded_memory.toolRight_steps [OF bounded_memory.toolRight_new [OF newIdempotencyStore_right]])

lemma dropWhile_keeps: "c \<in> set xs \<Longrightarrow> \<not> P c \<Longrightarrow> c \<in> set (dropWhile P xs)"
  by (induction xs) auto

lemma nonBlank_member: "c \<in> set xs \<Longrightarrow> \<not> js_space c \<Longrightarrow> nonBlank xs"
  using dropWhile_keeps [of c xs js_space] dropWhile_keeps [of c "rev (dropWhile js_space xs)" js_space]
  by (auto simp: nonBlank_def trim_def)

text \<open>A fingerprint has a NUL character in it, which is no white space.\<close>

lemma actRequest_fingerprint: "actRequest fmt input action key s = Inr (call, k, f) \<Longrightarrow> nonBlank f"
  by (rule nonBlank_member [of "CHR 0x00"])
    (auto simp: actRequest_def Let_def actFingerprint_def js_space_def split: prod.splits option.splits if_splits sum.splits)

section \<open>At most one side effect\<close>

text \<open>
  C19: With the bounded store, whatever checks, revalidations, actions, answers, failures and timeouts
  come in whatever order, the callback with the side effect is called at most once for a tenant and an
  idempotency key, and never more often than the store may hold entries.
\<close>

theorem act_at_most_once:
  assumes "newIdempotencyStore m = Inr store" and "s = boundedRun fmt steps store"
  shows "distinct (map (\<lambda>c. (tl_tenantId c, tl_idempotencyKey c)) (gt_calls s)) \<and>
    int (length (gt_calls s)) \<le> is_maxEntries (gt_store s)"
proof
  have R: "bounded_memory.toolRight s" unfolding assms(2) by (rule boundedRun_right [OF assms(1)])
  show calls: "distinct (map (\<lambda>c. (tl_tenantId c, tl_idempotencyKey c)) (gt_calls s))" by (rule bounded_memory.calls_unique [OF R])
  let ?key = "\<lambda>c. actKey (tl_tenantId c) (tl_idempotencyKey c)"
  have T: "storeRight (gt_store s)" "distinct (gt_calls s)" "distinct (map tt_key (gt_tasks s))"
    "\<And>t. t \<in> set (gt_tasks s) \<Longrightarrow> bounded_memory.taskRight (gt_store s) t"
    "set (gt_calls s) \<subseteq> tt_call ` set (gt_tasks s)"
    using R by (auto simp: bounded_memory.toolRight_def bounded_memory.callsRight_def)
  have "length (gt_calls s) = card (set (gt_calls s))" using T(2) by (simp add: distinct_card)
  also have "\<dots> \<le> card (set (gt_tasks s))" using T(5) by (rule surj_card_le [OF finite_set])
  also have "\<dots> \<le> length (gt_tasks s)" by (rule card_length)
  also have "\<dots> = card (tt_key ` set (gt_tasks s))" using T(3) by (metis distinct_card length_map set_map)
  also have "\<dots> \<le> card (fst ` set (is_entries (gt_store s)))"
  proof (rule card_mono)
    show "tt_key ` set (gt_tasks s) \<subseteq> fst ` set (is_entries (gt_store s))"
    proof (rule image_subsetI)
      fix t assume "t \<in> set (gt_tasks s)"
      from T(4) [OF this] have "map_of (is_entries (gt_store s)) (tt_key t) \<noteq> None"
        by (auto simp: bounded_memory.taskRight_def entryView_def)
      then show "tt_key t \<in> fst ` set (is_entries (gt_store s))" by (simp add: map_of_eq_None_iff)
    qed
  qed simp
  also have "\<dots> \<le> length (is_entries (gt_store s))" using card_length [of "map fst (is_entries (gt_store s))"] by simp
  finally show "int (length (gt_calls s)) \<le> is_maxEntries (gt_store s)" using T(1) by (simp add: storeRight_def)
qed

section \<open>No side effect without a proof\<close>

definition proofIn :: "'r tool_step list \<Rightarrow> string \<Rightarrow> string \<Rightarrow> version_reference \<Rightarrow> bool" where
  "proofIn steps tenantId resource v = (validVersion v \<and> (\<exists>input r. StepRevalidate input (CallbackReply r) \<in> set steps \<and>
     tv_tenantId r = tenantId \<and> tv_resource r = resource \<and> tv_outcome r = Some OutcomeFresh \<and> tv_observedVersion r = Some v))"

definition provenTool :: "'r tool_step list \<Rightarrow> ('r, 'st) guarded_tool \<Rightarrow> bool" where
  "provenTool steps s =
     ((\<forall>obj pf. map_of (gt_ready s) obj = Some pf \<longrightarrow> proofIn steps (pf_tenantId pf) (pf_resource pf) (pf_version pf)) \<and>
      (\<forall>c \<in> tt_call ` set (gt_tasks s) \<union> set (gt_calls s). proofIn steps (tl_tenantId c) (tl_resource c) (tl_expectedVersion c)))"

lemma proofIn_more: "proofIn steps t r v \<Longrightarrow> proofIn (steps @ later) t r v"
  by (auto simp: proofIn_def)

lemma provenTool_more: "provenTool steps s \<Longrightarrow> provenTool (steps @ later) s"
  by (auto simp: provenTool_def intro: proofIn_more)

lemma provenTool_cong:
  "provenTool steps s \<Longrightarrow> gt_ready s' = gt_ready s \<Longrightarrow> tt_call ` set (gt_tasks s') \<subseteq> tt_call ` set (gt_tasks s) \<Longrightarrow>
   set (gt_calls s') \<subseteq> tt_call ` set (gt_tasks s) \<union> set (gt_calls s) \<Longrightarrow> provenTool steps s'"
  by (fastforce simp: provenTool_def)

lemma calls_update: "p < length ts \<Longrightarrow> tt_call t = tt_call (ts ! p) \<Longrightarrow> tt_call ` set (ts[p := t]) \<subseteq> tt_call ` set ts"
  using set_update_subset_insert [of ts p t] by (auto simp: image_iff) (metis nth_mem insertE subsetD)

lemma revalidationAnswer_fresh:
  "revalidationAnswer q reply = Inr v \<Longrightarrow> \<exists>r. reply = CallbackReply r \<and> tv_tenantId r = tq_tenantId q \<and> tv_resource r = tq_resource q \<and>
     tv_outcome r = Some OutcomeFresh \<and> tv_observedVersion r = Some v \<and> validVersion v"
  by (auto simp: revalidationAnswer_def split: callback_reply.splits if_splits option.splits)

lemma revalidationRequest_resource:
  "revalidationRequest input s = Inr q \<Longrightarrow>
     nullish (resourceFrom (tk_tenantId input) (tk_resource input)) ([], []) = (tq_tenantId q, tq_resource q)"
  by (auto simp: revalidationRequest_def Let_def split: option.splits prod.splits if_splits)

lemma proven_revalidate:
  assumes "provenTool steps s"
  shows "provenTool (steps @ [StepRevalidate input reply]) (snd (toolRevalidate input reply s))"
proof (cases "revalidationRequest input s")
  case (Inl e)
  then show ?thesis using provenTool_more [OF assms] by (auto simp: toolRevalidate_def Let_def split: prod.splits)
next
  case (Inr q)
  show ?thesis
  proof (cases "revalidationAnswer q reply")
    case (Inl e)
    with Inr show ?thesis using provenTool_more [OF assms] by (auto simp: toolRevalidate_def Let_def split: prod.splits)
  next
    case (Inr v)
    have "proofIn (steps @ [StepRevalidate input reply]) (tq_tenantId q) (tq_resource q) v"
      using revalidationAnswer_fresh [OF Inr] by (auto simp: proofIn_def)
    then show ?thesis
      using \<open>revalidationRequest input s = Inr q\<close> Inr revalidationRequest_resource [OF \<open>revalidationRequest input s = Inr q\<close>]
        provenTool_more [OF assms, of "[StepRevalidate input reply]"]
      by (auto simp: toolRevalidate_def Let_def provenTool_def)
  qed
qed

lemma actRequest_proven:
  "actRequest fmt input action key s = Inr (call, k, f) \<Longrightarrow> \<exists>pf. map_of (gt_ready s) (ty_object input) = Some pf \<and>
     tl_tenantId call = pf_tenantId pf \<and> tl_resource call = pf_resource pf \<and> tl_expectedVersion call = pf_version pf"
  by (auto simp: actRequest_def Let_def split: prod.splits option.splits if_splits sum.splits)

lemma proven_act:
  assumes "provenTool steps s"
  shows "provenTool steps (snd (toolAct claim fmt input action key s))"
proof -
  obtain x s' where run: "toolAct claim fmt input action key s = (x, s')" by (metis surj_pair)
  from run have "provenTool steps s'"
  proof (cases rule: toolAct_cases)
    case (started call k f store)
    from actRequest_proven [OF started(1)] assms
    have "proofIn steps (tl_tenantId call) (tl_resource call) (tl_expectedVersion call)" by (auto simp: provenTool_def)
    with assms show ?thesis unfolding started(5) by (simp add: provenTool_def)
  qed (use assms in \<open>auto simp: provenTool_def\<close>)
  then show ?thesis using run by simp
qed

lemma proven_step:
  assumes "provenTool steps s"
  shows "provenTool (steps @ [e]) (toolStep claim complete' fmt e s)"
proof (cases e)
  case (StepCheck tenantId resource reply)
  have "provenTool steps (snd (toolCheck tenantId resource reply s))"
    by (rule provenTool_cong [OF assms])
      (auto simp: toolCheck_def Let_def split: sum.splits option.splits callback_reply.splits)
  then show ?thesis using StepCheck provenTool_more by simp
next
  case (StepRevalidate input reply)
  then show ?thesis using proven_revalidate [OF assms] by simp
next
  case (StepAct input action key)
  then show ?thesis using provenTool_more [OF proven_act [OF assms]] by simp
next
  case (StepRun p)
  have "provenTool steps (runTask p s)"
  proof (cases "p < length (gt_tasks s) \<and> tt_phase (gt_tasks s ! p) = TaskQueued")
    case True
    then show ?thesis
      by (intro provenTool_cong [OF assms]) (simp_all add: runTask_def calls_update)
  qed (use assms in \<open>auto simp: runTask_def\<close>)
  then show ?thesis using StepRun provenTool_more by simp
next
  case (StepSettle p settlement)
  have "provenTool steps (settleTask complete' p settlement s)"
  proof (cases "p < length (gt_tasks s) \<and> tt_phase (gt_tasks s ! p) = TaskRunning")
    case True
    then show ?thesis
      by (intro provenTool_cong [OF assms]) (simp_all add: settleTask_def Let_def calls_update split: prod.splits)
  qed (use assms in \<open>auto simp: settleTask_def\<close>)
  then show ?thesis using StepSettle provenTool_more by simp
next
  case (StepClean p)
  have "provenTool steps (cleanTask p s)"
  proof (cases "p < length (gt_tasks s) \<and> tt_phase (gt_tasks s ! p) = TaskFinished")
    case True
    then show ?thesis
      by (intro provenTool_cong [OF assms]) (simp_all add: cleanTask_def Let_def calls_update split: option.splits)
  qed (use assms in \<open>auto simp: cleanTask_def\<close>)
  then show ?thesis using StepClean provenTool_more by simp
qed

lemma proven_run: "provenTool steps (fold (toolStep claim complete' fmt) steps (newGuardedTool store))"
proof (induction steps rule: rev_induct)
  case Nil
  show ?case by (simp add: provenTool_def newGuardedTool_def)
next
  case (snoc e steps)
  then show ?case using proven_step by simp
qed

text \<open>
  C20: Whatever the idempotency store does, the callback with the side effect is only ever called for a
  tenant, a resource and a version that the revalidation callback itself answered FRESH for before.
\<close>

theorem act_needs_proof:
  assumes "call \<in> set (gt_calls (fold (toolStep claim complete' fmt) steps (newGuardedTool store)))"
  shows "validVersion (tl_expectedVersion call) \<and> (\<exists>input r. StepRevalidate input (CallbackReply r) \<in> set steps \<and>
    tv_tenantId r = tl_tenantId call \<and> tv_resource r = tl_resource call \<and> tv_outcome r = Some OutcomeFresh \<and>
    tv_observedVersion r = Some (tl_expectedVersion call))"
  using proven_run [of steps claim complete' fmt store] assms unfolding provenTool_def proofIn_def by blast

text \<open>
  Once an action has settled, acting again with its tenant and key starts nothing: it gives the
  promise or the result of the first time when resource, version and action are the same, and is
  rejected as a conflict when they are not.
\<close>

theorem settled_act_replays:
  assumes "newIdempotencyStore m = Inr store" and "s = boundedRun fmt steps store"
    and "p < length (gt_tasks s)" and "tt_result (gt_tasks s ! p) = Some r"
    and "actRequest fmt input action key s = Inr (call, tt_key (gt_tasks s ! p), f)"
    and "toolAct claimKey fmt input action key s = (x, s')"
  shows "gt_tasks s' = gt_tasks s \<and>
    (if f = tt_fingerprint (gt_tasks s ! p) then x = Inr (ActPromise p) \<or> x = Inr (ActSettled r)
     else x = Inr (ActSettled (refusedAct ActRejected (tl_tenantId call) (tl_resource call) (Some (tl_expectedVersion call)) ''IDEMPOTENCY_CONFLICT'')))"
proof (rule bounded_memory.settled_replays [OF _ assms(3-5) _ assms(6)])
  show "bounded_memory.toolRight s" unfolding assms(2) by (rule boundedRun_right [OF assms(1)])
  show "nonBlank f" using assms(5) by (rule actRequest_fingerprint)
qed

section \<open>A tool at work\<close>

definition toolVersion :: version_reference where
  "toolVersion = \<lparr>vr_scheme = ''git'', vr_token = ''7''\<rparr>"

definition toolReady :: tool_ready where
  "toolReady = \<lparr>ty_object = 1, ty_tenantId = ''t'', ty_resource = ''r'', ty_version = Some toolVersion\<rparr>"

definition toolApplied :: "nat tool_response" where
  "toolApplied = \<lparr>ta_tenantId = ''t'', ta_resource = ''r'', ta_outcome = Some ActApplied, ta_observedVersion = None,
     ta_result = Some 5, ta_reason = None\<rparr>"

definition toolSteps :: "nat tool_step list" where
  "toolSteps =
     [StepCheck ''t'' ''r'' (CallbackReply \<lparr>tc_tenantId = ''t'', tc_resource = ''r'', tc_state = Some ToolStale,
        tc_version = Some toolVersion, tc_reason = None\<rparr>),
      StepRevalidate \<lparr>tk_object = 0, tk_tenantId = ''t'', tk_resource = ''r'', tk_state = ToolStale, tk_version = Some toolVersion, tk_reason = None\<rparr>
        (CallbackReply \<lparr>tv_tenantId = ''t'', tv_resource = ''r'', tv_outcome = Some OutcomeFresh, tv_observedVersion = Some toolVersion, tv_reason = None\<rparr>),
      StepAct toolReady JNull ''k'', StepAct toolReady JNull ''k'', StepRun 0, StepAct toolReady JNull ''k'',
      StepSettle 0 (ActReplied (CallbackReply toolApplied)), StepClean 0, StepAct toolReady JNull ''k'', StepRun 1]"

definition toolStore :: "nat idempotency_store" where
  "toolStore = projr (newIdempotencyStore None)"

definition toolAfter :: "(nat, nat idempotency_store) guarded_tool" where
  "toolAfter = boundedRun (\<lambda>q. []) toolSteps toolStore"

definition toolCall :: tool_call where
  "toolCall = \<lparr>tl_tenantId = ''t'', tl_resource = ''r'', tl_expectedVersion = toolVersion, tl_idempotencyKey = ''k'', tl_action = JNull\<rparr>"

lemma toolStore_new: "newIdempotencyStore None = Inr toolStore"
  by (simp add: toolStore_def newIdempotencyStore_def MAX_SAFE_INTEGER_def)

lemma tool_calls: "gt_calls toolAfter = [toolCall]"
  by code_simp

theorem act_at_most_once_witness: "length (gt_calls toolAfter) = 1 \<and> 1 \<le> is_maxEntries (gt_store toolAfter)"
  using act_at_most_once [OF toolStore_new, of toolAfter "\<lambda>q. []" toolSteps] by (simp add: toolAfter_def [symmetric] tool_calls)

theorem act_needs_proof_witness:
  "\<exists>input r. StepRevalidate input (CallbackReply r) \<in> set toolSteps \<and> tv_outcome r = Some OutcomeFresh \<and> tv_observedVersion r = Some toolVersion"
proof -
  have "toolCall \<in> set (gt_calls (fold (toolStep claimKey completeKey (\<lambda>q. [])) toolSteps (newGuardedTool toolStore)))"
    using tool_calls by (simp add: toolAfter_def boundedRun_def)
  from act_needs_proof [OF this] show ?thesis by (auto simp: toolCall_def)
qed

definition toolResult :: "nat tool_result" where
  "toolResult = actionResult toolCall (ActReplied (CallbackReply toolApplied))"

lemma tool_task: "length (gt_tasks toolAfter) = 1" "tt_result (gt_tasks toolAfter ! 0) = Some toolResult"
  "actRequest (\<lambda>q. []) toolReady JNull ''k'' toolAfter = Inr (toolCall, tt_key (gt_tasks toolAfter ! 0), tt_fingerprint (gt_tasks toolAfter ! 0))"
  by code_simp+

theorem settled_act_replays_witness:
  "fst (toolAct claimKey (\<lambda>q. []) toolReady JNull ''k'' toolAfter) \<in> {Inr (ActPromise 0), Inr (ActSettled toolResult)}"
  using settled_act_replays [OF toolStore_new toolAfter_def, of 0 toolResult toolReady JNull "''k''" toolCall _ _ "snd (toolAct claimKey (\<lambda>q. []) toolReady JNull ''k'' toolAfter)",
      OF _ tool_task(2,3) prod.collapse [symmetric]] tool_task(1) by simp

text \<open>
  Tenant and key are joined by a NUL character, which both may contain: two pairs can share a key, and
  then one tenant's action is answered with the other's.
\<close>

lemma act_key_ambiguous: "actKey ''a'' ([CHR ''b'', CHR 0x00, CHR ''c'']) = actKey [CHR ''a'', CHR 0x00, CHR ''b''] ''c''"
  by (simp add: actKey_def)

end
