(* ===== verification/Fenced_Flight.thy ===== *)
theory Fenced_Flight
  imports Runtime_Store
begin

text \<open>
  \<open>packages/runtime-core/src/fenced-single-flight.ts\<close>: one validation per complete scope at a time,
  with answers for older resource versions fenced off. The source, timers and abort signals are code
  of the caller: an answer, an expiry or an abort is a step of its own. A promise is the number of its
  flight; the parts of \<open>validate\<close> that run later (the microtask that calls the source, the handler of
  its answer, the \<open>finally\<close> handler) are steps of the flight. \<open>sha\<close> is SHA-256.
\<close>

section \<open>Messages\<close>

datatype fenced_result = ResultUnchanged | ResultChanged | ResultMissing | ResultUnknown
datatype unknown_reason = ReasonTimeout | ReasonAborted | ReasonFenced | ReasonSourceUnknown

record fenced_request =
  fq_scope :: "premise_validation_scope option"
  fq_tenantId :: "string option"
  fq_resource :: "string option"
  fq_expectedVersion :: "version_reference option"
  fq_signal :: "bool option" \<comment> \<open>the signal, if any, and whether it is aborted already\<close>
  fq_timeoutMs :: "js_number option"

record normalized_request =
  nq_tenantId :: string
  nq_resource :: string
  nq_expectedVersion :: version_reference
  nq_scope :: "premise_validation_scope option"
  nq_signal :: "bool option"
  nq_timeoutMs :: "js_number option"

record fenced_invocation =
  iv_tenantId :: string
  iv_resource :: string
  iv_expectedVersion :: version_reference
  iv_scope :: "premise_validation_scope option"
  iv_fencingToken :: nat

record 'v fenced_outcome =
  fo_result :: fenced_result
  fo_fencingToken :: nat
  fo_value :: "'v option"
  fo_version :: "version_reference option"
  fo_reason :: "unknown_reason option"

section \<open>Normal requests\<close>

definition requiredField :: "string \<Rightarrow> string option \<Rightarrow> exn + string" where
  "requiredField name v = (case v of None \<Rightarrow> Inl (NotText name) | Some t \<Rightarrow> if nonBlank t then Inr t else Inl (NotText name))"

definition checkTimeout :: "js_number option \<Rightarrow> exn + unit" where
  "checkTimeout timeoutMs = (case timeoutMs of None \<Rightarrow> Inr ()
     | Some n \<Rightarrow> guard (isFinite n \<and> numValue n \<ge> 0) (NotInRange ''timeoutMs''))"

definition normalizeRequest :: "fenced_request \<Rightarrow> exn + normalized_request" where
  "normalizeRequest r =
     (case fq_scope r of
        Some given \<Rightarrow>
          andThen (normalizePremiseValidationScope given) (\<lambda>scope.
          andThen (if fq_tenantId r = None then Inr (vs_tenantId scope) else requiredField ''tenantId'' (fq_tenantId r)) (\<lambda>tenantId.
          andThen (if fq_resource r = None then Inr (vs_resourceId scope) else requiredField ''resource'' (fq_resource r)) (\<lambda>resource.
          andThen (case fq_expectedVersion r of None \<Rightarrow> Inr (vs_versionScheme scope)
            | Some v \<Rightarrow> requiredField ''expectedVersion.scheme'' (Some (vr_scheme v))) (\<lambda>scheme.
          andThen (case fq_expectedVersion r of None \<Rightarrow> Inr (vs_versionToken scope)
            | Some v \<Rightarrow> requiredField ''expectedVersion.token'' (Some (vr_token v))) (\<lambda>token.
          andThen (guard (tenantId = vs_tenantId scope \<and> resource = vs_resourceId scope \<and> scheme = vs_versionScheme scope \<and>
              token = vs_versionToken scope) (Failure ''validation request fields do not match its complete scope'')) (\<lambda>_.
          andThen (checkTimeout (fq_timeoutMs r)) (\<lambda>_.
            Inr \<lparr>nq_tenantId = tenantId, nq_resource = resource, nq_expectedVersion = \<lparr>vr_scheme = scheme, vr_token = token\<rparr>,
                 nq_scope = Some scope, nq_signal = fq_signal r, nq_timeoutMs = fq_timeoutMs r\<rparr>)))))))
      | None \<Rightarrow>
          andThen (requiredField ''tenantId'' (fq_tenantId r)) (\<lambda>tenantId.
          andThen (requiredField ''resource'' (fq_resource r)) (\<lambda>resource.
          andThen (requiredField ''expectedVersion.scheme'' (map_option vr_scheme (fq_expectedVersion r))) (\<lambda>scheme.
          andThen (requiredField ''expectedVersion.token'' (map_option vr_token (fq_expectedVersion r))) (\<lambda>token.
          andThen (checkTimeout (fq_timeoutMs r)) (\<lambda>_.
            Inr \<lparr>nq_tenantId = tenantId, nq_resource = resource, nq_expectedVersion = \<lparr>vr_scheme = scheme, vr_token = token\<rparr>,
                 nq_scope = None, nq_signal = fq_signal r, nq_timeoutMs = fq_timeoutMs r\<rparr>))))))"

definition resourceKey :: "string \<Rightarrow> string \<Rightarrow> string" where
  "resourceKey tenantId resource = stringArray [tenantId, resource]"

definition unknownOutcome :: "nat \<Rightarrow> unknown_reason \<Rightarrow> 'v fenced_outcome" where
  "unknownOutcome token reason =
     \<lparr>fo_result = ResultUnknown, fo_fencingToken = token, fo_value = None, fo_version = None, fo_reason = Some reason\<rparr>"

definition isAbortLike :: "jsvalue \<Rightarrow> bool" where
  "isAbortLike error =
     (property error ''name'' \<in> {JStr ''AbortError'', JStr ''TimeoutError''} \<or>
      property error ''code'' \<in> {JStr ''ABORT_ERR'', JStr ''ABORTED'', JStr ''ETIMEDOUT'', JStr ''TIMEOUT''})"

section \<open>The coordinator\<close>

datatype flight_phase = FlightQueued | FlightRunning | FlightEnded | FlightCleaned

text \<open>What a promise settled with: an outcome, or the error of the source.\<close>

type_synonym 'v flight_answer = "jsvalue + 'v fenced_outcome"

record 'v fenced_flight =
  fl_key :: string
  fl_resourceKey :: string
  fl_supersessionKey :: string
  fl_fencingToken :: nat
  fl_request :: normalized_request
  fl_hasTimer :: bool
  fl_phase :: flight_phase
  fl_aborted :: bool \<comment> \<open>the signal of its controller\<close>
  fl_timeoutTriggered :: bool
  fl_abortTriggered :: bool
  fl_settled :: "'v flight_answer option"

record 'v fenced_coordinator =
  fc_flights :: "(string, nat) omap"
  fc_latestByResource :: "(string, string \<times> nat) omap"
  fc_defaultTimeoutMs :: "js_number option"
  fc_nextFencingToken :: nat
  fc_legacyFlight :: nat
  fc_all :: "'v fenced_flight list"
  fc_calls :: "(nat \<times> fenced_invocation) list"

definition newFencedCoordinator :: "js_number option \<Rightarrow> exn + 'v fenced_coordinator" where
  "newFencedCoordinator timeoutMs =
     andThen (checkTimeout timeoutMs) (\<lambda>_. Inr \<lparr>fc_flights = [], fc_latestByResource = [], fc_defaultTimeoutMs = timeoutMs,
        fc_nextFencingToken = 0, fc_legacyFlight = 0, fc_all = [], fc_calls = []\<rparr>)"

definition abortAsUnknown :: "unknown_reason \<Rightarrow> 'v fenced_flight \<Rightarrow> 'v fenced_flight" where
  "abortAsUnknown reason f =
     (if fl_settled f \<noteq> None then f
      else f\<lparr>fl_timeoutTriggered := (reason = ReasonTimeout \<or> fl_timeoutTriggered f),
             fl_abortTriggered := (reason \<noteq> ReasonTimeout \<or> fl_abortTriggered f),
             fl_aborted := True, fl_settled := Some (Inr (unknownOutcome (fl_fencingToken f) reason))\<rparr>)"

text \<open>\<open>validate\<close> once the key of the request is known.\<close>

definition joinFlight :: "string \<Rightarrow> string \<Rightarrow> normalized_request \<Rightarrow> 'v fenced_coordinator \<Rightarrow> nat \<times> 'v fenced_coordinator" where
  "joinFlight key supersession request s =
     (case map_of (fc_flights s) key of
        Some p \<Rightarrow> (p, s)
      | None \<Rightarrow>
         (let resource = resourceKey (nq_tenantId request) (nq_resource request);
              shared = (case map_of (fc_latestByResource s) resource of
                 None \<Rightarrow> None | Some (k, token) \<Rightarrow> if k = supersession then Some token else None);
              nextToken = (if shared = None then fc_nextFencingToken s + 1 else fc_nextFencingToken s);
              token = nullish shared nextToken;
              p = length (fc_all s);
              flight = \<lparr>fl_key = key, fl_resourceKey = resource, fl_supersessionKey = supersession, fl_fencingToken = token,
                fl_request = request, fl_hasTimer = (nq_timeoutMs request \<noteq> None \<or> fc_defaultTimeoutMs s \<noteq> None),
                fl_phase = FlightQueued, fl_aborted = False, fl_timeoutTriggered = False, fl_abortTriggered = False, fl_settled = None\<rparr>
          in (p, s\<lparr>fc_flights := omap_set key p (fc_flights s),
                   fc_latestByResource := omap_set resource (supersession, token) (fc_latestByResource s),
                   fc_nextFencingToken := nextToken,
                   fc_all := fc_all s @ [if nq_signal request = Some True then abortAsUnknown ReasonAborted flight else flight]\<rparr>)))"

definition fencedValidate :: "(string \<Rightarrow> string) \<Rightarrow> fenced_request \<Rightarrow> 'v fenced_coordinator
    \<Rightarrow> (exn + nat) \<times> 'v fenced_coordinator" where
  "fencedValidate sha input s =
     (case normalizeRequest input of
        Inl e \<Rightarrow> (Inl e, s)
      | Inr request \<Rightarrow>
         (case nq_scope request of
            None \<Rightarrow>
             (let s1 = s\<lparr>fc_legacyFlight := fc_legacyFlight s + 1\<rparr>;
                  key = ''legacy-isolated:'' @ natText (fc_legacyFlight s1)
              in case joinFlight key key request s1 of (p, s2) \<Rightarrow> (Inr p, s2))
          | Some scope \<Rightarrow>
             (case premiseValidationScopeKey sha scope of
                Inl e \<Rightarrow> (Inl e, s)
              | Inr key \<Rightarrow>
                 (case premiseValidationSupersessionKey sha scope of
                    Inl e \<Rightarrow> (Inl e, s)
                  | Inr supersession \<Rightarrow> (case joinFlight key supersession request s of (p, s2) \<Rightarrow> (Inr p, s2))))))"

section \<open>The life of a flight\<close>

definition flightAt :: "nat \<Rightarrow> 'v fenced_coordinator \<Rightarrow> 'v fenced_flight option" where
  "flightAt p s = (if p < length (fc_all s) then Some (fc_all s ! p) else None)"

definition setFlight :: "nat \<Rightarrow> 'v fenced_flight \<Rightarrow> 'v fenced_coordinator \<Rightarrow> 'v fenced_coordinator" where
  "setFlight p f s = s\<lparr>fc_all := (fc_all s)[p := f]\<rparr>"

text \<open>The signal of the request aborts; its listener lives until the \<open>finally\<close> handler.\<close>

definition signalAborts :: "nat \<Rightarrow> 'v fenced_coordinator \<Rightarrow> 'v fenced_coordinator" where
  "signalAborts p s =
     (case flightAt p s of None \<Rightarrow> s
      | Some f \<Rightarrow> if nq_signal (fl_request f) = Some False \<and> fl_phase f \<noteq> FlightCleaned
          then setFlight p (abortAsUnknown ReasonAborted f) s else s)"

definition timerFires :: "nat \<Rightarrow> 'v fenced_coordinator \<Rightarrow> 'v fenced_coordinator" where
  "timerFires p s =
     (case flightAt p s of None \<Rightarrow> s
      | Some f \<Rightarrow> if fl_hasTimer f \<and> fl_phase f \<noteq> FlightCleaned then setFlight p (abortAsUnknown ReasonTimeout f) s else s)"

text \<open>The microtask: an aborted flight never reaches the source.\<close>

definition startFlight :: "nat \<Rightarrow> 'v fenced_coordinator \<Rightarrow> 'v fenced_coordinator" where
  "startFlight p s =
     (case flightAt p s of None \<Rightarrow> s
      | Some f \<Rightarrow>
          if fl_phase f \<noteq> FlightQueued then s
          else if fl_aborted f then setFlight p (f\<lparr>fl_phase := FlightEnded\<rparr>) s
          else (setFlight p (f\<lparr>fl_phase := FlightRunning\<rparr>) s)\<lparr>fc_calls := fc_calls s @ [(p,
            \<lparr>iv_tenantId = nq_tenantId (fl_request f), iv_resource = nq_resource (fl_request f),
             iv_expectedVersion = nq_expectedVersion (fl_request f), iv_scope = nq_scope (fl_request f),
             iv_fencingToken = fl_fencingToken f\<rparr>)]\<rparr>)"

text \<open>The handlers of the source's answer.\<close>

definition answerOf :: "'v fenced_flight \<Rightarrow> (string \<times> nat) option \<Rightarrow> 'v flight_answer \<Rightarrow> 'v flight_answer" where
  "answerOf f latest reply =
     (case reply of
        Inr outcome \<Rightarrow>
          if latest \<noteq> Some (fl_supersessionKey f, fl_fencingToken f) \<or> fo_fencingToken outcome \<noteq> fl_fencingToken f
          then Inr (unknownOutcome (fl_fencingToken f) ReasonFenced) else Inr outcome
      | Inl error \<Rightarrow>
          if fl_timeoutTriggered f then Inr (unknownOutcome (fl_fencingToken f) ReasonTimeout)
          else if fl_abortTriggered f \<or> isAbortLike error then Inr (unknownOutcome (fl_fencingToken f) ReasonAborted)
          else Inl error)"

definition sourceReplies :: "nat \<Rightarrow> 'v flight_answer \<Rightarrow> 'v fenced_coordinator \<Rightarrow> 'v fenced_coordinator" where
  "sourceReplies p reply s =
     (case flightAt p s of None \<Rightarrow> s
      | Some f \<Rightarrow>
          if fl_phase f \<noteq> FlightRunning then s
          else setFlight p (f\<lparr>fl_phase := FlightEnded, fl_settled :=
            (if fl_settled f \<noteq> None then fl_settled f
             else Some (answerOf f (map_of (fc_latestByResource s) (fl_resourceKey f)) reply))\<rparr>) s)"

text \<open>The \<open>finally\<close> handler.\<close>

definition cleanFlight :: "nat \<Rightarrow> 'v fenced_coordinator \<Rightarrow> 'v fenced_coordinator" where
  "cleanFlight p s =
     (case flightAt p s of None \<Rightarrow> s
      | Some f \<Rightarrow>
          if fl_phase f \<noteq> FlightEnded then s
          else let s1 = setFlight p (f\<lparr>fl_phase := FlightCleaned\<rparr>) s;
                   s2 = (if map_of (fc_flights s1) (fl_key f) = Some p
                         then s1\<lparr>fc_flights := omap_delete (fl_key f) (fc_flights s1)\<rparr> else s1)
            in if list_ex (\<lambda>(k, q). fl_resourceKey (fc_all s2 ! q) = fl_resourceKey f) (fc_flights s2) then s2
               else s2\<lparr>fc_latestByResource := omap_delete (fl_resourceKey f) (fc_latestByResource s2)\<rparr>)"

datatype 'v fenced_step =
    RequestValidation fenced_request
  | SignalAborts nat
  | TimerFires nat
  | StartFlight nat
  | SourceReplies nat "'v flight_answer"
  | CleanFlight nat

fun fencedStep :: "(string \<Rightarrow> string) \<Rightarrow> 'v fenced_step \<Rightarrow> 'v fenced_coordinator \<Rightarrow> 'v fenced_coordinator" where
  "fencedStep sha (RequestValidation input) s = snd (fencedValidate sha input s)"
| "fencedStep sha (SignalAborts p) s = signalAborts p s"
| "fencedStep sha (TimerFires p) s = timerFires p s"
| "fencedStep sha (StartFlight p) s = startFlight p s"
| "fencedStep sha (SourceReplies p reply) s = sourceReplies p reply s"
| "fencedStep sha (CleanFlight p) s = cleanFlight p s"

definition fencedRun :: "(string \<Rightarrow> string) \<Rightarrow> 'v fenced_step list \<Rightarrow> 'v fenced_coordinator \<Rightarrow> 'v fenced_coordinator" where
  "fencedRun sha steps s = fold (fencedStep sha) steps s"

section \<open>What every step keeps\<close>

text \<open>
  The map of flights holds exactly the flights whose \<open>finally\<close> has not run, one for a key. Their
  resource has a latest version, with a token that is not below theirs and not theirs unless the
  version is. A flight that has ended or was aborted has settled.
\<close>

definition flightsExact :: "'v fenced_flight list \<Rightarrow> (string, nat) omap \<Rightarrow> bool" where
  "flightsExact fs flights = (omap_ok flights \<and> (\<forall>k p. map_of flights k = Some p \<longleftrightarrow>
     p < length fs \<and> fl_key (fs ! p) = k \<and> fl_phase (fs ! p) \<noteq> FlightCleaned))"

definition latestCovers :: "(string, string \<times> nat) omap \<Rightarrow> 'v fenced_flight \<Rightarrow> bool" where
  "latestCovers latest f = (fl_phase f \<noteq> FlightCleaned \<longrightarrow> (\<exists>k token. map_of latest (fl_resourceKey f) = Some (k, token) \<and>
     fl_fencingToken f \<le> token \<and> (token = fl_fencingToken f \<longrightarrow> k = fl_supersessionKey f)))"

definition flightRight :: "'v fenced_flight \<Rightarrow> bool" where
  "flightRight f = (fl_phase f \<in> {FlightEnded, FlightCleaned} \<or> fl_aborted f \<longrightarrow> fl_settled f \<noteq> None)"

definition tokensBelow :: "nat \<Rightarrow> 'v fenced_flight list \<Rightarrow> (string, string \<times> nat) omap \<Rightarrow> bool" where
  "tokensBelow m fs latest = ((\<forall>f \<in> set fs. fl_fencingToken f \<le> m) \<and> (\<forall>r k token. map_of latest r = Some (k, token) \<longrightarrow> token \<le> m))"

definition callsOnce :: "'v fenced_flight list \<Rightarrow> (nat \<times> fenced_invocation) list \<Rightarrow> bool" where
  "callsOnce fs calls = (distinct (map fst calls) \<and> (\<forall>(p, c) \<in> set calls. p < length fs \<and> fl_phase (fs ! p) \<noteq> FlightQueued))"

definition fencedRight :: "'v fenced_coordinator \<Rightarrow> bool" where
  "fencedRight s = (flightsExact (fc_all s) (fc_flights s) \<and> (\<forall>f \<in> set (fc_all s). latestCovers (fc_latestByResource s) f \<and> flightRight f) \<and>
     tokensBelow (fc_nextFencingToken s) (fc_all s) (fc_latestByResource s) \<and> callsOnce (fc_all s) (fc_calls s))"

lemma flightsExactD: "flightsExact fs flights \<Longrightarrow> q < length fs \<Longrightarrow> fl_phase (fs ! q) \<noteq> FlightCleaned \<Longrightarrow>
    map_of flights (fl_key (fs ! q)) = Some q"
  by (simp add: flightsExact_def)

lemma fencedRight_new: "newFencedCoordinator t = Inr s \<Longrightarrow> fencedRight s"
  by (auto simp: newFencedCoordinator_def andThen_Inr_iff fencedRight_def flightsExact_def tokensBelow_def callsOnce_def)

text \<open>A change of one flight that keeps its identity and does not clean it.\<close>

definition sameFlight :: "'v fenced_flight \<Rightarrow> 'v fenced_flight \<Rightarrow> bool" where
  "sameFlight f g = (fl_key g = fl_key f \<and> fl_resourceKey g = fl_resourceKey f \<and> fl_supersessionKey g = fl_supersessionKey f \<and>
     fl_fencingToken g = fl_fencingToken f \<and> (fl_phase g = FlightCleaned \<longleftrightarrow> fl_phase f = FlightCleaned) \<and>
     (fl_phase f \<noteq> FlightQueued \<longrightarrow> fl_phase g \<noteq> FlightQueued))"

lemma fencedRight_set:
  assumes s: "fencedRight s" and p: "p < length (fc_all s)" and g: "sameFlight (fc_all s ! p) g" "flightRight g"
  shows "fencedRight (setFlight p g s)"
proof -
  have keys: "fl_key ((fc_all s)[p := g] ! q) = fl_key (fc_all s ! q)"
    "fl_phase ((fc_all s)[p := g] ! q) = FlightCleaned \<longleftrightarrow> fl_phase (fc_all s ! q) = FlightCleaned" for q
    using g(1) p by (cases "q = p"; simp add: sameFlight_def)+
  have "flightsExact ((fc_all s)[p := g]) (fc_flights s)"
    using s unfolding fencedRight_def flightsExact_def keys by simp
  moreover have "latestCovers (fc_latestByResource s) f \<and> flightRight f \<and> fl_fencingToken f \<le> fc_nextFencingToken s"
    if "f \<in> set ((fc_all s)[p := g])" for f
  proof (cases "f = g")
    case True
    have "fc_all s ! p \<in> set (fc_all s)" using p by simp
    with s g True show ?thesis by (auto simp: fencedRight_def latestCovers_def sameFlight_def tokensBelow_def)
  next
    case False
    with that set_update_subset_insert [of "fc_all s" p g] s show ?thesis by (auto simp: fencedRight_def tokensBelow_def)
  qed
  moreover have "callsOnce ((fc_all s)[p := g]) (fc_calls s)"
  proof -
    have "fl_phase ((fc_all s)[p := g] ! q) \<noteq> FlightQueued" if "fl_phase (fc_all s ! q) \<noteq> FlightQueued" for q
      using that g(1) p by (cases "q = p") (simp_all add: sameFlight_def)
    then show ?thesis using s by (fastforce simp: fencedRight_def callsOnce_def)
  qed
  ultimately show ?thesis using s by (simp add: fencedRight_def setFlight_def tokensBelow_def)
qed

lemma abortAsUnknown_same: "sameFlight f (abortAsUnknown reason f)" "flightRight f \<Longrightarrow> flightRight (abortAsUnknown reason f)"
  by (auto simp: abortAsUnknown_def sameFlight_def flightRight_def)

lemma flightAt_Some: "flightAt p s = Some f \<longleftrightarrow> p < length (fc_all s) \<and> f = fc_all s ! p"
  by (auto simp: flightAt_def)

lemma fencedRight_flight: "fencedRight s \<Longrightarrow> p < length (fc_all s) \<Longrightarrow> flightRight (fc_all s ! p)"
  by (simp add: fencedRight_def)

lemma fencedRight_signal: "fencedRight s \<Longrightarrow> fencedRight (signalAborts p s)" "fencedRight s \<Longrightarrow> fencedRight (timerFires p s)"
  by (auto simp: signalAborts_def timerFires_def flightAt_Some split: option.splits
      intro!: fencedRight_set abortAsUnknown_same fencedRight_flight)

lemma fencedRight_start:
  assumes s: "fencedRight s"
  shows "fencedRight (startFlight p s)"
proof (cases "flightAt p s")
  case None
  with s show ?thesis by (simp add: startFlight_def)
next
  case (Some f)
  then have p: "p < length (fc_all s)" "f = fc_all s ! p" by (simp_all add: flightAt_Some)
  note right = fencedRight_flight [OF s p(1), folded p(2)]
  consider "fl_phase f \<noteq> FlightQueued" | "fl_phase f = FlightQueued" "fl_aborted f" | "fl_phase f = FlightQueued" "\<not> fl_aborted f" by blast
  then show ?thesis
  proof cases
    case 1
    with Some s show ?thesis by (simp add: startFlight_def)
  next
    case 2
    then show ?thesis using Some fencedRight_set [OF s p(1), folded p(2), of "f\<lparr>fl_phase := FlightEnded\<rparr>"] right
      by (simp add: startFlight_def sameFlight_def flightRight_def)
  next
    case 3
    let ?s = "setFlight p (f\<lparr>fl_phase := FlightRunning\<rparr>) s"
    have "fencedRight ?s"
      using 3 fencedRight_set [OF s p(1), folded p(2), of "f\<lparr>fl_phase := FlightRunning\<rparr>"] right
      by (simp add: sameFlight_def flightRight_def)
    moreover have "p \<notin> fst ` set (fc_calls s)" using s 3(1) p(2) by (auto simp: fencedRight_def callsOnce_def)
    ultimately have "fencedRight (?s\<lparr>fc_calls := fc_calls s @ [(p, c)]\<rparr>)" for c
      using p(1) by (auto simp: fencedRight_def callsOnce_def setFlight_def)
    with 3 Some show ?thesis by (simp add: startFlight_def)
  qed
qed

lemma fencedRight_reply: "fencedRight s \<Longrightarrow> fencedRight (sourceReplies p reply s)"
  by (auto simp: sourceReplies_def flightAt_Some sameFlight_def flightRight_def split: option.splits intro!: fencedRight_set)

lemma fencedRight_clean:
  assumes s: "fencedRight s"
  shows "fencedRight (cleanFlight p s)"
proof (cases "p < length (fc_all s) \<and> fl_phase (fc_all s ! p) = FlightEnded")
  case False
  then have "cleanFlight p s = s" by (auto simp: cleanFlight_def flightAt_def)
  with s show ?thesis by simp
next
  case True
  define f where "f = fc_all s ! p"
  define fs where "fs = (fc_all s)[p := f\<lparr>fl_phase := FlightCleaned\<rparr>]"
  have p: "p < length (fc_all s)" "fl_phase f = FlightEnded" using True by (simp_all add: f_def)
  have S: "flightsExact (fc_all s) (fc_flights s)" "\<And>g. g \<in> set (fc_all s) \<Longrightarrow> latestCovers (fc_latestByResource s) g \<and> flightRight g"
    "tokensBelow (fc_nextFencingToken s) (fc_all s) (fc_latestByResource s)" "callsOnce (fc_all s) (fc_calls s)"
    using s by (simp_all add: fencedRight_def)
  have mine: "map_of (fc_flights s) (fl_key f) = Some p" using S(1) p f_def by (simp add: flightsExact_def)
  have at_q: "fs ! q = (if q = p then f\<lparr>fl_phase := FlightCleaned\<rparr> else fc_all s ! q)" for q using p(1) by (simp add: fs_def)
  have len: "length fs = length (fc_all s)" by (simp add: fs_def)
  define flights where "flights = omap_delete (fl_key f) (fc_flights s)"
  have exact: "flightsExact fs flights"
  proof -
    have "map_of flights k = Some q \<longleftrightarrow> q < length fs \<and> fl_key (fs ! q) = k \<and> fl_phase (fs ! q) \<noteq> FlightCleaned" for k q
    proof (cases "k = fl_key f")
      case True
      have "q = p" if "q < length fs" "fl_key (fc_all s ! q) = k" "fl_phase (fc_all s ! q) \<noteq> FlightCleaned"
        using flightsExactD [OF S(1), of q] mine True that unfolding len by simp
      then show ?thesis using True unfolding flights_def at_q by auto
    next
      case False
      then show ?thesis using S(1) f_def unfolding flights_def len at_q flightsExact_def by auto
    qed
    moreover have "omap_ok flights" using S(1) by (simp add: flightsExact_def flights_def)
    ultimately show ?thesis by (simp add: flightsExact_def)
  qed
  have others: "g = f\<lparr>fl_phase := FlightCleaned\<rparr> \<or> g \<in> set (fc_all s)" if "g \<in> set fs" for g
    using that set_update_subset_insert [of "fc_all s" p "f\<lparr>fl_phase := FlightCleaned\<rparr>"] by (auto simp: fs_def)
  have right: "flightRight g" if "g \<in> set fs" for g
    using others [OF that] S(2) fencedRight_flight [OF s p(1), folded f_def] p(2) by (auto simp: flightRight_def)
  have covers: "latestCovers (fc_latestByResource s) g" if "g \<in> set fs" for g
    using others [OF that] S(2) by (auto simp: latestCovers_def)
  have tokens: "tokensBelow (fc_nextFencingToken s) fs (fc_latestByResource s)"
    using S(3) others p f_def unfolding tokensBelow_def by (metis fenced_flight.select_convs(4) fenced_flight.update_convs(7) nth_mem fenced_flight.surjective)
  have calls: "callsOnce fs (fc_calls s)" using S(4) unfolding callsOnce_def len at_q by (auto split: if_splits)
  define others_left where "others_left = list_ex (\<lambda>(k, q). fl_resourceKey (fs ! q) = fl_resourceKey f) flights"
  have run: "cleanFlight p s = (if others_left then s\<lparr>fc_all := fs, fc_flights := flights\<rparr>
      else s\<lparr>fc_all := fs, fc_flights := flights, fc_latestByResource := omap_delete (fl_resourceKey f) (fc_latestByResource s)\<rparr>)"
    using p mine by (simp add: cleanFlight_def flightAt_def f_def [symmetric] setFlight_def Let_def flights_def others_left_def fs_def)
  show ?thesis
  proof (cases others_left)
    case True
    with run exact right covers tokens calls show ?thesis by (simp add: fencedRight_def)
  next
    case False
    have gone: "fl_resourceKey g \<noteq> fl_resourceKey f" if g: "g \<in> set fs" "fl_phase g \<noteq> FlightCleaned" for g
    proof -
      obtain q where q: "q < length fs" "g = fs ! q" using g(1) by (auto simp: in_set_conv_nth)
      then have "map_of flights (fl_key g) = Some q" using exact g(2) by (simp add: flightsExact_def)
      then have "(fl_key g, q) \<in> set flights" by (rule map_of_SomeD)
      with False q(2) show ?thesis by (force simp: others_left_def list_ex_iff)
    qed
    have "latestCovers (omap_delete (fl_resourceKey f) (fc_latestByResource s)) g" if "g \<in> set fs" for g
      using covers [OF that] gone [OF that] by (auto simp: latestCovers_def)
    moreover have "tokensBelow (fc_nextFencingToken s) fs (omap_delete (fl_resourceKey f) (fc_latestByResource s))"
      using tokens by (simp add: tokensBelow_def)
    ultimately show ?thesis using False run exact right calls by (simp add: fencedRight_def)
  qed
qed

text \<open>A request joins the flight of its key or starts one, under a token that fences the older versions.\<close>

lemma joinFlight_cases:
  assumes "joinFlight key supersession request s = (p, s')"
  obtains (joined) "map_of (fc_flights s) key = Some p" "s' = s"
    | (started) resource token m f where "map_of (fc_flights s) key = None" "p = length (fc_all s)"
        "fl_key f = key" "fl_resourceKey f = resource" "fl_supersessionKey f = supersession" "fl_fencingToken f = token"
        "fl_phase f = FlightQueued" "flightRight f"
        "(token = m \<and> m = fc_nextFencingToken s + 1 \<and> (\<forall>t. map_of (fc_latestByResource s) resource \<noteq> Some (supersession, t))) \<or>
         (map_of (fc_latestByResource s) resource = Some (supersession, token) \<and> m = fc_nextFencingToken s)"
        "s' = s\<lparr>fc_flights := omap_set key p (fc_flights s), fc_latestByResource := omap_set resource (supersession, token) (fc_latestByResource s),
          fc_nextFencingToken := m, fc_all := fc_all s @ [f]\<rparr>"
proof (cases "map_of (fc_flights s) key")
  case (Some q)
  then have "map_of (fc_flights s) key = Some p" "s' = s" using assms by (simp_all add: joinFlight_def)
  then show ?thesis by (rule joined)
next
  case None
  define resource where "resource = resourceKey (nq_tenantId request) (nq_resource request)"
  define shared where "shared = (case map_of (fc_latestByResource s) resource of
     None \<Rightarrow> None | Some (k, token) \<Rightarrow> if k = supersession then Some token else None)"
  define m where "m = (if shared = None then fc_nextFencingToken s + 1 else fc_nextFencingToken s)"
  define token where "token = nullish shared m"
  define flight :: "'a fenced_flight" where "flight = \<lparr>fl_key = key, fl_resourceKey = resource, fl_supersessionKey = supersession, fl_fencingToken = token,
    fl_request = request, fl_hasTimer = (nq_timeoutMs request \<noteq> None \<or> fc_defaultTimeoutMs s \<noteq> None),
    fl_phase = FlightQueued, fl_aborted = False, fl_timeoutTriggered = False, fl_abortTriggered = False, fl_settled = None\<rparr>"
  define f where "f = (if nq_signal request = Some True then abortAsUnknown ReasonAborted flight else flight)"
  have same: "fl_key f = key" "fl_resourceKey f = resource" "fl_supersessionKey f = supersession" "fl_fencingToken f = token" "fl_phase f = FlightQueued" "flightRight f"
    by (simp_all add: f_def flight_def abortAsUnknown_def flightRight_def)
  have tok: "(token = m \<and> m = fc_nextFencingToken s + 1 \<and> (\<forall>t. map_of (fc_latestByResource s) resource \<noteq> Some (supersession, t))) \<or>
      (map_of (fc_latestByResource s) resource = Some (supersession, token) \<and> m = fc_nextFencingToken s)"
    by (auto simp: token_def m_def shared_def split: option.splits prod.splits if_splits)
  have "joinFlight key supersession request s = (length (fc_all s), s\<lparr>fc_flights := omap_set key (length (fc_all s)) (fc_flights s),
      fc_latestByResource := omap_set resource (supersession, token) (fc_latestByResource s),
      fc_nextFencingToken := m, fc_all := fc_all s @ [f]\<rparr>)"
    by (simp only: joinFlight_def None option.case Let_def resource_def shared_def m_def token_def flight_def f_def)
  then have "p = length (fc_all s)" "s' = s\<lparr>fc_flights := omap_set key p (fc_flights s),
      fc_latestByResource := omap_set resource (supersession, token) (fc_latestByResource s),
      fc_nextFencingToken := m, fc_all := fc_all s @ [f]\<rparr>" using assms by simp_all
  then show ?thesis using started [OF None _ same tok] by blast
qed

lemma fencedRight_join:
  assumes s: "fencedRight s" and run: "joinFlight key supersession request s = (p, s')"
  shows "fencedRight s'"
  using run
proof (cases rule: joinFlight_cases)
  case joined
  with s show ?thesis by simp
next
  case (started resource token m f)
  have S: "flightsExact (fc_all s) (fc_flights s)" "\<And>g. g \<in> set (fc_all s) \<Longrightarrow> latestCovers (fc_latestByResource s) g \<and> flightRight g"
    "tokensBelow (fc_nextFencingToken s) (fc_all s) (fc_latestByResource s)" "callsOnce (fc_all s) (fc_calls s)"
    using s by (simp_all add: fencedRight_def)
  have m: "fc_nextFencingToken s \<le> m" "token \<le> m" using started(9) S(3) by (auto simp: tokensBelow_def)
  have below: "fl_fencingToken g \<le> fc_nextFencingToken s" if "g \<in> set (fc_all s)" for g using S(3) that by (simp add: tokensBelow_def)
  have "flightsExact (fc_all s @ [f]) (omap_set key p (fc_flights s))"
    unfolding flightsExact_def
  proof (intro conjI allI)
    show "omap_ok (omap_set key p (fc_flights s))" using S(1) by (simp add: flightsExact_def)
    show "map_of (omap_set key p (fc_flights s)) k = Some q \<longleftrightarrow> q < length (fc_all s @ [f]) \<and> fl_key ((fc_all s @ [f]) ! q) = k \<and>
        fl_phase ((fc_all s @ [f]) ! q) \<noteq> FlightCleaned" for k q
    proof (cases "q < length (fc_all s)")
      case True
      have "fl_key (fc_all s ! q) \<noteq> key \<or> fl_phase (fc_all s ! q) = FlightCleaned" using flightsExactD [OF S(1) True] started(1) by (metis option.distinct(1))
      then show ?thesis using S(1) started(2) True unfolding flightsExact_def by (cases "k = key") (auto simp: nth_append)
    next
      case False
      then show ?thesis using S(1) started(2,3,7) unfolding flightsExact_def by (cases "k = key") (auto simp: nth_append)
    qed
  qed
  moreover have "latestCovers (omap_set resource (supersession, token) (fc_latestByResource s)) g" if "g \<in> set (fc_all s @ [f])" for g
    using that S(2) [of g] below [of g] started(4-6,9) by (auto simp: latestCovers_def)
  moreover have "flightRight g" if "g \<in> set (fc_all s @ [f])" for g using that S(2) started(8) by auto
  moreover have "tokensBelow m (fc_all s @ [f]) (omap_set resource (supersession, token) (fc_latestByResource s))"
    using S(3) m started(6) unfolding tokensBelow_def by (auto simp del: split_paired_All) (meson order_trans)+
  moreover have "callsOnce (fc_all s @ [f]) (fc_calls s)" using S(4) by (auto simp: callsOnce_def nth_append)
  ultimately show ?thesis unfolding started(10) by (simp add: fencedRight_def)
qed

text \<open>What a request comes to.\<close>

lemma fencedValidate_cases:
  assumes "fencedValidate sha input s = (x, s')"
  obtains (threw) e where "x = Inl e" "s' = s"
    | (flight) p key supersession request n where "x = Inr p" "joinFlight key supersession request (s\<lparr>fc_legacyFlight := n\<rparr>) = (p, s')"
proof (cases "normalizeRequest input")
  case (Inl e)
  then have "x = Inl e" "s' = s" using assms by (simp_all add: fencedValidate_def)
  then show ?thesis by (rule threw)
next
  case (Inr request)
  show ?thesis
  proof (cases "nq_scope request")
    case None
    with Inr assms flight [of _ _ _ _ "fc_legacyFlight s + 1"] show ?thesis
      by (auto simp: fencedValidate_def Let_def split: prod.splits)
  next
    case (Some scope)
    have same: "s\<lparr>fc_legacyFlight := fc_legacyFlight s\<rparr> = s" by simp
    from Some Inr assms threw flight [of _ _ _ _ "fc_legacyFlight s", unfolded same] show ?thesis
      by (auto simp: fencedValidate_def split: sum.splits prod.splits)
  qed
qed

lemma fencedRight_validate:
  assumes "fencedRight s"
  shows "fencedRight (snd (fencedValidate sha input s))"
proof -
  obtain x s' where run: "fencedValidate sha input s = (x, s')" by (metis surj_pair)
  from run have "fencedRight s'"
  proof (cases rule: fencedValidate_cases)
    case (flight p key supersession request n)
    have "fencedRight (s\<lparr>fc_legacyFlight := n\<rparr>)" using assms by (simp add: fencedRight_def)
    from fencedRight_join [OF this flight(2)] show ?thesis .
  qed (use assms in simp)
  with run show ?thesis by simp
qed

lemma fencedRight_step: "fencedRight s \<Longrightarrow> fencedRight (fencedStep sha e s)"
  by (cases e) (simp_all add: fencedRight_validate fencedRight_signal fencedRight_start fencedRight_reply fencedRight_clean)

lemma fencedRight_run: "fencedRight s \<Longrightarrow> fencedRight (fencedRun sha steps s)"
  unfolding fencedRun_def by (induction steps arbitrary: s) (simp_all add: fencedRight_step)

section \<open>Older versions are fenced\<close>

text \<open>
  A flight that is superseded: as long as it has not settled its resource is at a higher token, and
  once it has, it was not with an answer of the source.
\<close>

definition fencedAnswer :: "nat \<Rightarrow> 'v flight_answer \<Rightarrow> bool" where
  "fencedAnswer token x = (isl x \<or> x \<in> Inr ` unknownOutcome token ` {ReasonTimeout, ReasonAborted, ReasonFenced})"

definition superseded :: "nat \<Rightarrow> string \<Rightarrow> nat \<Rightarrow> 'v fenced_coordinator \<Rightarrow> bool" where
  "superseded p resource token s = (p < length (fc_all s) \<and> fl_resourceKey (fc_all s ! p) = resource \<and> fl_fencingToken (fc_all s ! p) = token \<and>
     (fl_settled (fc_all s ! p) = None \<longrightarrow> (\<exists>k higher. map_of (fc_latestByResource s) resource = Some (k, higher) \<and> token < higher)) \<and>
     (\<forall>x. fl_settled (fc_all s ! p) = Some x \<longrightarrow> fencedAnswer token x))"

lemma superseded_set:
  assumes "superseded p resource token s" and "sameFlight (fc_all s ! q) g" and "q < length (fc_all s)"
    and "q = p \<Longrightarrow> fl_settled g = fl_settled (fc_all s ! p) \<or> (\<exists>x. fl_settled g = Some x \<and> fencedAnswer token x)"
  shows "superseded p resource token (setFlight q g s)"
proof (cases "q = p")
  case True
  with assms show ?thesis by (auto simp: superseded_def setFlight_def sameFlight_def)
next
  case False
  with assms(1) show ?thesis by (simp add: superseded_def setFlight_def)
qed

lemma abortAsUnknown_settled:
  "fl_settled (abortAsUnknown reason f) = (if fl_settled f \<noteq> None then fl_settled f else Some (Inr (unknownOutcome (fl_fencingToken f) reason)))"
  by (simp add: abortAsUnknown_def)

lemma superseded_abort:
  assumes "superseded p resource token s" and "q < length (fc_all s)" and "reason \<in> {ReasonTimeout, ReasonAborted, ReasonFenced}"
  shows "superseded p resource token (setFlight q (abortAsUnknown reason (fc_all s ! q)) s)"
  using assms by (intro superseded_set) (auto simp: abortAsUnknown_same abortAsUnknown_settled superseded_def fencedAnswer_def)

lemma superseded_reply:
  assumes s: "superseded p resource token s"
  shows "superseded p resource token (sourceReplies q reply s)"
proof (cases "flightAt q s")
  case None
  with s show ?thesis by (simp add: sourceReplies_def)
next
  case (Some f)
  then have q: "q < length (fc_all s)" "f = fc_all s ! q" by (simp_all add: flightAt_Some)
  have "fencedAnswer token (answerOf f (map_of (fc_latestByResource s) (fl_resourceKey f)) reply)" if "q = p" "fl_settled f = None"
    using s that q(2) by (auto simp: superseded_def answerOf_def fencedAnswer_def split: sum.splits)
  with s q have "superseded p resource token (setFlight q (f\<lparr>fl_phase := FlightEnded, fl_settled :=
      (if fl_settled f \<noteq> None then fl_settled f
       else Some (answerOf f (map_of (fc_latestByResource s) (fl_resourceKey f)) reply))\<rparr>) s)" if "fl_phase f = FlightRunning"
    using that by (intro superseded_set) (auto simp: sameFlight_def)
  with Some s show ?thesis by (simp add: sourceReplies_def)
qed

lemma superseded_start: "superseded p resource token s \<Longrightarrow> superseded p resource token (startFlight q s)"
proof (cases "flightAt q s")
  case (Some f)
  assume s: "superseded p resource token s"
  have q: "q < length (fc_all s)" "f = fc_all s ! q" using Some by (simp_all add: flightAt_Some)
  have step: "superseded p resource token (setFlight q (f\<lparr>fl_phase := phase\<rparr>) s)"
    if "fl_phase f = FlightQueued" "phase \<in> {FlightRunning, FlightEnded}" for phase
    using s q that by (intro superseded_set) (auto simp: sameFlight_def)
  have "superseded p resource token (t\<lparr>fc_calls := c\<rparr>) = superseded p resource token t" for t :: "'a fenced_coordinator" and c
    by (simp add: superseded_def)
  with Some s step show ?thesis by (simp add: startFlight_def)
qed (simp add: startFlight_def)

lemma superseded_clean:
  assumes s: "superseded p resource token s" and right: "fencedRight s"
  shows "superseded p resource token (cleanFlight q s)"
proof (cases "q < length (fc_all s) \<and> fl_phase (fc_all s ! q) = FlightEnded")
  case False
  then have "cleanFlight q s = s" by (auto simp: cleanFlight_def flightAt_def)
  with s show ?thesis by simp
next
  case True
  define s' where "s' = cleanFlight q s"
  have right': "fencedRight s'" unfolding s'_def by (rule fencedRight_clean [OF right])
  have all: "fc_all s' = (fc_all s)[q := (fc_all s ! q)\<lparr>fl_phase := FlightCleaned\<rparr>]"
    using True by (simp add: s'_def cleanFlight_def flightAt_def setFlight_def Let_def)
  have latest: "fc_latestByResource s' = fc_latestByResource s \<or>
      fc_latestByResource s' = omap_delete (fl_resourceKey (fc_all s ! q)) (fc_latestByResource s)"
    using True by (simp add: s'_def cleanFlight_def flightAt_def setFlight_def Let_def)
  have kept: "p < length (fc_all s')" "fl_resourceKey (fc_all s' ! p) = resource" "fl_fencingToken (fc_all s' ! p) = token"
    "fl_settled (fc_all s' ! p) = fl_settled (fc_all s ! p)"
    using s unfolding superseded_def all by (cases "q = p"; simp)+
  have "superseded p resource token s'"
  proof (cases "fl_settled (fc_all s ! p)")
    case (Some x)
    with s kept show ?thesis by (simp add: superseded_def)
  next
    case None
    from s None obtain k higher where high: "map_of (fc_latestByResource s) resource = Some (k, higher)" "token < higher"
      by (auto simp: superseded_def)
    have "flightRight (fc_all s' ! p)" "latestCovers (fc_latestByResource s') (fc_all s' ! p)"
      using right' kept(1) by (simp_all add: fencedRight_def)
    then have "map_of (fc_latestByResource s') resource \<noteq> None"
      using kept None by (auto simp: flightRight_def latestCovers_def)
    then have "map_of (fc_latestByResource s') resource = Some (k, higher)" using latest high(1) by (auto split: if_splits)
    with kept None high(2) show ?thesis by (simp add: superseded_def)
  qed
  then show ?thesis by (simp add: s'_def)
qed

lemma superseded_validate:
  assumes s: "superseded p resource token s" and right: "fencedRight s"
  shows "superseded p resource token (snd (fencedValidate sha input s))"
proof -
  obtain x s' where run: "fencedValidate sha input s = (x, s')" by (metis surj_pair)
  from run have "superseded p resource token s'"
  proof (cases rule: fencedValidate_cases)
    case (flight q key supersession request n)
    define t where "t = s\<lparr>fc_legacyFlight := n\<rparr>"
    have t: "superseded p resource token t" using s by (simp add: superseded_def t_def)
    have below: "token' \<le> fc_nextFencingToken t" if "map_of (fc_latestByResource t) r = Some (k, token')" for r k token'
      using right that by (simp add: fencedRight_def tokensBelow_def t_def)
    from flight(2) [folded t_def] show ?thesis
    proof (cases rule: joinFlight_cases)
      case (started res tok m f)
      have old: "fc_all s' ! p = fc_all t ! p" "p < length (fc_all s')" using t by (simp_all add: superseded_def started(10) nth_append)
      show ?thesis
      proof (cases "fl_settled (fc_all t ! p)")
        case (Some x)
        with t old show ?thesis by (simp add: superseded_def)
      next
        case None
        from t None obtain k higher where high: "map_of (fc_latestByResource t) resource = Some (k, higher)" "token < higher"
          by (auto simp: superseded_def)
        have "token < tok" if "res = resource" using started(9) that high below [OF high(1)] by auto
        then have "\<exists>k higher. map_of (fc_latestByResource s') resource = Some (k, higher) \<and> token < higher"
          using high unfolding started(10) by simp
        with t None old show ?thesis by (simp add: superseded_def)
      qed
    qed (use t in simp)
  qed (use s in simp)
  with run show ?thesis by simp
qed

lemma superseded_step: "superseded p resource token s \<Longrightarrow> fencedRight s \<Longrightarrow> superseded p resource token (fencedStep sha e s)"
proof (cases e)
  case (SignalAborts q)
  assume "superseded p resource token s"
  then show ?thesis using SignalAborts superseded_abort [of p resource token s q]
    by (auto simp: signalAborts_def flightAt_Some split: option.splits)
next
  case (TimerFires q)
  assume "superseded p resource token s"
  then show ?thesis using TimerFires superseded_abort [of p resource token s q]
    by (auto simp: timerFires_def flightAt_Some split: option.splits)
qed (simp_all add: superseded_validate superseded_start superseded_reply superseded_clean)

lemma superseded_run: "superseded p resource token s \<Longrightarrow> fencedRight s \<Longrightarrow> superseded p resource token (fencedRun sha steps s)"
  unfolding fencedRun_def by (induction steps arbitrary: s) (simp_all add: superseded_step fencedRight_step)

text \<open>
  C21: Once a request for another version of its resource has started a flight, a validation that is
  still under way can no longer settle with what the source answers: whatever follows, it settles with
  UNKNOWN because it was fenced, timed out or aborted, or with the error of the source.
\<close>

theorem superseded_validation_fenced:
  assumes "newFencedCoordinator t = Inr start" and "s = fencedRun sha steps start"
    and "p < length (fc_all s)" and "fl_settled (fc_all s ! p) = None"
    and "fencedValidate sha input s = (Inr q, s1)" and "q = length (fc_all s)"
    and "fl_resourceKey (fc_all s1 ! q) = fl_resourceKey (fc_all s ! p)"
    and "fl_supersessionKey (fc_all s1 ! q) \<noteq> fl_supersessionKey (fc_all s ! p)"
    and "fl_settled (fc_all (fencedRun sha more_steps s1) ! p) = Some x"
  shows "isl x \<or> (\<exists>reason \<in> {ReasonTimeout, ReasonAborted, ReasonFenced}. x = Inr (unknownOutcome (fl_fencingToken (fc_all s ! p)) reason))"
proof -
  have right: "fencedRight s" unfolding assms(2) by (rule fencedRight_run [OF fencedRight_new [OF assms(1)]])
  have right1: "fencedRight s1" using fencedRight_validate [OF right, of sha input] assms(5) by simp
  define f where "f = fc_all s ! p"
  have live: "fl_phase f \<noteq> FlightCleaned" using fencedRight_flight [OF right assms(3)] assms(4) by (auto simp: flightRight_def f_def)
  have "latestCovers (fc_latestByResource s) f" using right assms(3) by (simp add: fencedRight_def f_def)
  with live obtain k token where latest: "map_of (fc_latestByResource s) (fl_resourceKey f) = Some (k, token)"
    "fl_fencingToken f \<le> token" "token = fl_fencingToken f \<Longrightarrow> k = fl_supersessionKey f" by (auto simp: latestCovers_def)
  have "token \<le> fc_nextFencingToken s" using right latest(1) by (auto simp: fencedRight_def tokensBelow_def)
  from assms(5) have "superseded p (fl_resourceKey f) (fl_fencingToken f) s1"
  proof (cases rule: fencedValidate_cases)
    case (flight q' key supersession request n)
    then have q: "q' = q" by simp
    from flight(2) show ?thesis
    proof (cases rule: joinFlight_cases)
      case joined
      then have "q < length (fc_all s)" using right by (auto simp: q fencedRight_def flightsExact_def)
      with assms(6) show ?thesis by simp
    next
      case (started res tok m g)
      have at_q: "fc_all s1 ! q = g" "fc_all s1 ! p = f" "p < length (fc_all s1)"
        using assms(3,6) by (simp_all add: started(10) q nth_append f_def)
      then have "res = fl_resourceKey f" "supersession \<noteq> fl_supersessionKey f" using assms(7,8) started(4,5) by (simp_all add: f_def)
      moreover from this have "fl_fencingToken f < tok"
        using started(9) latest \<open>token \<le> fc_nextFencingToken s\<close> by (cases "token = fl_fencingToken f") auto
      ultimately show ?thesis using at_q assms(4) by (simp add: superseded_def started(10) f_def)
    qed
  qed simp
  from superseded_run [OF this right1, of sha more_steps] assms(9) show ?thesis
    by (auto simp: superseded_def fencedAnswer_def f_def)
qed

section \<open>One validation at a time\<close>

text \<open>
  In every reachable coordinator the source is called at most once for a promise and is never
  working on one scope twice at the same time; a request for a scope in flight gets the promise of the
  flight and changes nothing.
\<close>

theorem one_validation_per_scope:
  assumes "newFencedCoordinator t = Inr start" and "s = fencedRun sha steps start"
  shows "distinct (map fst (fc_calls s)) \<and>
    (p < length (fc_all s) \<and> q < length (fc_all s) \<and> fl_phase (fc_all s ! p) = FlightRunning \<and> fl_phase (fc_all s ! q) = FlightRunning \<and>
       fl_key (fc_all s ! p) = fl_key (fc_all s ! q) \<longrightarrow> p = q) \<and>
    (p < length (fc_all s) \<and> fl_phase (fc_all s ! p) \<noteq> FlightCleaned \<longrightarrow>
       joinFlight (fl_key (fc_all s ! p)) supersession request s = (p, s))"
proof -
  have right: "fencedRight s" unfolding assms(2) by (rule fencedRight_run [OF fencedRight_new [OF assms(1)]])
  then have exact: "flightsExact (fc_all s) (fc_flights s)" and calls: "distinct (map fst (fc_calls s))"
    by (simp_all add: fencedRight_def callsOnce_def)
  have "p = q" if "p < length (fc_all s)" "q < length (fc_all s)" "fl_phase (fc_all s ! p) = FlightRunning" "fl_phase (fc_all s ! q) = FlightRunning"
    "fl_key (fc_all s ! p) = fl_key (fc_all s ! q)"
  proof -
    have "map_of (fc_flights s) (fl_key (fc_all s ! p)) = Some p" using flightsExactD [OF exact that(1)] that(3) by simp
    moreover have "map_of (fc_flights s) (fl_key (fc_all s ! q)) = Some q" using flightsExactD [OF exact that(2)] that(4) by simp
    ultimately show ?thesis using that(5) by (metis option.inject)
  qed
  moreover have "joinFlight (fl_key (fc_all s ! p)) supersession request s = (p, s)"
    if "p < length (fc_all s)" "fl_phase (fc_all s ! p) \<noteq> FlightCleaned"
    using flightsExactD [OF exact that] by (simp add: joinFlight_def)
  ultimately show ?thesis using calls by blast
qed

section \<open>Two versions of one resource\<close>

definition versionRequest :: "string \<Rightarrow> fenced_request" where
  "versionRequest token = \<lparr>fq_scope = None, fq_tenantId = Some ''t'', fq_resource = Some ''r'',
     fq_expectedVersion = Some \<lparr>vr_scheme = ''git'', vr_token = token\<rparr>, fq_signal = None, fq_timeoutMs = None\<rparr>"

definition emptyCoordinator :: "nat fenced_coordinator" where
  "emptyCoordinator = projr (newFencedCoordinator None)"

lemma emptyCoordinator_new: "newFencedCoordinator None = Inr emptyCoordinator"
  by (simp add: emptyCoordinator_def newFencedCoordinator_def checkTimeout_def)

definition oldOutcome :: "nat fenced_outcome" where
  "oldOutcome = \<lparr>fo_result = ResultUnchanged, fo_fencingToken = 1, fo_value = Some 3, fo_version = None, fo_reason = None\<rparr>"

definition oldInFlight :: "nat fenced_coordinator" where
  "oldInFlight = fencedRun id [RequestValidation (versionRequest ''1''), StartFlight 0] emptyCoordinator"

definition bothInFlight :: "nat fenced_coordinator" where
  "bothInFlight = snd (fencedValidate id (versionRequest ''2'') oldInFlight)"

definition replySteps :: "nat fenced_step list" where
  "replySteps = [StartFlight 1, SourceReplies 0 (Inr oldOutcome), CleanFlight 0]"

lemma both_run:
  "0 < length (fc_all oldInFlight)" "fl_settled (fc_all oldInFlight ! 0) = None"
  "fst (fencedValidate id (versionRequest ''2'') oldInFlight) = Inr 1" "1 = length (fc_all oldInFlight)"
  "fl_resourceKey (fc_all bothInFlight ! 1) = fl_resourceKey (fc_all oldInFlight ! 0)"
  "fl_supersessionKey (fc_all bothInFlight ! 1) \<noteq> fl_supersessionKey (fc_all oldInFlight ! 0)"
  "fl_settled (fc_all (fencedRun id replySteps bothInFlight) ! 0) = Some (Inr (unknownOutcome 1 ReasonFenced))"
  "fl_fencingToken (fc_all oldInFlight ! 0) = 1"
  by code_simp+

theorem superseded_validation_fenced_witness:
  "\<exists>reason \<in> {ReasonTimeout, ReasonAborted, ReasonFenced}.
     fl_settled (fc_all (fencedRun id replySteps bothInFlight) ! 0) = Some (Inr (unknownOutcome 1 reason))"
proof -
  have run: "fencedValidate id (versionRequest ''2'') oldInFlight = (Inr 1, bothInFlight)"
    using both_run(3) by (simp add: bothInFlight_def prod_eq_iff)
  from superseded_validation_fenced [OF emptyCoordinator_new oldInFlight_def both_run(1,2) run both_run(4-7)] both_run(7,8)
  show ?thesis by simp
qed

theorem one_validation_per_scope_witness:
  "distinct (map fst (fc_calls oldInFlight)) \<and> joinFlight (fl_key (fc_all oldInFlight ! 0)) [] request oldInFlight = (0, oldInFlight)"
proof -
  have "fl_phase (fc_all oldInFlight ! 0) \<noteq> FlightCleaned" by code_simp
  with one_validation_per_scope [OF emptyCoordinator_new oldInFlight_def, of 0 0 "[]" request] both_run(1) show ?thesis by blast
qed

end
