(* ===== verification/Journal.thy ===== *)
theory Journal
  imports Runtime_Store
begin

text \<open>
  \<open>packages/runtime-core/src/journal.ts\<close>: the audit journal, in memory and as a file of JSON lines.
  An entry of the file is the value its text reads back as; a line whose text is no JSON is \<open>BadLine\<close>,
  and a line says whether a line feed ends it. An append to the file may fail, which is an argument of
  the operation. \<open>dp\<close> is \<open>Date.parse\<close>, \<open>fmt\<close> the text of a number, \<open>sha\<close> SHA-256.
\<close>

section \<open>Entries\<close>

datatype journal_payload = JournalEvent jsvalue | JournalDecision string jsvalue

record journal_entry =
  jn_cursor :: int
  jn_tenantId :: string
  jn_payload :: journal_payload

record journal_checkpoint =
  jc_checkpointId :: string
  jc_cursor :: int
  jc_digest :: string
  jc_state :: jsvalue

definition nonEmptyText :: "jsvalue \<Rightarrow> bool" where
  "nonEmptyText v = (case v of JStr s \<Rightarrow> validText s | _ \<Rightarrow> False)"

definition assertNonEmpty :: "string \<Rightarrow> jsvalue \<Rightarrow> exn + unit" where
  "assertNonEmpty name v = guard (nonEmptyText v) (NotText name)"

definition assertCursor :: "string \<Rightarrow> jsvalue \<Rightarrow> exn + unit" where
  "assertCursor name v = guard (case safeInteger v of None \<Rightarrow> False | Some n \<Rightarrow> n \<ge> 0) (NotInRange name)"

definition assertJournalTime :: "(string \<Rightarrow> int option) \<Rightarrow> string \<Rightarrow> jsvalue \<Rightarrow> exn + unit" where
  "assertJournalTime dp name v = guard (case v of JStr s \<Rightarrow> dp s \<noteq> None | _ \<Rightarrow> False) (NotTimestamp name)"

definition assertDecision :: "jsvalue \<Rightarrow> exn + jsvalue" where
  "assertDecision v =
     (case v of
        JObj plain ps \<Rightarrow>
          andThen (assertNonEmpty ''decision.memoryId'' (property v ''memoryId'')) (\<lambda>_.
          andThen (assertNonEmpty ''decision.decision'' (property v ''decision'')) (\<lambda>_.
          andThen (if property v ''reason'' \<noteq> JUndefined then assertNonEmpty ''decision.reason'' (property v ''reason'') else Inr ()) (\<lambda>_.
            Inr (JObj True ps))))
      | JArr vs \<Rightarrow> Inl (NotText ''decision.memoryId'')
      | _ \<Rightarrow> Inl (NotText ''journal decision''))"

definition entryValue :: "journal_entry \<Rightarrow> jsvalue" where
  "entryValue e =
     (let cursor = (''cursor'', JNum (Finite (of_int (jn_cursor e)))); tenantId = (''tenantId'', JStr (jn_tenantId e)) in
      case jn_payload e of
        JournalEvent event \<Rightarrow> JObj True [(''kind'', JStr ''event''), cursor, tenantId, (''event'', event)]
      | JournalDecision occurredAt d \<Rightarrow>
          JObj True [(''kind'', JStr ''decision''), cursor, tenantId, (''occurredAt'', JStr occurredAt), (''decision'', d)])"

definition checkedEntry :: "(string \<Rightarrow> int option) \<Rightarrow> jsvalue \<Rightarrow> exn + journal_entry" where
  "checkedEntry dp v =
     (if v = JNull \<or> (case v of JObj plain ps \<Rightarrow> False | JArr vs \<Rightarrow> False | JNull \<Rightarrow> False | _ \<Rightarrow> True)
        then Inl (NotText ''journal entry'')
      else
        andThen (assertCursor ''cursor'' (property v ''cursor'')) (\<lambda>_.
        andThen (assertNonEmpty ''entry.tenantId'' (property v ''tenantId'')) (\<lambda>_.
        (let cursor = the (safeInteger (property v ''cursor'')); tenantId = textOf (property v ''tenantId'') in
         if property v ''kind'' = JStr ''event'' then
           andThen (cloneJson (property v ''event'')) (\<lambda>copy.
           (case parseV2Event dp copy of
              Inl issues \<Rightarrow> Inl invalidContract
            | Inr event \<Rightarrow>
                if property event ''tenantId'' \<noteq> JStr tenantId then Inl (Failure ''journal event tenant does not match entry tenant'')
                else Inr \<lparr>jn_cursor = cursor, jn_tenantId = tenantId, jn_payload = JournalEvent event\<rparr>))
         else if property v ''kind'' = JStr ''decision'' then
           andThen (assertJournalTime dp ''entry.occurredAt'' (property v ''occurredAt'')) (\<lambda>_.
           andThen (assertDecision (property v ''decision'')) (\<lambda>d.
             Inr \<lparr>jn_cursor = cursor, jn_tenantId = tenantId, jn_payload = JournalDecision (textOf (property v ''occurredAt'')) d\<rparr>))
         else Inl (NotText ''journal entry kind'')))))"

section \<open>Checkpoints\<close>

definition sha256Text :: "jsvalue \<Rightarrow> bool" where
  "sha256Text v = (case v of
     JStr s \<Rightarrow> length s = 71 \<and> take 7 s = ''sha256:'' \<and> list_all (\<lambda>c. c \<in> set ''0123456789abcdef'') (drop 7 s)
   | _ \<Rightarrow> False)"

definition digestState :: "(rat \<Rightarrow> string) \<Rightarrow> (string \<Rightarrow> string) \<Rightarrow> jsvalue \<Rightarrow> exn + string" where
  "digestState fmt sha v = andThen (canonicalJson fmt v) (\<lambda>t. Inr (''sha256:'' @ sha t))"

definition checkpointValue :: "journal_checkpoint \<Rightarrow> jsvalue" where
  "checkpointValue c = JObj True [(''checkpointId'', JStr (jc_checkpointId c)), (''cursor'', JNum (Finite (of_int (jc_cursor c)))),
     (''digest'', JStr (jc_digest c)), (''state'', jc_state c)]"

definition checkedCheckpoint :: "(rat \<Rightarrow> string) \<Rightarrow> (string \<Rightarrow> string) \<Rightarrow> jsvalue \<Rightarrow> exn + journal_checkpoint" where
  "checkedCheckpoint fmt sha v =
     (if (case v of JObj plain ps \<Rightarrow> False | JArr vs \<Rightarrow> False | _ \<Rightarrow> True) then Inl (NotText ''journal checkpoint'')
      else
        andThen (assertNonEmpty ''checkpoint.checkpointId'' (property v ''checkpointId'')) (\<lambda>_.
        andThen (assertCursor ''checkpoint.cursor'' (property v ''cursor'')) (\<lambda>_.
        andThen (guard (sha256Text (property v ''digest'')) (NotText ''checkpoint.digest'')) (\<lambda>_.
        andThen (cloneJson (property v ''state'')) (\<lambda>state.
        andThen (digestState fmt sha state) (\<lambda>digest.
        andThen (guard (JStr digest = property v ''digest'') (Failure ''journal checkpoint digest does not match state'')) (\<lambda>_.
          Inr \<lparr>jc_checkpointId = textOf (property v ''checkpointId''), jc_cursor = the (safeInteger (property v ''cursor'')),
               jc_digest = textOf (property v ''digest''), jc_state = state\<rparr>)))))))"

section \<open>Journals\<close>

record journal_event_index =
  ji_cursor :: int
  ji_eventId :: string
  ji_requestDigest :: string

datatype file_line = JsonLine jsvalue | BadLine | EmptyLine

record journal =
  jl_onDisk :: bool
  jl_entries :: "journal_entry list"
  jl_eventCursors :: "(string, journal_event_index) omap"
  jl_nextCursor :: int
  jl_lastCheckpoint :: "journal_checkpoint option"
  jl_lines :: "(file_line \<times> bool) list"
  jl_checkpointFile :: "jsvalue option"

definition newInMemoryJournal :: journal where
  "newInMemoryJournal = \<lparr>jl_onDisk = False, jl_entries = [], jl_eventCursors = [], jl_nextCursor = 1, jl_lastCheckpoint = None,
     jl_lines = [], jl_checkpointFile = None\<rparr>"

definition latestCursor :: "journal \<Rightarrow> int" where
  "latestCursor j = jl_nextCursor j - 1"

definition journalKey :: "string \<Rightarrow> string \<Rightarrow> string" where
  "journalKey tenantId idempotencyKey = tenantId @ [CHR 0x00] @ idempotencyKey"

text \<open>\<open>retainEntry\<close> and \<open>persistEntry\<close> of the two journals.\<close>

definition retainEntry :: "journal_entry \<Rightarrow> journal \<Rightarrow> journal" where
  "retainEntry e j = (if jl_onDisk j then j else j\<lparr>jl_entries := jl_entries j @ [e]\<rparr>)"

definition persistEntry :: "bool \<Rightarrow> journal_entry \<Rightarrow> journal \<Rightarrow> (exn + unit) \<times> journal" where
  "persistEntry writes e j =
     (if \<not> jl_onDisk j then (Inr (), j)
      else if writes then (Inr (), j\<lparr>jl_lines := jl_lines j @ [(JsonLine (copyValue (entryValue e)), True)]\<rparr>)
      else (Inl (Failure ''append''), j))"

definition appendEvent :: "(string \<Rightarrow> int option) \<Rightarrow> bool \<Rightarrow> jsvalue \<Rightarrow> journal \<Rightarrow> (exn + int) \<times> journal" where
  "appendEvent dp writes event j =
     (case cloneJson event of
        Inl e \<Rightarrow> (Inl e, j)
      | Inr copy \<Rightarrow>
         (case parseV2Event dp copy of
            Inl issues \<Rightarrow> (Inl invalidContract, j)
          | Inr parsed \<Rightarrow>
             (let tenantId = textOf (property parsed ''tenantId''); idempotencyKey = textOf (property parsed ''idempotencyKey'');
                  eventId = textOf (property parsed ''eventId''); requestDigest = textOf (property parsed ''requestDigest'');
                  key = journalKey tenantId idempotencyKey in
              case map_of (jl_eventCursors j) key of
                Some previous \<Rightarrow>
                  if ji_requestDigest previous \<noteq> requestDigest \<or> ji_eventId previous \<noteq> eventId
                  then (Inl (Failure (''Conflicting journal event: '' @ idempotencyKey)), j)
                  else (Inr (ji_cursor previous), j)
              | None \<Rightarrow>
                 (case checkedEntry dp (entryValue \<lparr>jn_cursor = jl_nextCursor j, jn_tenantId = tenantId, jn_payload = JournalEvent parsed\<rparr>) of
                    Inl e \<Rightarrow> (Inl e, j)
                  | Inr entry \<Rightarrow>
                     (let j1 = retainEntry entry (j\<lparr>jl_nextCursor := jl_nextCursor j + 1\<rparr>);
                          j2 = j1\<lparr>jl_eventCursors := omap_set key
                            \<lparr>ji_cursor = jn_cursor entry, ji_eventId = eventId, ji_requestDigest = requestDigest\<rparr> (jl_eventCursors j1)\<rparr>
                      in case persistEntry writes entry j2 of
                          (Inl e, j3) \<Rightarrow> (Inl e, j3)
                        | (Inr u, j3) \<Rightarrow> (Inr (jn_cursor entry), j3))))))"

definition appendDecision :: "(string \<Rightarrow> int option) \<Rightarrow> bool \<Rightarrow> string \<Rightarrow> jsvalue \<Rightarrow> string \<Rightarrow> journal \<Rightarrow> (exn + int) \<times> journal" where
  "appendDecision dp writes tenantId d occurredAt j =
     (case andThen (assertNonEmpty ''tenantId'' (JStr tenantId)) (\<lambda>_.
           andThen (assertJournalTime dp ''occurredAt'' (JStr occurredAt)) (\<lambda>_.
             checkedEntry dp (entryValue \<lparr>jn_cursor = jl_nextCursor j, jn_tenantId = tenantId, jn_payload = JournalDecision occurredAt d\<rparr>))) of
        Inl e \<Rightarrow> (Inl e, j)
      | Inr entry \<Rightarrow>
         (case persistEntry writes entry (retainEntry entry (j\<lparr>jl_nextCursor := jl_nextCursor j + 1\<rparr>)) of
            (Inl e, j1) \<Rightarrow> (Inl e, j1)
          | (Inr u, j1) \<Rightarrow> (Inr (jn_cursor entry), j1)))"

section \<open>Reading\<close>

definition readOptions :: "string option \<Rightarrow> jsnum option \<Rightarrow> exn + unit" where
  "readOptions tenantId limit =
     andThen (case tenantId of None \<Rightarrow> Inr () | Some t \<Rightarrow> assertNonEmpty ''tenantId'' (JStr t)) (\<lambda>_.
       case limit of None \<Rightarrow> Inr () | Some n \<Rightarrow> guard (isSafeInteger n \<and> int_of n \<ge> 1) (NotInRange ''journal limit''))"

definition wanted :: "int \<Rightarrow> string option \<Rightarrow> journal_entry \<Rightarrow> bool" where
  "wanted cursor tenantId e = (jn_cursor e > cursor \<and> (tenantId = None \<or> tenantId = Some (jn_tenantId e)))"

text \<open>The pages of the file journal are read from the file; a limit ends the loop.\<close>

fun readLines :: "(string \<Rightarrow> int option) \<Rightarrow> int \<Rightarrow> string option \<Rightarrow> nat option \<Rightarrow> journal_entry list \<Rightarrow> (file_line \<times> bool) list
    \<Rightarrow> exn + journal_entry list" where
  "readLines dp cursor tenantId maxEntries acc [] = Inr acc"
| "readLines dp cursor tenantId maxEntries acc ((EmptyLine, t) # ls) = readLines dp cursor tenantId maxEntries acc ls"
| "readLines dp cursor tenantId maxEntries acc ((BadLine, t) # ls) = Inl (Failure ''JSON'')"
| "readLines dp cursor tenantId maxEntries acc ((JsonLine v, t) # ls) =
     andThen (checkedEntry dp v) (\<lambda>e.
       if \<not> wanted cursor tenantId e then readLines dp cursor tenantId maxEntries acc ls
       else if (case maxEntries of None \<Rightarrow> False | Some m \<Rightarrow> length (acc @ [e]) \<ge> m) then Inr (acc @ [e])
       else readLines dp cursor tenantId maxEntries (acc @ [e]) ls)"

definition readEntries :: "(string \<Rightarrow> int option) \<Rightarrow> int \<Rightarrow> string option \<Rightarrow> nat option \<Rightarrow> journal \<Rightarrow> exn + journal_entry list" where
  "readEntries dp cursor tenantId maxEntries j =
     (if jl_onDisk j then readLines dp cursor tenantId maxEntries [] (jl_lines j)
      else let filtered = filter (wanted cursor tenantId) (jl_entries j) in
        Inr (case maxEntries of None \<Rightarrow> filtered | Some m \<Rightarrow> take m filtered))"

definition limitOf :: "jsnum \<Rightarrow> nat" where
  "limitOf n = nat (int_of n)"

definition readFrom :: "(string \<Rightarrow> int option) \<Rightarrow> jsnum \<Rightarrow> string option \<Rightarrow> jsnum option \<Rightarrow> journal \<Rightarrow> exn + jsvalue list" where
  "readFrom dp cursor tenantId limit j =
     andThen (guard (validTime cursor) (NotInRange ''cursor'')) (\<lambda>_.
     andThen (readOptions tenantId limit) (\<lambda>_.
     andThen (readEntries dp (int_of cursor) tenantId (map_option limitOf limit) j) (\<lambda>es.
       Inr (map (\<lambda>e. copyValue (entryValue e)) es))))"

record journal_page =
  jp_entries :: "jsvalue list"
  jp_nextCursor :: int
  jp_hasMore :: bool

definition readPage :: "(string \<Rightarrow> int option) \<Rightarrow> jsnum \<Rightarrow> string option \<Rightarrow> jsnum option \<Rightarrow> journal \<Rightarrow> exn + journal_page" where
  "readPage dp cursor tenantId limit j =
     andThen (guard (validTime cursor) (NotInRange ''cursor'')) (\<lambda>_.
     (case limit of
        None \<Rightarrow> Inl (NotText ''journal page limit'')
      | Some l \<Rightarrow>
          andThen (readOptions tenantId limit) (\<lambda>_.
          (let scanLimit = (if int_of l = MAX_SAFE_INTEGER then limitOf l else limitOf l + 1) in
           andThen (readEntries dp (int_of cursor) tenantId (Some scanLimit) j) (\<lambda>selected.
             (let hasMore = length selected > limitOf l; es = (if hasMore then take (limitOf l) selected else selected) in
              Inr \<lparr>jp_entries = map (\<lambda>e. copyValue (entryValue e)) es,
                   jp_nextCursor = (if es = [] then int_of cursor else jn_cursor (last es)), jp_hasMore = hasMore\<rparr>))))))"

section \<open>Checkpoints and recovery\<close>

definition journalCheckpoint :: "(rat \<Rightarrow> string) \<Rightarrow> (string \<Rightarrow> string) \<Rightarrow> jsvalue \<Rightarrow> journal \<Rightarrow> (exn + unit) \<times> journal" where
  "journalCheckpoint fmt sha value j =
     (case checkedCheckpoint fmt sha value of
        Inl e \<Rightarrow> (Inl e, j)
      | Inr checked \<Rightarrow>
          if jc_cursor checked > latestCursor j then (Inl (NotInRange ''checkpoint cursor is ahead of the journal''), j)
          else if (case jl_lastCheckpoint j of None \<Rightarrow> False | Some c \<Rightarrow> jc_cursor checked < jc_cursor c)
            then (Inl (NotInRange ''checkpoint cursor cannot move backwards''), j)
          else (Inr (), j\<lparr>jl_lastCheckpoint := Some checked,
            jl_checkpointFile := (if jl_onDisk j then Some (copyValue (checkpointValue checked)) else jl_checkpointFile j)\<rparr>))"

definition latestCheckpoint :: "journal \<Rightarrow> jsvalue option" where
  "latestCheckpoint j = map_option (\<lambda>c. copyValue (checkpointValue c)) (jl_lastCheckpoint j)"

definition indexEntry :: "journal_entry \<Rightarrow> (string, journal_event_index) omap \<Rightarrow> (string, journal_event_index) omap" where
  "indexEntry e cursors =
     (case jn_payload e of
        JournalEvent event \<Rightarrow> omap_set (journalKey (jn_tenantId e) (textOf (property event ''idempotencyKey'')))
          \<lparr>ji_cursor = jn_cursor e, ji_eventId = textOf (property event ''eventId''), ji_requestDigest = textOf (property event ''requestDigest'')\<rparr>
          cursors
      | JournalDecision occurredAt d \<Rightarrow> cursors)"

text \<open>
  The lines of an existing file: a last line that no line feed ends is truncated when it is not a
  valid entry, and gets its line feed when it is; any other bad line throws.
\<close>

fun loadLines :: "(string \<Rightarrow> int option) \<Rightarrow> int \<Rightarrow> (string, journal_event_index) omap \<Rightarrow> (file_line \<times> bool) list \<Rightarrow> (file_line \<times> bool) list
    \<Rightarrow> exn + int \<times> (string, journal_event_index) omap \<times> (file_line \<times> bool) list" where
  "loadLines dp n cursors kept [] = Inr (n, cursors, kept)"
| "loadLines dp n cursors kept ((EmptyLine, t) # ls) = loadLines dp n cursors (kept @ [(EmptyLine, t)]) ls"
| "loadLines dp n cursors kept ((BadLine, t) # ls) = (if t then Inl (Failure ''JSON'') else Inr (n, cursors, kept))"
| "loadLines dp n cursors kept ((JsonLine v, t) # ls) =
     (case andThen (checkedEntry dp v) (\<lambda>e.
         if jn_cursor e \<noteq> n then Inl (Failure ''journal cursors must be contiguous'') else Inr e) of
        Inl x \<Rightarrow> (if t then Inl x else Inr (n, cursors, kept))
      | Inr e \<Rightarrow> loadLines dp (n + 1) (indexEntry e cursors) (kept @ [(JsonLine v, True)]) ls)"

definition loadJournal :: "(string \<Rightarrow> int option) \<Rightarrow> (rat \<Rightarrow> string) \<Rightarrow> (string \<Rightarrow> string) \<Rightarrow> (file_line \<times> bool) list \<Rightarrow> jsvalue option
    \<Rightarrow> exn + journal" where
  "loadJournal dp fmt sha ls checkpointFile =
     andThen (loadLines dp 1 [] [] ls) (\<lambda>(n, cursors, kept).
     andThen (case checkpointFile of None \<Rightarrow> Inr None | Some v \<Rightarrow> andThen (checkedCheckpoint fmt sha v) (\<lambda>c. Inr (Some c))) (\<lambda>lastCheckpoint.
     andThen (guard (case lastCheckpoint of None \<Rightarrow> True | Some c \<Rightarrow> jc_cursor c \<le> n - 1)
         (Failure ''journal checkpoint is ahead of journal history'')) (\<lambda>_.
       Inr \<lparr>jl_onDisk = True, jl_entries = [], jl_eventCursors = cursors, jl_nextCursor = n, jl_lastCheckpoint = lastCheckpoint,
            jl_lines = kept, jl_checkpointFile = checkpointFile\<rparr>)))"

section \<open>Operations in sequence\<close>

datatype journal_op = AppendEvent jsvalue | AppendDecision string jsvalue string | TakeCheckpoint jsvalue

text \<open>The cursor an operation returns, 0 for a checkpoint.\<close>

fun journalStep :: "(string \<Rightarrow> int option) \<Rightarrow> (rat \<Rightarrow> string) \<Rightarrow> (string \<Rightarrow> string) \<Rightarrow> journal_op \<Rightarrow> journal \<Rightarrow> (exn + int) \<times> journal" where
  "journalStep dp fmt sha (AppendEvent event) j = appendEvent dp True event j"
| "journalStep dp fmt sha (AppendDecision tenantId d occurredAt) j = appendDecision dp True tenantId d occurredAt j"
| "journalStep dp fmt sha (TakeCheckpoint value) j =
     (case journalCheckpoint fmt sha value j of (Inl e, j1) \<Rightarrow> (Inl e, j1) | (Inr u, j1) \<Rightarrow> (Inr 0, j1))"

definition journalRun :: "(string \<Rightarrow> int option) \<Rightarrow> (rat \<Rightarrow> string) \<Rightarrow> (string \<Rightarrow> string) \<Rightarrow> journal_op list \<Rightarrow> journal \<Rightarrow> journal" where
  "journalRun dp fmt sha ops j = fold (\<lambda>a j. snd (journalStep dp fmt sha a j)) ops j"

text \<open>The properties of a decision object have different names, as those of every object have.\<close>

fun objectNames :: "jsvalue \<Rightarrow> bool" where
  "objectNames (JObj plain ps) = distinct (map fst ps)"
| "objectNames v = True"

fun properOp :: "journal_op \<Rightarrow> bool" where
  "properOp (AppendDecision tenantId d occurredAt) = objectNames d"
| "properOp a = True"

section \<open>Entries and their JSON copies\<close>

definition goodEntry :: "(string \<Rightarrow> int option) \<Rightarrow> journal_entry \<Rightarrow> bool" where
  "goodEntry dp e = (0 \<le> jn_cursor e \<and> jn_cursor e \<le> MAX_SAFE_INTEGER \<and> validText (jn_tenantId e) \<and>
     (case jn_payload e of
        JournalEvent event \<Rightarrow> jsonCopy event = Some event \<and> parseV2Event dp event = Inr event \<and> property event ''tenantId'' = JStr (jn_tenantId e)
      | JournalDecision occurredAt d \<Rightarrow> dp occurredAt \<noteq> None \<and> assertDecision d = Inr d))"

definition copyEntry :: "journal_entry \<Rightarrow> journal_entry" where
  "copyEntry e = e\<lparr>jn_payload := (case jn_payload e of JournalEvent event \<Rightarrow> JournalEvent event
     | JournalDecision occurredAt d \<Rightarrow> JournalDecision occurredAt (copyValue d))\<rparr>"

lemma parseV2Event_same: "parseV2Event dp v = Inr w \<Longrightarrow> w = v"
  by (simp add: parseV2Event_def Let_def split: if_splits)

lemma copied_event: "jsonCopy a = Some b \<Longrightarrow> parseV2Event dp b = Inr c \<Longrightarrow> jsonCopy c = Some c \<and> parseV2Event dp c = Inr c"
  using parseV2Event_same [of dp b c] by (auto dest: jsonCopy_idem)

lemma assertDecision_idem: "assertDecision d = Inr d' \<Longrightarrow> assertDecision d' = Inr d'"
  by (cases d) (auto simp: assertDecision_def andThen_Inr_iff property_def split: if_splits)

lemma safeInteger_Some: "safeInteger v = Some n \<Longrightarrow> \<bar>n\<bar> \<le> MAX_SAFE_INTEGER"
  by (auto simp: safeInteger_def MAX_SAFE_INTEGER_def split: jsvalue.splits js_number.splits if_splits)

lemma safeInteger_int: "\<bar>n\<bar> \<le> MAX_SAFE_INTEGER \<Longrightarrow> safeInteger (JNum (Finite (of_int n))) = Some n"
  by (simp add: safeInteger_def)

lemma checkedEntry_good:
  assumes "checkedEntry dp v = Inr e"
  shows "goodEntry dp e \<and> safeInteger (property v ''cursor'') = Some (jn_cursor e)"
  using assms
  by (auto simp: checkedEntry_def andThen_Inr_iff Let_def assertCursor_def assertNonEmpty_def nonEmptyText_def assertJournalTime_def
      goodEntry_def cloneJson_def textOf_def
      split: if_splits option.splits sum.splits jsvalue.splits
      dest: safeInteger_Some copied_event assertDecision_idem)

lemma property_simps [simp]:
  "property (JObj plain []) k = JUndefined" "property (JObj plain ((a, v) # ps)) k = (if k = a then v else property (JObj plain ps) k)"
  by (simp_all add: property_def)

lemma good_checked: "goodEntry dp e \<Longrightarrow> checkedEntry dp (entryValue e) = Inr e"
  by (cases e; cases "jn_payload e")
    (auto simp: goodEntry_def checkedEntry_def entryValue_def Let_def assertCursor_def assertNonEmpty_def nonEmptyText_def assertJournalTime_def
      cloneJson_def textOf_def safeInteger_int)

lemma copy_property:
  assumes "distinct (map fst ps)"
  shows "property (copyValue (JObj plain ps)) k = (case map_of ps k of None \<Rightarrow> JUndefined | Some v \<Rightarrow> copyValue v)"
proof -
  let ?c = "\<lambda>(k, v). case jsonCopy v of None \<Rightarrow> [] | Some w \<Rightarrow> [(k, w)]"
  have "map_of (concat (map ?c ps)) k = Option.bind (map_of ps k) jsonCopy"
    using assms
  proof (induction ps)
    case (Cons p ps)
    obtain a v where p: "p = (a, v)" by (cases p)
    have none: "map_of ps a = None" using Cons.prems p by (simp add: map_of_eq_None_iff)
    with Cons p show ?case by (cases "jsonCopy v") auto
  qed simp
  then show ?thesis by (simp add: property_def copyValue_def split: option.splits bind_splits)
qed

lemma copyValue_JStr [simp]: "copyValue (JStr t) = JStr t"
  by (simp add: copyValue_def)

lemma copyValue_JUndefined [simp]: "copyValue JUndefined = JUndefined"
  by (simp add: copyValue_def)

lemma decision_copied:
  assumes "assertDecision d = Inr d" and "objectNames d"
  shows "assertDecision (copyValue d) = Inr (copyValue d)" and "jsonCopy d = Some (copyValue d)" and "objectNames (copyValue d)"
proof -
  obtain ps where d: "d = JObj True ps" using assms(1) by (cases d) (auto simp: assertDecision_def andThen_Inr_iff split: if_splits)
  have names: "distinct (map fst ps)" using assms(2) d by simp
  obtain qs where copy: "copyValue d = JObj True qs" "jsonCopy d = Some (JObj True qs)" using d by (simp add: copyValue_def)
  have at_k: "property (JObj True qs) k = copyValue (property d k)" for k
    using copy_property [OF names, of True k] copy(1) d by (auto simp: property_def split: option.splits)
  have "assertDecision (JObj True qs) = Inr (JObj True qs)"
    using assms(1) unfolding d [symmetric]
    by (auto simp: assertDecision_def d at_k [unfolded d] andThen_Inr_iff assertNonEmpty_def nonEmptyText_def split: jsvalue.splits if_splits)
  then show "assertDecision (copyValue d) = Inr (copyValue d)" by (simp add: copy)
  show "jsonCopy d = Some (copyValue d)" by (simp add: copy)
  define copied :: "(string \<times> jsvalue) list \<Rightarrow> (string \<times> jsvalue) list" where "copied = (\<lambda>xs. concat (map (\<lambda>(k, v). case jsonCopy v of None \<Rightarrow> [] | Some w \<Rightarrow> [(k, w)]) xs))"
  have step: "copied [] = []" "copied ((a, v) # xs) = (case jsonCopy v of None \<Rightarrow> [] | Some w \<Rightarrow> [(a, w)]) @ copied xs" for a v xs
    by (simp_all add: copied_def)
  have "distinct (map fst xs) \<Longrightarrow> distinct (map fst (copied xs)) \<and> fst ` set (copied xs) \<subseteq> fst ` set xs" for xs
  proof (induction xs)
    case (Cons p xs)
    obtain a v where p: "p = (a, v)" by (cases p)
    from Cons p show ?case by (cases "jsonCopy v") (auto simp: step)
  qed (simp add: step)
  moreover have "copyValue d = JObj True (copied ps)" by (simp add: d copyValue_def copied_def)
  ultimately show "objectNames (copyValue d)" using names by simp
qed

definition namedEntry :: "journal_entry \<Rightarrow> bool" where
  "namedEntry e = (case jn_payload e of JournalEvent event \<Rightarrow> True | JournalDecision occurredAt d \<Rightarrow> objectNames d)"

lemma entry_copied:
  assumes "goodEntry dp e" and "namedEntry e"
  shows "copyValue (entryValue e) = entryValue (copyEntry e)" and "goodEntry dp (copyEntry e)" and "copyEntry (copyEntry e) = copyEntry e"
    and "copyValue (entryValue (copyEntry e)) = copyValue (entryValue e)"
proof -
  show one: "copyValue (entryValue e) = entryValue (copyEntry e)"
    using assms by (cases "jn_payload e")
      (auto simp: copyEntry_def entryValue_def Let_def goodEntry_def namedEntry_def decision_copied(2) copyValue_def [of "JObj p ps" for p ps])
  show "goodEntry dp (copyEntry e)"
    using assms by (cases "jn_payload e") (auto simp: copyEntry_def goodEntry_def namedEntry_def decision_copied(1))
  show "copyEntry (copyEntry e) = copyEntry e" by (cases "jn_payload e") (simp_all add: copyEntry_def)
  show "copyValue (entryValue (copyEntry e)) = copyValue (entryValue e)" using one by (metis copyValue_idem)
qed

lemma read_back: "goodEntry dp e \<Longrightarrow> namedEntry e \<Longrightarrow> checkedEntry dp (copyValue (entryValue e)) = Inr (copyEntry e)"
  by (simp add: entry_copied(1) good_checked entry_copied(2))

lemma copyEntry_same: "jn_cursor (copyEntry e) = jn_cursor e" "wanted c t (copyEntry e) = wanted c t e" "indexEntry (copyEntry e) = indexEntry e"
  by (auto simp: copyEntry_def wanted_def indexEntry_def fun_eq_iff split: journal_payload.splits)

section \<open>What a journal stands for\<close>

text \<open>
  The abstract journal: the entries, numbered from 1, and the last checkpoint. \<open>journalOf\<close> is the state
  in which either journal holds them.
\<close>

definition entryLine :: "journal_entry \<Rightarrow> file_line \<times> bool" where
  "entryLine e = (JsonLine (copyValue (entryValue e)), True)"

definition journalOf :: "bool \<Rightarrow> journal_entry list \<Rightarrow> journal_checkpoint option \<Rightarrow> journal" where
  "journalOf onDisk es c =
     \<lparr>jl_onDisk = onDisk, jl_entries = (if onDisk then [] else es), jl_eventCursors = fold indexEntry es [], jl_nextCursor = int (length es) + 1,
      jl_lastCheckpoint = c, jl_lines = (if onDisk then map entryLine es else []),
      jl_checkpointFile = (if onDisk then map_option (\<lambda>c. copyValue (checkpointValue c)) c else None)\<rparr>"

definition numbered :: "journal_entry list \<Rightarrow> bool" where
  "numbered es = (map jn_cursor es = map (\<lambda>i. 1 + int i) [0..<length es])"

definition checkpointRight :: "(rat \<Rightarrow> string) \<Rightarrow> (string \<Rightarrow> string) \<Rightarrow> int \<Rightarrow> journal_checkpoint option \<Rightarrow> bool" where
  "checkpointRight fmt sha n c = (\<forall>p. c = Some p \<longrightarrow> jc_cursor p \<le> n \<and> checkedCheckpoint fmt sha (copyValue (checkpointValue p)) = Inr p)"

definition entriesRight :: "(string \<Rightarrow> int option) \<Rightarrow> journal_entry list \<Rightarrow> bool" where
  "entriesRight dp es = (numbered es \<and> (\<forall>e \<in> set es. goodEntry dp e \<and> namedEntry e))"

lemma entriesRight_Nil [simp]: "entriesRight dp []"
  by (simp add: entriesRight_def numbered_def)

lemma entriesRight_snoc:
  "entriesRight dp es \<Longrightarrow> goodEntry dp e \<Longrightarrow> namedEntry e \<Longrightarrow> jn_cursor e = int (length es) + 1 \<Longrightarrow> entriesRight dp (es @ [e])"
  by (simp add: entriesRight_def numbered_def)

lemma checkedCheckpoint_copied:
  assumes "checkedCheckpoint fmt sha v = Inr p"
  shows "checkedCheckpoint fmt sha (copyValue (checkpointValue p)) = Inr p"
proof -
  have p: "0 \<le> jc_cursor p" "jc_cursor p \<le> MAX_SAFE_INTEGER" "validText (jc_checkpointId p)" "sha256Text (JStr (jc_digest p))"
    "jsonCopy (jc_state p) = Some (jc_state p)" "digestState fmt sha (jc_state p) = Inr (jc_digest p)"
    using assms
    by (auto simp: checkedCheckpoint_def andThen_Inr_iff assertCursor_def assertNonEmpty_def nonEmptyText_def cloneJson_def textOf_def
        split: if_splits option.splits jsvalue.splits dest: safeInteger_Some jsonCopy_idem)
  have "copyValue (checkpointValue p) = checkpointValue p" using p(5) by (simp add: copyValue_def checkpointValue_def)
  moreover have "checkedCheckpoint fmt sha (checkpointValue p) = Inr p"
    using p by (simp add: checkedCheckpoint_def checkpointValue_def assertCursor_def assertNonEmpty_def nonEmptyText_def cloneJson_def textOf_def
        safeInteger_int)
  ultimately show ?thesis by simp
qed

text \<open>Every operation does the same to both journals.\<close>

definition stepsAlike :: "(string \<Rightarrow> int option) \<Rightarrow> (rat \<Rightarrow> string) \<Rightarrow> (string \<Rightarrow> string) \<Rightarrow> (journal \<Rightarrow> (exn + int) \<times> journal) \<Rightarrow>
    journal_entry list \<Rightarrow> journal_checkpoint option \<Rightarrow> bool" where
  "stepsAlike dp fmt sha f es c = (\<exists>x es' c'. (\<forall>onDisk. f (journalOf onDisk es c) = (x, journalOf onDisk es' c')) \<and>
     entriesRight dp es' \<and> checkpointRight fmt sha (int (length es')) c')"

lemma stepsAlikeI:
  "(\<And>onDisk. f (journalOf onDisk es c) = (x, journalOf onDisk es' c')) \<Longrightarrow> entriesRight dp es' \<Longrightarrow>
   checkpointRight fmt sha (int (length es')) c' \<Longrightarrow> stepsAlike dp fmt sha f es c"
  unfolding stepsAlike_def by blast

lemma journalOf_append:
  "persistEntry True e (retainEntry e ((journalOf onDisk es c)\<lparr>jl_nextCursor := int (length es) + 1 + 1\<rparr>)) =
     (Inr (), (journalOf onDisk (es @ [e]) c)\<lparr>jl_eventCursors := fold indexEntry es []\<rparr>)"
  by (simp add: journalOf_def persistEntry_def retainEntry_def entryLine_def)

lemma checkpointRight_more: "checkpointRight fmt sha n c \<Longrightarrow> n \<le> m \<Longrightarrow> checkpointRight fmt sha m c"
  by (auto simp: checkpointRight_def)

lemma safeInteger_next: "safeInteger (JNum (Finite (rat_of_nat n + 1))) = Some m \<Longrightarrow> m = int n + 1"
  by (auto simp: safeInteger_def split: if_splits)

lemma appendEvent_alike:
  assumes es: "entriesRight dp es" and c: "checkpointRight fmt sha (int (length es)) c"
  shows "stepsAlike dp fmt sha (appendEvent dp True event) es c"
proof -
  have cursors: "jl_eventCursors (journalOf onDisk es c) = fold indexEntry es []" and nextCursor: "jl_nextCursor (journalOf onDisk es c) = int (length es) + 1"
    for onDisk by (simp_all add: journalOf_def)
  note same = stepsAlikeI [where es' = es and c' = c, OF _ es c]
  show ?thesis
  proof (cases "cloneJson event")
    case (Inl e)
    show ?thesis by (rule same [where x = "Inl e"]) (simp add: appendEvent_def Inl)
  next
    case (Inr copy)
    show ?thesis
    proof (cases "parseV2Event dp copy")
      case (Inl issues)
      show ?thesis by (rule same [where x = "Inl invalidContract"]) (simp add: appendEvent_def Inl \<open>cloneJson event = Inr copy\<close>)
    next
      case (Inr parsed)
      define tenantId where "tenantId = textOf (property parsed ''tenantId'')"
      define key where "key = journalKey tenantId (textOf (property parsed ''idempotencyKey''))"
      define entry where "entry = \<lparr>jn_cursor = int (length es) + 1, jn_tenantId = tenantId, jn_payload = JournalEvent parsed\<rparr>"
      note run = appendEvent_def [of dp True event] \<open>cloneJson event = Inr copy\<close> Inr
      show ?thesis
      proof (cases "map_of (fold indexEntry es []) key")
        case (Some previous)
        show ?thesis
          by (rule same [where x = "if ji_requestDigest previous \<noteq> textOf (property parsed ''requestDigest'') \<or>
              ji_eventId previous \<noteq> textOf (property parsed ''eventId'')
            then Inl (Failure (''Conflicting journal event: '' @ textOf (property parsed ''idempotencyKey'')))
            else Inr (ji_cursor previous)"])
            (simp add: run Let_def cursors Some [unfolded key_def tenantId_def])
      next
        case None
        show ?thesis
        proof (cases "checkedEntry dp (entryValue entry)")
          case (Inl e)
          show ?thesis
            by (rule same [where x = "Inl e"])
              (simp add: run Let_def cursors nextCursor None [unfolded key_def tenantId_def] Inl [unfolded entry_def tenantId_def])
        next
          case (Inr found)
          have "found = entry"
          proof -
            have "jsonCopy parsed = Some parsed" using \<open>cloneJson event = Inr copy\<close> \<open>parseV2Event dp copy = Inr parsed\<close>
              by (auto simp: cloneJson_def split: option.splits dest: copied_event)
            then show ?thesis using Inr
              by (auto simp: checkedEntry_def entryValue_def entry_def Let_def andThen_Inr_iff assertCursor_def cloneJson_def textOf_def
                  split: option.splits sum.splits if_splits dest: parseV2Event_same safeInteger_next)
          qed
          with Inr have good: "goodEntry dp entry" "checkedEntry dp (entryValue entry) = Inr entry" using checkedEntry_good by auto
          have "namedEntry entry" by (simp add: namedEntry_def entry_def)
          with es good(1) have right: "entriesRight dp (es @ [entry])" by (simp add: entriesRight_snoc entry_def)
          have index: "fold indexEntry (es @ [entry]) [] = omap_set key \<lparr>ji_cursor = int (length es) + 1,
              ji_eventId = textOf (property parsed ''eventId''), ji_requestDigest = textOf (property parsed ''requestDigest'')\<rparr> (fold indexEntry es [])"
            by (simp add: indexEntry_def entry_def key_def)
          show ?thesis
            by (rule stepsAlikeI [where x = "Inr (int (length es) + 1)", OF _ right checkpointRight_more [OF c]])
              (simp_all add: run Let_def cursors nextCursor None [unfolded key_def tenantId_def] good(2) [unfolded entry_def tenantId_def]
                journalOf_def retainEntry_def persistEntry_def entryLine_def index [unfolded key_def tenantId_def] entry_def [unfolded tenantId_def]
                indexEntry_def)
        qed
      qed
    qed
  qed
qed

lemma appendDecision_alike:
  assumes es: "entriesRight dp es" and c: "checkpointRight fmt sha (int (length es)) c" and names: "objectNames d"
  shows "stepsAlike dp fmt sha (appendDecision dp True tenantId d occurredAt) es c"
proof -
  have nextCursor: "jl_nextCursor (journalOf onDisk es c) = int (length es) + 1" for onDisk by (simp add: journalOf_def)
  define given where "given = \<lparr>jn_cursor = int (length es) + 1, jn_tenantId = tenantId, jn_payload = JournalDecision occurredAt d\<rparr>"
  define checked where "checked = andThen (assertNonEmpty ''tenantId'' (JStr tenantId)) (\<lambda>_.
     andThen (assertJournalTime dp ''occurredAt'' (JStr occurredAt)) (\<lambda>_. checkedEntry dp (entryValue given)))"
  have run: "appendDecision dp True tenantId d occurredAt (journalOf onDisk es c) =
     (case checked of Inl e \<Rightarrow> (Inl e, journalOf onDisk es c)
      | Inr entry \<Rightarrow> (case persistEntry True entry (retainEntry entry ((journalOf onDisk es c)\<lparr>jl_nextCursor := int (length es) + 1 + 1\<rparr>)) of
          (Inl e, j1) \<Rightarrow> (Inl e, j1) | (Inr u, j1) \<Rightarrow> (Inr (jn_cursor entry), j1)))" for onDisk
    unfolding appendDecision_def nextCursor checked_def given_def by (rule refl)
  show ?thesis
  proof (cases checked)
    case (Inl e)
    show ?thesis by (rule stepsAlikeI [where es' = es and c' = c and x = "Inl e", OF _ es c]) (simp add: run Inl)
  next
    case (Inr entry)
    then have "checkedEntry dp (entryValue given) = Inr entry" by (auto simp: checked_def andThen_Inr_iff)
    moreover from this obtain ps where "d = JObj True ps \<or> d = JObj False ps" "jn_payload entry = JournalDecision occurredAt (JObj True ps)"
        "jn_cursor entry = int (length es) + 1"
      by (cases d) (auto simp: checkedEntry_def entryValue_def given_def Let_def andThen_Inr_iff assertCursor_def assertDecision_def textOf_def
          assertJournalTime_def split: if_splits option.splits dest: safeInteger_next)
    ultimately have entry: "goodEntry dp entry" "namedEntry entry" "jn_cursor entry = int (length es) + 1" "indexEntry entry = id"
      using checkedEntry_good names by (auto simp: namedEntry_def indexEntry_def)
    have right: "entriesRight dp (es @ [entry])" by (rule entriesRight_snoc [OF es entry(1-3)])
    show ?thesis
      by (rule stepsAlikeI [where x = "Inr (int (length es) + 1)", OF _ right checkpointRight_more [OF c]])
        (simp_all only: run Inr sum.case journalOf_append prod.case entry(3), simp_all add: journalOf_def entry(4))
  qed
qed

lemma checkpoint_alike:
  assumes es: "entriesRight dp es" and c: "checkpointRight fmt sha (int (length es)) c"
  shows "stepsAlike dp fmt sha (journalStep dp fmt sha (TakeCheckpoint value)) es c"
proof -
  have last: "latestCursor (journalOf onDisk es c) = int (length es)" "jl_lastCheckpoint (journalOf onDisk es c) = c" for onDisk
    by (simp_all add: latestCursor_def journalOf_def)
  note same = stepsAlikeI [where es' = es and c' = c, OF _ es c]
  show ?thesis
  proof (cases "checkedCheckpoint fmt sha value")
    case (Inl e)
    show ?thesis by (rule same [where x = "Inl e"]) (simp add: journalCheckpoint_def Inl)
  next
    case (Inr p)
    consider "jc_cursor p > int (length es)" | "\<not> jc_cursor p > int (length es)" "case c of None \<Rightarrow> False | Some q \<Rightarrow> jc_cursor p < jc_cursor q"
      | "\<not> jc_cursor p > int (length es)" "\<not> (case c of None \<Rightarrow> False | Some q \<Rightarrow> jc_cursor p < jc_cursor q)" by blast
    then show ?thesis
    proof cases
      case 1
      show ?thesis
        by (rule same [where x = "Inl (NotInRange ''checkpoint cursor is ahead of the journal'')"]) (use 1 in \<open>simp add: journalCheckpoint_def Inr last\<close>)
    next
      case 2
      show ?thesis
        by (rule same [where x = "Inl (NotInRange ''checkpoint cursor cannot move backwards'')"]) (use 2 in \<open>simp add: journalCheckpoint_def Inr last\<close>)
    next
      case 3
      have right: "checkpointRight fmt sha (int (length es)) (Some p)"
        using 3(1) checkedCheckpoint_copied [OF Inr] by (simp add: checkpointRight_def)
      show ?thesis
        by (rule stepsAlikeI [where es' = es and c' = "Some p" and x = "Inr 0", OF _ es right])
          (use 3 in \<open>simp add: journalCheckpoint_def Inr last\<close>, simp add: journalOf_def)
    qed
  qed
qed

lemma journalStep_alike:
  "entriesRight dp es \<Longrightarrow> checkpointRight fmt sha (int (length es)) c \<Longrightarrow> properOp a \<Longrightarrow> stepsAlike dp fmt sha (journalStep dp fmt sha a) es c"
  using appendEvent_alike appendDecision_alike checkpoint_alike
  by (cases a) (simp_all add: stepsAlike_def del: journalStep.simps(3))

lemma journalRun_alike:
  assumes "entriesRight dp es" and "checkpointRight fmt sha (int (length es)) c" and "list_all properOp ops"
  shows "\<exists>es' c'. (\<forall>onDisk. journalRun dp fmt sha ops (journalOf onDisk es c) = journalOf onDisk es' c') \<and>
     entriesRight dp es' \<and> checkpointRight fmt sha (int (length es')) c'"
  using assms
proof (induction ops arbitrary: es c)
  case (Cons a ops)
  then have "properOp a" by simp
  from journalStep_alike [OF Cons.prems(1,2) this] obtain x es1 c1 where
    one: "\<And>onDisk. journalStep dp fmt sha a (journalOf onDisk es c) = (x, journalOf onDisk es1 c1)"
      "entriesRight dp es1" "checkpointRight fmt sha (int (length es1)) c1" unfolding stepsAlike_def by blast
  from Cons.IH [OF one(2,3)] Cons.prems(3) show ?case by (simp add: journalRun_def one(1))
qed (auto simp: journalRun_def)

lemma journalOf_new: "newInMemoryJournal = journalOf False [] None" "loadJournal dp fmt sha [] None = Inr (journalOf True [] None)"
  by (simp_all add: newInMemoryJournal_def journalOf_def loadJournal_def)

text \<open>What both journals have come to after the same operations.\<close>

lemma journals_reached:
  assumes "loadJournal dp fmt sha [] None = Inr start" and "list_all properOp ops"
  obtains es c where "journalRun dp fmt sha ops newInMemoryJournal = journalOf False es c" "journalRun dp fmt sha ops start = journalOf True es c"
    "entriesRight dp es" "checkpointRight fmt sha (int (length es)) c"
proof -
  have "checkpointRight fmt sha (int (length [])) None" by (simp add: checkpointRight_def)
  from journalRun_alike [OF entriesRight_Nil this assms(2), of dp] obtain es c where
    run: "\<And>onDisk. journalRun dp fmt sha ops (journalOf onDisk [] None) = journalOf onDisk es c"
      "entriesRight dp es" "checkpointRight fmt sha (int (length es)) c" by blast
  have "start = journalOf True [] None" using journalOf_new(2) [of dp fmt sha] assms(1) by simp
  then show thesis by (intro that [OF _ _ run(2,3)]) (simp_all only: journalOf_new(1) run(1))
qed

section \<open>Reading what was written\<close>

definition selected :: "int \<Rightarrow> string option \<Rightarrow> nat option \<Rightarrow> journal_entry list \<Rightarrow> journal_entry list" where
  "selected cursor tenantId maxEntries es =
     (case maxEntries of None \<Rightarrow> filter (wanted cursor tenantId) es | Some m \<Rightarrow> take m (filter (wanted cursor tenantId) es))"

lemma readLines_written:
  assumes "\<And>e. e \<in> set es \<Longrightarrow> goodEntry dp e \<and> namedEntry e" and "\<And>m. maxEntries = Some m \<Longrightarrow> length acc < m"
  shows "readLines dp cursor tenantId maxEntries acc (map entryLine es) =
     Inr (acc @ map copyEntry (selected cursor tenantId (map_option (\<lambda>m. m - length acc) maxEntries) es))"
  using assms
proof (induction es arbitrary: acc)
  case Nil
  then show ?case by (simp add: selected_def split: option.splits)
next
  case (Cons e es)
  have good: "goodEntry dp e" "namedEntry e" using Cons.prems(1) by simp_all
  have line: "readLines dp cursor tenantId maxEntries acc (map entryLine (e # es)) =
     (if \<not> wanted cursor tenantId e then readLines dp cursor tenantId maxEntries acc (map entryLine es)
      else if (case maxEntries of None \<Rightarrow> False | Some m \<Rightarrow> length acc + 1 \<ge> m) then Inr (acc @ [copyEntry e])
      else readLines dp cursor tenantId maxEntries (acc @ [copyEntry e]) (map entryLine es))"
    by (cases maxEntries) (simp_all add: entryLine_def read_back [OF good] copyEntry_same)
  show ?case
  proof (cases "wanted cursor tenantId e")
    case False
    with Cons.IH [OF Cons.prems(1) Cons.prems(2)] show ?thesis unfolding line by (simp add: selected_def split: option.splits)
  next
    case True
    show ?thesis
    proof (cases maxEntries)
      case None
      with True Cons.IH [of "acc @ [copyEntry e]"] Cons.prems show ?thesis unfolding line by (simp add: selected_def)
    next
      case (Some m)
      have room: "length acc < m" using Cons.prems(2) Some by simp
      show ?thesis
      proof (cases "length acc + 1 \<ge> m")
        case False
        then have rest: "m - length acc = Suc (m - Suc (length acc))" by simp
        from True False Some Cons.IH [of "acc @ [copyEntry e]"] Cons.prems show ?thesis unfolding line by (simp add: selected_def rest)
      next
        case full: True
        then have rest: "m - length acc = 1" using room by simp
        from True Some full show ?thesis unfolding line by (simp add: selected_def rest)
      qed
    qed
  qed
qed

lemma readEntries_alike:
  assumes es: "entriesRight dp es" and m: "\<And>m. maxEntries = Some m \<Longrightarrow> 0 < m"
  shows "\<exists>found. readEntries dp cursor tenantId maxEntries (journalOf onDisk es c) = Inr found \<and> length found = length (selected cursor tenantId maxEntries es) \<and>
     map jn_cursor found = map jn_cursor (selected cursor tenantId maxEntries es) \<and>
     map (\<lambda>e. copyValue (entryValue e)) found = map (\<lambda>e. copyValue (entryValue e)) (selected cursor tenantId maxEntries es)"
proof (cases onDisk)
  case False
  then show ?thesis by (simp add: readEntries_def journalOf_def selected_def Let_def split: option.splits)
next
  case True
  have good: "\<And>e. e \<in> set es \<Longrightarrow> goodEntry dp e \<and> namedEntry e" using es by (simp add: entriesRight_def)
  have kept: "set (selected cursor tenantId maxEntries es) \<subseteq> set es"
    by (auto simp: selected_def split: option.splits dest: in_set_takeD)
  have run: "readEntries dp cursor tenantId maxEntries (journalOf onDisk es c) = Inr (map copyEntry (selected cursor tenantId maxEntries es))"
    using readLines_written [OF good, where es = es and maxEntries = maxEntries and acc = "[]" and cursor = cursor and tenantId = tenantId] m True
    by (simp add: readEntries_def journalOf_def option.map_ident)
  moreover have "copyValue (entryValue (copyEntry e)) = copyValue (entryValue e)" if "e \<in> set (selected cursor tenantId maxEntries es)" for e
    using entry_copied(4) good kept that by blast
  ultimately show ?thesis by (simp add: copyEntry_same)
qed

lemma limit_pos: "readOptions tenantId (Some l) = Inr u \<Longrightarrow> 0 < limitOf l \<and> int (limitOf l) = int_of l \<and> int_of l \<le> MAX_SAFE_INTEGER"
  using isSafeInteger_Integral [of l] by (cases l) (auto simp: readOptions_def andThen_Inr_iff limitOf_def MAX_SAFE_INTEGER_def)

lemma readFrom_written:
  assumes es: "entriesRight dp es" and "validTime cursor" and "readOptions tenantId limit = Inr ()"
  shows "readFrom dp cursor tenantId limit (journalOf onDisk es c) =
    Inr (map (\<lambda>e. copyValue (entryValue e)) (selected (int_of cursor) tenantId (map_option limitOf limit) es))"
proof -
  have "0 < m" if "map_option limitOf limit = Some m" for m using that assms(3) limit_pos [of tenantId] by (cases limit) auto
  from readEntries_alike [OF es this, where cursor = "int_of cursor" and tenantId = tenantId and onDisk = onDisk and c = c] assms(2,3) show ?thesis
    by (auto simp: readFrom_def andThen_Inr_iff)
qed

lemma readFrom_alike: "entriesRight dp es \<Longrightarrow>
    readFrom dp cursor tenantId limit (journalOf True es c) = readFrom dp cursor tenantId limit (journalOf False es c)"
proof (cases "validTime cursor \<and> readOptions tenantId limit = Inr ()")
  case True
  assume "entriesRight dp es"
  from readFrom_written [OF this] True show ?thesis by simp
next
  case False
  then show ?thesis by (cases "readOptions tenantId limit") (auto simp: readFrom_def guard_def)
qed

definition pageOf :: "int \<Rightarrow> string option \<Rightarrow> nat \<Rightarrow> journal_entry list \<Rightarrow> journal_page" where
  "pageOf cursor tenantId l es =
     (let found = filter (wanted cursor tenantId) es; es' = take l found in
      \<lparr>jp_entries = map (\<lambda>e. copyValue (entryValue e)) es', jp_nextCursor = (if es' = [] then cursor else jn_cursor (last es')), jp_hasMore = length found > l\<rparr>)"

lemma entries_bounded: "entriesRight dp es \<Longrightarrow> int (length es) \<le> MAX_SAFE_INTEGER"
proof (cases es rule: rev_cases)
  case (snoc fs e)
  assume "entriesRight dp es"
  then have "goodEntry dp e" "jn_cursor e = int (length fs) + 1" using snoc by (auto simp: entriesRight_def numbered_def)
  then show ?thesis using snoc by (simp add: goodEntry_def)
qed (simp add: MAX_SAFE_INTEGER_def)

lemma readPage_written:
  assumes es: "entriesRight dp es" and "validTime cursor" and options: "readOptions tenantId (Some l) = Inr ()"
  shows "readPage dp cursor tenantId (Some l) (journalOf onDisk es c) = Inr (pageOf (int_of cursor) tenantId (limitOf l) es)"
proof -
  define scan where "scan = (if int_of l = MAX_SAFE_INTEGER then limitOf l else limitOf l + 1)"
  define found where "found = filter (wanted (int_of cursor) tenantId) es"
  have scan: "0 < scan" using limit_pos [OF options] by (simp add: scan_def)
  obtain some where read: "readEntries dp (int_of cursor) tenantId (Some scan) (journalOf onDisk es c) = Inr some"
    and same: "length some = length (take scan found)" "map jn_cursor some = map jn_cursor (take scan found)"
      "map (\<lambda>e. copyValue (entryValue e)) some = map (\<lambda>e. copyValue (entryValue e)) (take scan found)"
    using readEntries_alike [OF es, where maxEntries = "Some scan" and cursor = "int_of cursor" and tenantId = tenantId and onDisk = onDisk and c = c] scan by (auto simp: selected_def found_def)
  have "length found \<le> length es" by (simp add: found_def)
  then have all: "scan = limitOf l + 1 \<or> length found \<le> limitOf l"
    using entries_bounded [OF es] limit_pos [OF options] by (auto simp: scan_def)
  then have more: "length some > limitOf l \<longleftrightarrow> length found > limitOf l" using same(1) by (auto simp: scan_def)
  define page where "page = (if length some > limitOf l then take (limitOf l) some else some)"
  have cut: "map f page = map f (take (limitOf l) found)" if "map f some = map f (take scan found)" for f :: "journal_entry \<Rightarrow> 'x"
  proof -
    have "page = take (limitOf l) some" by (simp add: page_def)
    moreover have "take (limitOf l) (take scan found) = take (limitOf l) found" using scan_def by (simp add: min_def)
    ultimately show ?thesis using that by (metis take_map)
  qed
  have "length page = length (take (limitOf l) found)" using cut [OF same(2)] by (metis length_map)
  then have empty: "page = [] \<longleftrightarrow> take (limitOf l) found = []" by (metis length_0_conv)
  moreover have "jn_cursor (last page) = jn_cursor (last (take (limitOf l) found))" if "page \<noteq> []"
    using cut [OF same(2)] that empty by (metis last_map)
  moreover have "readPage dp cursor tenantId (Some l) (journalOf onDisk es c) =
      Inr \<lparr>jp_entries = map (\<lambda>e. copyValue (entryValue e)) page,
        jp_nextCursor = (if page = [] then int_of cursor else jn_cursor (last page)), jp_hasMore = length some > limitOf l\<rparr>"
    unfolding readPage_def option.case scan_def [symmetric] Let_def by (simp add: assms(2) options read page_def)
  ultimately show ?thesis using more cut [OF same(3)] by (simp add: pageOf_def Let_def found_def [symmetric])
qed

lemma readPage_alike: "entriesRight dp es \<Longrightarrow>
    readPage dp cursor tenantId limit (journalOf True es c) = readPage dp cursor tenantId limit (journalOf False es c)"
proof (cases "validTime cursor \<and> readOptions tenantId limit = Inr () \<and> limit \<noteq> None")
  case True
  assume "entriesRight dp es"
  from readPage_written [OF this] True show ?thesis by auto
next
  case False
  then show ?thesis by (cases limit; cases "readOptions tenantId limit") (auto simp: readPage_def guard_def)
qed

text \<open>
  C25: The file journal and the in-memory journal cannot be told apart: after the same appends and
  checkpoints, returning or throwing, with writes that succeed, any further operation returns or throws
  the same, and so does every read and page.
\<close>

theorem journals_agree:
  assumes "loadJournal dp fmt sha [] None = Inr start" and "list_all properOp ops" and "properOp a"
    and "m = journalRun dp fmt sha ops newInMemoryJournal" and "d = journalRun dp fmt sha ops start"
  shows "fst (journalStep dp fmt sha a d) = fst (journalStep dp fmt sha a m) \<and>
    readFrom dp cursor tenantId limit d = readFrom dp cursor tenantId limit m \<and>
    readPage dp cursor tenantId limit d = readPage dp cursor tenantId limit m \<and>
    latestCursor d = latestCursor m \<and> latestCheckpoint d = latestCheckpoint m"
proof -
  obtain es c where R: "m = journalOf False es c" "d = journalOf True es c" "entriesRight dp es" "checkpointRight fmt sha (int (length es)) c"
    using journals_reached [OF assms(1,2)] unfolding assms(4,5) by metis
  obtain x where x: "\<And>onDisk. fst (journalStep dp fmt sha a (journalOf onDisk es c)) = x"
    using journalStep_alike [OF R(3,4) assms(3)] unfolding stepsAlike_def by (metis fst_conv)
  have "latestCursor (journalOf True es c) = latestCursor (journalOf False es c)"
    "latestCheckpoint (journalOf True es c) = latestCheckpoint (journalOf False es c)"
    by (simp_all add: latestCursor_def latestCheckpoint_def journalOf_def)
  then show ?thesis unfolding R(1,2) using x readFrom_alike [OF R(3)] readPage_alike [OF R(3)] by simp
qed

lemma filter_after_take:
  fixes f :: "'x \<Rightarrow> int"
  assumes "sorted_wrt (<) (map f xs)" and "take k xs \<noteq> []"
  shows "filter (\<lambda>x. f (last (take k xs)) < f x) xs = drop k xs"
proof -
  obtain ys y where ys: "take k xs = ys @ [y]" using assms(2) by (metis append_butlast_last_id)
  have split: "xs = (ys @ [y]) @ drop k xs" using ys by (metis append_take_drop_id)
  with assms(1) have order: "sorted_wrt (<) (map f (ys @ [y]) @ map f (drop k xs))" by (metis map_append)
  have "filter (\<lambda>x. f y < f x) (ys @ [y]) = []" using order by (fastforce simp: sorted_wrt_append filter_empty_conv)
  moreover have "filter (\<lambda>x. f y < f x) (drop k xs) = drop k xs" using order by (auto simp: sorted_wrt_append intro: filter_True)
  ultimately have "filter (\<lambda>x. f y < f x) ((ys @ [y]) @ drop k xs) = drop k xs" by (simp only: filter_append append_Nil)
  with split have "filter (\<lambda>x. f y < f x) xs = drop k xs" by metis
  then show ?thesis by (simp add: ys)
qed

text \<open>
  C26: The pages of a journal are its history cut in pieces: the entries of a page, at most the limit,
  followed by what is read from the cursor it returns, are what is read from the cursor it was asked
  for, and it says that there is more exactly when there is.
\<close>

theorem pages_partition_history:
  assumes "list_all properOp ops" and "m = journalRun dp fmt sha ops newInMemoryJournal"
    and "readPage dp (Integral cursor) tenantId (Some l) m = Inr page"
  shows "\<exists>rest. readFrom dp (Integral (jp_nextCursor page)) tenantId None m = Inr rest \<and>
    readFrom dp (Integral cursor) tenantId None m = Inr (jp_entries page @ rest) \<and>
    int (length (jp_entries page)) \<le> int_of l \<and> (jp_hasMore page \<longleftrightarrow> rest \<noteq> [])"
proof -
  have load: "loadJournal dp fmt sha [] None = Inr (journalOf True [] None)" by (rule journalOf_new(2))
  obtain es c where R: "m = journalOf False es c" "entriesRight dp es"
    using journals_reached [OF load assms(1)] unfolding assms(2) by metis
  have ok: "validTime (Integral cursor)" "readOptions tenantId (Some l) = Inr ()" "readOptions tenantId None = Inr ()"
    using assms(3) by (auto simp: readPage_def andThen_Inr_iff readOptions_def)
  have page: "page = pageOf cursor tenantId (limitOf l) es"
    using readPage_written [OF R(2) ok(1,2)] assms(3) unfolding R(1) by simp
  define found where "found = filter (wanted cursor tenantId) es"
  define k where "k = limitOf l"
  have l: "0 < k" "int k = int_of l" using limit_pos [OF ok(2)] by (simp_all add: k_def)
  have sorted: "sorted_wrt (<) (map jn_cursor es)"
    using R(2) by (simp add: entriesRight_def numbered_def sorted_wrt_map sorted_wrt_iff_nth_less)
  have fields: "jp_entries page = map (\<lambda>e. copyValue (entryValue e)) (take k found)" "jp_hasMore page \<longleftrightarrow> length found > k"
    "jp_nextCursor page = (if take k found = [] then cursor else jn_cursor (last (take k found)))"
    by (simp_all add: page pageOf_def Let_def found_def k_def)
  have rest: "filter (wanted (jp_nextCursor page) tenantId) es = drop k found" and time: "validTime (Integral (jp_nextCursor page))"
  proof -
    show "filter (wanted (jp_nextCursor page) tenantId) es = drop k found"
    proof (cases "take k found = []")
      case True
      then show ?thesis using l fields(3) by (simp add: found_def)
    next
      case False
      then have "last (take k found) \<in> set found" by (metis in_set_takeD last_in_set)
      then have "cursor < jp_nextCursor page" using False fields(3) by (simp add: found_def wanted_def)
      then have "filter (wanted (jp_nextCursor page) tenantId) es = filter (\<lambda>e. jp_nextCursor page < jn_cursor e) found"
        by (auto simp: found_def wanted_def intro: filter_cong)
      also have "sorted_wrt (<) (map jn_cursor found)"
        using sorted unfolding found_def sorted_wrt_map by (rule sorted_wrt_filter)
      then have "filter (\<lambda>e. jp_nextCursor page < jn_cursor e) found = drop k found"
        using filter_after_take [of jn_cursor found k] False fields(3) by simp
      finally show ?thesis .
    qed
    show "validTime (Integral (jp_nextCursor page))"
    proof (cases "take k found = []")
      case False
      then have "last (take k found) \<in> set found" by (metis in_set_takeD last_in_set)
      then have "goodEntry dp (last (take k found))" using R(2) by (simp add: found_def entriesRight_def)
      then show ?thesis using False fields(3) by (simp add: goodEntry_def)
    qed (use ok(1) fields(3) in simp)
  qed
  have "readFrom dp (Integral (jp_nextCursor page)) tenantId None m = Inr (map (\<lambda>e. copyValue (entryValue e)) (drop k found))"
    using readFrom_written [OF R(2) time ok(3)] rest unfolding R(1) by (simp add: selected_def)
  moreover have "readFrom dp (Integral cursor) tenantId None m = Inr (map (\<lambda>e. copyValue (entryValue e)) found)"
    using readFrom_written [OF R(2) ok(1,3)] unfolding R(1) by (simp add: selected_def found_def)
  moreover have "map f found = map f (take k found) @ map f (drop k found)" for f :: "journal_entry \<Rightarrow> jsvalue"
    by (metis append_take_drop_id map_append)
  moreover have "jp_hasMore page \<longleftrightarrow> drop k found \<noteq> []" using fields(2) by (simp add: not_le)
  moreover have "int (length (jp_entries page)) \<le> int_of l" using fields(1) l(2) by simp
  ultimately show ?thesis using fields(1) by simp
qed

section \<open>Recovery\<close>



section \<open>A journal at work\<close>

definition journalDates :: "string \<Rightarrow> int option" where
  "journalDates t = Some 0"

definition journalDecision :: "string \<Rightarrow> jsvalue" where
  "journalDecision m = JObj True [(''memoryId'', JStr m), (''decision'', JStr ''USE''), (''reason'', JUndefined)]"

definition journalOps :: "journal_op list" where
  "journalOps = [AppendDecision ''t'' (journalDecision ''a'') ''now'', AppendDecision ''u'' (journalDecision ''b'') ''now'',
     AppendDecision ''t'' (journalDecision ''c'') ''now'', AppendDecision '' t'' (journalDecision ''d'') ''now'']"

definition journalFile :: journal where
  "journalFile = projr (loadJournal journalDates (\<lambda>q. []) id [] None)"

lemma journalFile_new: "loadJournal journalDates (\<lambda>q. []) id [] None = Inr journalFile"
  by (simp add: journalFile_def journalOf_new(2))

lemma journalOps_proper: "list_all properOp journalOps" "properOp (TakeCheckpoint JNull)"
  by (simp_all add: journalOps_def journalDecision_def)

theorem journals_agree_witness:
  "readFrom journalDates (Integral 1) (Some ''t'') None (journalRun journalDates (\<lambda>q. []) id journalOps journalFile) =
   readFrom journalDates (Integral 1) (Some ''t'') None (journalRun journalDates (\<lambda>q. []) id journalOps newInMemoryJournal)"
  using journals_agree [OF journalFile_new journalOps_proper refl refl] by blast

definition journalPage :: journal_page where
  "journalPage = projr (readPage journalDates (Integral 0) (Some ''t'') (Some (Integral 1))
     (journalRun journalDates (\<lambda>q. []) id journalOps newInMemoryJournal))"

lemma journalPage_read: "readPage journalDates (Integral 0) (Some ''t'') (Some (Integral 1))
    (journalRun journalDates (\<lambda>q. []) id journalOps newInMemoryJournal) = Inr journalPage"
  "jp_hasMore journalPage" "jp_nextCursor journalPage = 1"
  unfolding journalPage_def by code_simp+

theorem pages_partition_history_witness:
  "\<exists>rest. readFrom journalDates (Integral 1) (Some ''t'') None (journalRun journalDates (\<lambda>q. []) id journalOps newInMemoryJournal) = Inr rest \<and>
     rest \<noteq> []"
  using pages_partition_history [OF journalOps_proper(1) refl journalPage_read(1)] journalPage_read(2,3) by auto


text \<open>
  An append whose write fails has already taken its cursor: the next one leaves a gap in the file,
  which no journal loads any more.
\<close>

lemma failed_write_loses_journal:
  "isl (loadJournal journalDates (\<lambda>q. []) id (jl_lines (snd (appendDecision journalDates True ''t'' (journalDecision ''b'') ''now''
     (snd (appendDecision journalDates False ''t'' (journalDecision ''a'') ''now'' journalFile))))) None)"
  by code_simp

end
