(* ===== verification/Checkpoint.thy ===== *)
theory Checkpoint
  imports Journal
begin

text \<open>
  \<open>packages/runtime-core/src/checkpoint.ts\<close> and \<open>InMemoryRuntimeStore.compactOperational\<close> of
  \<open>index.ts\<close>: checkpoints of the operational state that carry the digest of their canonical text, the
  check of the tail of events behind one, and the compaction of a store to a checkpoint and its tail.
  A checkpoint is any value where the source inspects one, and a record where it has its declared type.
\<close>

section \<open>Checked input\<close>

definition assertCapturedAt :: "(string \<Rightarrow> int option) \<Rightarrow> jsvalue \<Rightarrow> exn + unit" where
  "assertCapturedAt dp v = guard (case v of JStr s \<Rightarrow> dp s \<noteq> None | _ \<Rightarrow> False) (NotTimestamp ''checkpoint.capturedAt'')"

definition assertCounter :: "string \<Rightarrow> jsvalue \<Rightarrow> exn + unit" where
  "assertCounter name v = guard (case safeInteger v of None \<Rightarrow> False | Some n \<Rightarrow> n \<ge> 0) (NotInRange name)"

definition assertJson :: "string \<Rightarrow> jsvalue \<Rightarrow> exn + unit" where
  "assertJson name v = guard (jsonCopy v \<noteq> None) NotSerializable"

definition isObject :: "jsvalue \<Rightarrow> bool" where
  "isObject v = (case v of JObj plain ps \<Rightarrow> True | JArr vs \<Rightarrow> True | _ \<Rightarrow> False)"

definition checkedInput :: "(string \<Rightarrow> int option) \<Rightarrow> jsvalue \<Rightarrow> exn + jsvalue" where
  "checkedInput dp v =
     andThen (guard (isObject v) (NotText ''checkpoint'')) (\<lambda>_.
     andThen (guard (property v ''format'' = JStr ''premise-runtime-checkpoint'' \<and> property v ''version'' = JNum (Finite 1))
       (Failure ''unsupported PREMiSE runtime checkpoint'')) (\<lambda>_.
     andThen (assertCapturedAt dp (property v ''capturedAt'')) (\<lambda>_.
     andThen (guard (case property v ''activeRecords'' of JArr vs \<Rightarrow> True | _ \<Rightarrow> False) (NotText ''checkpoint.activeRecords'')) (\<lambda>_.
     andThen (assertCounter ''checkpoint.eventCursor'' (property v ''eventCursor'')) (\<lambda>_.
     andThen (assertCounter ''checkpoint.receiptEpoch'' (property v ''receiptEpoch'')) (\<lambda>_.
     andThen (assertJson ''checkpoint.activeRecords'' (property v ''activeRecords'')) (\<lambda>_.
     andThen (assertJson ''checkpoint.frontierState'' (property v ''frontierState'')) (\<lambda>_.
     andThen (assertJson ''checkpoint.incarnations'' (property v ''incarnations'')) (\<lambda>_.
     andThen (assertJson ''checkpoint.idempotencyState'' (property v ''idempotencyState'')) (\<lambda>_.
     andThen (assertJson ''checkpoint.sourceVersions'' (property v ''sourceVersions'')) (\<lambda>_.
     andThen (assertJson ''checkpoint.dependencyState'' (property v ''dependencyState'')) (\<lambda>_.
       cloneJson v))))))))))))"

definition digestInput :: "(rat \<Rightarrow> string) \<Rightarrow> (string \<Rightarrow> string) \<Rightarrow> jsvalue \<Rightarrow> exn + string" where
  "digestInput fmt sha v = andThen (canonicalJson fmt v) (\<lambda>t. Inr (''sha256:'' @ sha t))"

definition runtimeCheckpointDigest :: "(string \<Rightarrow> int option) \<Rightarrow> (rat \<Rightarrow> string) \<Rightarrow> (string \<Rightarrow> string) \<Rightarrow> jsvalue \<Rightarrow> exn + string" where
  "runtimeCheckpointDigest dp fmt sha input = andThen (checkedInput dp input) (digestInput fmt sha)"

text \<open>\<open>{ ...object, digest }\<close> and \<open>const { digest, ...rest } = object\<close>.\<close>

fun withDigest :: "string \<Rightarrow> jsvalue \<Rightarrow> jsvalue" where
  "withDigest digest (JObj plain ps) = JObj True (omap_set ''digest'' (JStr digest) ps)"
| "withDigest digest v = JObj True [(''digest'', JStr digest)]"

fun withoutDigest :: "jsvalue \<Rightarrow> jsvalue" where
  "withoutDigest (JObj plain ps) = JObj True (filter (\<lambda>p. fst p \<noteq> ''digest'') ps)"
| "withoutDigest v = JObj True []"

definition createRuntimeCheckpoint :: "(string \<Rightarrow> int option) \<Rightarrow> (rat \<Rightarrow> string) \<Rightarrow> (string \<Rightarrow> string) \<Rightarrow> jsvalue \<Rightarrow> exn + jsvalue" where
  "createRuntimeCheckpoint dp fmt sha input =
     andThen (checkedInput dp input) (\<lambda>checked.
     andThen (digestInput fmt sha checked) (\<lambda>digest. Inr (withDigest digest checked)))"

definition parseRuntimeCheckpoint :: "(string \<Rightarrow> int option) \<Rightarrow> (rat \<Rightarrow> string) \<Rightarrow> (string \<Rightarrow> string) \<Rightarrow> jsvalue \<Rightarrow> exn + jsvalue" where
  "parseRuntimeCheckpoint dp fmt sha v =
     andThen (guard (isObject v) (NotText ''checkpoint'')) (\<lambda>_.
     andThen (guard (sha256Text (property v ''digest'')) (NotText ''checkpoint.digest'')) (\<lambda>_.
     andThen (checkedInput dp (withoutDigest v)) (\<lambda>checked.
     andThen (digestInput fmt sha checked) (\<lambda>digest.
     andThen (guard (JStr digest = property v ''digest'') (Failure ''checkpoint digest mismatch'')) (\<lambda>_.
       Inr (withDigest (textOf (property v ''digest'')) checked))))))"

section \<open>The tail\<close>

record checkpoint_tail_entry =
  ct_cursor :: jsnum
  ct_event :: "v2_event option"

datatype checkpoint_fault = FaultCheckpoint | FaultTailGap | FaultTailReordered | FaultTailCursor
datatype checkpoint_recovery = RecoveryReady jsvalue int | RecoveryInvalid checkpoint_fault

fun verifyTail :: "int \<Rightarrow> checkpoint_tail_entry list \<Rightarrow> checkpoint_fault + int" where
  "verifyTail expected [] = Inr (expected - 1)"
| "verifyTail expected (e # es) =
     (if \<not> validTime (ct_cursor e) then Inl FaultTailCursor
      else if int_of (ct_cursor e) < expected then Inl FaultTailReordered
      else if int_of (ct_cursor e) > expected then Inl FaultTailGap
      else verifyTail (expected + 1) es)"

definition verifyRuntimeCheckpointRecovery :: "(string \<Rightarrow> int option) \<Rightarrow> (rat \<Rightarrow> string) \<Rightarrow> (string \<Rightarrow> string) \<Rightarrow> jsvalue
    \<Rightarrow> checkpoint_tail_entry list \<Rightarrow> checkpoint_recovery" where
  "verifyRuntimeCheckpointRecovery dp fmt sha checkpoint tail =
     (case parseRuntimeCheckpoint dp fmt sha checkpoint of
        Inl e \<Rightarrow> RecoveryInvalid FaultCheckpoint
      | Inr checked \<Rightarrow>
         (case verifyTail (the (safeInteger (property checked ''eventCursor'')) + 1) tail of
            Inl fault \<Rightarrow> RecoveryInvalid fault
          | Inr final \<Rightarrow> RecoveryReady checked final))"


section \<open>Compaction\<close>







section \<open>Digests\<close>

lemma isObject_copy: "isObject v \<Longrightarrow> jsonCopy v = Some w \<Longrightarrow> isObject w"
  by (cases v) (auto simp: isObject_def)

lemma checkedInput_object:
  assumes "checkedInput dp v = Inr c"
  shows "\<exists>plain ps. v = JObj plain ps" and "jsonCopy v = Some c"
  using assms by (cases v; auto simp: checkedInput_def andThen_Inr_iff isObject_def property_def cloneJson_def split: option.splits)+

lemma copied_field:
  assumes "jsonCopy (JObj plain ps) = Some c" and "jsonCopy (property (JObj plain ps) k) \<noteq> None"
  shows "property c k = copyValue (property (JObj plain ps) k)"
proof -
  let ?c = "\<lambda>(k, v). case jsonCopy v of None \<Rightarrow> [] | Some w \<Rightarrow> [(k, w)]"
  obtain w where w: "map_of ps k = Some w" "jsonCopy w \<noteq> None"
    using assms(2) by (cases "map_of ps k") (auto simp: property_def)
  have "map_of (concat (map ?c ps)) k = jsonCopy w"
    using w
  proof (induction ps)
    case (Cons p ps)
    then show ?case by (cases p; cases "fst p = k"; cases "jsonCopy (snd p)") auto
  qed simp
  then show ?thesis using assms(1) w by (auto simp: property_def copyValue_def)
qed

text \<open>A checked input is its own checked input: what was copied is copied as it is.\<close>

lemma checkedInput_idem:
  assumes run: "checkedInput dp v = Inr c"
  shows "checkedInput dp c = Inr c"
proof -
  obtain plain ps where v: "v = JObj plain ps" using checkedInput_object(1) [OF run] by blast
  have copy: "jsonCopy v = Some c" by (rule checkedInput_object(2) [OF run])
  then obtain qs where c: "c = JObj True qs" using v by auto
  have copied: "copyValue v = c" using copy by (simp add: copyValue_def)
  have field: "property c k = copyValue (property v k)" if "jsonCopy (property v k) \<noteq> None" for k
    using copied_field copy that v by blast
  have json: "jsonCopy (copyValue w) = Some (copyValue w)" if "jsonCopy w \<noteq> None" for w
    using that by (auto simp: copyValue_def dest: jsonCopy_idem)
  have number: "safeInteger (copyValue w) = Some n" if "safeInteger w = Some n" for w n
    using that by (cases w) (auto simp: safeInteger_def copyValue_def MAX_SAFE_INTEGER_def split: js_number.splits)
  have arr: "\<exists>us. copyValue w = JArr us" if "w = JArr vs" for w vs using that by (simp add: copyValue_def)
  have one: "copyValue (JNum (Finite 1)) = JNum (Finite 1)" by (simp add: copyValue_def)
  have R: "property v ''format'' = JStr ''premise-runtime-checkpoint''" "property v ''version'' = JNum (Finite 1)"
    "assertCapturedAt dp (property v ''capturedAt'') = Inr ()" "\<exists>vs. property v ''activeRecords'' = JArr vs"
    "assertCounter ''checkpoint.eventCursor'' (property v ''eventCursor'') = Inr ()"
    "assertCounter ''checkpoint.receiptEpoch'' (property v ''receiptEpoch'') = Inr ()"
    "\<And>k. k \<in> {''activeRecords'', ''frontierState'', ''incarnations'', ''idempotencyState'', ''sourceVersions'', ''dependencyState''} \<Longrightarrow>
       jsonCopy (property v k) \<noteq> None"
    using run unfolding checkedInput_def assertJson_def andThen_Inr_iff by (auto split: jsvalue.splits)
  have captured: "assertCapturedAt dp (property c ''capturedAt'') = Inr ()"
    using R(3) field [of "''capturedAt''"] by (cases "property v ''capturedAt''") (simp_all add: assertCapturedAt_def)
  have counter: "assertCounter name (copyValue w) = Inr ()" if "assertCounter name w = Inr ()" for name w
    using that by (cases "safeInteger w") (auto simp: assertCounter_def dest: number)
  have numeric: "jsonCopy w \<noteq> None" if "assertCounter name w = Inr ()" for name w
    using that by (cases w) (auto simp: assertCounter_def safeInteger_def)
  have "\<exists>vs. property c ''activeRecords'' = JArr vs" using R(4) arr field [OF R(7), of "''activeRecords''"] by auto
  then obtain vs where records: "property c ''activeRecords'' = JArr vs" by blast
  have texts: "property c ''format'' = JStr ''premise-runtime-checkpoint''" "property c ''version'' = JNum (Finite 1)"
    using R(1,2) one field [of "''format''"] field [of "''version''"] by simp_all
  have jsons: "assertJson name (property c k) = Inr ()"
    if "k \<in> {''activeRecords'', ''frontierState'', ''incarnations'', ''idempotencyState'', ''sourceVersions'', ''dependencyState''}" for name k
    using json [OF R(7) [OF that]] field [OF R(7) [OF that]] by (simp add: assertJson_def)
  have counters: "assertCounter ''checkpoint.eventCursor'' (property c ''eventCursor'') = Inr ()"
    "assertCounter ''checkpoint.receiptEpoch'' (property c ''receiptEpoch'') = Inr ()"
    using counter [OF R(5)] counter [OF R(6)] field [OF numeric [OF R(5)]] field [OF numeric [OF R(6)]] by simp_all
  have "isObject c" by (simp add: c isObject_def)
  then have "checkedInput dp c = cloneJson c"
    unfolding checkedInput_def texts captured counters
    by (simp add: jsons) (simp add: records)
  also have "\<dots> = Inr c" using copy by (simp add: cloneJson_def jsonCopy_idem)
  finally show ?thesis .
qed

lemma withoutDigest_with: "\<not> hasOwn c ''digest'' \<Longrightarrow> c = JObj True ps \<Longrightarrow>
    withoutDigest (withDigest d c) = c \<and> property (withDigest d c) ''digest'' = JStr d \<and> isObject (withDigest d c)"
proof -
  assume "\<not> hasOwn c ''digest''" and c: "c = JObj True ps"
  then have absent: "map_of ps ''digest'' = None" by (simp add: hasOwn_def ownKeys_def map_of_eq_None_iff)
  have other: "\<forall>p \<in> set ps. fst p \<noteq> ''digest''" using absent by (simp add: map_of_eq_None_iff image_iff) metis
  from other have "filter (\<lambda>p. fst p \<noteq> ''digest'') ps = ps" by (simp add: filter_id_conv)
  moreover have "property (withDigest d c) ''digest'' = JStr d" by (simp add: c property_def)
  ultimately show ?thesis using c absent by (simp add: set_omap_set_absent isObject_def)
qed

text \<open>
  What \<open>createRuntimeCheckpoint\<close> returns is accepted as it is by \<open>parseRuntimeCheckpoint\<close>.
\<close>

theorem checkpoint_round_trip:
  assumes "createRuntimeCheckpoint dp fmt sha input = Inr c" and "\<not> hasOwn input ''digest''"
    and "\<forall>t. sha256Text (JStr (''sha256:'' @ sha t))"
  shows "parseRuntimeCheckpoint dp fmt sha c = Inr c"
proof -
  obtain checked digest where run: "checkedInput dp input = Inr checked" "digestInput fmt sha checked = Inr digest" "c = withDigest digest checked"
    using assms(1) by (auto simp: createRuntimeCheckpoint_def andThen_Inr_iff)
  obtain plain ps where input: "input = JObj plain ps" using checkedInput_object(1) [OF run(1)] by blast
  then obtain qs where checked: "checked = JObj True qs" using checkedInput_object(2) [OF run(1)] by auto
  have "fst ` set qs \<subseteq> fst ` set ps" using checkedInput_object(2) [OF run(1)] input checked by (force split: option.splits)
  then have none: "\<not> hasOwn checked ''digest''" using assms(2) input checked by (auto simp: hasOwn_def ownKeys_def)
  note parts = withoutDigest_with [OF none checked, of digest]
  have "sha256Text (JStr digest)" using run(2) assms(3) by (auto simp: digestInput_def andThen_Inr_iff)
  with parts checkedInput_idem [OF run(1)] run(2,3) show ?thesis
    by (simp add: parseRuntimeCheckpoint_def textOf_def)
qed

lemma parsed_digest:
  "parseRuntimeCheckpoint dp fmt sha v = Inr p \<Longrightarrow> \<exists>checked t. checkedInput dp (withoutDigest v) = Inr checked \<and>
     canonicalJson fmt checked = Inr t \<and> property v ''digest'' = JStr (''sha256:'' @ sha t) \<and> p = withDigest (''sha256:'' @ sha t) checked"
  by (auto simp: parseRuntimeCheckpoint_def andThen_Inr_iff digestInput_def textOf_def split: jsvalue.splits)

text \<open>
  With a collision-free digest, two accepted checkpoints with the same digest differ in the order of
  properties at most.
\<close>

theorem checkpoint_tamper_evident:
  assumes "inj sha" and "numberText (stringifyNumber fmt) S"
    and "parseRuntimeCheckpoint dp fmt sha v = Inr p" and "parseRuntimeCheckpoint dp fmt sha w = Inr q"
    and "property v ''digest'' = property w ''digest''"
    and "checkedInput dp (withoutDigest v) = Inr a" and "checkedInput dp (withoutDigest w) = Inr b"
    and "jsonValue S a" and "jsonValue S b"
  shows "sortKeys a = sortKeys b"
proof -
  obtain t where t: "canonicalJson fmt a = Inr t" "property v ''digest'' = JStr (''sha256:'' @ sha t)" using parsed_digest [OF assms(3)] assms(6) by auto
  obtain u where u: "canonicalJson fmt b = Inr u" "property w ''digest'' = JStr (''sha256:'' @ sha u)" using parsed_digest [OF assms(4)] assms(7) by auto
  have "t = u" using t(2) u(2) assms(1,5) by (simp add: inj_eq)
  then show ?thesis
    using canonical_inject [of "\<lambda>n. Inr (stringifyNumber fmt n)" "stringifyNumber fmt", OF _ assms(2,8,9)] t(1) u(1)
    by (simp add: canonicalJson_def)
qed


section \<open>Recovery\<close>

lemma verifyTail_iff:
  "0 \<le> n \<Longrightarrow> verifyTail n tail = Inr final \<longleftrightarrow> map ct_cursor tail = map (\<lambda>i. Integral (n + int i)) [0..<length tail] \<and>
     final = n + int (length tail) - 1 \<and> (tail \<noteq> [] \<longrightarrow> final \<le> MAX_SAFE_INTEGER)"
proof (induction tail arbitrary: n)
  case (Cons e tail)
  have shift: "map (\<lambda>i. Integral (n + int i)) [0..<length (e # tail)] = Integral n # map (\<lambda>i. Integral (n + 1 + int i)) [0..<length tail]"
    by (simp add: upt_conv_Cons map_Suc_upt [symmetric] comp_def algebra_simps del: upt_Suc)
  show ?case
  proof (cases "ct_cursor e = Integral n \<and> n \<le> MAX_SAFE_INTEGER")
    case True
    with Cons.prems have "verifyTail n (e # tail) = verifyTail (n + 1) tail" by simp
    with Cons.IH [of "n + 1"] Cons.prems True show ?thesis unfolding shift by (cases "tail = []") auto
  next
    case False
    then have "\<exists>fault. verifyTail n (e # tail) = Inl fault" using Cons.prems by (cases "ct_cursor e") auto
    moreover have "\<not> (n + int (length (e # tail)) - 1 \<le> MAX_SAFE_INTEGER \<and> ct_cursor e = Integral n)" using False by auto
    ultimately show ?thesis unfolding shift by auto
  qed
qed auto

lemma accepted_cursor:
  assumes "parseRuntimeCheckpoint dp fmt sha v = Inr p"
  shows "\<exists>c. safeInteger (property p ''eventCursor'') = Some c \<and> 0 \<le> c \<and> c \<le> MAX_SAFE_INTEGER"
proof -
  obtain checked t where run: "checkedInput dp (withoutDigest v) = Inr checked" "p = withDigest t checked"
    using parsed_digest [OF assms] by blast
  obtain qs where checked: "checked = JObj True qs"
    using checkedInput_object [OF run(1)] by auto
  have "assertCounter ''checkpoint.eventCursor'' (property checked ''eventCursor'') = Inr ()"
    using checkedInput_idem [OF run(1)] by (auto simp: checkedInput_def andThen_Inr_iff)
  then obtain c where c: "safeInteger (property checked ''eventCursor'') = Some c" "0 \<le> c"
    by (auto simp: assertCounter_def split: option.splits)
  have "property p ''eventCursor'' = property checked ''eventCursor''" by (simp add: run(2) checked property_def)
  with c safeInteger_Some [OF c(1)] show ?thesis by auto
qed

text \<open>
  C22: A recovery is READY exactly for an accepted checkpoint and a tail whose cursors follow its own one
  by one, no gap, repetition or change of order, and then it names the last of them.
\<close>

theorem recovery_ready_iff:
  "verifyRuntimeCheckpointRecovery dp fmt sha v tail = RecoveryReady p final \<longleftrightarrow>
     parseRuntimeCheckpoint dp fmt sha v = Inr p \<and> (\<exists>c. safeInteger (property p ''eventCursor'') = Some c \<and>
       map ct_cursor tail = map (\<lambda>i. Integral (c + 1 + int i)) [0..<length tail] \<and> final = c + int (length tail) \<and> final \<le> MAX_SAFE_INTEGER)"
proof (cases "parseRuntimeCheckpoint dp fmt sha v")
  case (Inl e)
  then show ?thesis by (simp add: verifyRuntimeCheckpointRecovery_def)
next
  case (Inr q)
  obtain c where c: "safeInteger (property q ''eventCursor'') = Some c" "0 \<le> c" "c \<le> MAX_SAFE_INTEGER" using accepted_cursor [OF Inr] by blast
  have "verifyRuntimeCheckpointRecovery dp fmt sha v tail = RecoveryReady p final \<longleftrightarrow> p = q \<and> verifyTail (c + 1) tail = Inr final"
    using Inr c(1) by (auto simp: verifyRuntimeCheckpointRecovery_def split: sum.splits)
  also have "\<dots> \<longleftrightarrow> p = q \<and> map ct_cursor tail = map (\<lambda>i. Integral (c + 1 + int i)) [0..<length tail] \<and> final = c + int (length tail) \<and> final \<le> MAX_SAFE_INTEGER"
    using verifyTail_iff [of "c + 1" tail final] c(2,3) by auto
  finally show ?thesis using Inr c(1) by auto
qed

section \<open>Compaction\<close>






section \<open>A compaction at work\<close>










end
