(* ===== verification/Spec2Isabelle.thy ===== *)
theory Spec2Isabelle
  imports Prelude Json_Text Js_Value Js_Sort Single_Flight Validation_Scope Validation_Lease
    Predicate_Dependencies Negative_Premises Premise_Policy Premise_Guard Receipt_Subsumption
    Receipt_Cache Eviction Negative_Cache Protocol_V1 Protocol_V2 Runtime_Store Runtime Runtime_Stream
    Stream_Repair Runtime_Index Runtime_Identity Runtime_Safety Runtime_Frame
    Runtime_World Runtime_Samples Runtime_Checks Runtime_Guarantees Frontier_Graph Frontier_Engine
    Frontier_Reach Frontier_Upkeep Frontier_Propagation Frontier_Operations Frontier_Answers
    Frontier_Guarantees Guarded_Tool Fenced_Flight Journal Checkpoint
begin

text \<open>
  PREMiSE: a runtime that remembers facts together with the evidence they rest on and decides,
  before a fact is used, whether it may be used, must be validated again, or must be rejected.

  The development models \<open>packages/runtime-core\<close> and the message validators of
  \<open>packages/protocol-types\<close>.

  Shared foundations. \<open>Prelude\<close>: texts, safe integers, insertion-ordered maps, sets built from
  arrays, exceptions as left values of a sum. \<open>Json_Text\<close> and \<open>Js_Value\<close>: quoted texts, JavaScript
  values, canonical JSON and its injectivity, JSON copies. \<open>Js_Sort\<close>: \<open>Array.prototype.sort\<close> with
  a comparison. \<open>Single_Flight\<close>: the interface of coalesced work.

  Components, one theory each, named after the source file:
  \<open>Validation_Scope\<close> (\<open>validation-scope.ts\<close>), \<open>Validation_Lease\<close> (\<open>validation-lease.ts\<close>),
  \<open>Predicate_Dependencies\<close> (\<open>predicate-dependencies.ts\<close>), \<open>Negative_Premises\<close>
  (\<open>negative-premises.ts\<close>), \<open>Premise_Policy\<close> (\<open>premise-policy.ts\<close>), \<open>Premise_Guard\<close>
  (\<open>premise-guard.ts\<close>), \<open>Receipt_Subsumption\<close> (\<open>receipt-subsumption.ts\<close>), \<open>Receipt_Cache\<close>
  (\<open>receipt-cache.ts\<close>), \<open>Protocol_V1\<close> and \<open>Protocol_V2\<close> (\<open>protocol-types/src/index.ts\<close>, \<open>v2.ts\<close>),
  \<open>Runtime_Store\<close> and \<open>Runtime\<close> (\<open>index.ts\<close>), \<open>Runtime_Stream\<close> (the streams of \<open>index.ts\<close> and
  \<open>stream-burst.ts\<close>).
\<close>

end
